(* ===== verification/Prelude.thy ===== *)
theory Prelude
  imports Complex_Main "HOL-Library.Word"
begin

text \<open>
  The shared layer of the development: the exceptions the Python code can raise,
  the result type in which every fallible operation of the model returns, its
  sequencing operator, and the list and arithmetic lemmas that several components
  use.  A raise is \<^term>\<open>Inl e\<close>; a normal return is \<^term>\<open>Inr v\<close>.
\<close>

section \<open>Exceptions and results\<close>

datatype py_exc =
    StructError
  | ValueError
  | ZeroDivisionError
  | OverflowError
  | StopIteration
  | ConnectionError
  | OSError
  | KeyError
  | RuntimeError
  | TypeError
  | IndexError
  | AttributeError

type_synonym 'a res = "py_exc + 'a"

definition res_bind :: "'a res \<Rightarrow> ('a \<Rightarrow> 'b res) \<Rightarrow> 'b res" where
  "res_bind m f = (case m of Inl e \<Rightarrow> Inl e | Inr v \<Rightarrow> f v)"

named_theorems py_simps \<open>evaluation rules of the Python run-time operations\<close>
named_theorems wf_intros \<open>well-formedness of the results of the operations\<close>

lemma res_bind_simps [simp, py_simps]:
  "res_bind (Inl e) f = Inl e"
  "res_bind (Inr v) f = f v"
  by (simp_all add: res_bind_def)

lemma res_bind_eq_Inr [simp]:
  "res_bind m f = Inr w \<longleftrightarrow> (\<exists>v. m = Inr v \<and> f v = Inr w)"
  by (cases m) auto

lemma res_bind_eq_Inl:
  "res_bind m f = Inl e \<longleftrightarrow> m = Inl e \<or> (\<exists>v. m = Inr v \<and> f v = Inl e)"
  by (cases m) auto

lemma res_bind_cong [fundef_cong]:
  "m = m' \<Longrightarrow> (\<And>v. m' = Inr v \<Longrightarrow> f v = f' v) \<Longrightarrow> res_bind m f = res_bind m' f'"
  by (cases m') auto

text \<open>A Python list comprehension whose element expression may raise.\<close>

fun map_res :: "('a \<Rightarrow> 'b res) \<Rightarrow> 'a list \<Rightarrow> 'b list res" where
  "map_res f [] = Inr []"
| "map_res f (x # xs) = res_bind (f x) (\<lambda>y. res_bind (map_res f xs) (\<lambda>ys. Inr (y # ys)))"

lemma map_res_cong [fundef_cong]:
  "xs = ys \<Longrightarrow> (\<And>x. x \<in> set ys \<Longrightarrow> f x = g x) \<Longrightarrow> map_res f xs = map_res g ys"
  by (induction ys arbitrary: xs) auto

lemma map_res_Inr_map: "(\<And>x. x \<in> set xs \<Longrightarrow> f x = Inr (g x)) \<Longrightarrow> map_res f xs = Inr (map g xs)"
  by (induction xs) auto

lemma map_res_length: "map_res f xs = Inr ys \<Longrightarrow> length ys = length xs"
  by (induction xs arbitrary: ys) auto

lemma map_res_raises: "x \<in> set xs \<Longrightarrow> f x = Inl e \<Longrightarrow> \<exists>e'. map_res f xs = Inl e'"
proof (induction xs)
  case (Cons a xs)
  show ?case
  proof (cases "f a")
    case (Inr v)
    with Cons.prems have "x \<in> set xs" by auto
    with Cons Inr show ?thesis by auto
  qed auto
qed simp

section \<open>Lists\<close>

lemma sum_list_map_append [simp]:
  "sum_list (map f (xs @ ys)) = sum_list (map f xs) + sum_list (map f ys)"
  for f :: "'a \<Rightarrow> 'b::comm_monoid_add"
  by simp

lemma foldl_snoc [simp]: "foldl f a (xs @ [x]) = f (foldl f a xs) x"
  by simp

text \<open>A byte of the wire: Python's \<^verbatim>\<open>bytes\<close> are lists of values 0 to 255.\<close>

type_synonym byte = "8 word"
type_synonym bytes = "byte list"

end
