(* ===== verification/Float64.thy ===== *)
theory Float64
  imports Prelude "HOL-Library.Log_Nat"
begin

text \<open>
  Python's \<^verbatim>\<open>float\<close>: IEEE 754 binary64 with rounding to nearest, ties to even.  A finite
  value is kept as the rational it denotes (\<open>Fin r\<close>, with \<open>wf_float\<close> saying that \<open>r\<close> is
  a binary64 value); negative zero, the infinities and NaN are separate constructors
  (NaN payloads are not distinguished).  Each arithmetic operation computes the exact
  rational result and rounds it once (\<open>rnd\<close>: 53 significant bits, smallest exponent
  -1074, overflow to an infinity), as the hardware does; the Python-level behaviour is
  added on top: division by zero raises, an int operand is converted first and may
  overflow, and \<^verbatim>\<open>round()\<close> raises on NaN and the infinities.  Everything is executable.
\<close>

section \<open>Rounding a rational to binary64\<close>

definition round_half_even :: "rat \<Rightarrow> int" where
  "round_half_even x =
     (let f = \<lfloor>x\<rfloor>; d = x - of_int f in
      if d < 1 / 2 then f
      else if d > 1 / 2 then f + 1
      else if even f then f else f + 1)"

definition pow2 :: "int \<Rightarrow> rat" where
  "pow2 k = 2 powi k"

definition ilog2 :: "rat \<Rightarrow> int" where
  "ilog2 x =
     (let (a, b) = quotient_of x; k = bitlen a - bitlen b in
      if pow2 k \<le> x then k else k - 1)"

definition ulp_exp :: "rat \<Rightarrow> int" where
  "ulp_exp x = max (ilog2 \<bar>x\<bar> - 52) (- 1074)"

definition rnd :: "rat \<Rightarrow> rat" where
  "rnd x =
     (if x = 0 then 0
      else of_int (round_half_even (x / pow2 (ulp_exp x))) * pow2 (ulp_exp x))"

lemma pow2_pos [simp]: "pow2 k > 0"
  by (simp add: pow2_def)

lemma pow2_nz [simp]: "pow2 k \<noteq> 0"
  using pow2_pos [of k] by linarith

lemma pow2_nonneg [simp]: "0 \<le> pow2 k"
  using pow2_pos [of k] by linarith

lemma pow2_abs [simp]: "\<bar>pow2 k\<bar> = pow2 k"
  by simp

lemma pow2_add: "pow2 (a + b) = pow2 a * pow2 b"
  by (simp add: pow2_def power_int_add)

lemma pow2_diff: "pow2 (a - b) = pow2 a / pow2 b"
  by (simp add: pow2_def power_int_diff)

lemma pow2_of_nat: "pow2 (int n) = 2 ^ n"
  by (simp add: pow2_def)

lemma pow2_nat: "0 \<le> k \<Longrightarrow> pow2 k = of_int (2 ^ nat k)"
  by (simp add: pow2_def power_int_def)

lemma pow2_eval:
  "pow2 0 = 1" "pow2 1 = 2" "pow2 (numeral n) = 2 ^ numeral n" "pow2 (- numeral n) = 1 / 2 ^ numeral n"
  by (simp_all add: pow2_def power_int_def power_one_over)

lemma pow2_mono: "a \<le> b \<Longrightarrow> pow2 a \<le> pow2 b"
  by (simp add: pow2_def power_int_increasing)

lemma pow2_less_iff [simp]: "pow2 a < pow2 b \<longleftrightarrow> a < b"
proof -
  have "a < b \<Longrightarrow> pow2 a < pow2 b" for a b
    by (simp add: pow2_def power_int_strict_increasing)
  then show ?thesis
    using pow2_mono [of b a] by (meson linorder_not_less)
qed

lemma pow2_le_iff [simp]: "pow2 a \<le> pow2 b \<longleftrightarrow> a \<le> b"
  by (meson linorder_not_less pow2_less_iff)

lemma bitlen_pow2_bounds:
  assumes "0 < (n::int)"
  shows "pow2 (bitlen n - 1) \<le> of_int n" and "of_int n < pow2 (bitlen n)"
proof -
  have pos: "0 < bitlen n"
    using assms by (simp add: bitlen_def floorlog_eq_zero_iff zero_less_iff_neq_zero)
  have b: "2 ^ nat (bitlen n - 1) \<le> n" "n < 2 ^ nat (bitlen n)"
    using bitlen_bounds [OF assms] by auto
  have "pow2 (bitlen n - 1) = of_int (2 ^ nat (bitlen n - 1))"
    using pos by (simp add: pow2_nat)
  then show "pow2 (bitlen n - 1) \<le> of_int n"
    using b(1) by (metis of_int_le_iff)
  have "pow2 (bitlen n) = of_int (2 ^ nat (bitlen n))"
    using pos by (simp add: pow2_nat)
  then show "of_int n < pow2 (bitlen n)"
    using b(2) by (metis of_int_less_iff)
qed

lemma ilog2_spec:
  assumes "0 < x"
  shows "pow2 (ilog2 x) \<le> x" and "x < pow2 (ilog2 x + 1)"
proof -
  obtain a b where q: "quotient_of x = (a, b)" by (cases "quotient_of x")
  have b: "0 < b" using q by (rule quotient_of_denom_pos)
  have x: "x = of_int a / of_int b" using q by (rule quotient_of_div)
  have a: "0 < a" using assms b x by (simp add: zero_less_divide_iff)
  define k where "k = bitlen a - bitlen b"
  have "x < pow2 (bitlen a) / pow2 (bitlen b - 1)"
    unfolding x using bitlen_pow2_bounds [OF a] bitlen_pow2_bounds [OF b] b a
    by (intro frac_less) (auto simp: order.strict_implies_order)
  also have "\<dots> = pow2 (k + 1)"
    by (simp add: k_def pow2_diff [symmetric] algebra_simps)
  finally have up: "x < pow2 (k + 1)" .
  have "pow2 (bitlen a - 1) / pow2 (bitlen b) \<le> x"
    unfolding x using bitlen_pow2_bounds [OF a] bitlen_pow2_bounds [OF b] b a
    by (intro frac_le) (auto simp: order.strict_implies_order)
  moreover have "pow2 (bitlen a - 1) / pow2 (bitlen b) = pow2 (k - 1)"
    by (simp add: k_def pow2_diff [symmetric] algebra_simps)
  ultimately have lo: "pow2 (k - 1) \<le> x" by simp
  have "ilog2 x = (if pow2 k \<le> x then k else k - 1)"
    by (simp add: ilog2_def q k_def)
  then show "pow2 (ilog2 x) \<le> x" and "x < pow2 (ilog2 x + 1)"
    using up lo by (auto split: if_splits)
qed

lemma ilog2_eqI:
  assumes "pow2 k \<le> x" and "x < pow2 (k + 1)"
  shows "ilog2 x = k"
proof -
  have x: "0 < x" using assms(1) pow2_pos [of k] by linarith
  have "pow2 k < pow2 (ilog2 x + 1)" "pow2 (ilog2 x) < pow2 (k + 1)"
    using ilog2_spec [OF x] assms by linarith+
  then show ?thesis by simp
qed

lemma ilog2_le_iff: "0 < x \<Longrightarrow> ilog2 x < k \<longleftrightarrow> x < pow2 k"
proof
  assume "0 < x" "ilog2 x < k"
  then have "x < pow2 (ilog2 x + 1)" "pow2 (ilog2 x + 1) \<le> pow2 k"
    using ilog2_spec by auto
  then show "x < pow2 k" by linarith
next
  assume "0 < x" "x < pow2 k"
  then have "pow2 (ilog2 x) < pow2 k"
    using ilog2_spec [of x] by linarith
  then show "ilog2 x < k" by simp
qed

lemma ilog2_mono: "0 < x \<Longrightarrow> x \<le> y \<Longrightarrow> ilog2 x \<le> ilog2 y"
proof -
  assume a: "0 < x" "x \<le> y"
  then have "x < pow2 (ilog2 y + 1)" using ilog2_spec [of y] by linarith
  with a(1) show ?thesis using ilog2_le_iff [of x "ilog2 y + 1"] by simp
qed

subsection \<open>round_half_even\<close>

lemma round_half_even_of_int [simp]: "round_half_even (of_int n) = n"
  by (simp add: round_half_even_def)

lemma round_half_even_error: "\<bar>of_int (round_half_even x) - x\<bar> \<le> 1 / 2"
proof -
  define f where "f = \<lfloor>x\<rfloor>"
  have "of_int f \<le> x" "x < of_int f + 1" unfolding f_def by linarith+
  then show ?thesis
    unfolding round_half_even_def Let_def f_def [symmetric] by (auto simp: abs_if)
qed

lemma round_half_even_tie:
  "\<bar>of_int (round_half_even x) - x\<bar> = 1 / 2 \<Longrightarrow> even (round_half_even x)"
proof -
  define f where "f = \<lfloor>x\<rfloor>"
  have "of_int f \<le> x" "x < of_int f + 1" unfolding f_def by linarith+
  then show "\<bar>of_int (round_half_even x) - x\<bar> = 1 / 2 \<Longrightarrow> even (round_half_even x)"
    unfolding round_half_even_def Let_def f_def [symmetric]
    by (auto simp: abs_if split: if_splits)
qed

lemma round_half_even_minus: "round_half_even (- x) = - round_half_even x"
proof (cases "x = of_int \<lfloor>x\<rfloor>")
  case True
  then have "round_half_even (- of_int \<lfloor>x\<rfloor>) = - \<lfloor>x\<rfloor>"
    using round_half_even_of_int [of "- \<lfloor>x\<rfloor>"] by simp
  with True show ?thesis by (metis round_half_even_of_int)
next
  case False
  define f where "f = \<lfloor>x\<rfloor>"
  have b: "of_int f < x" "x < of_int f + 1"
    using False unfolding f_def by linarith+
  then have "\<lfloor>- x\<rfloor> = - f - 1"
    by (intro floor_unique) auto
  with b show ?thesis
    unfolding round_half_even_def Let_def f_def [symmetric] by auto
qed

lemma round_half_even_mono: "x \<le> y \<Longrightarrow> round_half_even x \<le> round_half_even y"
proof -
  assume le: "x \<le> y"
  show ?thesis
  proof (cases "\<lfloor>x\<rfloor> = \<lfloor>y\<rfloor>")
    case True
    with le show ?thesis by (auto simp: round_half_even_def Let_def)
  next
    case False
    with le have "\<lfloor>x\<rfloor> + 1 \<le> \<lfloor>y\<rfloor>"
      using floor_mono [OF le] by linarith
    moreover have "round_half_even x \<le> \<lfloor>x\<rfloor> + 1" "\<lfloor>y\<rfloor> \<le> round_half_even y"
      by (auto simp: round_half_even_def Let_def)
    ultimately show ?thesis by linarith
  qed
qed

lemma round_half_even_le_int: "x \<le> of_int n \<Longrightarrow> round_half_even x \<le> n"
  using round_half_even_mono [of x "of_int n"] by simp

lemma round_half_even_ge_int: "of_int n \<le> x \<Longrightarrow> n \<le> round_half_even x"
  using round_half_even_mono [of "of_int n" x] by simp

subsection \<open>rnd\<close>

lemma rnd_0 [simp]: "rnd 0 = 0"
  by (simp add: rnd_def)

lemma ulp_exp_minus [simp]: "ulp_exp (- x) = ulp_exp x"
  by (simp add: ulp_exp_def)

lemma rnd_minus [simp]: "rnd (- x) = - rnd x"
  by (simp add: rnd_def round_half_even_minus)

text \<open>Evaluation: the binade of a number determines its rounding.\<close>

lemma rnd_binade:
  assumes "pow2 k \<le> \<bar>x\<bar>" "\<bar>x\<bar> < pow2 (k + 1)" "- 1022 \<le> k"
  shows "rnd x = of_int (round_half_even (x / pow2 (k - 52))) * pow2 (k - 52)"
proof -
  have "x \<noteq> 0" using assms(1) by (metis abs_zero not_le pow2_pos)
  moreover have "ulp_exp x = k - 52"
    using ilog2_eqI [OF assms(1,2)] assms(3) by (simp add: ulp_exp_def)
  ultimately show ?thesis by (simp add: rnd_def)
qed

text \<open>A multiple of the unit in the last place is left alone.\<close>

lemma rnd_multiple:
  assumes "x = of_int m * pow2 (ulp_exp x)"
  shows "rnd x = x"
proof (cases "x = 0")
  case False
  have "x / pow2 (ulp_exp x) = of_int m"
    using assms by (metis nonzero_mult_div_cancel_right pow2_nz)
  with False assms show ?thesis
    by (simp add: rnd_def)
qed simp

lemma ulp_exp_le:
  assumes "x \<noteq> 0" "\<bar>x\<bar> < pow2 (e + 53)" "- 1074 \<le> e"
  shows "ulp_exp x \<le> e"
  using assms ilog2_le_iff [of "\<bar>x\<bar>" "e + 53"] by (simp add: ulp_exp_def)

lemma rnd_exact:
  assumes x: "x = of_int m * pow2 e" and m: "\<bar>m\<bar> \<le> 2 ^ 53" and e: "- 1074 \<le> e"
  shows "rnd x = x"
proof (cases "x = 0")
  case False
  have key: "rnd x = x" if "x = of_int m' * pow2 e'" "\<bar>m'\<bar> < 2 ^ 53" "- 1074 \<le> e'" for m' e'
  proof (rule rnd_multiple)
    have "\<bar>x\<bar> = of_int \<bar>m'\<bar> * pow2 e'" using that by (simp add: abs_mult)
    also have "\<dots> < 2 ^ 53 * pow2 e'"
      using that(2) by (metis mult_strict_right_mono of_int_less_iff of_int_numeral of_int_power pow2_pos)
    also have "\<dots> = pow2 (e' + 53)" by (simp add: pow2_add pow2_of_nat [of 53, simplified])
    finally have "ulp_exp x \<le> e'" using False that(3) by (intro ulp_exp_le)
    then have "pow2 e' = of_int (2 ^ nat (e' - ulp_exp x)) * pow2 (ulp_exp x)"
      using pow2_nat [of "e' - ulp_exp x"] by (simp add: pow2_diff field_simps)
    then show "x = of_int (m' * 2 ^ nat (e' - ulp_exp x)) * pow2 (ulp_exp x)"
      using that(1) by simp
  qed
  show ?thesis
  proof (cases "\<bar>m\<bar> = 2 ^ 53")
    case True
    then have "m = 2 ^ 53 \<or> m = - (2 ^ 53)" by linarith
    then have m2: "m = 2 * (m div 2)" "\<bar>m div 2\<bar> < 2 ^ 53" by auto
    have "pow2 (e + 1) = 2 * pow2 e"
      by (simp add: pow2_add pow2_of_nat [of 1, simplified])
    then have "x = of_int (m div 2) * pow2 (e + 1)" "\<bar>m div 2\<bar> < 2 ^ 53"
      using x m2 by (metis mult.assoc mult.commute of_int_mult of_int_numeral) (rule m2(2))
    then show ?thesis using key [of "m div 2" "e + 1"] e by simp
  next
    case False
    with m have "\<bar>m\<bar> < 2 ^ 53" by simp
    with x e show ?thesis by (intro key)
  qed
qed simp

lemma rnd_form:
  obtains m where "rnd x = of_int m * pow2 (ulp_exp x)" "\<bar>m\<bar> \<le> 2 ^ 53"
proof (cases "x = 0")
  case True
  then show ?thesis using that [of 0] by simp
next
  case False
  let ?e = "ulp_exp x"
  have "\<bar>x\<bar> < pow2 (ilog2 \<bar>x\<bar> + 1)" using False ilog2_spec [of "\<bar>x\<bar>"] by simp
  also have "\<dots> \<le> pow2 (?e + 53)" by (simp add: ulp_exp_def)
  also have "\<dots> = 2 ^ 53 * pow2 ?e" by (simp add: pow2_add pow2_of_nat [of 53, simplified])
  finally have "\<bar>x\<bar> < 2 ^ 53 * pow2 ?e" .
  then have "x \<le> 2 ^ 53 * pow2 ?e" "- (2 ^ 53 * pow2 ?e) \<le> x" by linarith+
  then have "x / pow2 ?e \<le> of_int (2 ^ 53)" "of_int (- (2 ^ 53)) \<le> x / pow2 ?e"
    by (simp_all add: pos_divide_le_eq pos_le_divide_eq)
  then have "\<bar>round_half_even (x / pow2 ?e)\<bar> \<le> 2 ^ 53"
    using round_half_even_le_int round_half_even_ge_int by (meson abs_le_iff minus_le_iff)
  with False show ?thesis using that by (simp add: rnd_def)
qed

lemma rnd_idem [simp]: "rnd (rnd x) = rnd x"
proof -
  obtain m where "rnd x = of_int m * pow2 (ulp_exp x)" "\<bar>m\<bar> \<le> 2 ^ 53" by (rule rnd_form)
  then show ?thesis by (rule rnd_exact) (simp add: ulp_exp_def)
qed

lemma rnd_pow2: "- 1074 \<le> k \<Longrightarrow> rnd (pow2 k) = pow2 k"
  using rnd_exact [of "pow2 k" 1 k] by simp

lemma rnd_of_int: "\<bar>n\<bar> \<le> 2 ^ 53 \<Longrightarrow> rnd (of_int n) = of_int n"
  by (rule rnd_exact [of _ n 0]) (auto simp: pow2_def)

lemma rnd_le_multiple:
  assumes "x \<le> of_int n * pow2 (ulp_exp x)"
  shows "rnd x \<le> of_int n * pow2 (ulp_exp x)"
proof (cases "x = 0")
  case False
  have "round_half_even (x / pow2 (ulp_exp x)) \<le> n"
    using assms by (intro round_half_even_le_int) (simp add: pos_divide_le_eq)
  then show ?thesis using False by (simp add: rnd_def)
qed (use assms in simp)

lemma rnd_ge_multiple:
  assumes "of_int n * pow2 (ulp_exp x) \<le> x"
  shows "of_int n * pow2 (ulp_exp x) \<le> rnd x"
proof (cases "x = 0")
  case False
  have "n \<le> round_half_even (x / pow2 (ulp_exp x))"
    using assms by (intro round_half_even_ge_int) (simp add: pos_le_divide_eq)
  then show ?thesis using False by (simp add: rnd_def)
qed (use assms in simp)

text \<open>Rounding is monotone, so a representable bound survives it.\<close>

lemma rnd_mono_pos:
  assumes x: "0 < x" and le: "x \<le> y"
  shows "rnd x \<le> rnd y"
proof (cases "ulp_exp x = ulp_exp y")
  case True
  have "x / pow2 (ulp_exp y) \<le> y / pow2 (ulp_exp y)"
    using le by (simp add: divide_right_mono)
  then have "round_half_even (x / pow2 (ulp_exp y)) \<le> round_half_even (y / pow2 (ulp_exp y))"
    by (rule round_half_even_mono)
  with True x le show ?thesis
    by (auto simp: rnd_def)
next
  case False
  have lo: "ilog2 x \<le> ilog2 y" using x le by (rule ilog2_mono)
  with False x le have lt: "ilog2 x < ilog2 y" and uy: "ulp_exp y = ilog2 y - 52" and ux: "ulp_exp x \<le> ilog2 y"
    by (auto simp: ulp_exp_def max_def split: if_splits)
  have xr: "x \<le> pow2 (ilog2 y)"
    using lt x ilog2_le_iff [of x "ilog2 y"] by simp
  have yr: "pow2 (ilog2 y) \<le> y" using x le ilog2_spec [of y] by simp
  have px: "pow2 (ilog2 y) = of_int (2 ^ nat (ilog2 y - ulp_exp x)) * pow2 (ulp_exp x)"
    using ux pow2_nat [of "ilog2 y - ulp_exp x"] by (simp add: pow2_diff field_simps)
  have py: "pow2 (ilog2 y) = of_int (2 ^ 52) * pow2 (ulp_exp y)"
    using uy pow2_diff [of "ilog2 y" 52] by (simp add: pow2_of_nat [of 52, simplified])
  have a: "rnd x \<le> pow2 (ilog2 y)"
    using rnd_le_multiple [of x "2 ^ nat (ilog2 y - ulp_exp x)"] x xr px by simp
  have "of_int (2 ^ 52) * pow2 (ulp_exp y) \<le> rnd y"
    using rnd_ge_multiple [of "2 ^ 52" y] x le yr py by simp
  with py a show ?thesis by simp
qed

lemma rnd_nonneg: "0 \<le> x \<Longrightarrow> 0 \<le> rnd x"
  using rnd_ge_multiple [of 0 x] by simp

lemma rnd_mono: "x \<le> y \<Longrightarrow> rnd x \<le> rnd y"
proof -
  assume le: "x \<le> y"
  consider "0 < x" | "y < 0" | "x \<le> 0" "0 \<le> y" by linarith
  then show ?thesis
  proof cases
    case 1
    then show ?thesis using le by (rule rnd_mono_pos)
  next
    case 2
    then have "rnd (- y) \<le> rnd (- x)" using le by (intro rnd_mono_pos) auto
    then show ?thesis by simp
  next
    case 3
    have "0 \<le> rnd y" using 3 by (intro rnd_nonneg)
    moreover have "0 \<le> rnd (- x)" using 3 by (intro rnd_nonneg) simp
    ultimately show ?thesis by simp
  qed
qed

lemma rnd_abs: "rnd \<bar>x\<bar> = \<bar>rnd x\<bar>"
  using rnd_nonneg [of x] rnd_nonneg [of "- x"] by (auto simp: abs_if)

lemma rnd_bound: "\<bar>x\<bar> \<le> r \<Longrightarrow> rnd r = r \<Longrightarrow> \<bar>rnd x\<bar> \<le> r"
  by (metis rnd_abs rnd_mono)

lemma rnd_error: "x \<noteq> 0 \<Longrightarrow> \<bar>rnd x - x\<bar> \<le> pow2 (ulp_exp x) / 2"
proof -
  assume "x \<noteq> 0"
  let ?u = "pow2 (ulp_exp x)"
  have "rnd x - x = (of_int (round_half_even (x / ?u)) - x / ?u) * ?u"
    using \<open>x \<noteq> 0\<close> by (simp add: rnd_def algebra_simps)
  then have "\<bar>rnd x - x\<bar> = \<bar>of_int (round_half_even (x / ?u)) - x / ?u\<bar> * ?u"
    by (simp add: abs_mult)
  also have "\<dots> \<le> 1 / 2 * ?u"
    using round_half_even_error by (intro mult_right_mono) auto
  finally show ?thesis by simp
qed

section \<open>Python floats\<close>

datatype pyfloat = Fin rat | NegZero | PosInf | NegInf | NaN

fun fval :: "pyfloat \<Rightarrow> rat" where
  "fval (Fin r) = r"
| "fval _ = 0"

fun is_finite :: "pyfloat \<Rightarrow> bool" where
  "is_finite (Fin _) = True"
| "is_finite NegZero = True"
| "is_finite _ = False"

fun fsign :: "pyfloat \<Rightarrow> bool" where
  "fsign (Fin r) = (r < 0)"
| "fsign NegZero = True"
| "fsign NegInf = True"
| "fsign _ = False"

fun wf_float :: "pyfloat \<Rightarrow> bool" where
  "wf_float (Fin r) \<longleftrightarrow> rnd r = r \<and> \<bar>r\<bar> < 2 ^ 1024"
| "wf_float _ = True"

definition zero_of :: "bool \<Rightarrow> pyfloat" where
  "zero_of neg = (if neg then NegZero else Fin 0)"

definition inf_of :: "bool \<Rightarrow> pyfloat" where
  "inf_of neg = (if neg then NegInf else PosInf)"

text \<open>Rounding an exact result; \<open>neg\<close> is the sign a zero result takes.\<close>

definition to_float :: "bool \<Rightarrow> rat \<Rightarrow> pyfloat" where
  "to_float neg x =
     (let q = rnd x in
      if q = 0 then zero_of neg
      else if 2 ^ 1024 \<le> \<bar>q\<bar> then inf_of (q < 0)
      else Fin q)"

fun fneg :: "pyfloat \<Rightarrow> pyfloat" where
  "fneg (Fin r) = (if r = 0 then NegZero else Fin (- r))"
| "fneg NegZero = Fin 0"
| "fneg PosInf = NegInf"
| "fneg NegInf = PosInf"
| "fneg NaN = NaN"

definition fadd :: "pyfloat \<Rightarrow> pyfloat \<Rightarrow> pyfloat" where
  "fadd x y =
     (if x = NaN \<or> y = NaN then NaN
      else if is_finite x \<and> is_finite y then
        let s = fval x + fval y in
        if s = 0 then zero_of (x = NegZero \<and> y = NegZero) else to_float (s < 0) s
      else if is_finite x then y
      else if is_finite y then x
      else if x = y then x else NaN)"

definition fsub :: "pyfloat \<Rightarrow> pyfloat \<Rightarrow> pyfloat" where
  "fsub x y = fadd x (fneg y)"

definition fmul :: "pyfloat \<Rightarrow> pyfloat \<Rightarrow> pyfloat" where
  "fmul x y =
     (let neg = (fsign x \<noteq> fsign y) in
      if x = NaN \<or> y = NaN then NaN
      else if is_finite x \<and> is_finite y then to_float neg (fval x * fval y)
      else if (is_finite x \<and> fval x = 0) \<or> (is_finite y \<and> fval y = 0) then NaN
      else inf_of neg)"

definition fdiv :: "pyfloat \<Rightarrow> pyfloat \<Rightarrow> pyfloat res" where
  "fdiv x y =
     (let neg = (fsign x \<noteq> fsign y) in
      if is_finite y \<and> fval y = 0 then Inl ZeroDivisionError
      else if x = NaN \<or> y = NaN then Inr NaN
      else if is_finite x \<and> is_finite y then Inr (to_float neg (fval x / fval y))
      else if is_finite x then Inr (zero_of neg)
      else if is_finite y then Inr (inf_of neg)
      else Inr NaN)"

definition int_to_float :: "int \<Rightarrow> pyfloat res" where
  "int_to_float n =
     (let q = rnd (of_int n) in
      if 2 ^ 1024 \<le> \<bar>q\<bar> then Inl OverflowError else Inr (Fin q))"

definition int_truediv :: "int \<Rightarrow> int \<Rightarrow> pyfloat res" where
  "int_truediv a b =
     (if b = 0 then Inl ZeroDivisionError
      else let q = rnd (of_int a / of_int b) in
           if 2 ^ 1024 \<le> \<bar>q\<bar> then Inl OverflowError
           else if q = 0 then Inr (zero_of ((a < 0) \<noteq> (b < 0)))
           else Inr (Fin q))"

fun py_round :: "pyfloat \<Rightarrow> int res" where
  "py_round (Fin r) = Inr (round_half_even r)"
| "py_round NegZero = Inr 0"
| "py_round NaN = Inl ValueError"
| "py_round _ = Inl OverflowError"

text \<open>Mixed arithmetic: Python converts the int operand first, which may overflow.\<close>

definition fadd_int :: "pyfloat \<Rightarrow> int \<Rightarrow> pyfloat res" where
  "fadd_int x n = res_bind (int_to_float n) (\<lambda>y. Inr (fadd x y))"

definition fmul_int :: "pyfloat \<Rightarrow> int \<Rightarrow> pyfloat res" where
  "fmul_int x n = res_bind (int_to_float n) (\<lambda>y. Inr (fmul x y))"

definition fdiv_int :: "pyfloat \<Rightarrow> int \<Rightarrow> pyfloat res" where
  "fdiv_int x n = res_bind (int_to_float n) (\<lambda>y. fdiv x y)"

definition int_fsub :: "int \<Rightarrow> pyfloat \<Rightarrow> pyfloat res" where
  "int_fsub n x = res_bind (int_to_float n) (\<lambda>y. Inr (fsub y x))"

text \<open>Ordering: every comparison with a NaN is false, and the two zeros are equal.\<close>

definition fless :: "pyfloat \<Rightarrow> pyfloat \<Rightarrow> bool" where
  "fless x y =
     (if x = NaN \<or> y = NaN then False
      else if is_finite x \<and> is_finite y then fval x < fval y
      else if is_finite x then y = PosInf
      else if is_finite y then x = NegInf
      else x = NegInf \<and> y = PosInf)"

definition feq :: "pyfloat \<Rightarrow> pyfloat \<Rightarrow> bool" where
  "feq x y =
     (if x = NaN \<or> y = NaN then False
      else if is_finite x \<and> is_finite y then fval x = fval y
      else x = y)"

fun fabs :: "pyfloat \<Rightarrow> pyfloat" where
  "fabs (Fin r) = Fin \<bar>r\<bar>"
| "fabs NegZero = Fin 0"
| "fabs PosInf = PosInf"
| "fabs NegInf = PosInf"
| "fabs NaN = NaN"

subsection \<open>NaNs propagate\<close>

lemma fmul_NaN [simp]: "fmul NaN x = NaN" "fmul x NaN = NaN"
  by (simp_all add: fmul_def)

lemma fadd_NaN [simp]: "fadd NaN x = NaN" "fadd x NaN = NaN"
  by (simp_all add: fadd_def)

subsection \<open>Every operation returns a binary64 value\<close>

lemma wf_zero_of [simp, wf_intros]: "wf_float (zero_of b)"
  by (simp add: zero_of_def)

lemma wf_inf_of [simp, wf_intros]: "wf_float (inf_of b)"
  by (simp add: inf_of_def)

lemma wf_to_float [simp, wf_intros]: "wf_float (to_float b x)"
  by (simp add: to_float_def Let_def)

lemma wf_fneg [wf_intros]: "wf_float x \<Longrightarrow> wf_float (fneg x)"
  by (cases x) auto

lemma wf_fadd [wf_intros]: "wf_float x \<Longrightarrow> wf_float y \<Longrightarrow> wf_float (fadd x y)"
  by (simp add: fadd_def Let_def)

lemma wf_fsub [wf_intros]: "wf_float x \<Longrightarrow> wf_float y \<Longrightarrow> wf_float (fsub x y)"
  by (simp add: fsub_def wf_fadd wf_fneg)

lemma wf_fmul [wf_intros]: "wf_float (fmul x y)"
  by (simp add: fmul_def Let_def)

lemma wf_fdiv [wf_intros]: "fdiv x y = Inr z \<Longrightarrow> wf_float z"
  by (auto simp: fdiv_def Let_def split: if_splits)

lemma wf_int_to_float [wf_intros]: "int_to_float n = Inr z \<Longrightarrow> wf_float z"
  by (auto simp: int_to_float_def Let_def not_le split: if_splits)

subsection \<open>Exact cases\<close>

definition exact :: "rat \<Rightarrow> bool" where
  "exact r \<longleftrightarrow> rnd r = r \<and> \<bar>r\<bar> < 2 ^ 1024"

lemma exact_of_int [simp]: "\<bar>n\<bar> \<le> 2 ^ 53 \<Longrightarrow> exact (of_int n)"
proof -
  assume n: "\<bar>n\<bar> \<le> 2 ^ 53"
  have "\<bar>of_int n :: rat\<bar> \<le> 2 ^ 53"
    using n by (metis of_int_abs of_int_le_iff of_int_numeral of_int_power)
  also have "(2 ^ 53 :: rat) < 2 ^ 1024" by (rule power_strict_increasing) auto
  finally show ?thesis by (simp add: exact_def rnd_of_int [OF n])
qed

lemma to_float_exact: "exact r \<Longrightarrow> to_float b r = (if r = 0 then zero_of b else Fin r)"
  by (simp add: to_float_def exact_def Let_def)

lemma to_float_of_finite:
  "\<bar>rnd r\<bar> < 2 ^ 1024 \<Longrightarrow> is_finite (to_float b r) \<and> fval (to_float b r) = rnd r"
  by (simp add: to_float_def Let_def zero_of_def)

lemma int_to_float_exact [simp]: "\<bar>n\<bar> \<le> 2 ^ 53 \<Longrightarrow> int_to_float n = Inr (Fin (of_int n))"
  using exact_of_int [of n] by (auto simp: int_to_float_def exact_def rnd_of_int)

lemma fadd_finite:
  "is_finite x \<Longrightarrow> is_finite y \<Longrightarrow> \<bar>rnd (fval x + fval y)\<bar> < 2 ^ 1024 \<Longrightarrow>
   is_finite (fadd x y) \<and> fval (fadd x y) = rnd (fval x + fval y)"
  by (cases x; cases y) (auto simp: fadd_def Let_def zero_of_def to_float_of_finite)

lemma fval_fneg [simp]: "fval (fneg x) = - fval x"
  by (cases x) auto

lemma is_finite_fneg [simp]: "is_finite (fneg x) = is_finite x"
  by (cases x) auto

lemma fsub_finite:
  "is_finite x \<Longrightarrow> is_finite y \<Longrightarrow> \<bar>rnd (fval x - fval y)\<bar> < 2 ^ 1024 \<Longrightarrow>
   is_finite (fsub x y) \<and> fval (fsub x y) = rnd (fval x - fval y)"
  unfolding fsub_def using fadd_finite [of x "fneg y"] by simp

lemma is_finite_not_NaN: "is_finite x \<Longrightarrow> x \<noteq> NaN"
  by auto

lemma fmul_finite:
  "is_finite x \<Longrightarrow> is_finite y \<Longrightarrow> \<bar>rnd (fval x * fval y)\<bar> < 2 ^ 1024 \<Longrightarrow>
   is_finite (fmul x y) \<and> fval (fmul x y) = rnd (fval x * fval y)"
  by (simp add: fmul_def Let_def to_float_of_finite is_finite_not_NaN)

lemma fmul_exact:
  assumes "is_finite x" "is_finite y" "exact (fval x * fval y)"
  shows "is_finite (fmul x y) \<and> fval (fmul x y) = fval x * fval y"
proof -
  from assms(3) have r: "rnd (fval x * fval y) = fval x * fval y" "\<bar>fval x * fval y\<bar> < 2 ^ 1024"
    by (simp_all only: exact_def)
  with assms(1,2) fmul_finite [of x y] show ?thesis by presburger
qed

lemma fdiv_finite:
  "is_finite x \<Longrightarrow> is_finite y \<Longrightarrow> fval y \<noteq> 0 \<Longrightarrow> \<bar>rnd (fval x / fval y)\<bar> < 2 ^ 1024 \<Longrightarrow>
   \<exists>z. fdiv x y = Inr z \<and> is_finite z \<and> fval z = rnd (fval x / fval y)"
  by (simp add: fdiv_def Let_def to_float_of_finite is_finite_not_NaN)

lemma py_round_finite: "is_finite x \<Longrightarrow> py_round x = Inr (round_half_even (fval x))"
  using round_half_even_of_int [of 0] by (cases x) auto

lemma py_round_nonfinite: "\<not> is_finite x \<Longrightarrow> \<exists>e. py_round x = Inl e"
  by (cases x) auto

lemma rnd_bound_lt_max: "\<bar>x\<bar> \<le> 2 ^ k \<Longrightarrow> k < 1024 \<Longrightarrow> \<bar>rnd x\<bar> < 2 ^ 1024"
proof -
  assume a: "\<bar>x\<bar> \<le> 2 ^ k" "k < 1024"
  have "rnd (2 ^ k) = 2 ^ k"
    using rnd_pow2 [of "int k"] by (simp add: pow2_of_nat)
  then have "\<bar>rnd x\<bar> \<le> 2 ^ k" using a(1) by (intro rnd_bound)
  also have "\<dots> < 2 ^ 1024" using a(2) by (rule power_strict_increasing) simp
  finally show ?thesis .
qed

lemma rnd_bound_pow: "\<bar>x\<bar> \<le> 2 ^ k \<Longrightarrow> \<bar>rnd x\<bar> \<le> 2 ^ k"
  using rnd_pow2 [of "int k"] by (intro rnd_bound) (simp_all add: pow2_of_nat)

lemma int_to_float_bounded:
  "\<bar>n\<bar> \<le> 2 ^ k \<Longrightarrow> k < 1024 \<Longrightarrow>
   int_to_float n = Inr (Fin (rnd (of_int n))) \<and> \<bar>rnd (of_int n)\<bar> \<le> 2 ^ k"
proof -
  assume a: "\<bar>n\<bar> \<le> 2 ^ k" "k < 1024"
  then have "\<bar>of_int n :: rat\<bar> \<le> 2 ^ k"
    by (metis of_int_abs of_int_le_iff of_int_numeral of_int_power)
  then have "\<bar>rnd (of_int n)\<bar> \<le> 2 ^ k" "\<bar>rnd (of_int n)\<bar> < 2 ^ 1024"
    using rnd_bound_pow rnd_bound_lt_max a(2) by blast+
  then show ?thesis by (simp add: int_to_float_def Let_def)
qed

end
