(* ===== verification/Statistics.thy ===== *)
theory Statistics
  imports Float64
begin

text \<open>
  What \<^verbatim>\<open>backtest_report.py\<close> and \<^verbatim>\<open>hedge_report.py\<close> use of Python's \<^verbatim>\<open>statistics\<close> module:
  \<^verbatim>\<open>mean\<close> of ints, \<^verbatim>\<open>stdev\<close> of ints and \<^verbatim>\<open>pvariance\<close> of floats, as CPython computes them: sums
  in exact fractions and one rounding at the end, with the integer square root by
  round-to-odd.  The lemmas give the exact values before the rounding and when the results
  vanish.
\<close>

section \<open>Fractions and square roots\<close>

text \<open>\<^verbatim>\<open>float(Fraction)\<close>: true division of numerator and denominator.\<close>

definition frac_to_float :: "rat \<Rightarrow> pyfloat res" where
  "frac_to_float x = (case quotient_of x of (a, b) \<Rightarrow> int_truediv a b)"

function isqrt :: "int \<Rightarrow> int" where
  "isqrt n =
     (if n \<le> 0 then 0
      else let r = 2 * isqrt (n div 4) in if (r + 1) * (r + 1) \<le> n then r + 1 else r)"
  by pat_completeness auto
termination by (relation "measure nat") auto

declare isqrt.simps [simp del]

definition integer_sqrt_of_frac_rto :: "int \<Rightarrow> int \<Rightarrow> int" where
  "integer_sqrt_of_frac_rto n m =
     (let a = isqrt (n div m) in if a * a * m \<noteq> n \<and> even a then a + 1 else a)"

definition float_sqrt_of_frac :: "int \<Rightarrow> int \<Rightarrow> pyfloat res" where
  "float_sqrt_of_frac n m =
     (let q = (bitlen n - bitlen m - 109) div 2 in
      if 0 \<le> q then int_truediv (integer_sqrt_of_frac_rto n (m * 2 ^ nat (2 * q)) * 2 ^ nat q) 1
      else int_truediv (integer_sqrt_of_frac_rto (n * 2 ^ nat (- 2 * q)) m) (2 ^ nat (- q)))"

section \<open>Mean, deviation, variance\<close>

text \<open>The mean of ints is an int when it is exact, a float otherwise.\<close>

datatype mean_value = Mean_Int int | Mean_Float pyfloat

definition py_mean :: "int list \<Rightarrow> mean_value res" where
  "py_mean xs =
     (if xs = [] then Inl ValueError
      else case quotient_of (of_int (sum_list xs) / of_nat (length xs)) of
          (a, b) \<Rightarrow> if b = 1 then Inr (Mean_Int a)
                   else res_bind (int_truediv a b) (\<lambda>x. Inr (Mean_Float x)))"

text \<open>The sum of squared deviations, in fractions.\<close>

definition exact_ss :: "rat list \<Rightarrow> rat" where
  "exact_ss xs = (let n = of_nat (length xs) in
     (n * sum_list (map (\<lambda>x. x * x) xs) - sum_list xs * sum_list xs) / n)"

definition py_stdev :: "int list \<Rightarrow> pyfloat res" where
  "py_stdev xs =
     (if length xs < 2 then Inl ValueError
      else case quotient_of (exact_ss (map of_int xs) / of_nat (length xs - 1)) of
          (n, m) \<Rightarrow> float_sqrt_of_frac n m)"

definition py_pvariance :: "pyfloat list \<Rightarrow> pyfloat res" where
  "py_pvariance xs =
     (if xs = [] then Inl ValueError
      else let specials = filter (\<lambda>x. \<not> is_finite x) xs in
        if specials \<noteq> [] then fdiv_int (foldl fadd (Fin 0) specials) (int (length xs))
        else frac_to_float (exact_ss (map fval xs) / of_nat (length xs)))"

section \<open>Lemmas\<close>

lemma frac_to_float_cases:
  "frac_to_float x =
    (if 2 ^ 1024 \<le> \<bar>rnd x\<bar> then Inl OverflowError
     else if rnd x = 0 then Inr (zero_of (x < 0)) else Inr (Fin (rnd x)))"
proof -
  obtain a b where q: "quotient_of x = (a, b)" by (cases "quotient_of x")
  then have x: "x = of_int a / of_int b" and b: "0 < b"
    by (simp_all add: quotient_of_div quotient_of_denom_pos)
  have "(a < 0) = (x < 0)" using b by (simp add: x divide_less_0_iff)
  with q x b show ?thesis by (simp add: frac_to_float_def int_truediv_def Let_def)
qed

lemma isqrt_spec: "0 \<le> n \<Longrightarrow> 0 \<le> isqrt n \<and> isqrt n * isqrt n \<le> n \<and> n < (isqrt n + 1) * (isqrt n + 1)"
proof (induction n rule: isqrt.induct)
  case (1 n)
  show ?case
  proof (cases "n = 0")
    case True
    then show ?thesis by (simp add: isqrt.simps [of 0])
  next
    case False
    with 1 have n: "0 < n" by simp
    define r where "r = isqrt (n div 4)"
    have ih: "0 \<le> r" "r * r \<le> n div 4" "n div 4 < (r + 1) * (r + 1)"
      using 1 n by (auto simp: r_def)
    have "4 * (r * r) \<le> n" using ih(2) by linarith
    then have lo: "(2 * r) * (2 * r) \<le> n" by simp
    have "n div 4 + 1 \<le> (r + 1) * (r + 1)" using ih(3) by simp
    then have "4 * (n div 4 + 1) \<le> 4 * ((r + 1) * (r + 1))" by simp
    moreover have "n < 4 * (n div 4 + 1)" by simp
    ultimately have "n < 4 * ((r + 1) * (r + 1))" by linarith
    then have hi: "n < (2 * r + 2) * (2 * r + 2)" by (simp add: algebra_simps)
    have eq: "isqrt n = (if (2 * r + 1) * (2 * r + 1) \<le> n then 2 * r + 1 else 2 * r)"
      using n by (subst isqrt.simps) (simp add: Let_def r_def)
    show ?thesis
      using ih(1) lo hi unfolding eq by (auto simp: algebra_simps)
  qed
qed

lemma isqrt_mono_pow: "2 ^ (2 * k) \<le> n \<Longrightarrow> 2 ^ k \<le> isqrt n"
proof (rule ccontr)
  assume a: "2 ^ (2 * k) \<le> n" "\<not> 2 ^ k \<le> isqrt n"
  have "0 \<le> n" using a(1) by (rule order_trans [rotated]) simp
  note s = isqrt_spec [OF this]
  have "isqrt n + 1 \<le> 2 ^ k" using a(2) by simp
  then have "(isqrt n + 1) * (isqrt n + 1) \<le> 2 ^ k * 2 ^ k"
    using s by (intro mult_mono) auto
  also have "\<dots> = 2 ^ (2 * k)" by (simp add: mult_2 power_add)
  finally show False using s a(1) by linarith
qed

lemma exact_ss_deviations:
  assumes "xs \<noteq> []"
  shows "exact_ss xs = sum_list (map (\<lambda>x. (x - sum_list xs / of_nat (length xs))\<^sup>2) xs)"
proof -
  define m where "m = sum_list xs / of_nat (length xs)"
  have n: "(of_nat (length xs) :: rat) \<noteq> 0" using assms by simp
  have "sum_list (map (\<lambda>x. (x - c)\<^sup>2) ys) =
      sum_list (map (\<lambda>x. x * x) ys) - 2 * c * sum_list ys + of_nat (length ys) * (c * c)" for c :: rat and ys
    by (induction ys) (simp_all add: power2_eq_square algebra_simps)
  from this [of m xs] have "sum_list (map (\<lambda>x. (x - m)\<^sup>2) xs) =
      sum_list (map (\<lambda>x. x * x) xs) - 2 * m * sum_list xs + of_nat (length xs) * (m * m)" .
  also have "\<dots> = exact_ss xs"
    using n by (simp add: exact_ss_def Let_def m_def field_simps)
  finally show ?thesis by (simp add: m_def)
qed

lemma exact_ss_nonneg: "0 \<le> exact_ss xs"
proof (cases "xs = []")
  case False
  then show ?thesis unfolding exact_ss_deviations [OF False] by (intro sum_list_nonneg) auto
qed (simp add: exact_ss_def)

lemma exact_ss_zero:
  assumes "xs \<noteq> []"
  shows "exact_ss xs = 0 \<longleftrightarrow> (\<forall>x\<in>set xs. x = hd xs)"
proof
  assume "exact_ss xs = 0"
  then have s: "sum_list (map (\<lambda>x. (x - sum_list xs / of_nat (length xs))\<^sup>2) xs) = 0"
    unfolding exact_ss_deviations [OF assms] .
  have "\<forall>x\<in>set xs. (x - sum_list xs / of_nat (length xs))\<^sup>2 = 0"
    using s by (subst (asm) sum_list_nonneg_eq_0_iff) auto
  then have "\<forall>x\<in>set xs. x = sum_list xs / of_nat (length xs)" by simp
  with assms show "\<forall>x\<in>set xs. x = hd xs" by (metis hd_in_set)
next
  assume c: "\<forall>x\<in>set xs. x = hd xs"
  then have "xs = replicate (length xs) (hd xs)" by (metis replicate_length_same)
  then obtain n a where "xs = replicate n a" "0 < n" using assms by (metis length_greater_0_conv)
  then show "exact_ss xs = 0" by (simp add: exact_ss_def Let_def sum_list_replicate)
qed

text \<open>The square root vanishes only at zero (for denominators that sample sizes can give).\<close>

lemma rto_pos:
  assumes "0 < m" "m \<le> n"
  shows "1 \<le> integer_sqrt_of_frac_rto n m"
proof -
  have "1 \<le> n div m" using assms by (simp add: pos_imp_zdiv_pos_iff int_one_le_iff_zero_less)
  then have "1 \<le> isqrt (n div m)" using isqrt_mono_pow [of 0 "n div m"] by simp
  then show ?thesis by (simp add: integer_sqrt_of_frac_rto_def Let_def)
qed

lemma int_truediv_pos:
  assumes "2 ^ k \<le> b * a" "0 < a" "0 < b" "b \<le> 2 ^ j" "j \<le> 1000"
  shows "int_truediv a b = Inl OverflowError \<or> (\<exists>z>0. int_truediv a b = Inr (Fin z))"
proof -
  have "pow2 (- int j) = 1 / of_int (2 ^ j)"
    using pow2_diff [of 0 "int j"] pow2_of_nat [of j] pow2_eval(1) by simp
  also have "\<dots> \<le> 1 / of_int b" using assms(3,4)
    by (intro divide_left_mono) (simp_all only: of_int_le_iff of_int_0_less_iff zero_less_mult_iff, auto)
  also have "\<dots> \<le> of_int a / of_int b"
    using assms(2,3) by (intro divide_right_mono) auto
  finally have "pow2 (- int j) \<le> of_int a / of_int b" .
  then have "rnd (pow2 (- int j)) \<le> rnd (of_int a / of_int b)" by (rule rnd_mono)
  moreover have "rnd (pow2 (- int j)) = pow2 (- int j)" using assms(5) by (intro rnd_pow2) simp
  ultimately have "0 < rnd (of_int a / of_int b)" using pow2_pos [of "- int j"] by linarith
  with assms(3) show ?thesis by (auto simp: int_truediv_def Let_def)
qed

lemma float_sqrt_of_frac_0: "0 < m \<Longrightarrow> float_sqrt_of_frac 0 m = Inr (Fin 0)"
proof -
  assume m: "0 < m"
  have "0 \<le> bitlen m" by (rule bitlen_nonneg)
  then have q: "\<not> 0 \<le> (bitlen 0 - bitlen m - 109) div 2" by simp
  have "isqrt 0 = 0" by (simp add: isqrt.simps)
  with q show ?thesis
    by (simp add: float_sqrt_of_frac_def integer_sqrt_of_frac_rto_def int_truediv_def zero_of_def)
qed

lemma float_sqrt_of_frac_pos:
  assumes n: "0 < n" and m: "0 < m" "m < 2 ^ 106"
  shows "float_sqrt_of_frac n m = Inl OverflowError \<or> (\<exists>z>0. float_sqrt_of_frac n m = Inr (Fin z))"
proof -
  define q where "q = (bitlen n - bitlen m - 109) div 2"
  have q: "2 * q \<le> bitlen n - bitlen m - 109" "bitlen n - bitlen m - 109 < 2 * q + 2"
    by (simp_all add: q_def)
  have bn: "2 ^ nat (bitlen n - 1) \<le> n" "1 \<le> bitlen n"
    using bitlen_bounds [OF n] n by (auto simp: bitlen_ge_iff_power)
  have bm: "m < 2 ^ nat (bitlen m)" "0 \<le> bitlen m"
    using bitlen_bounds [OF m(1)] by auto
  have "bitlen m \<le> 106" using m by (simp add: bitlen_le_iff_power)
  show ?thesis
  proof (cases "0 \<le> q")
    case True
    have "m * 2 ^ nat (2 * q) \<le> 2 ^ nat (bitlen m) * 2 ^ nat (2 * q)"
      using bm by (intro mult_right_mono) auto
    also have "\<dots> = 2 ^ nat (bitlen m + 2 * q)"
      using True bm(2) by (simp add: nat_add_distrib power_add)
    also have "\<dots> \<le> 2 ^ nat (bitlen n - 1)"
      using q(1) by (intro power_increasing) auto
    also have "\<dots> \<le> n" by (rule bn(1))
    finally have "1 \<le> integer_sqrt_of_frac_rto n (m * 2 ^ nat (2 * q))"
      using m(1) by (intro rto_pos) auto
    then have "0 < integer_sqrt_of_frac_rto n (m * 2 ^ nat (2 * q)) * 2 ^ nat q" by simp
    then show ?thesis
      using True int_truediv_pos [of 0 1 "integer_sqrt_of_frac_rto n (m * 2 ^ nat (2 * q)) * 2 ^ nat q" 0]
      by (simp add: float_sqrt_of_frac_def q_def [symmetric])
  next
    case False
    have j: "nat (- q) \<le> 1000" using q(2) bn(2) \<open>bitlen m \<le> 106\<close> False by linarith
    have "m \<le> 2 ^ nat (bitlen m)" using bm(1) by simp
    also have "\<dots> \<le> 2 ^ nat (bitlen n - 1 + - 2 * q)"
      using q(1) by (intro power_increasing) auto
    also have "\<dots> = 2 ^ nat (bitlen n - 1) * 2 ^ nat (- 2 * q)"
      using False bn(2) by (subst nat_add_distrib) (auto simp: power_add)
    also have "\<dots> \<le> n * 2 ^ nat (- 2 * q)" using bn(1) by (intro mult_right_mono) auto
    finally have "1 \<le> integer_sqrt_of_frac_rto (n * 2 ^ nat (- 2 * q)) m"
      using m(1) by (intro rto_pos)
    then have "0 < integer_sqrt_of_frac_rto (n * 2 ^ nat (- 2 * q)) m" by simp
    moreover have "2 ^ 0 \<le> 2 ^ nat (- q) * integer_sqrt_of_frac_rto (n * 2 ^ nat (- 2 * q)) m"
      using calculation by (simp add: int_one_le_iff_zero_less)
    ultimately show ?thesis
      using int_truediv_pos [of 0 "2 ^ nat (- q)" "integer_sqrt_of_frac_rto (n * 2 ^ nat (- 2 * q)) m" "nat (- q)"]
        j False by (simp add: float_sqrt_of_frac_def q_def [symmetric])
  qed
qed

text \<open>The deviation of ints is zero exactly when they are all equal.\<close>

lemma quotient_of_denom_le:
  assumes "quotient_of x = (a, b)" "x * of_int d \<in> \<int>" "0 < d"
  shows "b \<le> d"
proof -
  from assms(2) obtain k where k: "x * of_int d = of_int k" by (elim Ints_cases)
  have b: "0 < b" "coprime a b" "x = of_int a / of_int b"
    using assms(1) by (simp_all add: quotient_of_denom_pos quotient_of_coprime quotient_of_div)
  have "of_int (a * d) = x * of_int d * of_int b"
    using b(1,3) by simp
  also have "\<dots> = (of_int (k * b) :: rat)" using k by simp
  finally have "of_int (a * d) = (of_int (k * b) :: rat)" .
  then have "a * d = k * b" by (simp only: of_int_eq_iff)
  then have "b dvd a * d" by simp
  with b(2) have "b dvd d" by (metis coprime_commute coprime_dvd_mult_right_iff)
  with assms(3) show ?thesis by (simp add: zdvd_imp_le)
qed

lemma py_stdev_zero_iff:
  assumes "2 \<le> length xs" "length xs < 2 ^ 53"
  shows "(py_stdev xs = Inr (Fin 0) \<longleftrightarrow> (\<forall>x\<in>set xs. x = hd xs)) \<and>
    (py_stdev xs = Inl OverflowError \<or> (\<exists>z\<ge>0. py_stdev xs = Inr (Fin z)))"
proof -
  let ?ys = "map of_int xs :: rat list"
  define ss where "ss = exact_ss ?ys / of_nat (length xs - 1)"
  obtain n m where q: "quotient_of ss = (n, m)" by (cases "quotient_of ss")
  have ne: "?ys \<noteq> []" using assms(1) by auto
  have m: "0 < m" "ss = of_int n / of_int m"
    using q by (simp_all add: quotient_of_denom_pos quotient_of_div)
  have l: "(of_nat (length xs) :: rat) \<noteq> 0" "(of_nat (length xs - 1) :: rat) \<noteq> 0"
    using assms(1) by auto
  have "ss * of_int (int (length xs) * int (length xs - 1)) =
      of_int (int (length xs) * sum_list (map (\<lambda>x. x * x) xs) - sum_list xs * sum_list xs)"
  proof -
    have "sum_list (map (\<lambda>x. x * x) ?ys) = of_int (sum_list (map (\<lambda>x. x * x) xs))"
      by (induction xs) auto
    moreover have "sum_list ?ys = of_int (sum_list xs)" by (induction xs) auto
    ultimately show ?thesis using l by (simp add: ss_def exact_ss_def Let_def)
  qed
  then have "ss * of_int (int (length xs) * int (length xs - 1)) \<in> \<int>" by simp
  moreover have "0 < int (length xs) * int (length xs - 1)"
    using assms(1) by (intro mult_pos_pos) auto
  ultimately have "m \<le> int (length xs) * int (length xs - 1)"
    by (rule quotient_of_denom_le [OF q])
  also have "\<dots> < 2 ^ 53 * 2 ^ 53"
  proof (rule mult_strict_mono)
    have "int (length xs) < int (2 ^ 53)" using assms(2) by (simp only: of_nat_less_iff)
    then show "int (length xs) < 2 ^ 53" "int (length xs - 1) < 2 ^ 53" using assms(1) by simp_all
  qed auto
  finally have m106: "m < 2 ^ 106" by simp
  have nn: "0 \<le> ss" using exact_ss_nonneg [of ?ys] l by (simp add: ss_def)
  then have n: "0 \<le> n" using m by (simp add: zero_le_divide_iff)
  have z: "n = 0 \<longleftrightarrow> (\<forall>x\<in>set xs. x = hd xs)"
  proof -
    have "n = 0 \<longleftrightarrow> exact_ss ?ys = 0" using m l by (auto simp: ss_def)
    also have "\<dots> \<longleftrightarrow> (\<forall>x\<in>set ?ys. x = hd ?ys)" using ne by (rule exact_ss_zero)
    also have "\<dots> \<longleftrightarrow> (\<forall>x\<in>set xs. x = hd xs)" using ne by (simp add: hd_map)
    finally show ?thesis .
  qed
  have e: "py_stdev xs = float_sqrt_of_frac n m"
    using assms(1) q by (simp add: py_stdev_def ss_def)
  show ?thesis
  proof (cases "n = 0")
    case True
    with e z float_sqrt_of_frac_0 [OF m(1)] show ?thesis by auto
  next
    case False
    with float_sqrt_of_frac_pos [OF _ m(1) m106, of n] n e z show ?thesis by force
  qed
qed

end
