(* ===== verification/Struct.thy ===== *)
theory Struct
  imports Float64
begin

text \<open>
  Python's \<^verbatim>\<open>struct\<close> module as far as the wire protocols use it: the network (big-endian,
  unpadded, \<^verbatim>\<open>!\<close>) forms of the codes \<^verbatim>\<open>B\<close>, \<^verbatim>\<open>I\<close>, \<^verbatim>\<open>Q\<close>, \<^verbatim>\<open>q\<close> and \<^verbatim>\<open>d\<close>, with
  \<^verbatim>\<open>struct.error\<close> for a value out of range, a wrong number of values and a buffer of the
  wrong size.  The lemmas are the two round trips: unpacking what was packed, and packing
  what was unpacked.  The locale \<open>tagged_codec\<close> is the contract every message codec of the
  program is held to; the theories of the two protocols interpret it on their own encoders.
\<close>

section \<open>Big-endian byte strings\<close>

fun be_bytes :: "nat \<Rightarrow> nat \<Rightarrow> bytes" where
  "be_bytes 0 n = []"
| "be_bytes (Suc k) n = be_bytes k (n div 256) @ [word_of_nat (n mod 256)]"

definition be_value :: "bytes \<Rightarrow> nat" where
  "be_value bs = foldl (\<lambda>a b. a * 256 + unat b) 0 bs"

lemma length_be_bytes [simp]: "length (be_bytes k n) = k"
  by (induction k n rule: be_bytes.induct) auto

lemma be_value_Nil [simp]: "be_value [] = 0"
  by (simp add: be_value_def)

lemma be_value_snoc [simp]: "be_value (bs @ [b]) = be_value bs * 256 + unat b"
  by (simp add: be_value_def)

lemma unat_byte_mod [simp]: "unat (word_of_nat (n mod 256) :: byte) = n mod 256"
  by (simp add: unat_of_nat)

lemma be_value_be_bytes: "be_value (be_bytes k n) = n mod 256 ^ k"
proof (induction k n rule: be_bytes.induct)
  case (2 k n)
  have "n mod 256 ^ Suc k = n div 256 mod 256 ^ k * 256 + n mod 256"
    using mod_mult2_eq [of n 256 "256 ^ k"] by simp
  with 2 show ?case by simp
qed simp

lemma byte_less: "unat (b :: byte) < 256"
proof -
  have "unat b < 2 ^ LENGTH(8)" by (rule unsigned_less)
  then show ?thesis by simp
qed

lemma be_value_less: "be_value bs < 256 ^ length bs"
proof (induction bs rule: rev_induct)
  case (snoc b bs)
  have "unat b < 256" by (rule byte_less)
  with snoc show ?case by (simp add: algebra_simps)
qed simp

lemma be_bytes_be_value: "be_bytes (length bs) (be_value bs) = bs"
proof (induction bs rule: rev_induct)
  case (snoc b bs)
  have b: "unat b < 256" by (rule byte_less)
  then have "(be_value bs * 256 + unat b) div 256 = be_value bs"
    and "(be_value bs * 256 + unat b) mod 256 = unat b" by auto
  with snoc show ?case by simp
qed simp

lemma be_value_be_bytes_small [simp]: "n < 256 ^ k \<Longrightarrow> be_value (be_bytes k n) = n"
  by (simp add: be_value_be_bytes)

text \<open>Reading a 64-bit two's complement value from its bytes.\<close>

lemma sint_of_nat_be:
  assumes "n < 2 ^ 64"
  shows "sint (of_nat n :: 64 word) = (if n < 2 ^ 63 then int n else int n - 2 ^ 64)"
proof -
  have u: "uint (of_nat n :: 64 word) = int n"
    using assms by (simp add: unsigned_of_nat take_bit_nat_eq_self)
  show ?thesis
  proof (cases "n < 2 ^ 63")
    case True
    then have "int n < 2 ^ 63" by (metis of_nat_less_iff of_nat_numeral of_nat_power)
    then have "signed_take_bit 63 (int n) = int n"
      by (intro signed_take_bit_int_eq_self) auto
    with u True show ?thesis by (simp add: sint_uint)
  next
    case False
    have b: "int n < 2 ^ 64" "2 ^ 63 \<le> int n"
      using assms False by (metis of_nat_less_iff of_nat_numeral of_nat_power,
        metis not_less of_nat_less_iff of_nat_numeral of_nat_power)
    have "signed_take_bit 63 (int n) = signed_take_bit 63 (int n - 2 ^ 64)"
      by (simp add: signed_take_bit_eq_iff_take_bit_eq take_bit_eq_mod)
    also have "\<dots> = int n - 2 ^ 64"
      using b by (intro signed_take_bit_int_eq_self) auto
    finally show ?thesis using u False by (simp add: sint_uint)
  qed
qed

section \<open>The bit image of a double\<close>

definition double_bits :: "pyfloat \<Rightarrow> nat" where
  "double_bits x = (case x of
     Fin r \<Rightarrow>
       (if r = 0 then 0
        else let e = ulp_exp r; m = nat \<lfloor>\<bar>r\<bar> / pow2 e\<rfloor> in
          (if r < 0 then 2 ^ 63 else 0) +
          (if m < 2 ^ 52 then m else nat (e + 1075) * 2 ^ 52 + (m - 2 ^ 52)))
   | NegZero \<Rightarrow> 2 ^ 63
   | PosInf \<Rightarrow> 2047 * 2 ^ 52
   | NegInf \<Rightarrow> 2 ^ 63 + 2047 * 2 ^ 52
   | NaN \<Rightarrow> 2047 * 2 ^ 52 + 2 ^ 51)"

definition bits_double :: "nat \<Rightarrow> pyfloat" where
  "bits_double n =
     (let s = odd (n div 2 ^ 63); E = n div 2 ^ 52 mod 2 ^ 11; f = n mod 2 ^ 52;
          sg = (if s then - 1 else 1) in
      if E = 2047 then (if f = 0 then inf_of s else NaN)
      else if E = 0 then (if f = 0 then zero_of s else Fin (sg * (of_nat f * pow2 (- 1074))))
      else Fin (sg * (of_nat (2 ^ 52 + f) * pow2 (int E - 1075))))"

text \<open>A finite nonzero double is an integer multiple of its unit in the last place.\<close>

lemma wf_float_mantissa:
  assumes "wf_float (Fin r)" "r \<noteq> 0"
  obtains m where "\<bar>r\<bar> = of_nat m * pow2 (ulp_exp r)" "m < 2 ^ 53"
    "nat \<lfloor>\<bar>r\<bar> / pow2 (ulp_exp r)\<rfloor> = m"
    "m < 2 ^ 52 \<longrightarrow> ulp_exp r = - 1074" "- 1074 \<le> ulp_exp r"
    "2 ^ 52 \<le> m \<longrightarrow> ulp_exp r \<le> 971" "0 < m"
proof -
  define e where "e = ulp_exp r"
  define k where "k = round_half_even (r / pow2 e)"
  define m where "m = nat \<bar>k\<bar>"
  have "r = of_int k * pow2 e"
    using assms by (simp add: rnd_def e_def k_def)
  then have "\<bar>r\<bar> = of_int \<bar>k\<bar> * pow2 e"
    by (metis abs_mult of_int_abs pow2_abs)
  then have abs: "\<bar>r\<bar> = of_nat m * pow2 e"
    by (simp add: m_def)
  have m0: "0 < m" using abs assms(2) by (cases m) auto
  have up: "\<bar>r\<bar> < pow2 (ilog2 \<bar>r\<bar> + 1)" and lo: "pow2 (ilog2 \<bar>r\<bar>) \<le> \<bar>r\<bar>"
    using ilog2_spec [of "\<bar>r\<bar>"] assms(2) by simp_all
  have "\<bar>r\<bar> < pow2 (e + 53)"
    using up by (rule less_le_trans) (simp add: e_def ulp_exp_def)
  then have "of_nat m * pow2 e < 2 ^ 53 * pow2 e"
    using abs by (simp add: pow2_add pow2_of_nat [of 53, simplified])
  then have "(of_nat m :: rat) < of_nat (2 ^ 53)" by simp
  then have m53: "m < 2 ^ 53" by (simp only: of_nat_less_iff)
  have sub: "m < 2 ^ 52 \<longrightarrow> e = - 1074"
  proof
    assume "m < 2 ^ 52"
    then have "(of_nat m :: rat) < of_nat (2 ^ 52)" by (simp only: of_nat_less_iff)
    then have "\<bar>r\<bar> < 2 ^ 52 * pow2 e" using abs by simp
    also have "\<dots> = pow2 (e + 52)" by (simp add: pow2_add pow2_of_nat [of 52, simplified])
    finally have "ilog2 \<bar>r\<bar> < e + 52" using lo by (metis le_less_trans pow2_less_iff)
    then show "e = - 1074" by (auto simp: e_def ulp_exp_def max_def split: if_splits)
  qed
  have ovf: "2 ^ 52 \<le> m \<longrightarrow> e \<le> 971"
  proof
    assume "2 ^ 52 \<le> m"
    then have "(of_nat (2 ^ 52) :: rat) \<le> of_nat m" by (simp only: of_nat_le_iff)
    then have "2 ^ 52 * pow2 e \<le> \<bar>r\<bar>" using abs by simp
    moreover have "2 ^ 52 * pow2 e = pow2 (e + 52)"
      by (simp add: pow2_add pow2_of_nat [of 52, simplified])
    moreover have "\<bar>r\<bar> < pow2 1024" using assms(1) by (simp add: pow2_def)
    ultimately have "pow2 (e + 52) < pow2 1024" by linarith
    then show "e \<le> 971" by simp
  qed
  have fl: "nat \<lfloor>\<bar>r\<bar> / pow2 e\<rfloor> = m" using abs by simp
  have e: "- 1074 \<le> e" by (simp add: e_def ulp_exp_def)
  show ?thesis
    by (rule that [of m, folded e_def, OF abs m53 fl sub e ovf m0])
qed

lemma bits_split:
  fixes f E :: nat
  assumes "f < 2 ^ 52" "E < 2 ^ 11"
  shows "odd (((if s then 2 ^ 63 else 0) + E * 2 ^ 52 + f) div 2 ^ 63) = s"
    and "((if s then 2 ^ 63 else 0) + E * 2 ^ 52 + f) div 2 ^ 52 mod 2 ^ 11 = E"
    and "((if s then 2 ^ 63 else 0) + E * 2 ^ 52 + f) mod 2 ^ 52 = f"
proof -
  have small: "E * 2 ^ 52 + f < 2 ^ 63"
  proof -
    have "E * 2 ^ 52 + f < E * 2 ^ 52 + 2 ^ 52" using assms(1) by simp
    also have "\<dots> = (E + 1) * 2 ^ 52" by (simp add: algebra_simps)
    also have "\<dots> \<le> 2 ^ 11 * 2 ^ 52" using assms(2) by (intro mult_right_mono) auto
    finally show ?thesis by simp
  qed
  have "((if s then 2 ^ 63 else 0) + E * 2 ^ 52 + f) div 2 ^ 63 = (if s then 1 else 0)"
    using small by (auto simp: add.assoc)
  then show "odd (((if s then 2 ^ 63 else 0) + E * 2 ^ 52 + f) div 2 ^ 63) = s" by simp
  define A where "A = (if s then 2 ^ 11 else 0) + E"
  have t: "(if s then 2 ^ 63 else 0) + E * 2 ^ 52 + f = f + A * 2 ^ 52"
    by (simp add: A_def)
  have "(f + A * 2 ^ 52) div 2 ^ 52 = A" "(f + A * 2 ^ 52) mod 2 ^ 52 = f"
    using assms(1) by (simp_all only: div_mult_self1 mod_mult_self1 div_less mod_less)
  moreover have "A mod 2 ^ 11 = E" using assms(2) by (simp add: A_def)
  ultimately show "((if s then 2 ^ 63 else 0) + E * 2 ^ 52 + f) div 2 ^ 52 mod 2 ^ 11 = E"
    and "((if s then 2 ^ 63 else 0) + E * 2 ^ 52 + f) mod 2 ^ 52 = f"
    unfolding t by (simp_all only:)
qed

lemma bits_double_fields:
  assumes "f < 2 ^ 52" "E < 2 ^ 11"
  shows "bits_double ((if s then 2 ^ 63 else 0) + E * 2 ^ 52 + f) =
     (if E = 2047 then (if f = 0 then inf_of s else NaN)
      else if E = 0 then
        (if f = 0 then zero_of s else Fin ((if s then - 1 else 1) * (of_nat f * pow2 (- 1074))))
      else Fin ((if s then - 1 else 1) * (of_nat (2 ^ 52 + f) * pow2 (int E - 1075))))"
  unfolding bits_double_def Let_def bits_split [OF assms] ..

text \<open>What one side packs as a double, the other side reads back.\<close>

lemma bits_double_double_bits:
  assumes "wf_float x"
  shows "bits_double (double_bits x) = x"
proof (cases x)
  case (Fin r)
  show ?thesis
  proof (cases "r = 0")
    case True
    then show ?thesis using Fin bits_double_fields [of 0 0 False]
      by (simp add: double_bits_def zero_of_def)
  next
    case False
    obtain m where m: "\<bar>r\<bar> = of_nat m * pow2 (ulp_exp r)" "m < 2 ^ 53"
      "nat \<lfloor>\<bar>r\<bar> / pow2 (ulp_exp r)\<rfloor> = m"
      "m < 2 ^ 52 \<longrightarrow> ulp_exp r = - 1074" "- 1074 \<le> ulp_exp r"
      "2 ^ 52 \<le> m \<longrightarrow> ulp_exp r \<le> 971" "0 < m"
      using wf_float_mantissa assms False Fin by blast
    have r: "r = (if r < 0 then - 1 else 1) * \<bar>r\<bar>" by simp
    show ?thesis
    proof (cases "m < 2 ^ 52")
      case True
      have "double_bits x = (if r < 0 then 2 ^ 63 else 0) + 0 * 2 ^ 52 + m"
        using Fin False True m(3) by (simp add: double_bits_def Let_def)
      then show ?thesis
        using bits_double_fields [of m 0 "r < 0"] True m(1,4,7) r Fin by simp
    next
      case big: False
      define E where "E = nat (ulp_exp r + 1075)"
      have E: "E < 2 ^ 11" "E \<noteq> 2047" "E \<noteq> 0" "int E - 1075 = ulp_exp r"
        using m(5,6) big by (auto simp: E_def)
      have f: "m - 2 ^ 52 < 2 ^ 52" "2 ^ 52 + (m - 2 ^ 52) = m" using m(2) big by auto
      have "double_bits x = (if r < 0 then 2 ^ 63 else 0) + E * 2 ^ 52 + (m - 2 ^ 52)"
        using Fin False big m(3) by (simp add: double_bits_def Let_def E_def)
      then show ?thesis
        using bits_double_fields [OF f(1) E(1), of "r < 0"] E f(2) m(1) r Fin by simp
    qed
  qed
next
  case NegZero
  then show ?thesis using bits_double_fields [of 0 0 True]
    by (simp add: double_bits_def zero_of_def)
next
  case PosInf
  then show ?thesis using bits_double_fields [of 0 2047 False]
    by (simp add: double_bits_def inf_of_def)
next
  case NegInf
  then show ?thesis using bits_double_fields [of 0 2047 True]
    by (simp add: double_bits_def inf_of_def)
next
  case NaN
  then show ?thesis using bits_double_fields [of "2 ^ 51" 2047 False]
    by (simp add: double_bits_def)
qed

lemma double_bits_less: "wf_float x \<Longrightarrow> double_bits x < 2 ^ 64"
proof (cases x)
  case (Fin r)
  assume wf: "wf_float x"
  show ?thesis
  proof (cases "r = 0")
    case False
    obtain m where m: "m < 2 ^ 53" "nat \<lfloor>\<bar>r\<bar> / pow2 (ulp_exp r)\<rfloor> = m"
      "2 ^ 52 \<le> m \<longrightarrow> ulp_exp r \<le> 971"
      using wf_float_mantissa wf False Fin by blast
    show ?thesis
    proof (cases "m < 2 ^ 52")
      case True
      with False m Fin show ?thesis by (simp add: double_bits_def Let_def)
    next
      case big: False
      then have "nat (ulp_exp r + 1075) \<le> 2046" using m(3) by simp
      then have "nat (ulp_exp r + 1075) * 2 ^ 52 \<le> 2046 * 2 ^ 52" by (rule mult_right_mono) simp
      moreover have "double_bits x =
          (if r < 0 then 2 ^ 63 else 0) + (nat (ulp_exp r + 1075) * 2 ^ 52 + (m - 2 ^ 52))"
        using False m(2) big Fin by (simp add: double_bits_def Let_def)
      moreover have "nat (ulp_exp r + 1075) * 2 ^ 52 + (m - 2 ^ 52) < 2 ^ 63"
        using calculation(1) m(1) by simp
      ultimately show ?thesis by simp
    qed
  qed (use Fin in \<open>simp add: double_bits_def\<close>)
qed (auto simp: double_bits_def)

lemma wf_mantissa: "m < 2 ^ 53 \<Longrightarrow> - 1074 \<le> e \<Longrightarrow> e \<le> 971 \<Longrightarrow>
   wf_float (Fin ((if s then - 1 else 1) * (of_nat m * pow2 e)))"
proof -
  assume a: "m < (2 ^ 53 :: nat)" "- 1074 \<le> e" "e \<le> 971"
  let ?k = "(if s then - 1 else 1) * int m"
  have eq: "(if s then - 1 else 1) * (of_nat m * pow2 e) = of_int ?k * pow2 e" by simp
  have "\<bar>?k\<bar> \<le> 2 ^ 53" using a(1) by auto
  then have 1: "rnd (of_int ?k * pow2 e) = of_int ?k * pow2 e"
    using a(2) by (intro rnd_exact) auto
  have "(of_nat m :: rat) < of_nat (2 ^ 53)" using a(1) by (simp only: of_nat_less_iff)
  then have "of_nat m * pow2 e < 2 ^ 53 * pow2 e" by simp
  also have "\<dots> = pow2 (e + 53)" by (simp add: pow2_add pow2_of_nat [of 53, simplified])
  also have "\<dots> \<le> pow2 1024" using a(3) by (intro pow2_mono) simp
  also have "pow2 1024 = 2 ^ 1024" using pow2_of_nat [of 1024] by simp
  finally have 2: "\<bar>of_int ?k * pow2 e\<bar> < 2 ^ 1024" by (auto simp: abs_mult)
  show ?thesis unfolding eq wf_float.simps using 1 2 by blast
qed

lemma wf_bits_double [simp]: "wf_float (bits_double n)"
proof -
  define E f where "E = n div 2 ^ 52 mod 2 ^ 11" and "f = n mod 2 ^ 52"
  have f: "f < 2 ^ 52" "2 ^ 52 + f < 2 ^ 53" and E: "E < 2 ^ 11" by (auto simp: E_def f_def)
  have m: "wf_float (Fin ((if s then - 1 else 1) * (of_nat f * pow2 (- 1074))))" for s
    using f by (intro wf_mantissa) auto
  have "E \<noteq> 2047 \<Longrightarrow> E \<noteq> 0 \<Longrightarrow>
      wf_float (Fin ((if s then - 1 else 1) * (of_nat (2 ^ 52 + f) * pow2 (int E - 1075))))" for s
    using E f by (intro wf_mantissa) auto
  with m show ?thesis
    unfolding bits_double_def Let_def E_def [symmetric] f_def [symmetric]
    by (simp del: wf_float.simps add: wf_float.simps(5))
qed

section \<open>Packing and unpacking\<close>

datatype fmt = FmtB | FmtI | FmtQ | Fmtq | Fmtd
datatype sval = SInt int | SFlt pyfloat

fun fmt_size :: "fmt \<Rightarrow> nat" where
  "fmt_size FmtB = 1"
| "fmt_size FmtI = 4"
| "fmt_size FmtQ = 8"
| "fmt_size Fmtq = 8"
| "fmt_size Fmtd = 8"

definition calcsize :: "fmt list \<Rightarrow> nat" where
  "calcsize fs = sum_list (map fmt_size fs)"

definition pack_unsigned :: "nat \<Rightarrow> int \<Rightarrow> bytes res" where
  "pack_unsigned k v =
     (if 0 \<le> v \<and> v < 256 ^ k then Inr (be_bytes k (nat v)) else Inl StructError)"

fun pack_one :: "fmt \<Rightarrow> sval \<Rightarrow> bytes res" where
  "pack_one FmtB (SInt v) = pack_unsigned 1 v"
| "pack_one FmtI (SInt v) = pack_unsigned 4 v"
| "pack_one FmtQ (SInt v) = pack_unsigned 8 v"
| "pack_one Fmtq (SInt v) =
     (if - (2 ^ 63) \<le> v \<and> v < 2 ^ 63 then Inr (be_bytes 8 (nat (v mod 2 ^ 64)))
      else Inl StructError)"
| "pack_one Fmtd (SFlt x) = Inr (be_bytes 8 (double_bits x))"
| "pack_one Fmtd (SInt v) =
     (case int_to_float v of
        Inl _ \<Rightarrow> Inl StructError
      | Inr x \<Rightarrow> Inr (be_bytes 8 (double_bits x)))"
| "pack_one _ (SFlt _) = Inl StructError"

fun unpack_one :: "fmt \<Rightarrow> bytes \<Rightarrow> sval" where
  "unpack_one Fmtq bs =
     (let n = int (be_value bs) in SInt (if n < 2 ^ 63 then n else n - 2 ^ 64))"
| "unpack_one Fmtd bs = SFlt (bits_double (be_value bs))"
| "unpack_one _ bs = SInt (int (be_value bs))"

fun pack :: "fmt list \<Rightarrow> sval list \<Rightarrow> bytes res" where
  "pack [] [] = Inr []"
| "pack (f # fs) (v # vs) =
     res_bind (pack_one f v) (\<lambda>b. res_bind (pack fs vs) (\<lambda>bs. Inr (b @ bs)))"
| "pack _ _ = Inl StructError"

fun unpack_fields :: "fmt list \<Rightarrow> bytes \<Rightarrow> sval list" where
  "unpack_fields [] bs = []"
| "unpack_fields (f # fs) bs =
     unpack_one f (take (fmt_size f) bs) # unpack_fields fs (drop (fmt_size f) bs)"

definition unpack :: "fmt list \<Rightarrow> bytes \<Rightarrow> sval list res" where
  "unpack fs bs =
     (if length bs = calcsize fs then Inr (unpack_fields fs bs) else Inl StructError)"

text \<open>The values a code carries without loss.\<close>

fun fits :: "fmt \<Rightarrow> sval \<Rightarrow> bool" where
  "fits FmtB (SInt v) \<longleftrightarrow> 0 \<le> v \<and> v < 2 ^ 8"
| "fits FmtI (SInt v) \<longleftrightarrow> 0 \<le> v \<and> v < 2 ^ 32"
| "fits FmtQ (SInt v) \<longleftrightarrow> 0 \<le> v \<and> v < 2 ^ 64"
| "fits Fmtq (SInt v) \<longleftrightarrow> - (2 ^ 63) \<le> v \<and> v < 2 ^ 63"
| "fits Fmtd (SFlt x) \<longleftrightarrow> wf_float x"
| "fits _ _ \<longleftrightarrow> False"

lemma calcsize_simps [simp]:
  "calcsize [] = 0" "calcsize (f # fs) = fmt_size f + calcsize fs"
  by (simp_all add: calcsize_def)

lemma pack_one_length: "pack_one f v = Inr bs \<Longrightarrow> length bs = fmt_size f"
  by (cases f; cases v) (auto simp: pack_unsigned_def split: if_splits sum.splits)

lemma pack_unsigned_fits:
  assumes "0 \<le> v" "v < 256 ^ k"
  shows "pack_unsigned k v = Inr (be_bytes k (nat v)) \<and> int (be_value (be_bytes k (nat v))) = v"
proof -
  have "nat v < 256 ^ k" using assms by (simp add: nat_less_iff)
  with assms show ?thesis by (simp add: pack_unsigned_def)
qed

lemma pack_one_fits:
  assumes "fits f v"
  shows "\<exists>bs. pack_one f v = Inr bs \<and> unpack_one f bs = v"
proof (cases f)
  case Fmtq
  then obtain n where v: "v = SInt n" "- (2 ^ 63) \<le> n" "n < 2 ^ 63"
    using assms by (cases v) auto
  have "nat (n mod 2 ^ 64) < 256 ^ 8" by (simp add: nat_less_iff)
  then have "int (be_value (be_bytes 8 (nat (n mod 2 ^ 64)))) = n mod 2 ^ 64" by simp
  moreover have "n mod 2 ^ 64 = (if 0 \<le> n then n else n + 2 ^ 64)"
  proof (cases "0 \<le> n")
    case True
    with v show ?thesis by simp
  next
    case False
    have "n mod 2 ^ 64 = (n + 2 ^ 64) mod 2 ^ 64" by (rule mod_add_self2 [symmetric])
    also have "\<dots> = n + 2 ^ 64" using False v by (intro mod_pos_pos_trivial) auto
    finally show ?thesis using False by simp
  qed
  ultimately show ?thesis using Fmtq v by (auto simp: Let_def)
next
  case Fmtd
  then obtain x where "v = SFlt x" "wf_float x" using assms by (cases v) auto
  moreover have "double_bits x < 256 ^ 8" using double_bits_less [OF \<open>wf_float x\<close>] by simp
  ultimately show ?thesis using Fmtd by (simp add: bits_double_double_bits)
next
  case FmtB
  then show ?thesis using assms by (cases v) (auto dest: pack_unsigned_fits [of _ "Suc 0"])
next
  case FmtI
  then show ?thesis using assms by (cases v) (auto dest: pack_unsigned_fits [of _ 4])
next
  case FmtQ
  then show ?thesis using assms by (cases v) (auto dest: pack_unsigned_fits [of _ 8])
qed

lemma pack_one_Inr_fits: "pack_one f v = Inr bs \<Longrightarrow> f \<noteq> Fmtd \<Longrightarrow> fits f v"
  by (cases f; cases v) (auto simp: pack_unsigned_def split: if_splits)

lemma pack_one_out_of_range: "f \<noteq> Fmtd \<Longrightarrow> \<not> fits f v \<Longrightarrow> pack_one f v = Inl StructError"
  by (cases f; cases v) (auto simp: pack_unsigned_def)

lemma fits_unpack_one: "length bs = fmt_size f \<Longrightarrow> fits f (unpack_one f bs)"
  using be_value_less [of bs] by (cases f) (auto simp: Let_def)

lemma pack_unpack:
  assumes "list_all2 fits fs vs"
  shows "\<exists>bs. pack fs vs = Inr bs \<and> unpack fs bs = Inr vs \<and> length bs = calcsize fs"
  using assms
proof (induction fs vs rule: list_all2_induct)
  case (Cons f fs v vs)
  from pack_one_fits [OF Cons.hyps(1)] obtain b
    where b: "pack_one f v = Inr b" "unpack_one f b = v" by blast
  from Cons.IH obtain bs where
    bs: "pack fs vs = Inr bs" "unpack fs bs = Inr vs" "length bs = calcsize fs" by blast
  have "length b = fmt_size f" using b(1) by (rule pack_one_length)
  with b bs show ?case by (auto simp: unpack_def)
qed (simp add: unpack_def)

lemma pack_length: "pack fs vs = Inr bs \<Longrightarrow> length bs = calcsize fs"
  by (induction fs vs arbitrary: bs rule: pack.induct) (auto dest: pack_one_length)

lemma pack_Inl: "pack fs vs = Inl e \<Longrightarrow> e = StructError"
proof (induction fs vs rule: pack.induct)
  case (2 f fs v vs)
  have "\<And>e. pack_one f v = Inl e \<Longrightarrow> e = StructError"
    by (cases f; cases v) (auto simp: pack_unsigned_def split: if_splits sum.splits)
  with 2 show ?case by (auto simp: res_bind_eq_Inl)
qed auto

lemma unpack_length_error: "length bs \<noteq> calcsize fs \<Longrightarrow> unpack fs bs = Inl StructError"
  by (simp add: unpack_def)

lemma unpack_fields_fits:
  "length bs = calcsize fs \<Longrightarrow> list_all2 fits fs (unpack_fields fs bs)"
  by (induction fs bs rule: unpack_fields.induct) (auto intro: fits_unpack_one)

section \<open>The contract of a message codec\<close>

text \<open>
  A message is one tag byte and a body of a fixed size; the receiver reads the tag,
  knows the size from it and decodes the body.  The laws: on the messages in range the
  encoder succeeds, writes its tag and exactly \<open>size\<close> bytes of body, and the decoder
  reads the message back from the body.
\<close>

locale tagged_codec =
  fixes enc :: "'m \<Rightarrow> bytes res"
    and dec :: "bytes \<Rightarrow> 'm res"
    and valid :: "'m \<Rightarrow> bool"
    and tag :: byte
    and size :: nat
  assumes enc_valid:
    "valid m \<Longrightarrow> \<exists>body. enc m = Inr (tag # body) \<and> length body = size \<and> dec body = Inr m"
begin

lemma enc_dec: "valid m \<Longrightarrow> enc m = Inr bs \<Longrightarrow> hd bs = tag \<and> dec (tl bs) = Inr m"
  using enc_valid [of m] by auto

lemma enc_length: "valid m \<Longrightarrow> enc m = Inr bs \<Longrightarrow> length bs = Suc size"
  using enc_valid [of m] by auto

lemma enc_total: "valid m \<Longrightarrow> \<exists>bs. enc m = Inr bs"
  using enc_valid [of m] by auto

text \<open>Without a length prefix, concatenated messages still parse in one way only.\<close>

lemma enc_framing:
  assumes "valid m" "valid m'" "enc m = Inr bs" "enc m' = Inr bs'" "bs @ rest = bs' @ rest'"
  shows "m = m' \<and> rest = rest'"
proof -
  have "length bs = length bs'" using assms by (simp add: enc_length)
  with assms(5) have "bs = bs'" "rest = rest'" by auto
  moreover have "dec (tl bs) = Inr m" "dec (tl bs') = Inr m'"
    using assms enc_dec by blast+
  ultimately show ?thesis by simp
qed

end

end
