(* ===== verification/Protocol.thy ===== *)
theory Protocol
  imports Struct
begin

text \<open>
  \<^verbatim>\<open>strategy/orderbook_client/protocol.py\<close>: the enums, the message classes and the
  encoders and decoders of the order-book wire protocol, over the byte-level model of
  \<^verbatim>\<open>struct\<close>.  The lemmas give the payload table, the round trips (through the locale
  \<open>tagged_codec\<close>, interpreted here on the new-order and cancel messages), the exact range
  in which encoding succeeds, and every error branch of \<open>decode_event\<close>.
\<close>

section \<open>Enums\<close>

datatype MsgType = NEW_ORDER | CANCEL | SUBSCRIBE_FILLS | FILL | ACK

fun MsgType_value :: "MsgType \<Rightarrow> int" where
  "MsgType_value NEW_ORDER = 0x01"
| "MsgType_value CANCEL = 0x02"
| "MsgType_value SUBSCRIBE_FILLS = 0x03"
| "MsgType_value FILL = 0x10"
| "MsgType_value ACK = 0x11"

definition MsgType_of :: "int \<Rightarrow> MsgType res" where
  "MsgType_of v =
     (if v = 0x01 then Inr NEW_ORDER
      else if v = 0x02 then Inr CANCEL
      else if v = 0x03 then Inr SUBSCRIBE_FILLS
      else if v = 0x10 then Inr FILL
      else if v = 0x11 then Inr ACK
      else Inl ValueError)"

datatype Side = BUY | SELL

fun Side_value :: "Side \<Rightarrow> int" where
  "Side_value BUY = 0"
| "Side_value SELL = 1"

definition Side_of :: "int \<Rightarrow> Side res" where
  "Side_of v = (if v = 0 then Inr BUY else if v = 1 then Inr SELL else Inl ValueError)"

datatype OrderType = LIMIT | MARKET

fun OrderType_value :: "OrderType \<Rightarrow> int" where
  "OrderType_value LIMIT = 0"
| "OrderType_value MARKET = 1"

definition OrderType_of :: "int \<Rightarrow> OrderType res" where
  "OrderType_of v = (if v = 0 then Inr LIMIT else if v = 1 then Inr MARKET else Inl ValueError)"

lemma MsgType_of_value [simp]: "MsgType_of (MsgType_value t) = Inr t"
  by (cases t) (simp_all add: MsgType_of_def)

lemma Side_of_value [simp]: "Side_of (Side_value s) = Inr s"
  by (cases s) (simp_all add: Side_of_def)

lemma OrderType_of_value [simp]: "OrderType_of (OrderType_value t) = Inr t"
  by (cases t) (simp_all add: OrderType_of_def)

lemma Side_of_eq_Inr: "Side_of v = Inr s \<longleftrightarrow> v = Side_value s"
  by (cases s) (auto simp: Side_of_def)

lemma OrderType_of_eq_Inr: "OrderType_of v = Inr t \<longleftrightarrow> v = OrderType_value t"
  by (cases t) (auto simp: OrderType_of_def)

section \<open>Layouts and message classes\<close>

definition NEW_ORDER_FMT :: "fmt list" where
  "NEW_ORDER_FMT = [FmtQ, FmtB, FmtB, Fmtq, FmtI]"

definition CANCEL_FMT :: "fmt list" where
  "CANCEL_FMT = [FmtQ]"

definition FILL_FMT :: "fmt list" where
  "FILL_FMT = [FmtQ, FmtQ, FmtB, Fmtq, FmtI, FmtQ]"

definition ACK_FMT :: "fmt list" where
  "ACK_FMT = [FmtQ, FmtB, FmtB]"

fun PAYLOAD_SIZE :: "MsgType \<Rightarrow> nat" where
  "PAYLOAD_SIZE NEW_ORDER = calcsize NEW_ORDER_FMT"
| "PAYLOAD_SIZE CANCEL = calcsize CANCEL_FMT"
| "PAYLOAD_SIZE SUBSCRIBE_FILLS = 0"
| "PAYLOAD_SIZE FILL = calcsize FILL_FMT"
| "PAYLOAD_SIZE ACK = calcsize ACK_FMT"

record ClientOrderMsg =
  com_client_order_id :: int
  com_side :: Side
  com_order_type :: OrderType
  com_price_ticks :: int
  com_quantity :: int

record CancelMsg =
  cm_client_order_id :: int

record FillEvent =
  fe_resting_order_id :: int
  fe_incoming_order_id :: int
  fe_resting_side :: Side
  fe_price_ticks :: int
  fe_quantity :: int
  fe_timestamp :: int

definition incoming_side :: "FillEvent \<Rightarrow> Side" where
  "incoming_side f = (if fe_resting_side f = BUY then SELL else BUY)"

record AckEvent =
  ae_client_order_id :: int
  ae_request_type :: int
  ae_status :: int

definition ack_ok :: "AckEvent \<Rightarrow> bool" where
  "ack_ok a \<longleftrightarrow> ae_status a = 0"

datatype Event = Ack_Event AckEvent | Fill_Event FillEvent

section \<open>Encoders and decoders\<close>

definition payload_size :: "int \<Rightarrow> nat option" where
  "payload_size tag =
     (case MsgType_of tag of Inr t \<Rightarrow> Some (PAYLOAD_SIZE t) | Inl _ \<Rightarrow> None)"

definition tag_byte :: "MsgType \<Rightarrow> byte" where
  "tag_byte t = word_of_int (MsgType_value t)"

definition encode_new_order :: "ClientOrderMsg \<Rightarrow> bytes res" where
  "encode_new_order m =
     res_bind (pack NEW_ORDER_FMT
         [SInt (com_client_order_id m), SInt (Side_value (com_side m)),
          SInt (OrderType_value (com_order_type m)), SInt (com_price_ticks m),
          SInt (com_quantity m)])
       (\<lambda>body. Inr (tag_byte NEW_ORDER # body))"

fun new_order_of_fields :: "sval list \<Rightarrow> ClientOrderMsg res" where
  "new_order_of_fields [SInt client_order_id, SInt side, SInt order_type, SInt price_ticks, SInt quantity] =
     res_bind (Side_of side) (\<lambda>s.
     res_bind (OrderType_of order_type) (\<lambda>t.
     Inr \<lparr>com_client_order_id = client_order_id, com_side = s, com_order_type = t,
          com_price_ticks = price_ticks, com_quantity = quantity\<rparr>))"
| "new_order_of_fields _ = Inl ValueError"

definition decode_new_order :: "bytes \<Rightarrow> ClientOrderMsg res" where
  "decode_new_order payload = res_bind (unpack NEW_ORDER_FMT payload) new_order_of_fields"

definition encode_cancel :: "CancelMsg \<Rightarrow> bytes res" where
  "encode_cancel m =
     res_bind (pack CANCEL_FMT [SInt (cm_client_order_id m)])
       (\<lambda>body. Inr (tag_byte CANCEL # body))"

fun cancel_of_fields :: "sval list \<Rightarrow> CancelMsg res" where
  "cancel_of_fields [SInt client_order_id] = Inr \<lparr>cm_client_order_id = client_order_id\<rparr>"
| "cancel_of_fields _ = Inl ValueError"

definition decode_cancel :: "bytes \<Rightarrow> CancelMsg res" where
  "decode_cancel payload = res_bind (unpack CANCEL_FMT payload) cancel_of_fields"

definition encode_subscribe_fills :: bytes where
  "encode_subscribe_fills = [tag_byte SUBSCRIBE_FILLS]"

fun fill_of_fields :: "sval list \<Rightarrow> FillEvent res" where
  "fill_of_fields [SInt resting_id, SInt incoming_id, SInt resting_side, SInt price_ticks,
     SInt quantity, SInt timestamp] =
     res_bind (Side_of resting_side) (\<lambda>s.
     Inr \<lparr>fe_resting_order_id = resting_id, fe_incoming_order_id = incoming_id,
          fe_resting_side = s, fe_price_ticks = price_ticks, fe_quantity = quantity,
          fe_timestamp = timestamp\<rparr>)"
| "fill_of_fields _ = Inl ValueError"

definition decode_fill :: "bytes \<Rightarrow> FillEvent res" where
  "decode_fill payload = res_bind (unpack FILL_FMT payload) fill_of_fields"

fun ack_of_fields :: "sval list \<Rightarrow> AckEvent res" where
  "ack_of_fields [SInt client_order_id, SInt request_type, SInt status] =
     Inr \<lparr>ae_client_order_id = client_order_id, ae_request_type = request_type,
          ae_status = status\<rparr>"
| "ack_of_fields _ = Inl ValueError"

definition decode_ack :: "bytes \<Rightarrow> AckEvent res" where
  "decode_ack payload = res_bind (unpack ACK_FMT payload) ack_of_fields"

definition decode_event :: "int \<Rightarrow> bytes \<Rightarrow> Event res" where
  "decode_event tag payload =
     (if tag = MsgType_value FILL then
        res_bind (decode_fill payload) (\<lambda>f. Inr (Fill_Event f))
      else if tag = MsgType_value ACK then
        res_bind (decode_ack payload) (\<lambda>a. Inr (Ack_Event a))
      else Inl ValueError)"

section \<open>Ranges\<close>

definition order_in_range :: "ClientOrderMsg \<Rightarrow> bool" where
  "order_in_range m \<longleftrightarrow>
     0 \<le> com_client_order_id m \<and> com_client_order_id m < 2 ^ 64 \<and>
     - (2 ^ 63) \<le> com_price_ticks m \<and> com_price_ticks m < 2 ^ 63 \<and>
     0 \<le> com_quantity m \<and> com_quantity m < 2 ^ 32"

definition cancel_in_range :: "CancelMsg \<Rightarrow> bool" where
  "cancel_in_range m \<longleftrightarrow> 0 \<le> cm_client_order_id m \<and> cm_client_order_id m < 2 ^ 64"

lemmas fmt_defs = NEW_ORDER_FMT_def CANCEL_FMT_def FILL_FMT_def ACK_FMT_def

lemma payload_sizes [simp]:
  "calcsize NEW_ORDER_FMT = 22" "calcsize CANCEL_FMT = 8"
  "calcsize FILL_FMT = 37" "calcsize ACK_FMT = 10"
  by (simp_all add: fmt_defs)

lemma Side_value_fits [simp]: "fits FmtB (SInt (Side_value s))"
  by (cases s) auto

lemma OrderType_value_fits [simp]: "fits FmtB (SInt (OrderType_value t))"
  by (cases t) auto

lemma new_order_fits:
  "order_in_range m \<longleftrightarrow> list_all2 fits NEW_ORDER_FMT
     [SInt (com_client_order_id m), SInt (Side_value (com_side m)),
      SInt (OrderType_value (com_order_type m)), SInt (com_price_ticks m),
      SInt (com_quantity m)]"
  by (auto simp: order_in_range_def NEW_ORDER_FMT_def simp del: fits.simps(1))

definition fill_in_range :: "FillEvent \<Rightarrow> bool" where
  "fill_in_range f \<longleftrightarrow>
     0 \<le> fe_resting_order_id f \<and> fe_resting_order_id f < 2 ^ 64 \<and>
     0 \<le> fe_incoming_order_id f \<and> fe_incoming_order_id f < 2 ^ 64 \<and>
     - (2 ^ 63) \<le> fe_price_ticks f \<and> fe_price_ticks f < 2 ^ 63 \<and>
     0 \<le> fe_quantity f \<and> fe_quantity f < 2 ^ 32 \<and>
     0 \<le> fe_timestamp f \<and> fe_timestamp f < 2 ^ 64"

definition ack_in_range :: "AckEvent \<Rightarrow> bool" where
  "ack_in_range a \<longleftrightarrow>
     0 \<le> ae_client_order_id a \<and> ae_client_order_id a < 2 ^ 64 \<and>
     0 \<le> ae_request_type a \<and> ae_request_type a < 2 ^ 8 \<and>
     0 \<le> ae_status a \<and> ae_status a < 2 ^ 8"

fun event_in_range :: "Event \<Rightarrow> bool" where
  "event_in_range (Fill_Event f) = fill_in_range f"
| "event_in_range (Ack_Event a) = ack_in_range a"

section \<open>Round trips\<close>

lemma encode_new_order_enc:
  assumes "order_in_range m"
  shows "\<exists>body. encode_new_order m = Inr (tag_byte NEW_ORDER # body) \<and>
           length body = PAYLOAD_SIZE NEW_ORDER \<and> decode_new_order body = Inr m"
  using pack_unpack [OF assms [unfolded new_order_fits]]
  by (auto simp: encode_new_order_def decode_new_order_def)

lemma encode_cancel_enc:
  assumes "cancel_in_range m"
  shows "\<exists>body. encode_cancel m = Inr (tag_byte CANCEL # body) \<and>
           length body = PAYLOAD_SIZE CANCEL \<and> decode_cancel body = Inr m"
proof -
  have "list_all2 fits CANCEL_FMT [SInt (cm_client_order_id m)]"
    using assms by (simp add: cancel_in_range_def CANCEL_FMT_def)
  from pack_unpack [OF this] show ?thesis
    by (auto simp: encode_cancel_def decode_cancel_def)
qed

interpretation new_order_codec: tagged_codec encode_new_order decode_new_order order_in_range
    "tag_byte NEW_ORDER" "PAYLOAD_SIZE NEW_ORDER"
  by unfold_locales (rule encode_new_order_enc)

interpretation cancel_codec: tagged_codec encode_cancel decode_cancel cancel_in_range
    "tag_byte CANCEL" "PAYLOAD_SIZE CANCEL"
  by unfold_locales (rule encode_cancel_enc)

lemma encode_new_order_out_of_range:
  "\<not> order_in_range m \<Longrightarrow> encode_new_order m = Inl StructError"
proof (cases "encode_new_order m")
  case (Inl e)
  then show ?thesis
    by (auto simp: encode_new_order_def res_bind_eq_Inl dest: pack_Inl)
next
  case (Inr bs)
  assume "\<not> order_in_range m"
  with Inr show ?thesis
    by (auto simp: encode_new_order_def NEW_ORDER_FMT_def order_in_range_def pack_unsigned_def
        split: if_splits)
qed

section \<open>Decoding\<close>

lemma decode_fill_eq:
  assumes "length p = 37"
  shows "decode_fill p =
    (if unat (p ! 16) \<le> 1 then
       Inr \<lparr>fe_resting_order_id = int (be_value (take 8 p)),
            fe_incoming_order_id = int (be_value (take 8 (drop 8 p))),
            fe_resting_side = (if p ! 16 = 0 then BUY else SELL),
            fe_price_ticks = (let n = int (be_value (take 8 (drop 17 p))) in
              if n < 2 ^ 63 then n else n - 2 ^ 64),
            fe_quantity = int (be_value (take 4 (drop 25 p))),
            fe_timestamp = int (be_value (take 8 (drop 29 p)))\<rparr>
     else Inl ValueError)"
proof -
  have t: "take (Suc 0) (drop 16 p) = [p ! 16]"
    using assms by (simp add: take_Suc_conv_app_nth Cons_nth_drop_Suc [symmetric])
  have "be_value [p ! 16] = unat (p ! 16)" using be_value_snoc [of "[]" "p ! 16"] by simp
  moreover have "Side_of (uint (p ! 16)) =
      (if unat (p ! 16) \<le> 1 then Inr (if p ! 16 = 0 then BUY else SELL) else Inl ValueError)"
  proof -
    have "Side_of (int n) = (if n \<le> 1 then Inr (if n = 0 then BUY else SELL) else Inl ValueError)"
      for n by (auto simp: Side_of_def)
    then show ?thesis by (simp only: uint_nat unat_eq_zero)
  qed
  ultimately show ?thesis
    using assms t by (auto simp: decode_fill_def unpack_def FILL_FMT_def Let_def)
qed

lemma decode_ack_eq:
  "length p = 10 \<Longrightarrow> decode_ack p =
    Inr \<lparr>ae_client_order_id = int (be_value (take 8 p)),
         ae_request_type = int (be_value (take 1 (drop 8 p))),
         ae_status = int (be_value (take 1 (drop 9 p)))\<rparr>"
  by (simp add: decode_ack_def unpack_def ACK_FMT_def)

lemma be_value_take_less: "be_value (take k bs) < 256 ^ k"
proof -
  have "be_value (take k bs) < 256 ^ length (take k bs)" by (rule be_value_less)
  also have "\<dots> \<le> 256 ^ k" by (intro power_increasing) auto
  finally show ?thesis .
qed

lemma decode_fill_in_range: "decode_fill p = Inr f \<Longrightarrow> fill_in_range f"
proof -
  assume d: "decode_fill p = Inr f"
  then have l: "length p = 37" by (auto simp: decode_fill_def unpack_def split: if_splits)
  show ?thesis
    using d be_value_take_less [of 8 p] be_value_take_less [of 8 "drop 8 p"]
      be_value_take_less [of 8 "drop 17 p"] be_value_take_less [of 4 "drop 25 p"]
      be_value_take_less [of 8 "drop 29 p"]
    by (auto simp: decode_fill_eq [OF l] fill_in_range_def Let_def split: if_splits)
qed

lemma decode_ack_in_range: "decode_ack p = Inr a \<Longrightarrow> ack_in_range a"
proof -
  assume d: "decode_ack p = Inr a"
  then have l: "length p = 10" by (auto simp: decode_ack_def unpack_def split: if_splits)
  show ?thesis
    using d be_value_take_less [of 8 p] be_value_take_less [of 1 "drop 8 p"]
      be_value_take_less [of 1 "drop 9 p"]
    by (auto simp: decode_ack_eq [OF l] ack_in_range_def)
qed

lemma decode_event_in_range: "decode_event tag p = Inr e \<Longrightarrow> event_in_range e"
  by (auto simp: decode_event_def decode_fill_in_range decode_ack_in_range split: if_splits)

lemma decode_fill_wrong_length: "length p \<noteq> 37 \<Longrightarrow> decode_fill p = Inl StructError"
  by (simp add: decode_fill_def unpack_length_error)

lemma decode_ack_wrong_length: "length p \<noteq> 10 \<Longrightarrow> decode_ack p = Inl StructError"
  by (simp add: decode_ack_def unpack_length_error)

section \<open>Properties\<close>

text \<open>C24: encoding a new order in the wire's ranges succeeds with the tag and exactly the
  22 bytes the receiver expects for that tag, and decoding them gives the order back;
  outside the ranges, and only there, encoding raises \<^verbatim>\<open>struct.error\<close>.\<close>

theorem new_order_wire_roundtrip:
  "(case encode_new_order m of
      Inl e \<Rightarrow> e = StructError \<and> \<not> order_in_range m
    | Inr bs \<Rightarrow> order_in_range m \<and> payload_size (uint (hd bs)) = Some (length (tl bs)) \<and>
        length bs = 23 \<and> decode_new_order (tl bs) = Inr m)"
proof (cases "order_in_range m")
  case True
  have "uint (tag_byte NEW_ORDER) = 1" by (simp add: tag_byte_def)
  with True new_order_codec.enc_valid [OF True] show ?thesis
    by (auto simp: payload_size_def MsgType_of_def)
qed (simp add: encode_new_order_out_of_range)

text \<open>The payload table, for every tag byte and beyond: the five known tags have the sizes
  of the engine's layout (22, 8, 0, 37, 10) and every other tag has none.\<close>

lemma payload_size_table:
  "payload_size tag =
     (if tag = 1 then Some 22 else if tag = 2 then Some 8 else if tag = 3 then Some 0
      else if tag = 16 then Some 37 else if tag = 17 then Some 10 else None)"
  by (auto simp: payload_size_def MsgType_of_def)

text \<open>Every way \<open>decode_event\<close> can fail: a tag that is not a server message raises
  \<^verbatim>\<open>ValueError\<close> whatever the payload, a payload of the wrong length raises
  \<^verbatim>\<open>struct.error\<close>, a fill whose side byte is neither 0 nor 1 raises \<^verbatim>\<open>ValueError\<close>, and
  nothing else fails.\<close>

lemma decode_event_error_cases:
  "decode_event tag p = Inl e \<longleftrightarrow>
     (tag \<noteq> 16 \<and> tag \<noteq> 17 \<and> e = ValueError) \<or>
     (tag = 16 \<and> length p \<noteq> 37 \<and> e = StructError) \<or>
     (tag = 17 \<and> length p \<noteq> 10 \<and> e = StructError) \<or>
     (tag = 16 \<and> length p = 37 \<and> 1 < unat (p ! 16) \<and> e = ValueError)"
  by (cases "length p = 37"; cases "length p = 10")
    (auto simp: decode_event_def res_bind_eq_Inl decode_fill_eq decode_ack_eq
      decode_fill_wrong_length decode_ack_wrong_length)

end
