(* ===== verification/Strategy.thy ===== *)
theory Strategy
  imports Protocol
begin

text \<open>
  \<^verbatim>\<open>strategy/orderbook_client/strategy.py\<close>: the actions a strategy returns and the
  \<open>FixedOffsetQuoter\<close>.  \<open>order_source\<close> is the interface the session loop relies on
  (the Python \<^verbatim>\<open>Strategy\<close> protocol plus what its callers take for granted: an order id
  is never used twice); its run lemmas are proved once and interpreted on the quoter here
  and on the delta hedger in its own theory.
\<close>

section \<open>Actions\<close>

record OrderRequest =
  or_order_id :: int
  or_side :: Side
  or_order_type :: OrderType
  or_price_ticks :: int
  or_quantity :: int

record CancelRequest =
  cr_order_id :: int

datatype StrategyAction = Order_Action OrderRequest | Cancel_Action CancelRequest

fun order_ids :: "StrategyAction list \<Rightarrow> int list" where
  "order_ids [] = []"
| "order_ids (Order_Action r # as) = or_order_id r # order_ids as"
| "order_ids (Cancel_Action c # as) = order_ids as"

fun cancel_ids :: "StrategyAction list \<Rightarrow> int list" where
  "cancel_ids [] = []"
| "cancel_ids (Order_Action r # as) = cancel_ids as"
| "cancel_ids (Cancel_Action c # as) = cr_order_id c # cancel_ids as"

lemma order_ids_append [simp]: "order_ids (xs @ ys) = order_ids xs @ order_ids ys"
  by (induction xs rule: order_ids.induct) auto

lemma cancel_ids_append [simp]: "cancel_ids (xs @ ys) = cancel_ids xs @ cancel_ids ys"
  by (induction xs rule: cancel_ids.induct) auto

section \<open>The strategy interface\<close>

text \<open>What the session loop feeds a strategy: prices and fills, in any order.\<close>

datatype Stimulus = Price int | Fill_In FillEvent

fun strategy_run ::
  "('s \<Rightarrow> int \<Rightarrow> StrategyAction list res \<times> 's) \<Rightarrow> ('s \<Rightarrow> FillEvent \<Rightarrow> 's) \<Rightarrow>
   's \<Rightarrow> Stimulus list \<Rightarrow> (StrategyAction list \<times> 's) res" where
  "strategy_run on_price on_fill s [] = Inr ([], s)"
| "strategy_run on_price on_fill s (Price p # xs) =
     (case on_price s p of
        (Inl e, _) \<Rightarrow> Inl e
      | (Inr acts, s') \<Rightarrow>
          res_bind (strategy_run on_price on_fill s' xs) (\<lambda>(rest, s'').
          Inr (acts @ rest, s'')))"
| "strategy_run on_price on_fill s (Fill_In f # xs) =
     strategy_run on_price on_fill (on_fill s f) xs"

locale order_source =
  fixes on_price :: "'s \<Rightarrow> int \<Rightarrow> StrategyAction list res \<times> 's"
    and on_fill :: "'s \<Rightarrow> FillEvent \<Rightarrow> 's"
    and next_id :: "'s \<Rightarrow> int"
    and inv :: "'s \<Rightarrow> bool"
  assumes on_price_inv: "inv s \<Longrightarrow> on_price s p = (Inr acts, s') \<Longrightarrow> inv s'"
    and on_price_ids: "inv s \<Longrightarrow> on_price s p = (Inr acts, s') \<Longrightarrow>
      order_ids acts = [next_id s..next_id s' - 1] \<and> next_id s \<le> next_id s'"
    and on_fill_inv: "inv s \<Longrightarrow> inv (on_fill s f) \<and> next_id (on_fill s f) = next_id s"
begin

lemma run_inv:
  "inv s \<Longrightarrow> strategy_run on_price on_fill s xs = Inr (acts, s') \<Longrightarrow> inv s'"
proof (induction xs arbitrary: s acts)
  case (Cons x xs)
  show ?case
  proof (cases x)
    case (Price p)
    with Cons.prems obtain a t b where
      "on_price s p = (Inr a, t)" "strategy_run on_price on_fill t xs = Inr (b, s')"
      by (auto split: prod.splits sum.splits)
    with Cons.prems(1) Cons.IH show ?thesis by (blast dest: on_price_inv)
  next
    case (Fill_In f)
    with Cons.prems have "strategy_run on_price on_fill (on_fill s f) xs = Inr (acts, s')" by simp
    from Cons.IH [OF _ this] on_fill_inv [OF Cons.prems(1), of f] show ?thesis by simp
  qed
qed simp

text \<open>Over a whole run the ids are consecutive, so none is used twice.\<close>

lemma run_ids:
  "inv s \<Longrightarrow> strategy_run on_price on_fill s xs = Inr (acts, s') \<Longrightarrow>
   order_ids acts = [next_id s..next_id s' - 1] \<and> next_id s \<le> next_id s'"
proof (induction xs arbitrary: s acts)
  case (Cons x xs)
  show ?case
  proof (cases x)
    case (Price p)
    with Cons.prems obtain a t b where
      a: "on_price s p = (Inr a, t)" and
      b: "strategy_run on_price on_fill t xs = Inr (b, s')" and acts: "acts = a @ b"
      by (auto split: prod.splits sum.splits)
    note a_ids = on_price_ids [OF Cons.prems(1) a]
    note b_ids = Cons.IH [OF on_price_inv [OF Cons.prems(1) a] b]
    have "[next_id s..next_id s' - 1] = [next_id s..next_id t - 1] @ [next_id t..next_id s' - 1]"
      using a_ids b_ids upto_split1 [of "next_id s" "next_id t" "next_id s' - 1"]
      by (cases "next_id t \<le> next_id s' - 1") auto
    with a_ids b_ids acts show ?thesis by auto
  next
    case (Fill_In f)
    with Cons.prems have "strategy_run on_price on_fill (on_fill s f) xs = Inr (acts, s')" by simp
    from Cons.IH [OF _ this] on_fill_inv [OF Cons.prems(1), of f] show ?thesis by simp
  qed
qed simp

lemma run_ids_distinct:
  "inv s \<Longrightarrow> strategy_run on_price on_fill s xs = Inr (acts, s') \<Longrightarrow> distinct (order_ids acts)"
  using run_ids by fastforce

end

section \<open>FixedOffsetQuoter\<close>

record FixedOffsetQuoter =
  fq_offset :: int
  fq_size :: int
  fq_ids :: int  \<comment> \<open>the next value of \<^verbatim>\<open>itertools.count(1)\<close>\<close>
  fq_resting_buy :: "(int \<times> int) option"
  fq_resting_sell :: "(int \<times> int) option"

definition quoter_init :: "int \<Rightarrow> int \<Rightarrow> FixedOffsetQuoter" where
  "quoter_init offset_ticks sz =
     \<lparr>fq_offset = offset_ticks, fq_size = sz, fq_ids = 1,
      fq_resting_buy = None, fq_resting_sell = None\<rparr>"

text \<open>One iteration of the loop over the two sides in \<^verbatim>\<open>on_price\<close>.\<close>

fun requote_side ::
  "Side \<times> int \<Rightarrow> StrategyAction list \<times> StrategyAction list \<times> FixedOffsetQuoter \<Rightarrow>
   StrategyAction list \<times> StrategyAction list \<times> FixedOffsetQuoter" where
  "requote_side (side, target_price) (new_orders, cancels, q) =
     (let current = (if side = BUY then fq_resting_buy q else fq_resting_sell q) in
      if (case current of None \<Rightarrow> False | Some c \<Rightarrow> snd c = target_price)
      then (new_orders, cancels, q)
      else
        let order_id = fq_ids q;
            new_orders' = new_orders @ [Order_Action
              \<lparr>or_order_id = order_id, or_side = side, or_order_type = LIMIT,
               or_price_ticks = target_price, or_quantity = fq_size q\<rparr>];
            cancels' = (case current of
                None \<Rightarrow> cancels
              | Some c \<Rightarrow> cancels @ [Cancel_Action \<lparr>cr_order_id = fst c\<rparr>]);
            new_state = (order_id, target_price);
            q' = q\<lparr>fq_ids := order_id + 1\<rparr>
        in (new_orders', cancels',
            if side = BUY then q'\<lparr>fq_resting_buy := Some new_state\<rparr>
            else q'\<lparr>fq_resting_sell := Some new_state\<rparr>))"

definition quoter_on_price ::
  "FixedOffsetQuoter \<Rightarrow> int \<Rightarrow> StrategyAction list \<times> FixedOffsetQuoter" where
  "quoter_on_price q price_ticks =
     (case fold requote_side
             [(BUY, price_ticks - fq_offset q), (SELL, price_ticks + fq_offset q)]
             ([], [], q) of
        (new_orders, cancels, q') \<Rightarrow> (new_orders @ cancels, q'))"

definition quoter_on_fill :: "FixedOffsetQuoter \<Rightarrow> FillEvent \<Rightarrow> FixedOffsetQuoter" where
  "quoter_on_fill q event =
     (if (case fq_resting_buy q of None \<Rightarrow> False | Some b \<Rightarrow> fe_resting_order_id event = fst b)
      then q\<lparr>fq_resting_buy := None\<rparr>
      else if (case fq_resting_sell q of None \<Rightarrow> False | Some b \<Rightarrow> fe_resting_order_id event = fst b)
      then q\<lparr>fq_resting_sell := None\<rparr>
      else q)"

definition quoter_step :: "FixedOffsetQuoter \<Rightarrow> int \<Rightarrow> StrategyAction list res \<times> FixedOffsetQuoter" where
  "quoter_step q p = (case quoter_on_price q p of (acts, q') \<Rightarrow> (Inr acts, q'))"

subsection \<open>One tick\<close>

text \<open>The four possible outcomes of a side, as one equation.\<close>

lemma quoter_on_price_eq:
  "quoter_on_price q p =
    (let b = fq_resting_buy q; s = fq_resting_sell q; n = fq_ids q;
         tb = p - fq_offset q; ts = p + fq_offset q;
         nb = (\<nexists>i. b = Some (i, tb)); ns = (\<nexists>i. s = Some (i, ts));
         n' = (if nb then n + 1 else n) in
     ((if nb then [Order_Action \<lparr>or_order_id = n, or_side = BUY, or_order_type = LIMIT,
           or_price_ticks = tb, or_quantity = fq_size q\<rparr>] else []) @
      (if ns then [Order_Action \<lparr>or_order_id = n', or_side = SELL, or_order_type = LIMIT,
           or_price_ticks = ts, or_quantity = fq_size q\<rparr>] else []) @
      (if nb \<and> b \<noteq> None then [Cancel_Action \<lparr>cr_order_id = fst (the b)\<rparr>] else []) @
      (if ns \<and> s \<noteq> None then [Cancel_Action \<lparr>cr_order_id = fst (the s)\<rparr>] else []),
      q\<lparr>fq_ids := (if ns then n' + 1 else n'),
        fq_resting_buy := (if nb then Some (n, tb) else b),
        fq_resting_sell := (if ns then Some (n', ts) else s)\<rparr>))"
  by (cases q) (auto simp: quoter_on_price_def Let_def split: option.splits)

lemma quoter_first_tick:
  "quoter_on_price (quoter_init off sz) p =
    ([Order_Action \<lparr>or_order_id = 1, or_side = BUY, or_order_type = LIMIT,
        or_price_ticks = p - off, or_quantity = sz\<rparr>,
      Order_Action \<lparr>or_order_id = 2, or_side = SELL, or_order_type = LIMIT,
        or_price_ticks = p + off, or_quantity = sz\<rparr>],
     \<lparr>fq_offset = off, fq_size = sz, fq_ids = 3,
      fq_resting_buy = Some (1, p - off), fq_resting_sell = Some (2, p + off)\<rparr>)"
  by (simp add: quoter_on_price_eq quoter_init_def Let_def)

lemma quoter_state_after_price:
  assumes "quoter_on_price q p = (acts, q')"
  shows "\<exists>i j. fq_resting_buy q' = Some (i, p - fq_offset q) \<and>
                fq_resting_sell q' = Some (j, p + fq_offset q)"
  using assms unfolding quoter_on_price_eq Let_def by (auto split: if_splits)

lemma quoter_same_price:
  assumes "fq_resting_buy q = Some (i, p - fq_offset q)" "fq_resting_sell q = Some (j, p + fq_offset q)"
  shows "quoter_on_price q p = ([], q)"
  using assms by (simp add: quoter_on_price_eq Let_def)

lemma quoter_offset [simp]:
  "quoter_on_price q p = (acts, q') \<Longrightarrow> fq_offset q' = fq_offset q"
  unfolding quoter_on_price_eq Let_def by auto

lemma quoter_size_kept:
  "quoter_on_price q p = (acts, q') \<Longrightarrow> fq_size q' = fq_size q"
  unfolding quoter_on_price_eq Let_def by auto

subsection \<open>Invariant\<close>

definition tracked_ids :: "FixedOffsetQuoter \<Rightarrow> int set" where
  "tracked_ids q = fst ` (set_option (fq_resting_buy q) \<union> set_option (fq_resting_sell q))"

text \<open>
  Tracked ids have been issued, the two sides hold different orders, and two tracked
  quotes are exactly twice the offset apart.
\<close>

definition quoter_inv :: "FixedOffsetQuoter \<Rightarrow> bool" where
  "quoter_inv q \<longleftrightarrow>
     1 \<le> fq_ids q \<and>
     (case fq_resting_buy q of None \<Rightarrow> True | Some (i, b) \<Rightarrow> 1 \<le> i \<and> i < fq_ids q) \<and>
     (case fq_resting_sell q of None \<Rightarrow> True | Some (j, s) \<Rightarrow> 1 \<le> j \<and> j < fq_ids q) \<and>
     (case (fq_resting_buy q, fq_resting_sell q) of
        (Some (i, b), Some (j, s)) \<Rightarrow> i \<noteq> j \<and> s - b = 2 * fq_offset q
      | _ \<Rightarrow> True)"

lemma quoter_inv_init [simp]: "quoter_inv (quoter_init o_t sz)"
  by (simp add: quoter_inv_def quoter_init_def)

lemma quoter_inv_price: "quoter_inv q \<Longrightarrow> quoter_on_price q p = (acts, q') \<Longrightarrow> quoter_inv q'"
  unfolding quoter_on_price_eq Let_def quoter_inv_def
  by (auto split: option.splits if_splits)

lemma quoter_inv_fill: "quoter_inv q \<Longrightarrow> quoter_inv (quoter_on_fill q f)"
  by (auto simp: quoter_inv_def quoter_on_fill_def split: option.splits)

lemma quoter_order_ids:
  assumes "quoter_on_price q p = (acts, q')"
  shows "order_ids acts = [fq_ids q..fq_ids q' - 1] \<and> fq_ids q \<le> fq_ids q'"
proof -
  have two: "[n..n + 1] = [n, n + 1]" "[n..1 + n] = [n, n + 1]" for n :: int
    by (simp_all add: upto_rec1 add.commute)
  show ?thesis
    using assms unfolding quoter_on_price_eq Let_def by (auto simp: two split: if_splits)
qed

interpretation quoter_source: order_source quoter_step quoter_on_fill fq_ids quoter_inv
proof
  fix q p acts q'
  assume "quoter_inv q" and "quoter_step q p = (Inr acts, q')"
  then have q: "quoter_on_price q p = (acts, q')" by (auto simp: quoter_step_def split: prod.splits)
  show "quoter_inv q'" using \<open>quoter_inv q\<close> q by (rule quoter_inv_price)
  show "order_ids acts = [fq_ids q..fq_ids q' - 1] \<and> fq_ids q \<le> fq_ids q'"
    using q by (rule quoter_order_ids)
next
  fix q f
  assume "quoter_inv q"
  then show "quoter_inv (quoter_on_fill q f) \<and> fq_ids (quoter_on_fill q f) = fq_ids q"
    by (auto simp: quoter_inv_fill) (auto simp: quoter_on_fill_def)
qed

subsection \<open>Runs\<close>

abbreviation quoter_run ::
  "FixedOffsetQuoter \<Rightarrow> Stimulus list \<Rightarrow> (StrategyAction list \<times> FixedOffsetQuoter) res" where
  "quoter_run \<equiv> strategy_run quoter_step quoter_on_fill"

lemma quoter_run_total: "\<exists>acts q'. quoter_run q xs = Inr (acts, q')"
proof (induction xs arbitrary: q)
  case (Cons x xs)
  show ?case
  proof (cases x)
    case (Price p)
    obtain a t where a: "quoter_on_price q p = (a, t)" by (cases "quoter_on_price q p")
    from Cons [of t] obtain b q' where "quoter_run t xs = Inr (b, q')" by blast
    with a Price show ?thesis by (simp add: quoter_step_def [of q p])
  next
    case (Fill_In f)
    with Cons [of "quoter_on_fill q f"] show ?thesis by simp
  qed
qed simp

fun fill_resting_ids :: "Stimulus list \<Rightarrow> int list" where
  "fill_resting_ids [] = []"
| "fill_resting_ids (Price p # xs) = fill_resting_ids xs"
| "fill_resting_ids (Fill_In f # xs) = fe_resting_order_id f # fill_resting_ids xs"

text \<open>One tick cancels tracked orders only, drops what it cancels, and tracks what it submits.\<close>

lemma quoter_tick_ids:
  assumes "quoter_inv q" "quoter_on_price q p = (acts, q')"
  shows "set (cancel_ids acts) \<subseteq> tracked_ids q" "distinct (cancel_ids acts)"
    "tracked_ids q' = (tracked_ids q - set (cancel_ids acts)) \<union> {fq_ids q..<fq_ids q'}"
    "\<forall>i\<in>tracked_ids q. 1 \<le> i \<and> i < fq_ids q"
  using assms unfolding quoter_on_price_eq Let_def quoter_inv_def tracked_ids_def
  by (auto split: option.splits if_splits)

lemma quoter_fill_ids:
  "tracked_ids (quoter_on_fill q f) \<subseteq> tracked_ids q"
  "tracked_ids q \<subseteq> insert (fe_resting_order_id f) (tracked_ids (quoter_on_fill q f))"
  by (auto simp: tracked_ids_def quoter_on_fill_def split: option.splits if_splits)

lemma quoter_run_cancels:
  assumes "quoter_inv q" "quoter_run q xs = Inr (acts, q')"
  shows "set (cancel_ids acts) \<subseteq> tracked_ids q \<union> {fq_ids q..<fq_ids q'} \<and>
    distinct (cancel_ids acts) \<and>
    tracked_ids q' \<subseteq> (tracked_ids q \<union> {fq_ids q..<fq_ids q'}) - set (cancel_ids acts) \<and>
    tracked_ids q \<union> {fq_ids q..<fq_ids q'} \<subseteq>
      tracked_ids q' \<union> set (cancel_ids acts) \<union> set (fill_resting_ids xs)"
  using assms
proof (induction xs arbitrary: q acts)
  case (Cons x xs)
  show ?case
  proof (cases x)
    case (Price p)
    with Cons.prems obtain a t b where a: "quoter_on_price q p = (a, t)"
      and b: "quoter_run t xs = Inr (b, q')" and acts: "acts = a @ b"
      by (auto simp: quoter_step_def [of q p] split: prod.splits)
    note tick = quoter_tick_ids [OF Cons.prems(1) a]
    have inv: "quoter_inv t" using Cons.prems(1) a by (rule quoter_inv_price)
    have le: "fq_ids q \<le> fq_ids t" "fq_ids t \<le> fq_ids q'"
      using quoter_order_ids [OF a] quoter_source.run_ids [OF inv b] by auto
    then have "{fq_ids q..<fq_ids q'} = {fq_ids q..<fq_ids t} \<union> {fq_ids t..<fq_ids q'}" by auto
    moreover have "set (cancel_ids a) \<inter> (tracked_ids t \<union> {fq_ids t..<fq_ids q'}) = {}"
      using tick le by fastforce
    ultimately show ?thesis
      using Cons.IH [OF inv b] tick Price acts by auto
  next
    case (Fill_In f)
    with Cons.prems have b: "quoter_run (quoter_on_fill q f) xs = Inr (acts, q')" by simp
    note inv = quoter_source.on_fill_inv [OF Cons.prems(1), of f]
    show ?thesis
      using Cons.IH [OF _ b] inv quoter_fill_ids [of q f] Fill_In by auto
  qed
qed simp

section \<open>Properties\<close>

text \<open>Whatever the quoter held before, after a price tick it tracks a buy exactly
  \<open>offset\<close> below and a sell exactly \<open>offset\<close> above the price, all fresh orders precede all
  cancels, at most one order and one cancel per side are sent, and a second tick at the same
  price sends nothing.\<close>

lemma quoter_requotes:
  assumes "quoter_on_price q p = (acts, q')"
  shows "(\<exists>i j. fq_resting_buy q' = Some (i, p - fq_offset q) \<and>
                fq_resting_sell q' = Some (j, p + fq_offset q)) \<and>
    (\<exists>os cs. acts = map Order_Action os @ map Cancel_Action cs \<and>
       length cs \<le> length os \<and> length os \<le> 2) \<and>
    quoter_on_price q' p = ([], q')"
proof (intro conjI)
  show s: "\<exists>i j. fq_resting_buy q' = Some (i, p - fq_offset q) \<and>
                fq_resting_sell q' = Some (j, p + fq_offset q)"
    using assms by (rule quoter_state_after_price)
  show "quoter_on_price q' p = ([], q')"
    using s quoter_same_price [of q'] quoter_offset [OF assms] by auto
  let ?b = "\<nexists>i. fq_resting_buy q = Some (i, p - fq_offset q)"
  let ?s = "\<nexists>i. fq_resting_sell q = Some (i, p + fq_offset q)"
  let ?o = "\<lambda>i sd t. \<lparr>or_order_id = i, or_side = sd, or_order_type = LIMIT,
               or_price_ticks = t, or_quantity = fq_size q\<rparr>"
  let ?os = "(if ?b then [?o (fq_ids q) BUY (p - fq_offset q)] else []) @
     (if ?s then [?o (if ?b then fq_ids q + 1 else fq_ids q) SELL (p + fq_offset q)] else [])"
  let ?cs = "(if ?b \<and> fq_resting_buy q \<noteq> None then [\<lparr>cr_order_id = fst (the (fq_resting_buy q))\<rparr>] else []) @
     (if ?s \<and> fq_resting_sell q \<noteq> None then [\<lparr>cr_order_id = fst (the (fq_resting_sell q))\<rparr>] else [])"
  have "acts = map Order_Action ?os @ map Cancel_Action ?cs"
    using assms unfolding quoter_on_price_eq Let_def by auto
  moreover have "length ?cs \<le> length ?os" "length ?os \<le> 2" by auto
  ultimately show "\<exists>os cs. acts = map Order_Action os @ map Cancel_Action cs \<and>
       length cs \<le> length os \<and> length os \<le> 2" by blast
qed

lemma quoter_requotes_witness:
  "\<exists>acts q'. quoter_on_price (quoter_init 1 10) 100 = (acts, q') \<and>
     fq_resting_buy q' = Some (1, 99) \<and> fq_resting_sell q' = Some (2, 101) \<and>
     quoter_on_price q' 100 = ([], q')"
proof -
  obtain acts q' where q: "quoter_on_price (quoter_init 1 10) 100 = (acts, q')"
    by (cases "quoter_on_price (quoter_init 1 10) 100")
  then have "fq_resting_buy q' = Some (1, 99)" "fq_resting_sell q' = Some (2, 101)"
    unfolding quoter_first_tick by auto
  with quoter_requotes [OF q] q show ?thesis by blast
qed

text \<open>C26: over any run of prices and fills from a new quoter, however interleaved, the order
  ids are 1, 2, 3, ... without a gap or a repetition; an order is cancelled at most once and
  only after it was submitted; and every order submitted is still tracked, was cancelled, or
  was named as the resting order of some fill.\<close>

theorem quoter_orders_accounted:
  assumes "quoter_run (quoter_init offset_ticks sz) xs = Inr (acts, q)"
  shows "order_ids acts = [1..fq_ids q - 1] \<and>
    distinct (cancel_ids acts) \<and> set (cancel_ids acts) \<subseteq> set (order_ids acts) \<and>
    tracked_ids q \<subseteq> set (order_ids acts) - set (cancel_ids acts) \<and>
    set (order_ids acts) \<subseteq>
      tracked_ids q \<union> set (cancel_ids acts) \<union> set (fill_resting_ids xs)"
proof -
  let ?q = "quoter_init offset_ticks sz"
  have 0: "fq_ids ?q = 1" "tracked_ids ?q = {}"
    by (simp_all add: quoter_init_def tracked_ids_def)
  have "order_ids acts = [1..fq_ids q - 1]"
    using quoter_source.run_ids [OF _ assms] 0 by simp
  moreover have "{1..<fq_ids q} = set [1..fq_ids q - 1]" by auto
  ultimately show ?thesis
    using quoter_run_cancels [OF _ assms] 0 by simp
qed

theorem quoter_orders_accounted_witness:
  "\<exists>acts q. quoter_run (quoter_init 1 10) [Price 100, Price 102] = Inr (acts, q) \<and>
     order_ids acts = [1..4] \<and> set (cancel_ids acts) \<subseteq> set (order_ids acts)"
proof -
  obtain acts q where q: "quoter_run (quoter_init 1 10) [Price 100, Price 102] = Inr (acts, q)"
    using quoter_run_total by blast
  have "map_sum id (fq_ids \<circ> snd) (quoter_run (quoter_init 1 10) [Price 100, Price 102]) = Inr 5"
    by code_simp
  then have "fq_ids q = 5" unfolding q by simp
  with quoter_orders_accounted [OF q] q show ?thesis by auto
qed

text \<open>C27: a fill of any quantity, a partial one included, makes the quoter forget the resting
  order it names: no later run cancels it or sends that id again, so the unfilled
  remainder stays in the book for good.\<close>

theorem quoter_filled_order_never_cancelled:
  assumes "quoter_inv q" "i \<in> tracked_ids q" "fe_resting_order_id f = i"
    "quoter_run (quoter_on_fill q f) xs = Inr (acts, q')"
  shows "i \<notin> set (cancel_ids acts) \<and> i \<notin> set (order_ids acts) \<and> i \<notin> tracked_ids q'"
proof -
  have inv: "quoter_inv (quoter_on_fill q f)" and ids: "fq_ids (quoter_on_fill q f) = fq_ids q"
    using quoter_source.on_fill_inv [OF assms(1)] by auto
  have "i \<notin> tracked_ids (quoter_on_fill q f)" and "i < fq_ids q"
    using assms(1-3) by (auto simp: quoter_on_fill_def tracked_ids_def quoter_inv_def split: option.splits)
  then show ?thesis
    using quoter_run_cancels [OF inv assms(4)] quoter_source.run_ids [OF inv assms(4)] ids by auto
qed

theorem quoter_filled_order_never_cancelled_witness:
  "\<exists>q f acts q'. fe_quantity f = 4 \<and> fq_size q = 10 \<and> tracked_ids q = {1, 2} \<and>
     quoter_run (quoter_on_fill q f) [Price 100, Price 105] = Inr (acts, q') \<and>
     1 \<notin> set (cancel_ids acts)"
proof -
  let ?q = "\<lparr>fq_offset = 1, fq_size = 10, fq_ids = 3,
      fq_resting_buy = Some (1, 99), fq_resting_sell = Some (2, 101)\<rparr>"
  let ?f = "\<lparr>fe_resting_order_id = 1, fe_incoming_order_id = 77, fe_resting_side = BUY,
             fe_price_ticks = 99, fe_quantity = 4, fe_timestamp = 5\<rparr>"
  have q: "tracked_ids ?q = {1, 2}" "fq_size ?q = 10"
    by (auto simp: tracked_ids_def)
  have inv: "quoter_inv ?q" by (simp add: quoter_inv_def)
  obtain acts q' where r: "quoter_run (quoter_on_fill ?q ?f) [Price 100, Price 105] = Inr (acts, q')"
    using quoter_run_total by blast
  have "1 \<notin> set (cancel_ids acts)"
    using quoter_filled_order_never_cancelled [OF inv _ _ r, of 1] q(1) by simp
  with q r show ?thesis by (intro exI [of _ ?q] exI [of _ ?f]) auto
qed

end
