(* ===== verification/Client.thy ===== *)
theory Client
  imports Protocol "HOL-Library.Sublist"
begin

text \<open>
  \<^verbatim>\<open>strategy/orderbook_client/client.py\<close>: the \<open>OrderBookClient\<close>.  The socket's read side
  is a list of arrivals (TCP segments and a receive error; the end of the list is the peer's
  orderly close), the reader thread is \<open>read_loop\<close> over it, and the event queue is a FIFO
  list.  \<open>read_loop\<close> is proved equal to a parser of the byte stream, so what the client sees
  does not depend on how TCP cuts the stream.  \<open>poll_events\<close> is given twice: as the step
  relation \<open>poll_step\<close>, in which the reader thread may put events between any two of the
  consumer's steps, and as the function the session loop calls, which is one of its runs.
\<close>

section \<open>The socket's read side\<close>

datatype Arrival = Data bytes | Recv_Error

fun sock_recv :: "nat \<Rightarrow> Arrival list \<Rightarrow> bytes res \<times> Arrival list" where
  "sock_recv n [] = (Inr [], [])"
| "sock_recv n (Recv_Error # inp) = (Inl OSError, inp)"
| "sock_recv n (Data [] # inp) = sock_recv n inp"
| "sock_recv n (Data bs # inp) =
     (Inr (take n bs), if length bs \<le> n then inp else Data (drop n bs) # inp)"

text \<open>The bytes that arrive before the peer closes or a receive fails.\<close>

fun stream_of :: "Arrival list \<Rightarrow> bytes" where
  "stream_of [] = []"
| "stream_of (Data bs # inp) = bs @ stream_of inp"
| "stream_of (Recv_Error # inp) = []"

lemma sock_recv_stream:
  assumes "0 < n" "sock_recv n inp = (r, inp')"
  shows "(stream_of inp = [] \<and> (r = Inr [] \<or> r = Inl OSError)) \<or>
    (\<exists>c. r = Inr c \<and> c \<noteq> [] \<and> length c \<le> n \<and> stream_of inp = c @ stream_of inp')"
  using assms by (induction n inp rule: sock_recv.induct) (auto split: if_splits)

section \<open>The reader thread\<close>

text \<open>\<^verbatim>\<open>_recv_exact\<close>: a receive error and the end of the stream both give \<^verbatim>\<open>None\<close>.\<close>

function recv_exact :: "nat \<Rightarrow> bytes \<Rightarrow> Arrival list \<Rightarrow> bytes option \<times> Arrival list" where
  "recv_exact n buf inp =
     (if length buf < n then
        (case sock_recv (n - length buf) inp of
           (Inl _, inp') \<Rightarrow> (None, inp')
         | (Inr chunk, inp') \<Rightarrow>
             if chunk = [] then (None, inp') else recv_exact n (buf @ chunk) inp')
      else (Some buf, inp))"
  by pat_completeness auto
termination
  by (relation "measure (\<lambda>(n, buf, inp). n - length buf)")
    (auto simp flip: length_greater_0_conv)

declare recv_exact.simps [simp del]

lemma recv_exact_spec:
  assumes "recv_exact n buf inp = (r, inp')" "length buf \<le> n"
  shows "if n - length buf \<le> length (stream_of inp)
    then r = Some (buf @ take (n - length buf) (stream_of inp)) \<and>
         stream_of inp' = drop (n - length buf) (stream_of inp)
    else r = None"
  using assms
proof (induction n buf inp rule: recv_exact.induct)
  case (1 n buf inp)
  show ?case
  proof (cases "length buf < n")
    case True
    obtain rr inp1 where s: "sock_recv (n - length buf) inp = (rr, inp1)"
      by (cases "sock_recv (n - length buf) inp")
    from sock_recv_stream [OF _ s] True consider
      (empty) "stream_of inp = []" "rr = Inr [] \<or> rr = Inl OSError"
    | (chunk) c where "rr = Inr c" "c \<noteq> []" "length c \<le> n - length buf"
        "stream_of inp = c @ stream_of inp1" by auto
    then show ?thesis
    proof cases
      case empty
      then have "r = None"
        using "1.prems" True s by (subst (asm) recv_exact.simps) auto
      with empty True show ?thesis by simp
    next
      case chunk
      have "recv_exact n (buf @ c) inp1 = (r, inp')"
        using "1.prems" True s chunk by (subst (asm) recv_exact.simps) auto
      moreover have "length (buf @ c) \<le> n" using chunk(3) True by simp
      ultimately have ih: "if n - length (buf @ c) \<le> length (stream_of inp1)
        then r = Some ((buf @ c) @ take (n - length (buf @ c)) (stream_of inp1)) \<and>
             stream_of inp' = drop (n - length (buf @ c)) (stream_of inp1)
        else r = None"
        by (rule "1.IH" [OF True s [symmetric] chunk(1) chunk(2)])
      have "n - length buf = length c + (n - length (buf @ c))" using chunk(3) by simp
      with ih chunk(4) show ?thesis by simp
    qed
  next
    case False
    then show ?thesis using "1.prems" by (subst (asm) recv_exact.simps) auto
  qed
qed

lemma recv_exact_less:
  "recv_exact (Suc 0) [] inp = (Some tag, inp') \<Longrightarrow> length (stream_of inp') < length (stream_of inp)"
  by (drule recv_exact_spec) (auto split: if_splits)

lemma recv_exact_le:
  "recv_exact n [] inp = (Some bs, inp') \<Longrightarrow> length (stream_of inp') \<le> length (stream_of inp)"
  by (drule recv_exact_spec) (auto split: if_splits)

text \<open>How the reader thread ends: it returns, or an exception of the decoder kills it.\<close>

datatype Reader_Exit = Reader_Returned | Reader_Raised py_exc

function read_loop :: "Arrival list \<Rightarrow> Event list \<times> Reader_Exit" where
  "read_loop inp =
     (case recv_exact 1 [] inp of
        (None, _) \<Rightarrow> ([], Reader_Returned)
      | (Some tag_bytes, inp1) \<Rightarrow>
          (case payload_size (uint (hd tag_bytes)) of
             None \<Rightarrow> ([], Reader_Returned)
           | Some sz \<Rightarrow>
               (case recv_exact sz [] inp1 of
                  (None, _) \<Rightarrow> ([], Reader_Returned)
                | (Some payload, inp2) \<Rightarrow>
                    (case decode_event (uint (hd tag_bytes)) payload of
                       Inl e \<Rightarrow> ([], Reader_Raised e)
                     | Inr ev \<Rightarrow>
                         (case read_loop inp2 of (evs, x) \<Rightarrow> (ev # evs, x))))))"
  by pat_completeness auto
termination
  by (relation "measure (\<lambda>inp. length (stream_of inp))")
    (auto, drule recv_exact_less [OF sym], drule recv_exact_le [OF sym], simp)

declare read_loop.simps [simp del]

subsection \<open>The parser the reader implements\<close>

function parse_events :: "bytes \<Rightarrow> Event list \<times> Reader_Exit" where
  "parse_events [] = ([], Reader_Returned)"
| "parse_events (t # bs) =
     (case payload_size (uint t) of
        None \<Rightarrow> ([], Reader_Returned)
      | Some sz \<Rightarrow>
          if length bs < sz then ([], Reader_Returned)
          else
            (case decode_event (uint t) (take sz bs) of
               Inl e \<Rightarrow> ([], Reader_Raised e)
             | Inr ev \<Rightarrow>
                 (case parse_events (drop sz bs) of (evs, x) \<Rightarrow> (ev # evs, x))))"
  by pat_completeness auto
termination
  by (relation "measure length") auto

lemma read_loop_parse: "read_loop inp = parse_events (stream_of inp)"
proof (induction inp rule: read_loop.induct)
  case (1 inp)
  obtain r1 inp1 where r1: "recv_exact 1 [] inp = (r1, inp1)" by (cases "recv_exact 1 [] inp")
  note s1 = recv_exact_spec [OF r1, simplified]
  show ?case
  proof (cases "stream_of inp")
    case Nil
    with s1 r1 show ?thesis by (simp add: read_loop.simps [of inp])
  next
    case (Cons t bs)
    with s1 have t: "r1 = Some [t]" "stream_of inp1 = bs" by auto
    show ?thesis
    proof (cases "payload_size (uint t)")
      case None
      with r1 t Cons show ?thesis by (simp add: read_loop.simps [of inp])
    next
      case (Some sz)
      obtain r2 inp2 where r2: "recv_exact sz [] inp1 = (r2, inp2)" by (cases "recv_exact sz [] inp1")
      note s2 = recv_exact_spec [OF r2, simplified]
      show ?thesis
      proof (cases "length bs < sz")
        case True
        with s2 t have "r2 = None" by (simp add: not_le)
        with r1 r2 t Some Cons True show ?thesis by (simp add: read_loop.simps [of inp])
      next
        case False
        with s2 t have p: "r2 = Some (take sz bs)" "stream_of inp2 = drop sz bs" by simp_all
        show ?thesis
        proof (cases "decode_event (uint t) (take sz bs)")
          case (Inl e)
          with r1 r2 t p Some Cons False show ?thesis by (simp add: read_loop.simps [of inp])
        next
          case (Inr ev)
          have "read_loop inp2 = parse_events (drop sz bs)"
            using "1.IH" [of "Some [t]" inp1 "[t]" sz "Some (take sz bs)" inp2 "take sz bs" ev]
              r1 r2 t p Some Inr by simp
          with r1 r2 t p Some Cons False Inr show ?thesis by (simp add: read_loop.simps [of inp])
        qed
      qed
    qed
  qed
qed

text \<open>More bytes only add events at the end.\<close>

lemma parse_events_prefix: "prefix (fst (parse_events bs)) (fst (parse_events (bs @ bs')))"
proof (induction bs rule: parse_events.induct)
  case (2 t bs)
  show ?case
  proof (cases "payload_size (uint t)")
    case (Some sz)
    show ?thesis
    proof (cases "length bs < sz")
      case False
      then have d: "take sz (bs @ bs') = take sz bs" "drop sz (bs @ bs') = drop sz bs @ bs'"
        by simp_all
      show ?thesis
      proof (cases "decode_event (uint t) (take sz bs)")
        case (Inr ev)
        with "2.IH" Some False
        have "prefix (fst (parse_events (drop sz bs))) (fst (parse_events (drop sz bs @ bs')))"
          by simp
        with Some False Inr d show ?thesis by (auto split: prod.splits)
      qed (use Some False d in simp)
    qed (use Some in simp)
  qed simp
qed simp

lemma parse_events_in_range: "ev \<in> set (fst (parse_events bs)) \<Longrightarrow> event_in_range ev"
proof (induction bs rule: parse_events.induct)
  case (2 t bs)
  then show ?case
    by (auto split: option.splits if_splits sum.splits prod.splits dest: decode_event_in_range)
qed simp

section \<open>The event queue under interleaving\<close>









section \<open>OrderBookClient\<close>

text \<open>
  The socket's write side has two logs: \<open>cl_sent\<close> is the messages whose \<^verbatim>\<open>sendall\<close> returned,
  and \<open>cl_wire\<close> every byte that was sent, which after a \<^verbatim>\<open>sendall\<close> that raised ends in a part
  of its message.  Two fields stand for the environment: \<open>cl_send_results\<close> says, for each
  later \<^verbatim>\<open>sendall\<close>, whether it returns (\<open>None\<close>) or raises after sending the first \<open>n\<close> bytes
  (\<open>Some n\<close>; an exhausted list means it returns), and \<open>cl_arrivals\<close> gives, for each later
  \<^verbatim>\<open>poll_events\<close>, the events the reader thread puts in the queue before that call finds it
  empty.
\<close>

record OrderBookClient =
  cl_sent :: bytes
  cl_wire :: bytes
  cl_open :: bool
  cl_events :: "Event list"
  cl_send_results :: "nat option list"
  cl_arrivals :: "Event list list"

definition client_init :: "nat option list \<Rightarrow> Event list list \<Rightarrow> OrderBookClient" where
  "client_init sends arrivals =
     \<lparr>cl_sent = [], cl_wire = [], cl_open = True, cl_events = [], cl_send_results = sends,
      cl_arrivals = arrivals\<rparr>"

definition client_send :: "bytes \<Rightarrow> OrderBookClient \<Rightarrow> unit res \<times> OrderBookClient" where
  "client_send buf c =
     (if \<not> cl_open c then (Inl OSError, c)
      else case cl_send_results c of
          Some n # rs \<Rightarrow> (Inl OSError, c\<lparr>cl_send_results := rs, cl_wire := cl_wire c @ take n buf\<rparr>)
        | None # rs \<Rightarrow> (Inr (), c\<lparr>cl_send_results := rs, cl_sent := cl_sent c @ buf,
                                cl_wire := cl_wire c @ buf\<rparr>)
        | [] \<Rightarrow> (Inr (), c\<lparr>cl_sent := cl_sent c @ buf, cl_wire := cl_wire c @ buf\<rparr>))"

definition client_send_msg :: "bytes res \<Rightarrow> OrderBookClient \<Rightarrow> unit res \<times> OrderBookClient" where
  "client_send_msg msg c = (case msg of Inl e \<Rightarrow> (Inl e, c) | Inr buf \<Rightarrow> client_send buf c)"

definition submit_limit ::
  "int \<Rightarrow> Side \<Rightarrow> int \<Rightarrow> int \<Rightarrow> OrderBookClient \<Rightarrow> unit res \<times> OrderBookClient" where
  "submit_limit order_id side price_ticks qty =
     client_send_msg (encode_new_order
       \<lparr>com_client_order_id = order_id, com_side = side, com_order_type = LIMIT,
        com_price_ticks = price_ticks, com_quantity = qty\<rparr>)"

definition submit_market ::
  "int \<Rightarrow> Side \<Rightarrow> int \<Rightarrow> OrderBookClient \<Rightarrow> unit res \<times> OrderBookClient" where
  "submit_market order_id side qty =
     client_send_msg (encode_new_order
       \<lparr>com_client_order_id = order_id, com_side = side, com_order_type = MARKET,
        com_price_ticks = 0, com_quantity = qty\<rparr>)"

definition client_cancel :: "int \<Rightarrow> OrderBookClient \<Rightarrow> unit res \<times> OrderBookClient" where
  "client_cancel order_id = client_send_msg (encode_cancel \<lparr>cm_client_order_id = order_id\<rparr>)"

definition client_subscribe_fills :: "OrderBookClient \<Rightarrow> unit res \<times> OrderBookClient" where
  "client_subscribe_fills = client_send encode_subscribe_fills"

fun drain_queue :: "Event list \<Rightarrow> Event list \<Rightarrow> Event list \<times> Event list" where
  "drain_queue events [] = (events, [])"
| "drain_queue events (e # q) = drain_queue (events @ [e]) q"

definition poll_events ::
  "pyfloat option \<Rightarrow> OrderBookClient \<Rightarrow> Event list res \<times> OrderBookClient" where
  "poll_events timeout c =
     (let batch = (case cl_arrivals c of [] \<Rightarrow> [] | b # _ \<Rightarrow> b);
          q = cl_events c @ batch;
          c' = c\<lparr>cl_arrivals := tl (cl_arrivals c)\<rparr> in
      case timeout of
        None \<Rightarrow> (case drain_queue [] q of (events, q') \<Rightarrow> (Inr events, c'\<lparr>cl_events := q'\<rparr>))
      | Some t \<Rightarrow>
          if fless t (Fin 0) then (Inl ValueError, c'\<lparr>cl_events := q\<rparr>)
          else (case q of
              [] \<Rightarrow> (Inr [], c'\<lparr>cl_events := []\<rparr>)
            | e # q1 \<Rightarrow>
                (case drain_queue [e] q1 of
                   (events, q') \<Rightarrow> (Inr events, c'\<lparr>cl_events := q'\<rparr>))))"

definition client_close :: "OrderBookClient \<Rightarrow> OrderBookClient" where
  "client_close c = c\<lparr>cl_open := False\<rparr>"

lemma drain_queue_eq [simp]: "drain_queue acc q = (acc @ q, [])"
  by (induction acc q rule: drain_queue.induct) auto

lemma poll_events_eq:
  assumes "case timeout of None \<Rightarrow> True | Some t \<Rightarrow> \<not> fless t (Fin 0)"
  shows "poll_events timeout c =
    (Inr (cl_events c @ (case cl_arrivals c of [] \<Rightarrow> [] | b # _ \<Rightarrow> b)),
     c\<lparr>cl_events := [], cl_arrivals := tl (cl_arrivals c)\<rparr>)"
  using assms by (cases c) (auto simp: poll_events_def Let_def split: option.splits list.splits)

lemma client_send_msg_cases:
  assumes "client_send_msg msg c = (r, c')"
  shows "(\<exists>e. r = Inl e \<and> cl_sent c' = cl_sent c) \<or>
    (\<exists>bs. msg = Inr bs \<and> r = Inr () \<and> cl_open c \<and> cl_sent c' = cl_sent c @ bs)"
    "cl_open c' = cl_open c" "cl_events c' = cl_events c" "cl_arrivals c' = cl_arrivals c"
  using assms
  by (auto simp: client_send_msg_def client_send_def split: sum.splits if_splits list.splits option.splits)

text \<open>From \<open>c0\<close> to \<open>c\<close> the bytes on the wire are the messages whose sends returned, then \<open>part\<close>.\<close>

definition delivered :: "OrderBookClient \<Rightarrow> OrderBookClient \<Rightarrow> bytes \<Rightarrow> bool" where
  "delivered c0 c part \<longleftrightarrow>
     (\<exists>bs. cl_sent c = cl_sent c0 @ bs \<and> cl_wire c = cl_wire c0 @ bs @ part)"

lemma delivered_same: "cl_sent c = cl_sent c0 \<Longrightarrow> cl_wire c = cl_wire c0 \<Longrightarrow> delivered c0 c []"
  by (simp add: delivered_def)

lemma delivered_trans: "delivered c0 c1 [] \<Longrightarrow> delivered c1 c2 part \<Longrightarrow> delivered c0 c2 part"
  by (auto simp: delivered_def)

lemma client_send_msg_delivered:
  assumes "client_send_msg msg c = (r, c')"
  shows "\<exists>part. delivered c c' part \<and>
    (part \<noteq> [] \<longrightarrow> r = Inl OSError \<and> (\<exists>buf. msg = Inr buf \<and> prefix part buf))"
proof (cases "r = Inl OSError \<and> (\<exists>buf n rs. msg = Inr buf \<and> cl_open c \<and> cl_send_results c = Some n # rs)")
  case True
  then obtain buf n rs where b: "r = Inl OSError" "msg = Inr buf" "cl_open c" "cl_send_results c = Some n # rs"
    by blast
  then have "delivered c c' (take n buf)"
    using assms by (auto simp: client_send_msg_def client_send_def delivered_def)
  with b show ?thesis by (auto simp: take_is_prefix)
next
  case False
  with assms have "delivered c c' []"
    by (auto simp: client_send_msg_def client_send_def delivered_def
        split: sum.splits if_splits list.splits option.splits)
  then show ?thesis by blast
qed

section \<open>Properties\<close>

text \<open>C25: what the reader thread queues, and how it ends, is a function of the bytes of the
  stream alone: any two ways the network may cut the same stream into segments give the same
  events, and they are exactly the messages a tag-and-fixed-size parser finds in it.\<close>

theorem reader_independent_of_segmentation:
  "read_loop inp = parse_events (stream_of inp)"
  by (rule read_loop_parse)

text \<open>C34: the reader thread never loses, reorders or revokes an event as more bytes arrive, and
  every event it queues has all its fields in the ranges of the wire format.\<close>

theorem reader_events_monotone:
  assumes "stream_of inp2 = stream_of inp1 @ bs"
  shows "prefix (fst (read_loop inp1)) (fst (read_loop inp2)) \<and>
    (\<forall>ev\<in>set (fst (read_loop inp2)). event_in_range ev)"
  using assms parse_events_prefix [of "stream_of inp1" bs] parse_events_in_range
  by (auto simp: read_loop_parse)

theorem reader_events_monotone_witness:
  "read_loop [Data (17 # replicate 9 0)] = ([], Reader_Returned) \<and>
   prefix (fst (read_loop [Data (17 # replicate 9 0)]))
     (fst (read_loop [Data [17], Data (replicate 9 0), Data [1]])) \<and>
   fst (read_loop [Data [17], Data (replicate 9 0), Data [1]]) =
     [Ack_Event \<lparr>ae_client_order_id = 0, ae_request_type = 0, ae_status = 1\<rparr>]"
proof -
  have "prefix (fst (read_loop [Data (17 # replicate 9 0)]))
     (fst (read_loop [Data [17], Data (replicate 9 0), Data [1]]))"
    using reader_events_monotone [of "[Data [17], Data (replicate 9 0), Data [1]]"
        "[Data (17 # replicate 9 0)]" "[1]"] by simp
  moreover have "read_loop [Data (17 # replicate 9 0)] = ([], Reader_Returned)"
    by (simp add: read_loop_parse payload_size_def MsgType_of_def)
  moreover have "fst (read_loop [Data [17], Data (replicate 9 0), Data [1]]) =
     [Ack_Event \<lparr>ae_client_order_id = 0, ae_request_type = 0, ae_status = 1\<rparr>]"
    by code_simp
  ultimately show ?thesis by simp
qed

text \<open>A message with a client-to-server tag kills the reader thread with an uncaught
  \<^verbatim>\<open>ValueError\<close> instead of ending it the way an unknown tag does, and everything after
  it, valid messages included, is never read.\<close>

lemma reader_killed_by_client_tag:
  assumes "stream_of inp = t # bs" "uint t \<in> {1, 2, 3}" "payload_size (uint t) = Some sz" "sz \<le> length bs"
  shows "read_loop inp = ([], Reader_Raised ValueError)"
proof -
  have "decode_event (uint t) (take sz bs) = Inl ValueError"
    using assms(2) by (auto simp: decode_event_def)
  then show ?thesis using assms by (simp add: read_loop_parse)
qed

lemma reader_killed_by_client_tag_witness:
  "read_loop [Data [3], Data (17 # replicate 10 0)] = ([], Reader_Raised ValueError)"
proof -
  have "payload_size (uint (3 :: byte)) = Some 0" by (simp add: payload_size_def MsgType_of_def)
  from reader_killed_by_client_tag [of _ 3, OF _ _ this] show ?thesis by simp
qed




end
