(* ===== verification/Ticks.thy ===== *)
theory Ticks
  imports Float64
begin

text \<open>
  \<^verbatim>\<open>strategy/orderbook_client/ticks.py\<close>, the float-to-tick boundary, over binary64: the
  exact value of \<open>price_to_ticks\<close> on every float (it divides by a power of two, so the only
  rounding is the one to an integer), its errors, and the round trip with its exact range.
\<close>

definition TICK_SIZE :: pyfloat where
  "TICK_SIZE = Fin (1 / 4)"

definition price_to_ticks :: "pyfloat \<Rightarrow> int res" where
  "price_to_ticks price = res_bind (fdiv price TICK_SIZE) py_round"

definition ticks_to_price :: "int \<Rightarrow> pyfloat res" where
  "ticks_to_price ticks = fmul_int TICK_SIZE ticks"

lemma rnd_mult_pow2:
  assumes "rnd x = x" "0 \<le> k"
  shows "rnd (x * pow2 k) = x * pow2 k"
proof -
  obtain m where m: "rnd x = of_int m * pow2 (ulp_exp x)" "\<bar>m\<bar> \<le> 2 ^ 53" by (rule rnd_form)
  then have "x * pow2 k = of_int m * pow2 (ulp_exp x + k)"
    using assms(1) by (simp add: pow2_add)
  then show ?thesis using m(2) assms(2) by (intro rnd_exact) (auto simp: ulp_exp_def)
qed

lemma rnd_times_4: "rnd x = x \<Longrightarrow> rnd (4 * x) = 4 * x"
  using rnd_mult_pow2 [of x 2] by (simp add: mult.commute pow2_eval)

lemma price_to_ticks_Fin:
  assumes "rnd r = r"
  shows "price_to_ticks (Fin r) =
    (if 2 ^ 1024 \<le> \<bar>4 * r\<bar> then Inl OverflowError else Inr (round_half_even (4 * r)))"
proof -
  have q: "rnd (r / (1 / 4)) = 4 * r"
    using rnd_times_4 [OF assms] by (simp add: mult.commute)
  have z: "round_half_even 0 = 0" using round_half_even_of_int [of 0] by simp
  show ?thesis
    using q z by (auto simp: price_to_ticks_def fdiv_def TICK_SIZE_def to_float_def Let_def
        zero_of_def inf_of_def)
qed

lemma price_to_ticks_special:
  "price_to_ticks NegZero = Inr 0"
  "price_to_ticks NaN = Inl ValueError"
  "price_to_ticks PosInf = Inl OverflowError"
  "price_to_ticks NegInf = Inl OverflowError"
  by (simp_all add: price_to_ticks_def fdiv_def TICK_SIZE_def to_float_def zero_of_def inf_of_def)

lemma exact_quarter: "\<bar>n\<bar> \<le> 2 ^ 53 \<Longrightarrow> exact (of_int n / 4)"
proof -
  assume n: "\<bar>n\<bar> \<le> 2 ^ 53"
  have "rnd (of_int n / 4) = of_int n / 4"
    using rnd_exact [of "of_int n / 4" n "- 2"] n by (simp add: pow2_eval)
  moreover have "\<bar>of_int n :: rat\<bar> < 2 ^ 1024" using exact_of_int [OF n] by (simp add: exact_def)
  ultimately show ?thesis by (simp add: exact_def)
qed

lemma ticks_to_price_exact:
  assumes "\<bar>n\<bar> \<le> 2 ^ 53"
  shows "ticks_to_price n = Inr (if n = 0 then Fin 0 else Fin (of_int n / 4))"
  using assms to_float_exact [OF exact_quarter [OF assms]]
  by (auto simp: ticks_to_price_def fmul_int_def fmul_def TICK_SIZE_def Let_def zero_of_def)

section \<open>Properties\<close>

text \<open>C32: \<open>price_to_ticks\<close> on every binary64 price: it raises \<^verbatim>\<open>ValueError\<close> exactly for a NaN
  and \<^verbatim>\<open>OverflowError\<close> exactly for the infinities and the prices so large that four times the
  price overflows (at least 2^1024 in absolute value); every other price gives the integer
  nearest to price / 0.25, at most half a tick away, ties to even.\<close>

theorem price_to_ticks_nearest:
  assumes "wf_float price"
  shows "(case price_to_ticks price of
      Inl e \<Rightarrow> (price = NaN \<and> e = ValueError) \<or>
        (e = OverflowError \<and> (price = PosInf \<or> price = NegInf \<or> 2 ^ 1024 \<le> \<bar>4 * fval price\<bar>))
    | Inr n \<Rightarrow> is_finite price \<and> \<bar>4 * fval price\<bar> < 2 ^ 1024 \<and>
        \<bar>of_int n / 4 - fval price\<bar> \<le> 1 / 8 \<and>
        (\<bar>of_int n / 4 - fval price\<bar> = 1 / 8 \<longrightarrow> even n)) \<and>
    (price_to_ticks price = Inl ValueError \<longleftrightarrow> price = NaN) \<and>
    (price_to_ticks price = Inl OverflowError \<longleftrightarrow>
       price = PosInf \<or> price = NegInf \<or> is_finite price \<and> 2 ^ 1024 \<le> \<bar>4 * fval price\<bar>)"
proof (cases price)
  case (Fin r)
  have half: "\<bar>of_int (round_half_even (4 * r)) - 4 * r\<bar> = 1 / 2 \<Longrightarrow> even (round_half_even (4 * r))"
    by (rule round_half_even_tie)
  have near: "\<bar>of_int (round_half_even (4 * r)) - 4 * r\<bar> \<le> 1 / 2"
    by (rule round_half_even_error)
  have scale: "\<bar>of_int n / 4 - r\<bar> = \<bar>of_int n - 4 * r\<bar> / 4" for n
    by (simp add: abs_if field_simps)
  show ?thesis
    using assms Fin near half by (auto simp: price_to_ticks_Fin scale)
qed (simp_all add: price_to_ticks_special)

theorem price_to_ticks_nearest_witness:
  "price_to_ticks (Fin (4787 + 1 / 8)) = Inr 19148 \<and> wf_float (Fin (4787 + 1 / 8)) \<and>
   \<bar>of_int 19148 / 4 - (4787 + 1 / 8 :: rat)\<bar> \<le> 1 / 8"
proof -
  have r: "rnd (4787 + 1 / 8) = 4787 + 1 / 8"
    using rnd_exact [of "4787 + 1 / 8" 38297 "- 3"] by (simp add: pow2_eval)
  then have wf: "wf_float (Fin (4787 + 1 / 8))" by simp
  have "round_half_even (4 * (4787 + 1 / 8)) = 19148" by code_simp
  then have "price_to_ticks (Fin (4787 + 1 / 8)) = Inr 19148"
    using r by (simp add: price_to_ticks_Fin)
  with price_to_ticks_nearest [OF wf] wf show ?thesis by simp
qed

text \<open>A tick count of at most 2^53 in absolute value survives the trip through a float
  price unchanged, and the bound cannot be raised: 2^53 + 1 comes back as 2^53.\<close>

lemma tick_roundtrip:
  "(\<bar>t\<bar> \<le> 2 ^ 53 \<longrightarrow> res_bind (ticks_to_price t) price_to_ticks = Inr t) \<and>
   res_bind (ticks_to_price (2 ^ 53 + 1)) price_to_ticks = Inr (2 ^ 53)"
proof (intro conjI impI)
  assume t: "\<bar>t\<bar> \<le> 2 ^ 53"
  have "\<bar>of_int t :: rat\<bar> < 2 ^ 1024" using exact_of_int [OF t] by (simp add: exact_def)
  then show "res_bind (ticks_to_price t) price_to_ticks = Inr t"
    using exact_quarter [OF t] price_to_ticks_Fin [of 0] round_half_even_of_int [of t]
      round_half_even_of_int [of 0]
    by (auto simp: ticks_to_price_exact [OF t] price_to_ticks_Fin exact_def
        simp del: round_half_even_of_int)
next
  have "\<lfloor>(2 ^ 53 + 1) / 2 :: rat\<rfloor> = 2 ^ 52"
    by (rule floor_unique) simp_all
  then have "round_half_even ((2 ^ 53 + 1) / 2) = 2 ^ 52"
    by (simp add: round_half_even_def Let_def)
  then have r: "rnd (2 ^ 53 + 1) = 2 ^ 53"
    using rnd_binade [of 53 "2 ^ 53 + 1"] by (simp add: pow2_eval)
  have "exact (of_int (2 ^ 53) / 4)" by (rule exact_quarter) simp
  then have e: "exact (2 ^ 51)" by simp
  have "ticks_to_price (2 ^ 53 + 1) = Inr (Fin (2 ^ 51))"
    using r to_float_exact [OF e]
    by (simp add: ticks_to_price_def fmul_int_def int_to_float_def fmul_def TICK_SIZE_def)
  moreover have "round_half_even (4 * 2 ^ 51) = 2 ^ 53"
    using round_half_even_of_int [of "2 ^ 53"] by simp
  ultimately show "res_bind (ticks_to_price (2 ^ 53 + 1)) price_to_ticks = Inr (2 ^ 53)"
    using e by (simp add: price_to_ticks_Fin exact_def)
qed

lemma tick_roundtrip_witness:
  "res_bind (ticks_to_price 19149) price_to_ticks = Inr 19149"
  using tick_roundtrip [of 19149] by simp

end
