(* ===== verification/Feeds.thy ===== *)
theory Feeds
  imports Ticks
begin

text \<open>
  The three price feeds, which share one interface (\<open>next_price\<close>):
  \<^item> \<^verbatim>\<open>feed.py\<close>: \<open>SyntheticPriceFeed\<close>, a random walk.  The generator
    \<^verbatim>\<open>random.Random(seed)\<close> is a parameter: \<open>rng k\<close> is the index its k-th \<^verbatim>\<open>choice\<close>
    draws, and its documented contract is \<open>rng k < 5\<close> for a sequence of five.
  \<^item> \<^verbatim>\<open>historical_feed.py\<close>: \<open>HistoricalPriceFeed\<close> over a file system (a map from paths
    to CSV files, each a list of records of cells), with the downloader and the text form of
    a float (\<^verbatim>\<open>repr\<close> and \<^verbatim>\<open>float()\<close>) as parameters.
  \<^item> \<^verbatim>\<open>live_feed.py\<close>: \<open>LiveIBKRFeed\<close>.  The environment is a sequence without end: for each
    call it gives the clock reading and the ticks the IBKR thread queues before and during
    the wait, so only the deadline and an empty queue can end the feed; and
    \<^verbatim>\<open>_best_price\<close> of \<^verbatim>\<open>live_ib_client.py\<close>, which chooses what is queued.
  The locale \<open>finite_feed\<close> is what a session without a tick limit needs of its feed.
\<close>

section \<open>The interface of a feed that ends\<close>

text \<open>
  \<open>ends f\<close>: the feed is going to end; \<open>remaining\<close> bounds the prices it gives until then.
\<close>

locale finite_feed =
  fixes next_price :: "'f \<Rightarrow> int res \<times> 'f"
    and ends :: "'f \<Rightarrow> bool"
    and remaining :: "'f \<Rightarrow> nat"
  assumes next_price_decreases: "ends f \<Longrightarrow> next_price f = (Inr p, f') \<Longrightarrow> remaining f' < remaining f"
    and next_price_ends: "ends f \<Longrightarrow> next_price f = (Inr p, f') \<Longrightarrow> ends f'"
begin

text \<open>Asked often enough, the feed raises.\<close>

lemma prices_end:
  "ends f \<Longrightarrow> remaining f \<le> n \<Longrightarrow>
   (\<And>k. k \<le> n \<Longrightarrow> \<exists>p. fst (next_price (((\<lambda>g. snd (next_price g)) ^^ k) f)) = Inr p) \<Longrightarrow> False"
proof (induction n arbitrary: f)
  case 0
  then obtain p where "next_price f = (Inr p, snd (next_price f))"
    by (metis funpow_0 le_refl prod.collapse)
  with 0 next_price_decreases show ?case by fastforce
next
  case (Suc n)
  from Suc.prems(3) [of 0] obtain p where p: "next_price f = (Inr p, snd (next_price f))"
    by (metis funpow_0 le0 prod.collapse)
  then have "remaining (snd (next_price f)) \<le> n"
    using next_price_decreases Suc.prems(1,2) by fastforce
  moreover have "\<exists>p. fst (next_price (((\<lambda>g. snd (next_price g)) ^^ k) (snd (next_price f)))) = Inr p"
    if "k \<le> n" for k
    using Suc.prems(3) [of "Suc k"] that by (simp add: funpow_Suc_right del: funpow.simps)
  ultimately show ?case using Suc.IH next_price_ends [OF Suc.prems(1) p] by blast
qed

end

section \<open>SyntheticPriceFeed\<close>

definition STEPS :: "int list" where
  "STEPS = [- 2, - 1, 0, 1, 2]"

record SyntheticPriceFeed =
  sf_price :: int
  sf_rng :: "nat \<Rightarrow> nat"
  sf_draws :: nat

definition synthetic_init :: "int \<Rightarrow> (nat \<Rightarrow> nat) \<Rightarrow> SyntheticPriceFeed" where
  "synthetic_init start_price_ticks rng =
     \<lparr>sf_price = start_price_ticks, sf_rng = rng, sf_draws = 0\<rparr>"

definition synthetic_next_price :: "SyntheticPriceFeed \<Rightarrow> int res \<times> SyntheticPriceFeed" where
  "synthetic_next_price f =
     (let price = sf_price f + STEPS ! sf_rng f (sf_draws f) in
      (Inr price, f\<lparr>sf_price := price, sf_draws := sf_draws f + 1\<rparr>))"

fun synthetic_prices :: "nat \<Rightarrow> SyntheticPriceFeed \<Rightarrow> int list" where
  "synthetic_prices 0 f = []"
| "synthetic_prices (Suc n) f =
     (case synthetic_next_price f of
        (Inr p, f') \<Rightarrow> p # synthetic_prices n f'
      | (Inl _, _) \<Rightarrow> [])"

lemma STEPS_bound: "i < 5 \<Longrightarrow> \<bar>STEPS ! i\<bar> \<le> 2"
  by (cases i rule: nat.exhaust) (auto simp: STEPS_def nth_Cons split: nat.splits)

lemma synthetic_prices_length [simp]: "length (synthetic_prices n f) = n"
  by (induction n f rule: synthetic_prices.induct) (auto simp: synthetic_next_price_def Let_def)

section \<open>HistoricalPriceFeed\<close>

type_synonym csv_file = "string list list"
type_synonym file_system = "string \<Rightarrow> csv_file option"

definition py_replace :: "char \<Rightarrow> char \<Rightarrow> string \<Rightarrow> string" where
  "py_replace a b s = map (\<lambda>c. if c = a then b else c) s"

text \<open>\<^verbatim>\<open>os.path.join\<close> of two parts.\<close>

definition path_join :: "string \<Rightarrow> string \<Rightarrow> string" where
  "path_join a b =
     (if b \<noteq> [] \<and> hd b = CHR ''/'' then b
      else if a = [] \<or> last a = CHR ''/'' then a @ b
      else a @ ''/'' @ b)"

definition cache_path :: "string \<Rightarrow> string \<Rightarrow> string \<Rightarrow> string \<Rightarrow> string \<Rightarrow> string" where
  "cache_path cache_dir ticker start end_d interval =
     (let safe_ticker = py_replace (CHR ''/'') (CHR ''_'') (py_replace (CHR ''='') (CHR ''_'') ticker) in
      path_join cache_dir (safe_ticker @ ''_'' @ interval @ ''_'' @ start @ ''_'' @ end_d @ ''.csv''))"

text \<open>
  \<^verbatim>\<open>csv.DictReader\<close>: the first record names the fields, empty records are skipped, a field
  beyond the end of a short record is \<^verbatim>\<open>None\<close>, and of two fields with one name the last wins.
\<close>

fun row_field :: "string list \<Rightarrow> string list \<Rightarrow> string \<Rightarrow> string option res" where
  "row_field header row k =
     (case map_of (rev (zip header (map Some row @ replicate (length header - length row) None))) k of
        None \<Rightarrow> Inl KeyError
      | Some v \<Rightarrow> Inr v)"

definition read_close ::
  "(string \<Rightarrow> pyfloat res) \<Rightarrow> string list \<Rightarrow> string list \<Rightarrow> int res" where
  "read_close float_of_str header row =
     res_bind (row_field header row ''close'') (\<lambda>cell.
     res_bind (case cell of None \<Rightarrow> Inl TypeError | Some s \<Rightarrow> float_of_str s) price_to_ticks)"

fun read_cache :: "(string \<Rightarrow> pyfloat res) \<Rightarrow> csv_file \<Rightarrow> int list res" where
  "read_cache float_of_str [] = Inr []"
| "read_cache float_of_str (header # rows) =
     map_res (read_close float_of_str header) (filter (\<lambda>r. r \<noteq> []) rows)"

definition write_cache :: "(pyfloat \<Rightarrow> string) \<Rightarrow> pyfloat list \<Rightarrow> csv_file" where
  "write_cache repr closes = [''close''] # map (\<lambda>c. [repr c]) closes"

type_synonym Downloader = "string \<Rightarrow> string \<Rightarrow> string \<Rightarrow> string \<Rightarrow> pyfloat list res"

text \<open>
  \<^verbatim>\<open>yfinance_downloader\<close>: \<open>download\<close> is the call into the package, which gives the columns of a
  data frame or raises; older versions have a series of closes, newer ones a frame with a column
  for each ticker, of which the first is taken.
\<close>

datatype Close_Column =
    Close_Series "pyfloat list"
  | Close_Frame "pyfloat list list"

type_synonym Download = "string \<Rightarrow> string \<Rightarrow> string \<Rightarrow> string \<Rightarrow> (string \<Rightarrow> Close_Column option) res"

definition yfinance_downloader :: "Download \<Rightarrow> Downloader" where
  "yfinance_downloader download ticker start end_d interval =
     res_bind (download ticker start end_d interval) (\<lambda>df.
     case df ''Close'' of
       None \<Rightarrow> Inl KeyError
     | Some (Close_Series closes) \<Rightarrow> Inr closes
     | Some (Close_Frame []) \<Rightarrow> Inl IndexError
     | Some (Close_Frame (closes # _)) \<Rightarrow> Inr closes)"

definition load_or_download ::
  "(pyfloat \<Rightarrow> string) \<Rightarrow> (string \<Rightarrow> pyfloat res) \<Rightarrow> string \<Rightarrow> string \<Rightarrow> string \<Rightarrow> string \<Rightarrow> string \<Rightarrow>
   Downloader \<Rightarrow> file_system \<Rightarrow> int list res \<times> file_system" where
  "load_or_download repr float_of_str ticker start end_d interval cache_dir downloader fs =
     (let path = cache_path cache_dir ticker start end_d interval in
      case fs path of
        Some file \<Rightarrow> (read_cache float_of_str file, fs)
      | None \<Rightarrow>
          (case downloader ticker start end_d interval of
             Inl e \<Rightarrow> (Inl e, fs)
           | Inr closes \<Rightarrow>
               (let file = write_cache repr closes in
                (read_cache float_of_str file, fs(path \<mapsto> file)))))"

record HistoricalPriceFeed =
  hf_prices :: "int list"
  hf_index :: nat

definition historical_init :: "int list \<Rightarrow> HistoricalPriceFeed" where
  "historical_init prices = \<lparr>hf_prices = prices, hf_index = 0\<rparr>"

definition historical_next_price :: "HistoricalPriceFeed \<Rightarrow> int res \<times> HistoricalPriceFeed" where
  "historical_next_price f =
     (if length (hf_prices f) \<le> hf_index f then (Inl StopIteration, f)
      else (Inr (hf_prices f ! hf_index f), f\<lparr>hf_index := hf_index f + 1\<rparr>))"

definition historical_len :: "HistoricalPriceFeed \<Rightarrow> nat" where
  "historical_len f = length (hf_prices f)"

definition historical_remaining :: "HistoricalPriceFeed \<Rightarrow> nat" where
  "historical_remaining f = length (hf_prices f) - hf_index f"

interpretation historical: finite_feed historical_next_price "\<lambda>_. True" historical_remaining
  by unfold_locales
    (auto simp: historical_next_price_def historical_remaining_def split: if_splits)

section \<open>LiveIBKRFeed\<close>

record Ticker =
  tk_last :: pyfloat
  tk_bid :: pyfloat
  tk_ask :: pyfloat
  tk_close :: pyfloat

definition best_price :: "Ticker \<Rightarrow> pyfloat option res" where
  "best_price t =
     (if tk_last t \<noteq> NaN then Inr (Some (tk_last t))
      else if tk_bid t \<noteq> NaN \<and> tk_ask t \<noteq> NaN then
        res_bind (fdiv_int (fadd (tk_bid t) (tk_ask t)) 2) (\<lambda>m. Inr (Some m))
      else if tk_close t \<noteq> NaN then Inr (Some (tk_close t))
      else Inr None)"

text \<open>
  \<open>lf_env k\<close> holds, for the k-th call, the value of \<^verbatim>\<open>time.monotonic()\<close>, the ticks the callback
  has queued by the time \<^verbatim>\<open>get\<close> looks at the queue, and those it queues while \<^verbatim>\<open>get\<close> waits and
  until the next call; \<open>lf_calls\<close> counts the calls.  A wait longer than
  \<^verbatim>\<open>threading.TIMEOUT_MAX\<close> raises \<^verbatim>\<open>OverflowError\<close>, as \<^verbatim>\<open>threading\<close> documents.  With a NaN
  duration \<^verbatim>\<open>get\<close> waits without limit: the tick it waits for is then in the environment.
\<close>

type_synonym live_env = "nat \<Rightarrow> pyfloat \<times> pyfloat list \<times> pyfloat list"

record LiveIBKRFeed =
  lf_queue :: "pyfloat list"
  lf_deadline :: pyfloat
  lf_env :: live_env
  lf_calls :: nat

definition live_init :: "pyfloat \<Rightarrow> pyfloat \<Rightarrow> live_env \<Rightarrow> LiveIBKRFeed" where
  "live_init now duration_seconds env =
     \<lparr>lf_queue = [], lf_deadline = fadd now duration_seconds, lf_env = env, lf_calls = 0\<rparr>"

definition TIMEOUT_MAX :: pyfloat where
  "TIMEOUT_MAX = Fin 9223372036"

definition live_next_price :: "LiveIBKRFeed \<Rightarrow> int res \<times> LiveIBKRFeed" where
  "live_next_price f =
     (case lf_env f (lf_calls f) of (now, before, during) \<Rightarrow>
        (let remaining = fsub (lf_deadline f) now; q = lf_queue f @ before;
             f' = f\<lparr>lf_calls := lf_calls f + 1\<rparr> in
         if fless remaining (Fin 0) \<or> feq remaining (Fin 0)
         then (Inl StopIteration, f'\<lparr>lf_queue := q @ during\<rparr>)
         else (case q of
             price # q' \<Rightarrow> (price_to_ticks price, f'\<lparr>lf_queue := q' @ during\<rparr>)
           | [] \<Rightarrow>
               if fless TIMEOUT_MAX remaining then (Inl OverflowError, f'\<lparr>lf_queue := during\<rparr>)
               else (case during of
                   [] \<Rightarrow> (Inl StopIteration, f'\<lparr>lf_queue := []\<rparr>)
                 | price # q' \<Rightarrow> (price_to_ticks price, f'\<lparr>lf_queue := q'\<rparr>)))))"

text \<open>The clock of the k-th call has reached the deadline.\<close>

definition deadline_reached :: "LiveIBKRFeed \<Rightarrow> nat \<Rightarrow> bool" where
  "deadline_reached f k \<longleftrightarrow>
     (let remaining = fsub (lf_deadline f) (fst (lf_env f k)) in
      fless remaining (Fin 0) \<or> feq remaining (Fin 0))"

definition live_ends :: "LiveIBKRFeed \<Rightarrow> bool" where
  "live_ends f \<longleftrightarrow> (\<exists>k. deadline_reached f (lf_calls f + k))"

definition live_remaining :: "LiveIBKRFeed \<Rightarrow> nat" where
  "live_remaining f = (LEAST k. deadline_reached f (lf_calls f + k))"

lemma live_next_price_env:
  "live_next_price f = (r, f') \<Longrightarrow>
   lf_env f' = lf_env f \<and> lf_deadline f' = lf_deadline f \<and> lf_calls f' = lf_calls f + 1"
  by (auto simp: live_next_price_def Let_def split: prod.splits if_splits list.splits)

lemma live_next_price_deadline:
  "live_next_price f = (Inr p, f') \<Longrightarrow> \<not> deadline_reached f (lf_calls f)"
  by (auto simp: live_next_price_def deadline_reached_def Let_def split: prod.splits if_splits)

lemma live_remaining_le: "deadline_reached f (lf_calls f + k) \<Longrightarrow> live_remaining f \<le> k"
  unfolding live_remaining_def by (rule Least_le)

text \<open>Until the clock reaches the deadline, each call that gives a price brings it one call nearer.\<close>

lemma live_next_price_step:
  assumes "live_ends f" "live_next_price f = (Inr p, f')"
  shows "live_ends f' \<and> live_remaining f' < live_remaining f"
proof -
  note env = live_next_price_env [OF assms(2)]
  have d: "deadline_reached f (lf_calls f + live_remaining f)"
    using assms(1) unfolding live_ends_def live_remaining_def by (rule LeastI_ex)
  then obtain k where k: "live_remaining f = Suc k"
    using live_next_price_deadline [OF assms(2)] by (cases "live_remaining f") auto
  with d env have "deadline_reached f' (lf_calls f' + k)"
    by (simp add: deadline_reached_def)
  then show ?thesis using live_remaining_le [of f' k] k by (auto simp: live_ends_def)
qed

interpretation live: finite_feed live_next_price live_ends live_remaining
  by unfold_locales (use live_next_price_step in blast)+

section \<open>Lemmas\<close>

lemma synthetic_prices_bounds:
  assumes "\<And>k. sf_rng f k < 5" "i < n"
  shows "\<bar>synthetic_prices n f ! i - (if i = 0 then sf_price f else synthetic_prices n f ! (i - 1))\<bar> \<le> 2 \<and>
    \<bar>synthetic_prices n f ! i - sf_price f\<bar> \<le> 2 * (int i + 1)"
  using assms
proof (induction n f arbitrary: i rule: synthetic_prices.induct)
  case (2 n f)
  let ?p = "sf_price f + STEPS ! sf_rng f (sf_draws f)"
  let ?f = "f\<lparr>sf_price := ?p, sf_draws := sf_draws f + 1\<rparr>"
  have step: "synthetic_next_price f = (Inr ?p, ?f)"
    by (simp add: synthetic_next_price_def Let_def)
  have b: "\<bar>STEPS ! sf_rng f (sf_draws f)\<bar> \<le> 2"
    using "2.prems"(1) by (rule STEPS_bound)
  show ?case
  proof (cases i)
    case 0
    with b step show ?thesis by simp
  next
    case (Suc j)
    with "2.prems" have "j < n" by simp
    from "2.IH" [OF step [symmetric] refl _ this] "2.prems"(1) Suc step b
    show ?thesis by (auto split: if_splits simp: nth_Cons')
  qed
qed simp

lemma py_replace_length [simp]: "length (py_replace a b s) = length s"
  by (simp add: py_replace_def)

lemma load_or_download_cases:
  "load_or_download repr fos ticker start end_d interval cache_dir dl fs =
    (case fs (cache_path cache_dir ticker start end_d interval) of
       Some file \<Rightarrow> (read_cache fos file, fs)
     | None \<Rightarrow> (case dl ticker start end_d interval of
         Inl e \<Rightarrow> (Inl e, fs)
       | Inr closes \<Rightarrow> (read_cache fos (write_cache repr closes),
           fs(cache_path cache_dir ticker start end_d interval \<mapsto> write_cache repr closes))))"
  by (simp add: load_or_download_def Let_def split: option.splits sum.splits)

lemma read_write_cache:
  assumes "\<And>c. c \<in> set closes \<Longrightarrow> fos (repr c) = Inr c"
  shows "read_cache fos (write_cache repr closes) = map_res price_to_ticks closes"
  using assms
  by (induction closes) (simp_all add: write_cache_def read_close_def)

lemma historical_take:
  "map (\<lambda>k. fst (historical_next_price (((\<lambda>g. snd (historical_next_price g)) ^^ k) f))) [0..<n] =
     map (\<lambda>k. if hf_index f + k < length (hf_prices f) then Inr (hf_prices f ! (hf_index f + k))
              else Inl StopIteration) [0..<n]"
proof (rule map_cong [OF refl])
  fix k
  have "hf_prices (((\<lambda>g. snd (historical_next_price g)) ^^ k) f) = hf_prices f \<and>
    hf_index (((\<lambda>g. snd (historical_next_price g)) ^^ k) f) =
      (if length (hf_prices f) \<le> hf_index f then hf_index f
       else min (hf_index f + k) (length (hf_prices f)))"
    by (induction k) (auto simp: historical_next_price_def min_def)
  then show "fst (historical_next_price (((\<lambda>g. snd (historical_next_price g)) ^^ k) f)) =
    (if hf_index f + k < length (hf_prices f) then Inr (hf_prices f ! (hf_index f + k))
     else Inl StopIteration)"
    by (auto simp: historical_next_price_def min_def)
qed

text \<open>Several calls of the live feed, and the ones that took a tick from the queue.\<close>

fun live_calls :: "nat \<Rightarrow> LiveIBKRFeed \<Rightarrow> int res list \<times> LiveIBKRFeed" where
  "live_calls 0 f = ([], f)"
| "live_calls (Suc n) f =
     (case live_next_price f of
        (r, f') \<Rightarrow> (case live_calls n f' of (rs, f'') \<Rightarrow> (r # rs, f'')))"

text \<open>The ticks the environment queues in n calls from the k-th on.\<close>

definition live_ticks :: "live_env \<Rightarrow> nat \<Rightarrow> nat \<Rightarrow> pyfloat list" where
  "live_ticks env k n = concat (map (\<lambda>i. fst (snd (env i)) @ snd (snd (env i))) [k..<k + n])"

text \<open>What a call made of the tick it took, if it took one.\<close>

fun live_result :: "int res \<Rightarrow> pyfloat option \<Rightarrow> bool" where
  "live_result r (Some p) \<longleftrightarrow> r = price_to_ticks p"
| "live_result r None \<longleftrightarrow> r = Inl StopIteration \<or> r = Inl OverflowError"

lemma price_to_ticks_not_StopIteration: "price_to_ticks p \<noteq> Inl StopIteration"
proof
  assume "price_to_ticks p = Inl StopIteration"
  then obtain q where "py_round q = Inl StopIteration"
    by (auto simp: price_to_ticks_def res_bind_eq_Inl fdiv_def TICK_SIZE_def Let_def split: if_splits)
  then show False by (cases q) auto
qed

lemma live_next_price_cases:
  assumes "live_next_price f = (r, f')"
  shows "\<exists>t. live_result r t \<and>
    lf_queue f @ live_ticks (lf_env f) (lf_calls f) 1 = (case t of None \<Rightarrow> [] | Some p \<Rightarrow> [p]) @ lf_queue f'"
proof -
  obtain now before during where e: "lf_env f (lf_calls f) = (now, before, during)"
    by (cases "lf_env f (lf_calls f)")
  then have t: "live_ticks (lf_env f) (lf_calls f) 1 = before @ during" by (simp add: live_ticks_def)
  have "(live_result r None \<and> lf_queue f @ before @ during = lf_queue f') \<or>
    (\<exists>p. live_result r (Some p) \<and> lf_queue f @ before @ during = p # lf_queue f')"
    using assms e by (auto simp: live_next_price_def Let_def append_eq_Cons_conv
        split: if_splits list.splits)
  then show ?thesis
  proof
    assume "live_result r None \<and> lf_queue f @ before @ during = lf_queue f'"
    with t show ?thesis by (intro exI [of _ None]) simp
  next
    assume "\<exists>p. live_result r (Some p) \<and> lf_queue f @ before @ during = p # lf_queue f'"
    then obtain p where "live_result r (Some p)" "lf_queue f @ before @ during = p # lf_queue f'" by blast
    with t show ?thesis by (intro exI [of _ "Some p"]) simp
  qed
qed

lemma live_ticks_Suc: "live_ticks env k (Suc n) = live_ticks env k 1 @ live_ticks env (k + 1) n"
proof -
  have "[k..<k + Suc n] = k # [k + 1..<k + 1 + n]" by (simp add: upt_conv_Cons del: upt_Suc)
  moreover have "[k..<k + 1] = [k]" by simp
  ultimately show ?thesis unfolding live_ticks_def by (simp del: upt_Suc)
qed

lemma live_calls_fifo:
  "live_calls n f = (rs, f') \<Longrightarrow>
   \<exists>ts. list_all2 live_result rs ts \<and>
     lf_queue f @ live_ticks (lf_env f) (lf_calls f) n = List.map_filter id ts @ lf_queue f'"
proof (induction n arbitrary: f rs)
  case (Suc n)
  obtain r g where g: "live_next_price f = (r, g)" by (cases "live_next_price f")
  obtain rs' where rs': "live_calls n g = (rs', f')" and rs: "rs = r # rs'"
    using Suc.prems g by (auto split: prod.splits)
  from Suc.IH [OF rs'] obtain ts where ts: "list_all2 live_result rs' ts"
    "lf_queue g @ live_ticks (lf_env g) (lf_calls g) n = List.map_filter id ts @ lf_queue f'" by blast
  from live_next_price_cases [OF g] obtain t where t: "live_result r t"
    "lf_queue f @ live_ticks (lf_env f) (lf_calls f) 1 = (case t of None \<Rightarrow> [] | Some p \<Rightarrow> [p]) @ lf_queue g"
    by blast
  have "lf_queue f @ live_ticks (lf_env f) (lf_calls f) (Suc n) =
      (case t of None \<Rightarrow> [] | Some p \<Rightarrow> [p]) @ List.map_filter id ts @ lf_queue f'"
    using t(2) ts(2) live_next_price_env [OF g] unfolding live_ticks_Suc [of _ _ n]
    by (metis append_assoc)
  also have "\<dots> = List.map_filter id (t # ts) @ lf_queue f'"
    by (cases t) (simp_all add: map_filter_simps)
  finally show ?case using t(1) ts(1) rs by (metis list_all2_Cons)
qed (simp add: live_ticks_def map_filter_simps)

lemma cache_path_tail:
  "cache_path d tk s e i =
     path_join d (py_replace (CHR ''/'') (CHR ''_'') (py_replace (CHR ''='') (CHR ''_'') tk)
       @ ''_'' @ i @ ''_'' @ s @ ''_'' @ e @ ''.csv'')"
  by (simp add: cache_path_def)

lemma path_join_inject:
  assumes "b = [] \<or> hd b \<noteq> CHR ''/''" "b' = [] \<or> hd b' \<noteq> CHR ''/''"
  shows "path_join a b = path_join a b' \<longleftrightarrow> b = b'"
  using assms by (auto simp: path_join_def)

lemma safe_ticker_hd:
  "hd (py_replace (CHR ''/'') (CHR ''_'') t @ CHR ''_'' # r) \<noteq> CHR ''/''"
  by (cases t) (auto simp: py_replace_def)

section \<open>Properties\<close>

text \<open>The synthetic walk never moves more than two ticks at a time, so after n prices it is
  within 2n of its start, for every generator whose draws from five steps are in range.\<close>

lemma synthetic_walk_bounds:
  assumes "\<And>k. rng k < 5" "i < n"
  shows "\<bar>synthetic_prices n (synthetic_init start rng) ! i - start\<bar> \<le> 2 * (int i + 1) \<and>
    (0 < i \<longrightarrow> \<bar>synthetic_prices n (synthetic_init start rng) ! i
                - synthetic_prices n (synthetic_init start rng) ! (i - 1)\<bar> \<le> 2)"
  using synthetic_prices_bounds [of "synthetic_init start rng" i n] assms
  by (auto simp: synthetic_init_def)

lemma synthetic_walk_bounds_witness:
  "synthetic_prices 3 (synthetic_init 100 (\<lambda>k. k)) = [98, 97, 97] \<and>
   \<bar>synthetic_prices 3 (synthetic_init 100 (\<lambda>k. k mod 5)) ! 2 - 100\<bar> \<le> 6"
proof -
  have "synthetic_prices 3 (synthetic_init 100 (\<lambda>k. k)) = [98, 97, 97]" by code_simp
  with synthetic_walk_bounds [of "\<lambda>k. k mod 5" 2 3 100] show ?thesis by simp
qed

text \<open>C35: the first load of a cache miss gives the downloaded closes converted to ticks, in
  order (given that \<^verbatim>\<open>float()\<close> reads back what \<^verbatim>\<open>repr\<close> of each close writes); any later load
  gives the same result, the same error included, without consulting its downloader, and
  leaves the file system alone; no other path is written.\<close>

theorem historical_cache_stable:
  assumes "\<And>c. c \<in> set closes \<Longrightarrow> float_of_str (repr c) = Inr c"
    and "fs (cache_path cache_dir ticker start end_d interval) = None"
    and "downloader ticker start end_d interval = Inr closes"
    and "load_or_download repr float_of_str ticker start end_d interval cache_dir downloader fs = (r, fs')"
  shows "r = map_res price_to_ticks closes \<and>
    load_or_download repr float_of_str ticker start end_d interval cache_dir downloader' fs' = (r, fs') \<and>
    (\<forall>path. path \<noteq> cache_path cache_dir ticker start end_d interval \<longrightarrow> fs' path = fs path)"
  using assms read_write_cache [of closes float_of_str repr]
  by (auto simp: load_or_download_cases)

text \<open>A text form of floats for the witnesses: one character per value.\<close>

definition demo_repr :: "pyfloat \<Rightarrow> string" where
  "demo_repr x = (if x = NaN then ''n'' else if x = Fin 100 then ''h'' else ''z'')"

definition demo_float :: "string \<Rightarrow> pyfloat res" where
  "demo_float s = (if s = ''n'' then Inr NaN else if s = ''h'' then Inr (Fin 100)
     else if s = ''z'' then Inr (Fin 0) else Inl ValueError)"

lemma demo_ticks: "price_to_ticks (Fin 100) = Inr 400" "price_to_ticks (Fin 0) = Inr 0"
proof -
  have "rnd (100 :: rat) = 100" using rnd_of_int [of 100] by simp
  then show "price_to_ticks (Fin 100) = Inr 400"
    using round_half_even_of_int [of 400] by (simp add: price_to_ticks_Fin)
  show "price_to_ticks (Fin 0) = Inr 0"
    using round_half_even_of_int [of 0] by (simp add: price_to_ticks_Fin)
qed

theorem historical_cache_stable_witness:
  "\<exists>fs'. load_or_download demo_repr demo_float ''ES=F'' ''a'' ''b'' ''1d'' ''d''
       (\<lambda>_ _ _ _. Inr [Fin 100, Fin 0]) (\<lambda>_. None) = (Inr [400, 0], fs') \<and>
     load_or_download demo_repr demo_float ''ES=F'' ''a'' ''b'' ''1d'' ''d''
       (\<lambda>_ _ _ _. Inl OSError) fs' = (Inr [400, 0], fs')"
proof -
  obtain r fs' where l: "load_or_download demo_repr demo_float ''ES=F'' ''a'' ''b'' ''1d'' ''d''
       (\<lambda>_ _ _ _. Inr [Fin 100, Fin 0]) (\<lambda>_. None) = (r, fs')"
    by (cases "load_or_download demo_repr demo_float ''ES=F'' ''a'' ''b'' ''1d'' ''d''
       (\<lambda>_ _ _ _. Inr [Fin 100, Fin 0]) (\<lambda>_. None)")
  have "demo_float (demo_repr c) = Inr c" if "c \<in> set [Fin 100, Fin 0]" for c
    using that by (auto simp: demo_float_def demo_repr_def)
  note stable = historical_cache_stable [OF this _ refl l]
  have "r = Inr [400, 0]" using stable by (simp add: demo_ticks)
  with stable [of "\<lambda>_ _ _ _. Inl OSError"] l show ?thesis by auto
qed

text \<open>One NaN among the downloaded closes makes the first load raise after the file is
  written, and every later load of that request raises too, whatever its downloader
  would return: the cache is poisoned until the file is deleted by hand.\<close>

lemma historical_nan_poisons_cache:
  assumes "\<And>c. c \<in> set closes \<Longrightarrow> float_of_str (repr c) = Inr c" "NaN \<in> set closes"
    and "fs (cache_path cache_dir ticker start end_d interval) = None"
    and "downloader ticker start end_d interval = Inr closes"
    and "load_or_download repr float_of_str ticker start end_d interval cache_dir downloader fs = (r, fs')"
  shows "\<exists>e. r = Inl e \<and>
    load_or_download repr float_of_str ticker start end_d interval cache_dir downloader' fs' = (Inl e, fs')"
proof -
  obtain e where "map_res price_to_ticks closes = Inl e"
    using map_res_raises [of NaN closes price_to_ticks ValueError] assms(2)
    by (auto simp: price_to_ticks_special)
  with assms(1) have "read_cache float_of_str (write_cache repr closes) = Inl e"
    by (simp add: read_write_cache)
  with assms(3-5) show ?thesis
    by (intro exI [of _ e]) (auto simp: load_or_download_cases)
qed

lemma historical_nan_poisons_cache_witness:
  "\<exists>e fs'. load_or_download demo_repr demo_float ''ES=F'' ''a'' ''b'' ''1d'' ''d''
       (\<lambda>_ _ _ _. Inr [Fin 100, NaN]) (\<lambda>_. None) = (Inl e, fs') \<and>
     load_or_download demo_repr demo_float ''ES=F'' ''a'' ''b'' ''1d'' ''d''
       (\<lambda>_ _ _ _. Inr [Fin 100]) fs' = (Inl e, fs')"
proof -
  obtain r fs' where l: "load_or_download demo_repr demo_float ''ES=F'' ''a'' ''b'' ''1d'' ''d''
       (\<lambda>_ _ _ _. Inr [Fin 100, NaN]) (\<lambda>_. None) = (r, fs')"
    by (cases "load_or_download demo_repr demo_float ''ES=F'' ''a'' ''b'' ''1d'' ''d''
       (\<lambda>_ _ _ _. Inr [Fin 100, NaN]) (\<lambda>_. None)")
  have "demo_float (demo_repr c) = Inr c" if "c \<in> set [Fin 100, NaN]" for c
    using that by (auto simp: demo_float_def demo_repr_def)
  from historical_nan_poisons_cache [OF this _ _ refl l, of "\<lambda>_ _ _ _. Inr [Fin 100]"] l
  show ?thesis by auto
qed

text \<open>Two tickers share a cache file exactly when they agree after \<^verbatim>\<open>=\<close> and \<^verbatim>\<open>/\<close> are both
  read as an underscore; the second ticker is then served the first one's closes.\<close>

lemma cache_path_collision:
  "(cache_path cache_dir t1 start end_d interval = cache_path cache_dir t2 start end_d interval) =
     (map (\<lambda>c. if c = CHR ''='' \<or> c = CHR ''/'' then CHR ''_'' else c) t1 =
      map (\<lambda>c. if c = CHR ''='' \<or> c = CHR ''/'' then CHR ''_'' else c) t2) \<and>
   fst (load_or_download repr float_of_str ''ES/F'' start end_d interval cache_dir d2
     (snd (load_or_download repr float_of_str ''ES=F'' start end_d interval cache_dir (\<lambda>_ _ _ _. Inr closes) (\<lambda>_. None))))
   = read_cache float_of_str (write_cache repr closes)"
proof
  have safe: "py_replace (CHR ''/'') (CHR ''_'') (py_replace (CHR ''='') (CHR ''_'') t) =
     map (\<lambda>c. if c = CHR ''='' \<or> c = CHR ''/'' then CHR ''_'' else c) t" for t
    by (auto simp: py_replace_def)
  have hd: "hd (py_replace (CHR ''/'') (CHR ''_'') (py_replace (CHR ''='') (CHR ''_'') t)
       @ ''_'' @ interval @ ''_'' @ start @ ''_'' @ end_d @ ''.csv'') \<noteq> CHR ''/''" for t
    using safe_ticker_hd by simp
  show "(cache_path cache_dir t1 start end_d interval = cache_path cache_dir t2 start end_d interval) =
     (map (\<lambda>c. if c = CHR ''='' \<or> c = CHR ''/'' then CHR ''_'' else c) t1 =
      map (\<lambda>c. if c = CHR ''='' \<or> c = CHR ''/'' then CHR ''_'' else c) t2)"
    unfolding cache_path_tail path_join_inject [OF disjI2 [OF hd] disjI2 [OF hd]]
    by (simp add: safe)
  have "cache_path cache_dir ''ES/F'' start end_d interval = cache_path cache_dir ''ES=F'' start end_d interval"
    by (simp add: cache_path_def py_replace_def)
  then show "fst (load_or_download repr float_of_str ''ES/F'' start end_d interval cache_dir d2
     (snd (load_or_download repr float_of_str ''ES=F'' start end_d interval cache_dir (\<lambda>_ _ _ _. Inr closes) (\<lambda>_. None))))
   = read_cache float_of_str (write_cache repr closes)"
    by (simp add: load_or_download_cases)
qed

text \<open>A historical feed returns its prices in order, each once, and then raises
  \<^verbatim>\<open>StopIteration\<close> at every further call, for any number of calls.\<close>

lemma historical_feed_in_order:
  "map (\<lambda>k. fst (historical_next_price
       (((\<lambda>g. snd (historical_next_price g)) ^^ k) (historical_init prices)))) [0..<n] =
   map Inr (take n prices) @ replicate (n - historical_len (historical_init prices)) (Inl StopIteration)"
  unfolding historical_take
  by (rule nth_equalityI) (auto simp: historical_init_def historical_len_def nth_append min_def)

text \<open>Over any number of calls the live feed hands out the ticks the callback queued in
  the order they were queued, each at most once: each call either took no tick and raised
  \<^verbatim>\<open>StopIteration\<close> (or \<^verbatim>\<open>OverflowError\<close>, for a wait beyond the platform's limit), or returned
  (or raised) the conversion of the tick it took; the ticks taken are a prefix of all those
  queued, and the rest is still in the queue.\<close>

lemma live_feed_fifo:
  assumes "live_calls n (live_init now duration env) = (rs, f)"
  shows "\<exists>ts. list_all2 live_result rs ts \<and> live_ticks env 0 n = List.map_filter id ts @ lf_queue f"
  using live_calls_fifo [OF assms] by (simp add: live_init_def)

definition demo_env :: live_env where
  "demo_env k = (if k = 0 then (Fin 0, [Fin 100], [Fin 0]) else if k = 1 then (Fin 0, [], []) else (Fin 1, [], []))"

lemma demo_env_simps [simp]:
  "demo_env 0 = (Fin 0, [Fin 100], [Fin 0])" "demo_env (Suc 0) = (Fin 0, [], [])"
  "demo_env (Suc (Suc k)) = (Fin 1, [], [])"
  by (simp_all add: demo_env_def)

lemma demo_live_calls:
  "\<exists>f. live_calls 3 (live_init (Fin 0) (Fin 1) demo_env) = ([Inr 400, Inr 0, Inl StopIteration], f)"
proof -
  have "rnd 1 = 1" using rnd_of_int [of 1] by simp
  then have t: "to_float b 1 = Fin 1" for b by (simp add: to_float_def)
  show ?thesis
    by (simp add: numeral_3_eq_3 live_next_price_def live_init_def fadd_def fsub_def t demo_ticks
        fless_def feq_def zero_of_def)
qed

lemma demo_deadline: "deadline_reached (live_init (Fin 0) (Fin 1) demo_env) 2"
proof -
  have "rnd 1 = 1" using rnd_of_int [of 1] by simp
  then have "to_float b 1 = Fin 1" for b by (simp add: to_float_def)
  then show ?thesis
    by (simp add: live_init_def deadline_reached_def numeral_2_eq_2 fadd_def fsub_def feq_def zero_of_def)
qed

lemma live_feed_fifo_witness:
  "\<exists>f ts. live_calls 3 (live_init (Fin 0) (Fin 1) demo_env) = ([Inr 400, Inr 0, Inl StopIteration], f) \<and>
   list_all2 live_result [Inr 400, Inr 0, Inl StopIteration] ts \<and>
   live_ticks demo_env 0 3 = List.map_filter id ts @ lf_queue f"
proof -
  from demo_live_calls obtain f where
    f: "live_calls 3 (live_init (Fin 0) (Fin 1) demo_env) = ([Inr 400, Inr 0, Inl StopIteration], f)" by blast
  from live_feed_fifo [OF f] f show ?thesis by blast
qed

text \<open>The midpoint the live client quotes when there is no last trade lies between the bid
  and the ask, rounding included, unless their sum overflows.\<close>

lemma best_price_between_quotes:
  assumes "tk_last t = NaN" "tk_bid t = Fin b" "tk_ask t = Fin a"
    "rnd b = b" "rnd a = a" "b \<le> a" "\<bar>rnd (b + a)\<bar> < 2 ^ 1024"
  shows "\<exists>m. best_price t = Inr (Some m) \<and> is_finite m \<and> b \<le> fval m \<and> fval m \<le> a"
proof -
  define s where "s = fadd (Fin b) (Fin a)"
  have s: "is_finite s" "fval s = rnd (b + a)"
    using fadd_finite [of "Fin b" "Fin a"] assms(7) by (simp_all add: s_def)
  have dbl: "rnd (2 * x) = 2 * x" if "rnd x = x" for x
    using rnd_mult_pow2 [OF that, of 1] by (simp add: mult.commute pow2_eval)
  have "2 * b \<le> rnd (b + a)" "rnd (b + a) \<le> 2 * a"
    using rnd_mono [of "2 * b" "b + a"] rnd_mono [of "b + a" "2 * a"] dbl assms(4-6) by auto
  then have m: "b \<le> rnd (rnd (b + a) / 2)" "rnd (rnd (b + a) / 2) \<le> a"
    using rnd_mono [of b "rnd (b + a) / 2"] rnd_mono [of "rnd (b + a) / 2" a] assms(4,5) by auto
  have "\<bar>rnd (b + a) / 2\<bar> \<le> \<bar>rnd (b + a)\<bar>" by simp
  then have "\<bar>rnd (rnd (b + a) / 2)\<bar> \<le> \<bar>rnd (b + a)\<bar>"
    by (rule rnd_bound) (metis rnd_abs rnd_idem)
  then have "\<bar>rnd (rnd (b + a) / 2)\<bar> < 2 ^ 1024" using assms(7) by linarith
  then obtain z where "fdiv s (Fin 2) = Inr z" "is_finite z" "fval z = rnd (rnd (b + a) / 2)"
    using fdiv_finite [of s "Fin 2"] s by auto
  with m assms show ?thesis
    by (auto simp: best_price_def s_def fdiv_int_def)
qed

lemma best_price_between_quotes_witness:
  "\<exists>m. best_price \<lparr>tk_last = NaN, tk_bid = Fin 100, tk_ask = Fin 101, tk_close = NaN\<rparr> = Inr (Some m) \<and>
     is_finite m \<and> 100 \<le> fval m \<and> fval m \<le> 101"
proof -
  have "rnd (100 :: rat) = 100" "rnd (101 :: rat) = 101" "rnd (100 + 101 :: rat) = 201"
    using rnd_of_int [of 100] rnd_of_int [of 101] rnd_of_int [of 201] by simp_all
  then show ?thesis
    using best_price_between_quotes [of "\<lparr>tk_last = NaN, tk_bid = Fin 100, tk_ask = Fin 101, tk_close = NaN\<rparr>" 100 101]
    by simp
qed

end
