(* ===== verification/TradeLog.thy ===== *)
theory TradeLog
  imports Feeds Protocol "HOL-Library.List_Lexorder" "HOL-Library.Char_ord"
begin

text \<open>
  \<^verbatim>\<open>strategy/orderbook_client/trade_log.py\<close>: the append-only log.  A row is the Python dict,
  an association list of distinct keys in insertion order; \<open>tl_clock k\<close> is what
  \<^verbatim>\<open>time.time()\<close> returns when row k is appended.  \<open>to_csv\<close> gives the records of the
  file; the text form of a float cell is a parameter, as in \<open>Feeds\<close>.
\<close>

section \<open>Rows and the log\<close>

datatype Cell = CInt int | CStr string | CFloat pyfloat

type_synonym Row = "(string \<times> Cell) list"

record TradeLog =
  tl_rows :: "Row list"
  tl_clock :: "nat \<Rightarrow> pyfloat"

definition tradelog_init :: "(nat \<Rightarrow> pyfloat) \<Rightarrow> TradeLog" where
  "tradelog_init clock = \<lparr>tl_rows = [], tl_clock = clock\<rparr>"

definition append_row :: "Row \<Rightarrow> TradeLog \<Rightarrow> TradeLog" where
  "append_row row l =
     l\<lparr>tl_rows := tl_rows l @ [row @ [(''ts'', CFloat (tl_clock l (length (tl_rows l))))]]\<rparr>"

definition order_sent_row :: "int \<Rightarrow> Side \<Rightarrow> int \<Rightarrow> int \<Rightarrow> Row" where
  "order_sent_row order_id side price_ticks qty =
     [(''event'', CStr ''order_sent''), (''order_id'', CInt order_id),
      (''side'', CInt (Side_value side)), (''price_ticks'', CInt price_ticks), (''qty'', CInt qty)]"

definition cancel_sent_row :: "int \<Rightarrow> Row" where
  "cancel_sent_row order_id = [(''event'', CStr ''cancel_sent''), (''order_id'', CInt order_id)]"

definition ack_row :: "int \<Rightarrow> int \<Rightarrow> Row" where
  "ack_row order_id status =
     [(''event'', CStr ''ack''), (''order_id'', CInt order_id), (''status'', CInt status)]"

definition fill_row :: "int \<Rightarrow> int \<Rightarrow> Side \<Rightarrow> int \<Rightarrow> int \<Rightarrow> Row" where
  "fill_row resting_id incoming_id incoming_sd price_ticks qty =
     [(''event'', CStr ''fill''), (''resting_id'', CInt resting_id),
      (''incoming_id'', CInt incoming_id), (''incoming_side'', CInt (Side_value incoming_sd)),
      (''price_ticks'', CInt price_ticks), (''qty'', CInt qty)]"

definition log_order_sent :: "int \<Rightarrow> Side \<Rightarrow> int \<Rightarrow> int \<Rightarrow> TradeLog \<Rightarrow> TradeLog" where
  "log_order_sent order_id side price_ticks qty =
     append_row (order_sent_row order_id side price_ticks qty)"

definition log_cancel_sent :: "int \<Rightarrow> TradeLog \<Rightarrow> TradeLog" where
  "log_cancel_sent order_id = append_row (cancel_sent_row order_id)"

definition log_ack :: "int \<Rightarrow> int \<Rightarrow> TradeLog \<Rightarrow> TradeLog" where
  "log_ack order_id status = append_row (ack_row order_id status)"

definition log_fill :: "int \<Rightarrow> int \<Rightarrow> Side \<Rightarrow> int \<Rightarrow> int \<Rightarrow> TradeLog \<Rightarrow> TradeLog" where
  "log_fill resting_id incoming_id incoming_sd price_ticks qty =
     append_row (fill_row resting_id incoming_id incoming_sd price_ticks qty)"

text \<open>The property \<^verbatim>\<open>rows\<close>: a copy, which later appends do not change.\<close>

definition log_rows :: "TradeLog \<Rightarrow> Row list" where
  "log_rows l = tl_rows l"

lemmas log_defs = log_order_sent_def log_cancel_sent_def log_ack_def log_fill_def

lemmas row_defs = order_sent_row_def cancel_sent_row_def ack_row_def fill_row_def

section \<open>The CSV file\<close>

fun dec_digits :: "nat \<Rightarrow> string" where
  "dec_digits n =
     (if n < 10 then [char_of (48 + n)] else dec_digits (n div 10) @ [char_of (48 + n mod 10)])"

definition str_int :: "int \<Rightarrow> string" where
  "str_int n = (if n < 0 then CHR ''-'' # dec_digits (nat (- n)) else dec_digits (nat n))"

fun cell_text :: "(pyfloat \<Rightarrow> string) \<Rightarrow> Cell \<Rightarrow> string" where
  "cell_text repr (CInt n) = str_int n"
| "cell_text repr (CStr s) = s"
| "cell_text repr (CFloat x) = repr x"

definition fieldnames :: "Row list \<Rightarrow> string list" where
  "fieldnames rows = sort (remdups (concat (map (map fst) rows)))"

text \<open>
  \<^verbatim>\<open>csv.DictWriter\<close>: a key that is not a field name raises \<^verbatim>\<open>ValueError\<close>, a missing key
  writes an empty cell.
\<close>

definition dict_writer_row ::
  "(pyfloat \<Rightarrow> string) \<Rightarrow> string list \<Rightarrow> Row \<Rightarrow> string list res" where
  "dict_writer_row repr columns row =
     (if list_all (\<lambda>(k, v). k \<in> set columns) row
      then Inr (map (\<lambda>k. case map_of row k of None \<Rightarrow> [] | Some v \<Rightarrow> cell_text repr v) columns)
      else Inl ValueError)"

definition to_csv :: "(pyfloat \<Rightarrow> string) \<Rightarrow> TradeLog \<Rightarrow> csv_file res" where
  "to_csv repr l =
     (let columns = fieldnames (tl_rows l) in
      res_bind (map_res (dict_writer_row repr columns) (tl_rows l)) (\<lambda>records.
      Inr (columns # records)))"

declare dec_digits.simps [simp del]

section \<open>Lemmas\<close>

lemma append_row_simps [simp]:
  "tl_rows (append_row r l) = tl_rows l @ [r @ [(''ts'', CFloat (tl_clock l (length (tl_rows l))))]]"
  "tl_clock (append_row r l) = tl_clock l"
  by (simp_all add: append_row_def)

lemma fieldnames_set [simp]: "set (fieldnames rows) = fst ` (\<Union> (set ` set rows))"
  by (auto simp: fieldnames_def)

lemma fieldnames_distinct [simp]: "distinct (fieldnames rows)"
  by (simp add: fieldnames_def)

lemma to_csv_records:
  "to_csv repr l = Inr (fieldnames (tl_rows l) #
     map (\<lambda>row. map (\<lambda>k. case map_of row k of None \<Rightarrow> [] | Some v \<Rightarrow> cell_text repr v)
       (fieldnames (tl_rows l))) (tl_rows l))"
proof -
  have "map_res (dict_writer_row repr (fieldnames (tl_rows l))) (tl_rows l) =
    Inr (map (\<lambda>row. map (\<lambda>k. case map_of row k of None \<Rightarrow> [] | Some v \<Rightarrow> cell_text repr v)
       (fieldnames (tl_rows l))) (tl_rows l))"
    by (rule map_res_Inr_map) (force simp: dict_writer_row_def list_all_iff)
  then show ?thesis by (simp add: to_csv_def Let_def)
qed

lemma map_of_zip_map_rev:
  assumes "distinct ks"
  shows "map_of (rev (zip ks (map f ks))) k = (if k \<in> set ks then Some (f k) else None)"
proof -
  have "map_of (rev (zip ks (map f ks))) = map_of (zip ks (map f ks))"
    using assms by (intro map_of_inject_set [THEN iffD2]) (simp_all add: rev_map [symmetric])
  then show ?thesis by (simp add: map_of_zip_map)
qed

lemma row_field_written:
  assumes "distinct columns"
  shows "row_field columns (map f columns) k =
    (if k \<in> set columns then Inr (Some (f k)) else Inl KeyError)"
proof -
  have "map Some (map f columns) @ replicate (length columns - length (map f columns)) None =
    map (\<lambda>k. Some (f k)) columns" by simp
  then show ?thesis
    using map_of_zip_map_rev [OF assms, of "\<lambda>k. Some (f k)" k] by (simp del: map_map)
qed

declare row_field.simps [simp del]

text \<open>Decimal text determines the integer.\<close>

fun digits_value :: "string \<Rightarrow> nat" where
  "digits_value s = foldl (\<lambda>a c. 10 * a + (of_char c - 48)) 0 s"

lemma digits_value_dec [simp]: "digits_value (dec_digits n) = n"
proof (induction n rule: dec_digits.induct)
  case (1 n)
  show ?case
  proof (cases "n < 10")
    case True
    then show ?thesis by (simp add: dec_digits.simps [of n] of_char_of)
  next
    case False
    with 1 have "digits_value (dec_digits (n div 10)) = n div 10" by simp
    with False show ?thesis by (subst dec_digits.simps) (simp add: of_char_of)
  qed
qed

lemma dec_digits_no_minus: "hd (dec_digits n) \<noteq> CHR ''-'' \<and> dec_digits n \<noteq> []"
proof (induction n rule: dec_digits.induct)
  case (1 n)
  have "char_of (48 + n) \<noteq> CHR ''-''" if "n < 10"
  proof
    assume "char_of (48 + n) = CHR ''-''"
    then have "(of_char (char_of (48 + n)) :: nat) = of_char (CHR ''-'')" by simp
    with that show False by (simp add: of_char_of)
  qed
  with 1 show ?case by (subst (1 2) dec_digits.simps) (auto simp: hd_append)
qed

lemma str_int_inject [simp]: "str_int a = str_int b \<longleftrightarrow> a = b"
proof
  assume e: "str_int a = str_int b"
  have no: "dec_digits m \<noteq> CHR ''-'' # s" for m s using dec_digits_no_minus [of m] by auto
  have inj: "dec_digits m = dec_digits n \<longleftrightarrow> m = n" for m n
    using digits_value_dec by metis
  show "a = b" using e
    by (auto simp: str_int_def no no [symmetric] inj split: if_splits)
qed simp

section \<open>Properties\<close>

text \<open>\<open>to_csv\<close> never raises, whatever mix of events the log holds: the header is the sorted
  set of all keys, there is one record per row, and a \<^verbatim>\<open>DictReader\<close> over the file finds
  in each row and column the text of the cell, an empty text where the row lacks the key,
  and \<^verbatim>\<open>KeyError\<close> only for a key no row has; integer cells can be told apart by their text.\<close>

lemma to_csv_complete:
  "\<exists>columns records. to_csv repr l = Inr (columns # records) \<and>
     sorted columns \<and> distinct columns \<and>
     (\<forall>k. map (\<lambda>r. row_field columns r k) records =
       map (\<lambda>row. if k \<in> fst ` (\<Union> (set ` set (log_rows l)))
         then Inr (Some (case map_of row k of None \<Rightarrow> [] | Some v \<Rightarrow> cell_text repr v))
         else Inl KeyError) (log_rows l)) \<and>
     (\<forall>a b. cell_text repr (CInt a) = cell_text repr (CInt b) \<longleftrightarrow> a = b)"
  using fieldnames_set [of "tl_rows l"]
  by (simp add: to_csv_records row_field_written log_rows_def del: fieldnames_set)
    (simp add: fieldnames_def o_def)

end
