(* ===== verification/SessionRunner.thy ===== *)
theory SessionRunner
  imports Strategy Client TradeLog
begin

text \<open>
  \<^verbatim>\<open>strategy/orderbook_client/session_runner.py\<close>: the loop that joins a feed, a strategy,
  the client and the log.  The feed and the strategy are parameters (their Python types are
  protocols); the client and the log are the concrete ones.  Every operation returns a result
  and the state at the point where it returned or raised, so a raise keeps what was done
  before it.  The loop over ticks has fuel; \<open>None\<close> means the fuel was too small.
\<close>

section \<open>The session's state\<close>

record ('f, 's) Session =
  se_feed :: 'f
  se_strategy :: 's
  se_client :: OrderBookClient
  se_log :: TradeLog

fun drain_event :: "('s \<Rightarrow> FillEvent \<Rightarrow> 's) \<Rightarrow> Event \<Rightarrow> ('f, 's) Session \<Rightarrow> ('f, 's) Session" where
  "drain_event on_fill (Ack_Event a) s =
     s\<lparr>se_log := log_ack (ae_client_order_id a) (ae_status a) (se_log s)\<rparr>"
| "drain_event on_fill (Fill_Event f) s =
     s\<lparr>se_log := log_fill (fe_resting_order_id f) (fe_incoming_order_id f)
                  (incoming_side f) (fe_price_ticks f) (fe_quantity f) (se_log s),
       se_strategy := on_fill (se_strategy s) f\<rparr>"

definition drain :: "('s \<Rightarrow> FillEvent \<Rightarrow> 's) \<Rightarrow> Event list \<Rightarrow> ('f, 's) Session \<Rightarrow> ('f, 's) Session" where
  "drain on_fill events s = fold (drain_event on_fill) events s"

fun send_action :: "StrategyAction \<Rightarrow> OrderBookClient \<Rightarrow> unit res \<times> OrderBookClient" where
  "send_action (Order_Action r) c =
     (if or_order_type r = MARKET then submit_market (or_order_id r) (or_side r) (or_quantity r) c
      else submit_limit (or_order_id r) (or_side r) (or_price_ticks r) (or_quantity r) c)"
| "send_action (Cancel_Action r) c = client_cancel (cr_order_id r) c"

fun log_action :: "StrategyAction \<Rightarrow> TradeLog \<Rightarrow> TradeLog" where
  "log_action (Order_Action r) =
     log_order_sent (or_order_id r) (or_side r) (or_price_ticks r) (or_quantity r)"
| "log_action (Cancel_Action r) = log_cancel_sent (cr_order_id r)"

definition do_action :: "StrategyAction \<Rightarrow> ('f, 's) Session \<Rightarrow> unit res \<times> ('f, 's) Session" where
  "do_action a s =
     (case send_action a (se_client s) of
        (Inl e, c) \<Rightarrow> (Inl e, s\<lparr>se_client := c\<rparr>)
      | (Inr _, c) \<Rightarrow> (Inr (), s\<lparr>se_client := c, se_log := log_action a (se_log s)\<rparr>))"

fun do_actions :: "StrategyAction list \<Rightarrow> ('f, 's) Session \<Rightarrow> unit res \<times> ('f, 's) Session" where
  "do_actions [] s = (Inr (), s)"
| "do_actions (a # as) s =
     (case do_action a s of
        (Inl e, s') \<Rightarrow> (Inl e, s')
      | (Inr _, s') \<Rightarrow> do_actions as s')"

definition poll_and_drain ::
  "('s \<Rightarrow> FillEvent \<Rightarrow> 's) \<Rightarrow> pyfloat \<Rightarrow> ('f, 's) Session \<Rightarrow> Event list res \<times> ('f, 's) Session" where
  "poll_and_drain on_fill timeout s =
     (case poll_events (Some timeout) (se_client s) of
        (Inl e, c) \<Rightarrow> (Inl e, s\<lparr>se_client := c\<rparr>)
      | (Inr events, c) \<Rightarrow> (Inr events, drain on_fill events (s\<lparr>se_client := c\<rparr>)))"

section \<open>The loop\<close>

text \<open>The body for one price: the strategy's actions, then a poll.\<close>

definition session_tick ::
  "('s \<Rightarrow> int \<Rightarrow> StrategyAction list res \<times> 's) \<Rightarrow> ('s \<Rightarrow> FillEvent \<Rightarrow> 's) \<Rightarrow> pyfloat \<Rightarrow> int \<Rightarrow>
   ('f, 's) Session \<Rightarrow> unit res \<times> ('f, 's) Session" where
  "session_tick on_price on_fill tick_poll_timeout price s =
     (case on_price (se_strategy s) price of
        (Inl e, st) \<Rightarrow> (Inl e, s\<lparr>se_strategy := st\<rparr>)
      | (Inr actions, st) \<Rightarrow>
          (case do_actions actions (s\<lparr>se_strategy := st\<rparr>) of
             (Inl e, s') \<Rightarrow> (Inl e, s')
           | (Inr _, s') \<Rightarrow>
               (case poll_and_drain on_fill tick_poll_timeout s' of
                  (Inl e, s'') \<Rightarrow> (Inl e, s'')
                | (Inr _, s'') \<Rightarrow> (Inr (), s''))))"

fun tick_loop ::
  "('f \<Rightarrow> int res \<times> 'f) \<Rightarrow> ('s \<Rightarrow> int \<Rightarrow> StrategyAction list res \<times> 's) \<Rightarrow> ('s \<Rightarrow> FillEvent \<Rightarrow> 's) \<Rightarrow>
   nat \<Rightarrow> int option \<Rightarrow> pyfloat \<Rightarrow> nat \<Rightarrow> ('f, 's) Session \<Rightarrow> (nat res \<times> ('f, 's) Session) option" where
  "tick_loop next_price on_price on_fill 0 max_ticks timeout ticks_done s = None"
| "tick_loop next_price on_price on_fill (Suc fuel) max_ticks timeout ticks_done s =
     (if (case max_ticks of None \<Rightarrow> False | Some m \<Rightarrow> m \<le> int ticks_done) then Some (Inr ticks_done, s)
      else case next_price (se_feed s) of
          (Inl e, f) \<Rightarrow>
            (if e = StopIteration then Some (Inr ticks_done, s\<lparr>se_feed := f\<rparr>)
             else Some (Inl e, s\<lparr>se_feed := f\<rparr>))
        | (Inr price, f) \<Rightarrow>
            (case session_tick on_price on_fill timeout price (s\<lparr>se_feed := f\<rparr>) of
               (Inl e, s') \<Rightarrow> Some (Inl e, s')
             | (Inr _, s') \<Rightarrow>
                 tick_loop next_price on_price on_fill fuel max_ticks timeout (ticks_done + 1) s'))"

text \<open>
  The final drain polls until a poll returns nothing.  It ends because each non-empty poll
  takes at least one of the events that are still to come.
\<close>

definition pending_events :: "OrderBookClient \<Rightarrow> Event list" where
  "pending_events c = cl_events c @ concat (cl_arrivals c)"

lemma drain_event_client [simp]: "se_client (drain_event on_fill e s) = se_client s"
  by (cases e) auto

lemma drain_client [simp]: "se_client (drain on_fill events s) = se_client s"
  by (induction events arbitrary: s) (auto simp: drain_def)

lemma poll_and_drain_cases:
  assumes "poll_and_drain on_fill t s = (r, s')"
  shows "(\<exists>e. r = Inl e \<and> poll_events (Some t) (se_client s) = (Inl e, se_client s') \<and>
      s' = s\<lparr>se_client := se_client s'\<rparr>) \<or>
    (\<exists>events. r = Inr events \<and> poll_events (Some t) (se_client s) = (Inr events, se_client s') \<and>
      s' = drain on_fill events (s\<lparr>se_client := se_client s'\<rparr>))"
  using assms by (auto simp: poll_and_drain_def split: prod.splits sum.splits)

lemma poll_events_pending:
  "poll_events t c = (Inr events, c') \<Longrightarrow>
   pending_events c = events @ pending_events c' \<and> cl_events c' = []"
proof -
  assume p: "poll_events t c = (Inr events, c')"
  have "case t of None \<Rightarrow> True | Some t \<Rightarrow> \<not> fless t (Fin 0)"
    using p by (auto simp: poll_events_def Let_def split: option.splits if_splits)
  from poll_events_eq [OF this, of c] p show ?thesis
    by (auto simp: pending_events_def split: list.splits)
qed

function final_drain ::
  "('s \<Rightarrow> FillEvent \<Rightarrow> 's) \<Rightarrow> pyfloat \<Rightarrow> ('f, 's) Session \<Rightarrow> unit res \<times> ('f, 's) Session" where
  "final_drain on_fill timeout s =
     (case poll_and_drain on_fill timeout s of
        (Inl e, s') \<Rightarrow> (Inl e, s')
      | (Inr events, s') \<Rightarrow>
          if events = [] then (Inr (), s') else final_drain on_fill timeout s')"
  by pat_completeness auto
termination
  apply (relation "measure (\<lambda>(on_fill, timeout, s). length (pending_events (se_client s)))")
   apply simp
  apply (drule poll_and_drain_cases [OF sym])
  apply (auto dest!: poll_events_pending simp flip: length_greater_0_conv)
  done

declare final_drain.simps [simp del]

definition close_session :: "('f, 's) Session \<Rightarrow> ('f, 's) Session" where
  "close_session s = s\<lparr>se_client := client_close (se_client s)\<rparr>"

definition run_strategy_loop ::
  "('f \<Rightarrow> int res \<times> 'f) \<Rightarrow> ('s \<Rightarrow> int \<Rightarrow> StrategyAction list res \<times> 's) \<Rightarrow> ('s \<Rightarrow> FillEvent \<Rightarrow> 's) \<Rightarrow>
   nat \<Rightarrow> int option \<Rightarrow> pyfloat \<Rightarrow> pyfloat \<Rightarrow> ('f, 's) Session \<Rightarrow> (nat res \<times> ('f, 's) Session) option" where
  "run_strategy_loop next_price on_price on_fill fuel max_ticks tick_poll_timeout final_drain_timeout s =
     (case tick_loop next_price on_price on_fill fuel max_ticks tick_poll_timeout 0 s of
        None \<Rightarrow> None
      | Some (Inl e, s') \<Rightarrow> Some (Inl e, close_session s')
      | Some (Inr ticks_done, s') \<Rightarrow>
          (case final_drain on_fill final_drain_timeout s' of
             (Inl e, s'') \<Rightarrow> Some (Inl e, close_session s'')
           | (Inr _, s'') \<Rightarrow> Some (Inr ticks_done, close_session s'')))"

section \<open>What a session leaves behind\<close>

fun action_msg :: "StrategyAction \<Rightarrow> bytes res" where
  "action_msg (Order_Action r) = encode_new_order
     \<lparr>com_client_order_id = or_order_id r, com_side = or_side r, com_order_type = or_order_type r,
      com_price_ticks = (if or_order_type r = MARKET then 0 else or_price_ticks r),
      com_quantity = or_quantity r\<rparr>"
| "action_msg (Cancel_Action r) = encode_cancel \<lparr>cm_client_order_id = cr_order_id r\<rparr>"

fun action_row :: "StrategyAction \<Rightarrow> Row" where
  "action_row (Order_Action r) =
     order_sent_row (or_order_id r) (or_side r) (or_price_ticks r) (or_quantity r)"
| "action_row (Cancel_Action r) = cancel_sent_row (cr_order_id r)"

fun event_row :: "Event \<Rightarrow> Row" where
  "event_row (Ack_Event a) = ack_row (ae_client_order_id a) (ae_status a)"
| "event_row (Fill_Event f) = fill_row (fe_resting_order_id f) (fe_incoming_order_id f)
     (incoming_side f) (fe_price_ticks f) (fe_quantity f)"

fun fills_of :: "Event list \<Rightarrow> FillEvent list" where
  "fills_of [] = []"
| "fills_of (Ack_Event a # es) = fills_of es"
| "fills_of (Fill_Event f # es) = f # fills_of es"

definition strip_ts :: "Row \<Rightarrow> Row" where
  "strip_ts r = filter (\<lambda>(k, v). k \<noteq> ''ts'') r"

definition is_send_row :: "Row \<Rightarrow> bool" where
  "is_send_row r \<longleftrightarrow> map_of r ''event'' \<in> {Some (CStr ''order_sent''), Some (CStr ''cancel_sent'')}"

text \<open>
  From \<open>s0\<close> to \<open>s\<close> exactly the actions \<open>acts\<close> were sent and logged, and exactly the events
  \<open>evs\<close> were taken from the client and logged, each group in order.
\<close>

definition audit :: "('f, 's) Session \<Rightarrow> StrategyAction list \<Rightarrow> Event list \<Rightarrow> ('f, 's) Session \<Rightarrow> bool" where
  "audit s0 acts evs s \<longleftrightarrow> (\<exists>rows msgs.
     log_rows (se_log s) = log_rows (se_log s0) @ rows \<and>
     map strip_ts (filter is_send_row rows) = map action_row acts \<and>
     map strip_ts (filter (\<lambda>r. \<not> is_send_row r) rows) = map event_row evs \<and>
     map action_msg acts = map Inr msgs \<and>
     cl_sent (se_client s) = cl_sent (se_client s0) @ concat msgs \<and>
     pending_events (se_client s0) = evs @ pending_events (se_client s))"

lemma fills_of_append [simp]: "fills_of (xs @ ys) = fills_of xs @ fills_of ys"
  by (induction xs rule: fills_of.induct) auto

lemma audit_refl [simp]: "audit s [] [] s"
  by (simp add: audit_def)

lemma audit_trans:
  assumes "audit s0 a1 e1 s1" "audit s1 a2 e2 s2"
  shows "audit s0 (a1 @ a2) (e1 @ e2) s2"
proof -
  from assms(1) obtain r1 m1 where 1:
    "log_rows (se_log s1) = log_rows (se_log s0) @ r1"
    "map strip_ts (filter is_send_row r1) = map action_row a1"
    "map strip_ts (filter (\<lambda>r. \<not> is_send_row r) r1) = map event_row e1"
    "map action_msg a1 = map Inr m1"
    "cl_sent (se_client s1) = cl_sent (se_client s0) @ concat m1"
    "pending_events (se_client s0) = e1 @ pending_events (se_client s1)"
    unfolding audit_def by blast
  from assms(2) obtain r2 m2 where 2:
    "log_rows (se_log s2) = log_rows (se_log s1) @ r2"
    "map strip_ts (filter is_send_row r2) = map action_row a2"
    "map strip_ts (filter (\<lambda>r. \<not> is_send_row r) r2) = map event_row e2"
    "map action_msg a2 = map Inr m2"
    "cl_sent (se_client s2) = cl_sent (se_client s1) @ concat m2"
    "pending_events (se_client s1) = e2 @ pending_events (se_client s2)"
    unfolding audit_def by blast
  show ?thesis
    unfolding audit_def using 1 2
    by (intro exI [of _ "r1 @ r2"] exI [of _ "m1 @ m2"]) simp
qed

lemma send_action_msg: "send_action a c = client_send_msg (action_msg a) c"
proof (cases a)
  case (Order_Action r)
  then show ?thesis
    by (cases "or_order_type r") (simp_all add: submit_market_def submit_limit_def)
qed (simp add: client_cancel_def)

lemma log_action_row: "log_action a l = append_row (action_row a) l"
  by (cases a) (simp_all add: log_defs)

lemma action_row_kind [simp]:
  "is_send_row (action_row a @ [(''ts'', v)])" "strip_ts (action_row a @ [(''ts'', v)]) = action_row a"
  by (cases a; simp add: is_send_row_def strip_ts_def row_defs)+

lemma event_row_kind [simp]:
  "\<not> is_send_row (event_row e @ [(''ts'', v)])" "strip_ts (event_row e @ [(''ts'', v)]) = event_row e"
  by (cases e; simp add: is_send_row_def strip_ts_def row_defs)+

lemma do_action_audit:
  assumes "do_action a s = (r, s')"
  shows "audit s (case r of Inl e \<Rightarrow> [] | Inr _ \<Rightarrow> [a]) [] s' \<and> se_strategy s' = se_strategy s \<and>
    se_feed s' = se_feed s"
proof -
  obtain q c where c: "client_send_msg (action_msg a) (se_client s) = (q, c)"
    by (cases "client_send_msg (action_msg a) (se_client s)")
  note cases = client_send_msg_cases [OF c]
  have p: "pending_events c = pending_events (se_client s)"
    using cases by (simp add: pending_events_def)
  show ?thesis
  proof (cases q)
    case (Inl e)
    with assms c cases p show ?thesis
      by (auto simp: do_action_def send_action_msg audit_def)
  next
    case (Inr u)
    with cases obtain bs where bs: "action_msg a = Inr bs" "cl_sent c = cl_sent (se_client s) @ bs"
      by auto
    have s': "r = Inr ()" "s' = s\<lparr>se_client := c, se_log := append_row (action_row a) (se_log s)\<rparr>"
      using assms c Inr by (auto simp: do_action_def send_action_msg log_action_row)
    show ?thesis
      unfolding s' audit_def using bs p
      by (auto simp: log_rows_def intro!: exI [of _ "[_]"] exI [of _ "[bs]"])
  qed
qed

lemma do_actions_audit:
  assumes "do_actions as s = (r, s')"
  shows "\<exists>done. audit s done [] s' \<and> prefix done as \<and> (r = Inr () \<longrightarrow> done = as) \<and>
    se_strategy s' = se_strategy s \<and> se_feed s' = se_feed s"
  using assms
proof (induction as arbitrary: s)
  case (Cons a as)
  obtain q t where q: "do_action a s = (q, t)" by (cases "do_action a s")
  note a = do_action_audit [OF q]
  show ?case
  proof (cases q)
    case (Inl e)
    with a q Cons.prems show ?thesis by (intro exI [of _ "[]"]) auto
  next
    case (Inr u)
    with q Cons.prems have "do_actions as t = (r, s')" by simp
    from Cons.IH [OF this] obtain d where d: "audit t d [] s'" "prefix d as" "r = Inr () \<longrightarrow> d = as"
      "se_strategy s' = se_strategy t" "se_feed s' = se_feed t" by blast
    have "audit s ([a] @ d) ([] @ []) s'" using a d(1) Inr by (intro audit_trans) auto
    with d a show ?thesis by (intro exI [of _ "a # d"]) auto
  qed
qed auto

lemma drain_event_log:
  "se_log (drain_event on_fill e s) = append_row (event_row e) (se_log s)"
  "se_feed (drain_event on_fill e s) = se_feed s"
  by (cases e; simp add: log_defs)+

lemma drain_log:
  "\<exists>rows. log_rows (se_log (drain on_fill evs s)) = log_rows (se_log s) @ rows \<and>
     filter is_send_row rows = [] \<and>
     map strip_ts (filter (\<lambda>r. \<not> is_send_row r) rows) = map event_row evs"
proof (induction evs arbitrary: s)
  case (Cons e evs)
  from Cons [of "drain_event on_fill e s"] obtain rows where
    "log_rows (se_log (drain on_fill evs (drain_event on_fill e s))) =
       log_rows (se_log (drain_event on_fill e s)) @ rows"
    "filter is_send_row rows = []"
    "map strip_ts (filter (\<lambda>r. \<not> is_send_row r) rows) = map event_row evs" by blast
  then show ?case
    by (intro exI [of _ "(event_row e @ [(''ts'', CFloat (tl_clock (se_log s) (length (tl_rows (se_log s)))))]) # rows"])
      (simp add: drain_def drain_event_log log_rows_def)
qed (simp add: drain_def)

lemma drain_strategy:
  "strategy_run on_price on_fill (se_strategy s) (map Fill_In (fills_of evs)) =
     Inr ([], se_strategy (drain on_fill evs s)) \<and> se_feed (drain on_fill evs s) = se_feed s"
proof (induction evs arbitrary: s)
  case (Cons e evs)
  from Cons [of "drain_event on_fill e s"] show ?case
    by (cases e) (simp_all add: drain_def)
qed (simp add: drain_def)

lemma poll_events_raises:
  "poll_events t c = (Inl e, c') \<Longrightarrow> cl_sent c' = cl_sent c \<and> pending_events c' = pending_events c"
  by (auto simp: poll_events_def pending_events_def Let_def split: option.splits if_splits list.splits)

lemma poll_events_sent: "poll_events t c = (r, c') \<Longrightarrow> cl_sent c' = cl_sent c"
  by (auto simp: poll_events_def Let_def split: option.splits if_splits list.splits)

lemma poll_and_drain_audit:
  assumes "poll_and_drain on_fill t s = (r, s')"
  defines "evs \<equiv> (case r of Inl e \<Rightarrow> [] | Inr es \<Rightarrow> es)"
  shows "audit s [] evs s' \<and> se_feed s' = se_feed s \<and>
    strategy_run on_price on_fill (se_strategy s) (map Fill_In (fills_of evs)) =
      Inr ([], se_strategy s')"
  using poll_and_drain_cases [OF assms(1)]
proof
  assume "\<exists>e. r = Inl e \<and> poll_events (Some t) (se_client s) = (Inl e, se_client s') \<and>
      s' = s\<lparr>se_client := se_client s'\<rparr>"
  then obtain e where e: "r = Inl e" "poll_events (Some t) (se_client s) = (Inl e, se_client s')"
    "s' = s\<lparr>se_client := se_client s'\<rparr>" by blast
  have "se_log s' = se_log s" "se_strategy s' = se_strategy s" "se_feed s' = se_feed s"
    by (subst e(3), simp)+
  with e(1) poll_events_raises [OF e(2)] show ?thesis
    by (simp add: evs_def audit_def)
next
  assume "\<exists>events. r = Inr events \<and> poll_events (Some t) (se_client s) = (Inr events, se_client s') \<and>
      s' = drain on_fill events (s\<lparr>se_client := se_client s'\<rparr>)"
  then obtain es where e: "r = Inr es" "poll_events (Some t) (se_client s) = (Inr es, se_client s')"
    "s' = drain on_fill es (s\<lparr>se_client := se_client s'\<rparr>)" by blast
  let ?s = "s\<lparr>se_client := se_client s'\<rparr>"
  obtain rows where "log_rows (se_log s') = log_rows (se_log s) @ rows" "filter is_send_row rows = []"
    "map strip_ts (filter (\<lambda>r. \<not> is_send_row r) rows) = map event_row es"
    using drain_log [of on_fill es ?s] e(3) by auto
  then have "audit s [] es s'"
    using poll_events_pending [OF e(2)] poll_events_sent [OF e(2)]
    unfolding audit_def by (intro exI [of _ rows] exI [of _ "[]"]) simp
  moreover have "strategy_run on_price on_fill (se_strategy s) (map Fill_In (fills_of es)) =
      Inr ([], se_strategy s') \<and> se_feed s' = se_feed s"
    using drain_strategy [of on_price on_fill ?s es] e(3) by simp
  ultimately show ?thesis using e(1) by (simp add: evs_def)
qed

section \<open>The bytes on the wire\<close>

text \<open>
  \<open>s\<close> is reached from \<open>s0\<close> with \<open>part\<close> on the wire after the messages whose sends returned.
  Only a send that raised leaves such a part, and it is the beginning of the message of an
  action the strategy returned.
\<close>

definition wire_ok ::
  "('s \<Rightarrow> int \<Rightarrow> StrategyAction list res \<times> 's) \<Rightarrow> ('f, 's) Session \<Rightarrow> 'a res \<Rightarrow> bytes \<Rightarrow> ('f, 's) Session \<Rightarrow> bool" where
  "wire_ok on_price s0 r part s \<longleftrightarrow> delivered (se_client s0) (se_client s) part \<and>
     (part \<noteq> [] \<longrightarrow> r = Inl OSError \<and> (\<exists>st price actions st' a buf.
        on_price st price = (Inr actions, st') \<and> a \<in> set actions \<and> action_msg a = Inr buf \<and>
        prefix part buf))"

lemma wire_ok_trans:
  "wire_ok on_price s0 (Inr x) part s1 \<Longrightarrow> wire_ok on_price s1 r part' s2 \<Longrightarrow> wire_ok on_price s0 r part' s2"
  by (auto simp: wire_ok_def intro: delivered_trans)

lemma wire_ok_same: "se_client s = se_client s0 \<Longrightarrow> wire_ok on_price s0 r [] s"
  by (simp add: wire_ok_def delivered_same)

lemma wire_ok_same_ex: "se_client s = se_client s0 \<Longrightarrow> \<exists>part. wire_ok on_price s0 r part s"
  using wire_ok_same by blast

lemma wire_ok_Inl:
  "wire_ok on_price s0 (Inl e :: 'a res) part s \<Longrightarrow> wire_ok on_price s0 (Inl e :: 'b res) part s"
  by (simp add: wire_ok_def)

lemma do_actions_delivered:
  "do_actions as s = (r, s') \<Longrightarrow>
   \<exists>part. delivered (se_client s) (se_client s') part \<and>
     (part \<noteq> [] \<longrightarrow> r = Inl OSError \<and> (\<exists>a\<in>set as. \<exists>buf. action_msg a = Inr buf \<and> prefix part buf))"
proof (induction as arbitrary: s)
  case (Cons a as)
  obtain q c where c: "client_send_msg (action_msg a) (se_client s) = (q, c)"
    by (cases "client_send_msg (action_msg a) (se_client s)")
  from client_send_msg_delivered [OF c] obtain part where part: "delivered (se_client s) c part"
    "part \<noteq> [] \<longrightarrow> q = Inl OSError \<and> (\<exists>buf. action_msg a = Inr buf \<and> prefix part buf)" by blast
  show ?case
  proof (cases q)
    case (Inl e)
    with Cons.prems c part show ?thesis
      by (intro exI [of _ part]) (auto simp: do_action_def send_action_msg)
  next
    case (Inr u)
    define t where "t = s\<lparr>se_client := c, se_log := log_action a (se_log s)\<rparr>"
    from Inr part have "delivered (se_client s) (se_client t) []" by (auto simp: t_def)
    moreover have "do_actions as t = (r, s')"
      using Cons.prems c Inr by (simp add: do_action_def send_action_msg t_def)
    from Cons.IH [OF this] obtain p where "delivered (se_client t) (se_client s') p"
      "p \<noteq> [] \<longrightarrow> r = Inl OSError \<and> (\<exists>a\<in>set as. \<exists>buf. action_msg a = Inr buf \<and> prefix p buf)" by blast
    ultimately show ?thesis by (intro exI [of _ p]) (auto intro: delivered_trans)
  qed
qed (auto intro: exI [of _ "[]"] delivered_same)

lemma poll_events_wire:
  "poll_events t c = (r, c') \<Longrightarrow> cl_sent c' = cl_sent c \<and> cl_wire c' = cl_wire c"
  by (auto simp: poll_events_def Let_def split: option.splits if_splits list.splits)

lemma poll_and_drain_wire:
  assumes "poll_and_drain on_fill t s = (r, s')"
  shows "wire_ok on_price s r' [] s'"
proof -
  from poll_and_drain_cases [OF assms] obtain q where
    "poll_events (Some t) (se_client s) = (q, se_client s')" by blast
  from poll_events_wire [OF this] show ?thesis by (simp add: wire_ok_def delivered_same)
qed

lemma session_tick_wire:
  assumes "session_tick on_price on_fill tmo price s = (r, s')"
  shows "\<exists>part. wire_ok on_price s r part s'"
proof -
  obtain q st where st: "on_price (se_strategy s) price = (q, st)"
    by (cases "on_price (se_strategy s) price")
  let ?s = "s\<lparr>se_strategy := st\<rparr>"
  show ?thesis
  proof (cases q)
    case (Inl e)
    with assms st show ?thesis by (auto simp: session_tick_def intro!: wire_ok_same_ex)
  next
    case (Inr actions)
    obtain r1 s1 where 1: "do_actions actions ?s = (r1, s1)" by (cases "do_actions actions ?s")
    from do_actions_delivered [OF 1] st Inr obtain part where part: "wire_ok on_price s r1 part s1"
      by (force simp: wire_ok_def)
    show ?thesis
    proof (cases r1)
      case r1: (Inl e)
      with assms st Inr 1 part show ?thesis by (auto simp: session_tick_def)
    next
      case r1: (Inr u)
      obtain r2 s2 where 2: "poll_and_drain on_fill tmo s1 = (r2, s2)"
        by (cases "poll_and_drain on_fill tmo s1")
      have "s' = s2"
        using assms st Inr 1 2 r1 by (auto simp: session_tick_def split: sum.splits)
      then show ?thesis
        using wire_ok_trans [OF part [unfolded r1] poll_and_drain_wire [OF 2]] by blast
    qed
  qed
qed

lemma tick_loop_wire:
  "tick_loop next_price on_price on_fill fuel max_ticks tmo k s = Some (r, s') \<Longrightarrow>
   \<exists>part. wire_ok on_price s r part s'"
proof (induction fuel arbitrary: k s)
  case (Suc fuel)
  show ?case
  proof (cases "case max_ticks of None \<Rightarrow> False | Some m \<Rightarrow> m \<le> int k")
    case False
    obtain q f where q: "next_price (se_feed s) = (q, f)" by (cases "next_price (se_feed s)")
    show ?thesis
    proof (cases q)
      case (Inl e)
      with Suc.prems False q show ?thesis by (auto split: if_splits intro!: wire_ok_same_ex)
    next
      case (Inr price)
      obtain r1 s1 where 1: "session_tick on_price on_fill tmo price (s\<lparr>se_feed := f\<rparr>) = (r1, s1)"
        by (cases "session_tick on_price on_fill tmo price (s\<lparr>se_feed := f\<rparr>)")
      from session_tick_wire [OF 1] obtain part where "wire_ok on_price (s\<lparr>se_feed := f\<rparr>) r1 part s1" by blast
      then have part: "wire_ok on_price s r1 part s1" by (simp add: wire_ok_def)
      show ?thesis
      proof (cases r1)
        case r1: (Inl e)
        with Suc.prems False q Inr 1 have "r = Inl e" "s' = s1" by simp_all
        with part r1 wire_ok_Inl show ?thesis by blast
      next
        case r1: (Inr u)
        have "tick_loop next_price on_price on_fill fuel max_ticks tmo (k + 1) s1 = Some (r, s')"
          using Suc.prems False q Inr 1 r1 by simp
        from Suc.IH [OF this] obtain p where "wire_ok on_price s1 r p s'" by blast
        from wire_ok_trans [OF part [unfolded r1] this] show ?thesis by blast
      qed
    qed
  qed (use Suc.prems in \<open>auto intro!: wire_ok_same_ex\<close>)
qed simp

lemma final_drain_wire:
  "final_drain on_fill tmo s = (r, s') \<Longrightarrow> wire_ok on_price s (r' :: 'a res) [] s'"
proof (induction on_fill tmo s rule: final_drain.induct)
  case (1 on_fill tmo s)
  obtain q t where q: "poll_and_drain on_fill tmo s = (q, t)" by (cases "poll_and_drain on_fill tmo s")
  have t: "wire_ok on_price s (Inr undefined :: 'a res) [] t" "wire_ok on_price s r' [] t"
    using poll_and_drain_wire [OF q] by blast+
  show ?case
  proof (cases "\<exists>es. q = Inr es \<and> es \<noteq> []")
    case False
    with 1 q have "s' = t" by (auto simp: final_drain.simps [of _ _ s] split: sum.splits)
    with t show ?thesis by blast
  next
    case True
    then obtain es where es: "q = Inr es" "es \<noteq> []" by blast
    with "1.prems" q have "final_drain on_fill tmo t = (r, s')"
      by (simp add: final_drain.simps [of _ _ s])
    from "1.IH" [OF q [symmetric] es this] t(1) show ?thesis by (rule wire_ok_trans [rotated])
  qed
qed

lemma close_session_wire [simp]:
  "wire_ok on_price s r part (close_session s') = wire_ok on_price s r part s'"
  by (simp add: close_session_def client_close_def wire_ok_def delivered_def)

lemma run_strategy_loop_wire:
  assumes "run_strategy_loop next_price on_price on_fill fuel max_ticks tmo ftmo s = Some (r, s')"
  shows "\<exists>part. wire_ok on_price s r part s'"
proof -
  obtain r1 s1 where 1: "tick_loop next_price on_price on_fill fuel max_ticks tmo 0 s = Some (r1, s1)"
    using assms by (auto simp: run_strategy_loop_def split: option.splits)
  from tick_loop_wire [OF 1] obtain part where part: "wire_ok on_price s r1 part s1" by blast
  show ?thesis
  proof (cases r1)
    case (Inl e)
    with assms 1 part show ?thesis by (auto simp: run_strategy_loop_def)
  next
    case (Inr k)
    obtain r2 s2 where 2: "final_drain on_fill ftmo s1 = (r2, s2)" by (cases "final_drain on_fill ftmo s1")
    have "s' = close_session s2"
      using assms 1 2 Inr by (auto simp: run_strategy_loop_def split: sum.splits)
    then show ?thesis
      using wire_ok_trans [OF part [unfolded Inr] final_drain_wire [OF 2]] by auto
  qed
qed

section \<open>The loop refines the strategy\<close>

fun stim_prices :: "Stimulus list \<Rightarrow> int list" where
  "stim_prices [] = []"
| "stim_prices (Price p # xs) = p # stim_prices xs"
| "stim_prices (Fill_In f # xs) = stim_prices xs"

fun stim_fills :: "Stimulus list \<Rightarrow> FillEvent list" where
  "stim_fills [] = []"
| "stim_fills (Price p # xs) = stim_fills xs"
| "stim_fills (Fill_In f # xs) = f # stim_fills xs"

text \<open>\<open>ps\<close> are the next prices of the feed \<open>f\<close>, and \<open>f'\<close> is the feed after them.\<close>

fun feed_prices :: "('f \<Rightarrow> int res \<times> 'f) \<Rightarrow> 'f \<Rightarrow> int list \<Rightarrow> 'f \<Rightarrow> bool" where
  "feed_prices next_price f [] f' \<longleftrightarrow> f = f'"
| "feed_prices next_price f (p # ps) f' \<longleftrightarrow>
     (case next_price f of (Inr q, g) \<Rightarrow> q = p \<and> feed_prices next_price g ps f' | (Inl e, g) \<Rightarrow> False)"

text \<open>Why the loop stopped after n ticks with the feed \<open>f\<close>, leaving \<open>f'\<close>.\<close>

definition loop_done :: "('f \<Rightarrow> int res \<times> 'f) \<Rightarrow> int option \<Rightarrow> nat \<Rightarrow> 'f \<Rightarrow> 'f \<Rightarrow> bool" where
  "loop_done next_price max_ticks n f f' \<longleftrightarrow>
     (f' = f \<and> (\<exists>m. max_ticks = Some m \<and> m \<le> int n)) \<or> next_price f = (Inl StopIteration, f')"

lemma stim_append [simp]:
  "stim_prices (xs @ ys) = stim_prices xs @ stim_prices ys"
  "stim_fills (xs @ ys) = stim_fills xs @ stim_fills ys"
  by (induction xs rule: stim_prices.induct) auto

lemma stim_fill_in [simp]:
  "stim_prices (map Fill_In fs) = []" "stim_fills (map Fill_In fs) = fs"
  by (induction fs) auto

lemma strategy_run_append:
  "strategy_run on_price on_fill s xs = Inr (a, t) \<Longrightarrow> strategy_run on_price on_fill t ys = Inr (b, u) \<Longrightarrow>
   strategy_run on_price on_fill s (xs @ ys) = Inr (a @ b, u)"
proof (induction xs arbitrary: s a)
  case (Cons x xs)
  then show ?case by (cases x) (fastforce split: prod.splits sum.splits)+
qed simp

lemma session_tick_audit:
  assumes "session_tick on_price on_fill tmo price s = (r, s')"
  shows "\<exists>acts evs. audit s acts evs s' \<and> se_feed s' = se_feed s \<and>
    (r = Inr () \<longrightarrow> strategy_run on_price on_fill (se_strategy s) (Price price # map Fill_In (fills_of evs)) =
      Inr (acts, se_strategy s'))"
proof -
  obtain q st where st: "on_price (se_strategy s) price = (q, st)"
    by (cases "on_price (se_strategy s) price")
  let ?s = "s\<lparr>se_strategy := st\<rparr>"
  have a0: "audit s [] [] ?s" by (simp add: audit_def)
  show ?thesis
  proof (cases q)
    case (Inl e)
    with assms st a0 show ?thesis by (auto simp: session_tick_def)
  next
    case (Inr actions)
    obtain r1 s1 where 1: "do_actions actions ?s = (r1, s1)" by (cases "do_actions actions ?s")
    from do_actions_audit [OF 1] obtain d where d: "audit ?s d [] s1" "r1 = Inr () \<longrightarrow> d = actions"
      "se_strategy s1 = st" "se_feed s1 = se_feed s" by auto
    have a1: "audit s d [] s1" using audit_trans [OF a0 d(1)] by simp
    show ?thesis
    proof (cases r1)
      case (Inl e)
      with assms st Inr 1 a1 d show ?thesis by (auto simp: session_tick_def)
    next
      case r1: (Inr u)
      obtain r2 s2 where 2: "poll_and_drain on_fill tmo s1 = (r2, s2)"
        by (cases "poll_and_drain on_fill tmo s1")
      define evs where "evs = (case r2 of Inl e \<Rightarrow> [] | Inr es \<Rightarrow> es)"
      note p = poll_and_drain_audit [OF 2, of on_price, folded evs_def]
      have "audit s actions evs s2" using audit_trans [OF a1, of "[]" evs s2] p d(2) r1 by simp
      moreover have "s' = s2"
        using assms st Inr 1 2 r1 by (auto simp: session_tick_def split: sum.splits)
      moreover have "strategy_run on_price on_fill (se_strategy s) (Price price # map Fill_In (fills_of evs)) =
          Inr (actions, se_strategy s2)"
        using st Inr p d(3) by simp
      ultimately show ?thesis using p d(4) by auto
    qed
  qed
qed

lemma tick_loop_audit:
  assumes "tick_loop next_price on_price on_fill fuel max_ticks tmo k s = Some (r, s')"
  shows "\<exists>acts evs. audit s acts evs s' \<and>
    (\<forall>n. r = Inr n \<longrightarrow> (\<exists>xs f. strategy_run on_price on_fill (se_strategy s) xs = Inr (acts, se_strategy s') \<and>
       stim_fills xs = fills_of evs \<and> n = k + length (stim_prices xs) \<and>
       feed_prices next_price (se_feed s) (stim_prices xs) f \<and>
       loop_done next_price max_ticks n f (se_feed s')))"
  using assms
proof (induction fuel arbitrary: k s)
  case (Suc fuel)
  show ?case
  proof (cases "case max_ticks of None \<Rightarrow> False | Some m \<Rightarrow> m \<le> int k")
    case True
    then have "s' = s" "r = Inr k" "loop_done next_price max_ticks k (se_feed s) (se_feed s)"
      using Suc.prems by (auto simp: loop_done_def split: option.splits)
    then show ?thesis
      by (intro exI [of _ "[]"] conjI) (auto intro!: exI [of _ "[]"])
  next
    case False
    obtain q f where q: "next_price (se_feed s) = (q, f)" by (cases "next_price (se_feed s)")
    let ?s = "s\<lparr>se_feed := f\<rparr>"
    have a0: "audit s [] [] ?s" by (simp add: audit_def)
    show ?thesis
    proof (cases q)
      case (Inl e)
      with Suc.prems False q a0 show ?thesis
        by (intro exI [of _ "[]"] conjI)
          (auto simp: loop_done_def split: if_splits intro!: exI [of _ "[]"])
    next
      case (Inr price)
      obtain r1 s1 where 1: "session_tick on_price on_fill tmo price ?s = (r1, s1)"
        by (cases "session_tick on_price on_fill tmo price ?s")
      from session_tick_audit [OF 1] obtain a1 e1 where t: "audit ?s a1 e1 s1" "se_feed s1 = f"
        "r1 = Inr () \<longrightarrow> strategy_run on_price on_fill (se_strategy s) (Price price # map Fill_In (fills_of e1)) =
           Inr (a1, se_strategy s1)" by auto
      have a1: "audit s a1 e1 s1" using audit_trans [OF a0 t(1)] by simp
      show ?thesis
      proof (cases r1)
        case (Inl e)
        with Suc.prems False q Inr 1 a1 show ?thesis by auto
      next
        case r1: (Inr u)
        have "tick_loop next_price on_price on_fill fuel max_ticks tmo (k + 1) s1 = Some (r, s')"
          using Suc.prems False q Inr 1 r1 by simp
        from Suc.IH [OF this] obtain a2 e2 where a2: "audit s1 a2 e2 s'" and
          n: "\<And>n. r = Inr n \<Longrightarrow> (\<exists>xs f. strategy_run on_price on_fill (se_strategy s1) xs = Inr (a2, se_strategy s') \<and>
            stim_fills xs = fills_of e2 \<and> n = k + 1 + length (stim_prices xs) \<and>
            feed_prices next_price (se_feed s1) (stim_prices xs) f \<and>
            loop_done next_price max_ticks n f (se_feed s'))" by blast
        have "\<exists>xs g. strategy_run on_price on_fill (se_strategy s) xs = Inr (a1 @ a2, se_strategy s') \<and>
            stim_fills xs = fills_of (e1 @ e2) \<and> n = k + length (stim_prices xs) \<and>
            feed_prices next_price (se_feed s) (stim_prices xs) g \<and>
            loop_done next_price max_ticks n g (se_feed s')" if "r = Inr n" for n
        proof -
          from n [OF that] obtain xs g where xs:
            "strategy_run on_price on_fill (se_strategy s1) xs = Inr (a2, se_strategy s')"
            "stim_fills xs = fills_of e2" "n = k + 1 + length (stim_prices xs)"
            "feed_prices next_price (se_feed s1) (stim_prices xs) g"
            "loop_done next_price max_ticks n g (se_feed s')" by blast
          have "strategy_run on_price on_fill (se_strategy s) ((Price price # map Fill_In (fills_of e1)) @ xs) =
              Inr (a1 @ a2, se_strategy s')"
            using t(3) r1 xs(1) by (intro strategy_run_append) auto
          with xs q Inr t(2) show ?thesis
            by (intro exI [of _ "(Price price # map Fill_In (fills_of e1)) @ xs"] exI [of _ g]) simp
        qed
        with audit_trans [OF a1 a2] show ?thesis by blast
      qed
    qed
  qed
qed simp

lemma final_drain_audit:
  "final_drain on_fill tmo s = (r, s') \<Longrightarrow>
   \<exists>evs. audit s [] evs s' \<and> se_feed s' = se_feed s \<and>
     strategy_run on_price on_fill (se_strategy s) (map Fill_In (fills_of evs)) = Inr ([], se_strategy s')"
proof (induction on_fill tmo s rule: final_drain.induct)
  case (1 on_fill tmo s)
  obtain q t where q: "poll_and_drain on_fill tmo s = (q, t)" by (cases "poll_and_drain on_fill tmo s")
  note p = poll_and_drain_audit [OF q, of on_price]
  show ?case
  proof (cases "\<exists>es. q = Inr es \<and> es \<noteq> []")
    case False
    with 1 q have "s' = t" by (auto simp: final_drain.simps [of _ _ s] split: sum.splits)
    with p show ?thesis by blast
  next
    case True
    then obtain es where es: "q = Inr es" "es \<noteq> []" by blast
    with "1.prems" q have "final_drain on_fill tmo t = (r, s')"
      by (simp add: final_drain.simps [of _ _ s])
    from "1.IH" [OF q [symmetric] es this] obtain evs where evs: "audit t [] evs s'" "se_feed s' = se_feed t"
      "strategy_run on_price on_fill (se_strategy t) (map Fill_In (fills_of evs)) = Inr ([], se_strategy s')"
      by blast
    have "audit s [] (es @ evs) s'" using audit_trans [OF _ evs(1)] p es by fastforce
    moreover have "strategy_run on_price on_fill (se_strategy s) (map Fill_In (fills_of es) @ map Fill_In (fills_of evs)) =
        Inr ([] @ [], se_strategy s')"
      using p es evs(3) by (intro strategy_run_append) auto
    ultimately show ?thesis using p evs(2) by (intro exI [of _ "es @ evs"]) simp
  qed
qed

lemma close_session_simps [simp]:
  "audit s a e (close_session s') = audit s a e s'" "se_strategy (close_session s) = se_strategy s"
  "se_feed (close_session s) = se_feed s" "\<not> cl_open (se_client (close_session s))"
  by (simp_all add: close_session_def client_close_def audit_def pending_events_def)

section \<open>Termination\<close>

lemma session_tick_feed:
  "session_tick on_price on_fill tmo price s = (r, s') \<Longrightarrow> se_feed s' = se_feed s"
  using session_tick_audit by blast

context finite_feed
begin

text \<open>A session over a feed that ends needs one unit of fuel more than the feed has prices.\<close>

lemma tick_loop_ends:
  "ends (se_feed s) \<Longrightarrow> remaining (se_feed s) < fuel \<Longrightarrow>
   tick_loop next_price on_price on_fill fuel max_ticks tmo k s \<noteq> None"
proof (induction fuel arbitrary: k s)
  case (Suc fuel)
  obtain q f where q: "next_price (se_feed s) = (q, f)" by (cases "next_price (se_feed s)")
  show ?case
  proof (cases q)
    case (Inr price)
    obtain r s1 where 1: "session_tick on_price on_fill tmo price (s\<lparr>se_feed := f\<rparr>) = (r, s1)"
      by (cases "session_tick on_price on_fill tmo price (s\<lparr>se_feed := f\<rparr>)")
    have "remaining f < fuel" "ends f"
      using next_price_decreases next_price_ends q Inr Suc.prems by fastforce+
    then have "tick_loop next_price on_price on_fill fuel max_ticks tmo (k + 1) s1 \<noteq> None"
      using Suc.IH session_tick_feed [OF 1] by simp
    with q Inr 1 show ?thesis by (auto split: option.splits sum.splits)
  qed (use q in \<open>auto split: option.splits\<close>)
qed simp

lemma session_ends:
  "ends (se_feed s) \<Longrightarrow> remaining (se_feed s) < fuel \<Longrightarrow>
   run_strategy_loop next_price on_price on_fill fuel max_ticks tmo ftmo s \<noteq> None"
  using tick_loop_ends [of s fuel on_price on_fill max_ticks tmo 0]
  by (auto simp: run_strategy_loop_def split: option.splits prod.splits sum.splits)

end

text \<open>The final drain stops at the first poll that gets nothing.\<close>

lemma final_drain_quiet:
  "cl_events (se_client s) = [] \<Longrightarrow> [] \<notin> set batches \<Longrightarrow>
   cl_arrivals (se_client s) = batches @ [] # rest \<Longrightarrow> \<not> fless ftmo (Fin 0) \<Longrightarrow>
   \<exists>s'. final_drain on_fill ftmo s = (Inr (), s') \<and> cl_arrivals (se_client s') = rest"
proof (induction batches arbitrary: s)
  case Nil
  then show ?case
    using poll_events_eq [of "Some ftmo" "se_client s"]
    by (simp add: final_drain.simps [of _ _ s] poll_and_drain_def)
next
  case (Cons b batches)
  define t where "t = drain on_fill b
    (s\<lparr>se_client := se_client s\<lparr>cl_events := [], cl_arrivals := batches @ [] # rest\<rparr>\<rparr>)"
  have p: "poll_and_drain on_fill ftmo s = (Inr b, t)"
    using Cons.prems poll_events_eq [of "Some ftmo" "se_client s"]
    by (simp add: poll_and_drain_def t_def)
  have "\<exists>s'. final_drain on_fill ftmo t = (Inr (), s') \<and> cl_arrivals (se_client s') = rest"
    by (rule Cons.IH) (use Cons.prems in \<open>simp_all add: t_def\<close>)
  moreover have "b \<noteq> []" using Cons.prems(2) by auto
  ultimately show ?case using p by (simp add: final_drain.simps [of _ _ s])
qed

text \<open>With a tick limit any feed will do.\<close>

lemma tick_loop_max_ends:
  "nat m - k < fuel \<Longrightarrow>
   tick_loop next_price on_price on_fill fuel (Some m) tmo k s \<noteq> None"
proof (induction fuel arbitrary: k s)
  case (Suc fuel)
  show ?case
  proof (cases "m \<le> int k")
    case False
    with Suc.prems have "nat m - (k + 1) < fuel" by linarith
    with Suc.IH False show ?thesis by (auto split: prod.splits sum.splits)
  qed simp
qed simp

lemma session_max_ends:
  "nat m < fuel \<Longrightarrow>
   run_strategy_loop next_price on_price on_fill fuel (Some m) tmo ftmo s \<noteq> None"
  using tick_loop_max_ends [of m 0 fuel next_price on_price on_fill tmo s]
  by (auto simp: run_strategy_loop_def split: option.splits prod.splits sum.splits)

lemma tick_loop_fuel_mono:
  "tick_loop next_price on_price on_fill fuel max_ticks tmo k s = Some r \<Longrightarrow> fuel \<le> fuel' \<Longrightarrow>
   tick_loop next_price on_price on_fill fuel' max_ticks tmo k s = Some r"
proof (induction fuel arbitrary: k s fuel')
  case (Suc fuel)
  then obtain g where g: "fuel' = Suc g" "fuel \<le> g" by (cases fuel') auto
  with Suc show ?case by (auto split: option.splits prod.splits sum.splits if_splits)
qed simp

section \<open>Order ids in the log\<close>

definition logged_order_ids :: "Row list \<Rightarrow> Cell option list" where
  "logged_order_ids rows = map (\<lambda>r. map_of r ''order_id'')
     (filter (\<lambda>r. map_of r ''event'' = Some (CStr ''order_sent'')) rows)"

lemma map_of_strip_ts [simp]: "k \<noteq> ''ts'' \<Longrightarrow> map_of (strip_ts r) k = map_of r k"
  by (induction r) (auto simp: strip_ts_def)

lemma logged_order_ids_actions:
  "logged_order_ids (map action_row acts) = map (Some \<circ> CInt) (order_ids acts)"
proof (induction acts)
  case (Cons a acts)
  then show ?case by (cases a) (auto simp: logged_order_ids_def row_defs)
qed (simp add: logged_order_ids_def)

lemma logged_order_ids_filter:
  "logged_order_ids rows = logged_order_ids (map strip_ts (filter is_send_row rows))"
  by (induction rows) (auto simp: logged_order_ids_def is_send_row_def)

lemma audit_order_ids:
  "audit s0 acts evs s \<Longrightarrow> log_rows (se_log s0) = [] \<Longrightarrow>
   logged_order_ids (log_rows (se_log s)) = map (Some \<circ> CInt) (order_ids acts)"
  using logged_order_ids_actions logged_order_ids_filter
  by (metis append_Nil audit_def)

lemma run_strategy_loop_cases:
  assumes "run_strategy_loop next_price on_price on_fill fuel max_ticks tmo ftmo s = Some (r, s')"
  shows "\<not> cl_open (se_client s') \<and>
   (\<exists>acts evs. audit s acts evs s' \<and>
    (\<forall>n. r = Inr n \<longrightarrow> (\<exists>xs f. strategy_run on_price on_fill (se_strategy s) xs = Inr (acts, se_strategy s') \<and>
       stim_fills xs = fills_of evs \<and> n = length (stim_prices xs) \<and>
       feed_prices next_price (se_feed s) (stim_prices xs) f \<and>
       loop_done next_price max_ticks n f (se_feed s'))))"
proof -
  obtain r1 s1 where 1: "tick_loop next_price on_price on_fill fuel max_ticks tmo 0 s = Some (r1, s1)"
    using assms by (auto simp: run_strategy_loop_def split: option.splits)
  from tick_loop_audit [OF 1] obtain acts evs where a: "audit s acts evs s1" and
    n: "\<And>n. r1 = Inr n \<Longrightarrow> \<exists>xs f. strategy_run on_price on_fill (se_strategy s) xs = Inr (acts, se_strategy s1) \<and>
       stim_fills xs = fills_of evs \<and> n = 0 + length (stim_prices xs) \<and>
       feed_prices next_price (se_feed s) (stim_prices xs) f \<and>
       loop_done next_price max_ticks n f (se_feed s1)" by blast
  show ?thesis
  proof (cases r1)
    case (Inl e)
    with assms 1 have "r = Inl e" "s' = close_session s1" by (auto simp: run_strategy_loop_def)
    with a show ?thesis by auto
  next
    case (Inr k)
    obtain r2 s2 where 2: "final_drain on_fill ftmo s1 = (r2, s2)" by (cases "final_drain on_fill ftmo s1")
    from final_drain_audit [OF 2, of on_price] obtain es where es: "audit s1 [] es s2" "se_feed s2 = se_feed s1"
      "strategy_run on_price on_fill (se_strategy s1) (map Fill_In (fills_of es)) = Inr ([], se_strategy s2)"
      by blast
    have s': "s' = close_session s2" "r = Inr n \<Longrightarrow> n = k" for n
      using assms 1 2 Inr by (auto simp: run_strategy_loop_def split: sum.splits)
    have aud: "audit s acts (evs @ es) s'"
      using audit_trans [OF a es(1)] s'(1) by simp
    from n [OF Inr] obtain xs f where xs: "strategy_run on_price on_fill (se_strategy s) xs = Inr (acts, se_strategy s1)"
      "stim_fills xs = fills_of evs" "k = length (stim_prices xs)"
      "feed_prices next_price (se_feed s) (stim_prices xs) f"
      "loop_done next_price max_ticks k f (se_feed s1)" by auto
    have "strategy_run on_price on_fill (se_strategy s) (xs @ map Fill_In (fills_of es)) = Inr (acts @ [], se_strategy s2)"
      using xs(1) es(3) by (rule strategy_run_append)
    with xs es(2) s' have "r = Inr n \<longrightarrow> (\<exists>xs f. strategy_run on_price on_fill (se_strategy s) xs = Inr (acts, se_strategy s') \<and>
       stim_fills xs = fills_of (evs @ es) \<and> n = length (stim_prices xs) \<and>
       feed_prices next_price (se_feed s) (stim_prices xs) f \<and>
       loop_done next_price max_ticks n f (se_feed s'))" for n
      by (intro impI exI [of _ "xs @ map Fill_In (fills_of es)"] exI [of _ f]) simp
    with aud s'(1) show ?thesis
      by (intro conjI exI [of _ acts] exI [of _ "evs @ es"] allI) simp_all
  qed
qed

context order_source
begin

lemma session_order_ids:
  assumes "inv (se_strategy s)" "log_rows (se_log s) = []"
    "run_strategy_loop next_price on_price on_fill fuel max_ticks tmo ftmo s = Some (Inr n, s')"
  shows "logged_order_ids (log_rows (se_log s')) =
    map (Some \<circ> CInt) [next_id (se_strategy s)..next_id (se_strategy s') - 1] \<and> inv (se_strategy s')"
proof -
  from run_strategy_loop_cases [OF assms(3)] obtain acts evs xs where
    "audit s acts evs s'" "strategy_run on_price on_fill (se_strategy s) xs = Inr (acts, se_strategy s')"
    by auto
  with assms(1,2) show ?thesis
    using audit_order_ids run_ids run_inv by metis
qed

end

section \<open>A quoter session over history completes\<close>

definition client_ready :: "OrderBookClient \<Rightarrow> bool" where
  "client_ready c \<longleftrightarrow> cl_open c \<and> cl_send_results c = []"

definition quotable :: "FixedOffsetQuoter \<Rightarrow> int \<Rightarrow> bool" where
  "quotable q p \<longleftrightarrow> - (2 ^ 63) \<le> p - fq_offset q \<and> p - fq_offset q < 2 ^ 63 \<and>
     - (2 ^ 63) \<le> p + fq_offset q \<and> p + fq_offset q < 2 ^ 63 \<and>
     0 \<le> fq_size q \<and> fq_size q < 2 ^ 32"

lemma encode_new_order_ok: "order_in_range m \<Longrightarrow> \<exists>bs. encode_new_order m = Inr bs"
  using encode_new_order_enc by blast

lemma encode_cancel_ok: "cancel_in_range m \<Longrightarrow> \<exists>bs. encode_cancel m = Inr bs"
  using encode_cancel_enc by blast

lemma do_action_ok:
  assumes "client_ready (se_client s)" "action_msg a = Inr bs"
  shows "\<exists>s'. do_action a s = (Inr (), s') \<and> client_ready (se_client s')"
  using assms
  by (auto simp: do_action_def send_action_msg client_send_msg_def client_send_def client_ready_def)

lemma do_actions_ok:
  "client_ready (se_client s) \<Longrightarrow> \<forall>a\<in>set as. \<exists>bs. action_msg a = Inr bs \<Longrightarrow>
   \<exists>s'. do_actions as s = (Inr (), s') \<and> client_ready (se_client s')"
proof (induction as arbitrary: s)
  case (Cons a as)
  then obtain bs where "action_msg a = Inr bs" by auto
  from do_action_ok [OF Cons.prems(1) this] obtain t where
    "do_action a s = (Inr (), t)" "client_ready (se_client t)" by blast
  with Cons show ?case by auto
qed simp

lemma poll_and_drain_ok:
  assumes "client_ready (se_client s)" "\<not> fless t (Fin 0)"
  shows "\<exists>es s'. poll_and_drain on_fill t s = (Inr es, s') \<and> client_ready (se_client s')"
  using assms poll_events_eq [of "Some t" "se_client s"]
  by (auto simp: poll_and_drain_def client_ready_def)

lemma final_drain_ok:
  "client_ready (se_client s) \<Longrightarrow> \<not> fless t (Fin 0) \<Longrightarrow> \<exists>s'. final_drain on_fill t s = (Inr (), s')"
proof (induction on_fill t s rule: final_drain.induct)
  case (1 on_fill t s)
  from poll_and_drain_ok [OF "1.prems"] obtain es s' where
    p: "poll_and_drain on_fill t s = (Inr es, s')" "client_ready (se_client s')" by blast
  with 1 show ?case by (cases "es = []") (auto simp: final_drain.simps [of _ _ s])
qed

lemma quoter_actions_ok:
  assumes "quoter_inv q" "quotable q p" "fq_ids q + 1 < 2 ^ 64" "quoter_on_price q p = (acts, q')"
  shows "\<forall>a\<in>set acts. \<exists>bs. action_msg a = Inr bs"
proof -
  have order: "\<exists>bs. action_msg (Order_Action \<lparr>or_order_id = i, or_side = sd, or_order_type = LIMIT,
      or_price_ticks = t, or_quantity = fq_size q\<rparr>) = Inr bs"
    if "0 \<le> i" "i < 2 ^ 64" "- (2 ^ 63) \<le> t" "t < 2 ^ 63" for i sd t
    using that assms(2) by (simp add: encode_new_order_ok order_in_range_def quotable_def)
  have cancel: "\<exists>bs. action_msg (Cancel_Action \<lparr>cr_order_id = i\<rparr>) = Inr bs"
    if "0 \<le> i" "i < 2 ^ 64" for i
    using that by (simp add: encode_cancel_ok cancel_in_range_def)
  have ids: "0 \<le> fq_ids q" "fq_ids q < 2 ^ 64" "0 \<le> fq_ids q + 1" "fq_ids q + 1 < 2 ^ 64"
    and b: "\<And>i t. fq_resting_buy q = Some (i, t) \<Longrightarrow> 0 \<le> i \<and> i < 2 ^ 64"
    and s: "\<And>i t. fq_resting_sell q = Some (i, t) \<Longrightarrow> 0 \<le> i \<and> i < 2 ^ 64"
    using assms(1,3) by (auto simp: quoter_inv_def split: option.splits)
  have prices: "- (2 ^ 63) \<le> p - fq_offset q" "p - fq_offset q < 2 ^ 63"
    "- (2 ^ 63) \<le> p + fq_offset q" "p + fq_offset q < 2 ^ 63"
    using assms(2) by (simp_all add: quotable_def)
  have "a = Order_Action \<lparr>or_order_id = i, or_side = sd, or_order_type = LIMIT,
      or_price_ticks = t, or_quantity = fq_size q\<rparr> \<longrightarrow>
      (i = fq_ids q \<or> i = fq_ids q + 1) \<and> (t = p - fq_offset q \<or> t = p + fq_offset q)"
    if "a \<in> set acts" for a i sd t
    using that assms(4) unfolding quoter_on_price_eq Let_def by (auto split: if_splits)
  moreover have "(\<exists>i sd t. a = Order_Action \<lparr>or_order_id = i, or_side = sd, or_order_type = LIMIT,
      or_price_ticks = t, or_quantity = fq_size q\<rparr>) \<or>
      (\<exists>i. a = Cancel_Action \<lparr>cr_order_id = i\<rparr> \<and> i \<in> tracked_ids q)"
    if "a \<in> set acts" for a
    using that assms(4) unfolding quoter_on_price_eq Let_def
    by (auto simp: tracked_ids_def split: if_splits)
  moreover have "0 \<le> i \<and> i < 2 ^ 64" if "i \<in> tracked_ids q" for i
    using that b s by (auto simp: tracked_ids_def)
  ultimately show ?thesis using order cancel ids prices by (metis (no_types, lifting))
qed

lemma quoter_run_const:
  "quoter_run q xs = Inr (acts, q') \<Longrightarrow> fq_offset q' = fq_offset q \<and> fq_size q' = fq_size q"
proof (induction xs arbitrary: q acts)
  case (Cons x xs)
  show ?case
  proof (cases x)
    case (Price p)
    obtain a t where a: "quoter_on_price q p = (a, t)" by (cases "quoter_on_price q p")
    with Cons.prems Price obtain b where "quoter_run t xs = Inr (b, q')"
      by (auto simp: quoter_step_def [of q p] split: prod.splits)
    with Cons.IH a show ?thesis using quoter_offset quoter_size_kept by metis
  next
    case (Fill_In f)
    with Cons.prems have "quoter_run (quoter_on_fill q f) xs = Inr (acts, q')" by simp
    from Cons.IH [OF this] show ?thesis by (auto simp: quoter_on_fill_def split: if_splits)
  qed
qed simp

lemma quoter_tick_ok:
  assumes "client_ready (se_client s)" "\<not> fless tmo (Fin 0)" "quoter_inv (se_strategy s)"
    "quotable (se_strategy s) p" "fq_ids (se_strategy s) + 1 < 2 ^ 64"
  shows "\<exists>s'. session_tick quoter_step quoter_on_fill tmo p s = (Inr (), s') \<and>
    client_ready (se_client s') \<and> se_feed s' = se_feed s \<and> quoter_inv (se_strategy s') \<and>
    fq_ids (se_strategy s') \<le> fq_ids (se_strategy s) + 2 \<and>
    fq_offset (se_strategy s') = fq_offset (se_strategy s) \<and> fq_size (se_strategy s') = fq_size (se_strategy s)"
proof -
  let ?q = "se_strategy s"
  obtain acts q1 where q1: "quoter_on_price ?q p = (acts, q1)" by (cases "quoter_on_price ?q p")
  from do_actions_ok [of "s\<lparr>se_strategy := q1\<rparr>", OF _ quoter_actions_ok [OF assms(3-5) q1]] assms(1)
  obtain t where t: "do_actions acts (s\<lparr>se_strategy := q1\<rparr>) = (Inr (), t)" "client_ready (se_client t)"
    by auto
  have tq: "se_strategy t = q1" using do_actions_audit [OF t(1)] by auto
  from poll_and_drain_ok [OF t(2) assms(2)] obtain es u where
    u: "poll_and_drain quoter_on_fill tmo t = (Inr es, u)" "client_ready (se_client u)" by blast
  have tick: "session_tick quoter_step quoter_on_fill tmo p s = (Inr (), u)"
    using q1 t u by (simp add: session_tick_def quoter_step_def [of ?q])
  have run: "quoter_run q1 (map Fill_In (fills_of es)) = Inr ([], se_strategy u)"
    using poll_and_drain_audit [OF u(1), of quoter_step] tq by simp
  have inv1: "quoter_inv q1" using assms(3) q1 by (rule quoter_inv_price)
  have "fq_ids (se_strategy u) = fq_ids q1"
    using quoter_source.run_ids [OF inv1 run] by simp
  moreover have "fq_ids q1 \<le> fq_ids ?q + 2"
    using q1 unfolding quoter_on_price_eq Let_def by auto
  ultimately show ?thesis
    using tick u(2) quoter_source.run_inv [OF inv1 run] session_tick_feed [OF tick]
      quoter_run_const [OF run] quoter_offset [OF q1] quoter_size_kept [OF q1] by auto
qed

text \<open>
  A quoter session over a feed that gives n more quotable prices and then stops, or is
  stopped by the tick limit: \<open>good k f\<close> says that the feed \<open>f\<close> still gives k of them.
\<close>

lemma quoter_tick_loop_ok:
  assumes next_ok: "\<And>k f. good (Suc k) f \<Longrightarrow> \<exists>p g. next_price f = (Inr p, g) \<and> quotable q0 p \<and> good k g"
    and stop: "max_ticks = Some (int (k + n)) \<or> (\<forall>f. good 0 f \<longrightarrow> (\<exists>g. next_price f = (Inl StopIteration, g)))"
    and limit: "\<forall>m. max_ticks = Some m \<longrightarrow> int (k + n) \<le> m"
    and s: "client_ready (se_client s)" "\<not> fless tmo (Fin 0)" "quoter_inv (se_strategy s)"
      "fq_offset (se_strategy s) = fq_offset q0" "fq_size (se_strategy s) = fq_size q0"
      "good n (se_feed s)" "fq_ids (se_strategy s) + 2 * int n \<le> 2 ^ 64" "n < fuel"
  shows "\<exists>s'. tick_loop next_price quoter_step quoter_on_fill fuel max_ticks tmo k s =
    Some (Inr (k + n), s') \<and> client_ready (se_client s')"
  using stop limit s
proof (induction n arbitrary: k s fuel)
  case 0
  from 0(10) obtain fl where fl: "fuel = Suc fl" by (cases fuel) auto
  show ?case
  proof (cases "max_ticks = Some (int k)")
    case True
    with 0 fl show ?thesis by simp
  next
    case False
    with 0 obtain g where g: "next_price (se_feed s) = (Inl StopIteration, g)" by auto
    have "\<not> (case max_ticks of None \<Rightarrow> False | Some m \<Rightarrow> m \<le> int k)"
      using False 0(2) by (auto split: option.splits)
    with g fl 0(3) show ?thesis by simp
  qed
next
  case (Suc n)
  from Suc.prems(10) obtain fl where fl: "fuel = Suc fl" "n < fl" by (cases fuel) auto
  from next_ok [OF Suc.prems(8)] obtain p g where
    np: "next_price (se_feed s) = (Inr p, g)" "quotable q0 p" "good n g" by blast
  have go: "\<not> (case max_ticks of None \<Rightarrow> False | Some m \<Rightarrow> m \<le> int k)"
    using Suc.prems(2) by (auto split: option.splits)
  have "quotable (se_strategy s) p" using np(2) Suc.prems(6,7) by (simp add: quotable_def)
  then have "\<exists>t. session_tick quoter_step quoter_on_fill tmo p (s\<lparr>se_feed := g\<rparr>) = (Inr (), t) \<and>
      client_ready (se_client t) \<and> se_feed t = g \<and> quoter_inv (se_strategy t) \<and>
      fq_ids (se_strategy t) \<le> fq_ids (se_strategy s) + 2 \<and>
      fq_offset (se_strategy t) = fq_offset q0 \<and> fq_size (se_strategy t) = fq_size q0"
    using quoter_tick_ok [of "s\<lparr>se_feed := g\<rparr>" tmo p] Suc.prems by simp
  then obtain t where t: "session_tick quoter_step quoter_on_fill tmo p (s\<lparr>se_feed := g\<rparr>) = (Inr (), t)"
    "client_ready (se_client t)" "se_feed t = g" "quoter_inv (se_strategy t)"
    "fq_ids (se_strategy t) \<le> fq_ids (se_strategy s) + 2"
    "fq_offset (se_strategy t) = fq_offset q0" "fq_size (se_strategy t) = fq_size q0" by blast
  have "\<exists>s'. tick_loop next_price quoter_step quoter_on_fill fl max_ticks tmo (k + 1) t =
      Some (Inr (k + 1 + n), s') \<and> client_ready (se_client s')"
    by (rule Suc.IH) (use Suc.prems t np(3) fl in auto)
  with np(1) go t(1) fl(1) show ?case by simp
qed

lemma quoter_session_ok:
  assumes next_ok: "\<And>k f. good (Suc k) f \<Longrightarrow> \<exists>p g. next_price f = (Inr p, g) \<and> quotable (se_strategy s) p \<and> good k g"
    and stop: "max_ticks = Some (int n) \<or> (max_ticks = None \<and> (\<forall>f. good 0 f \<longrightarrow> (\<exists>g. next_price f = (Inl StopIteration, g))))"
    and s: "client_ready (se_client s)" "\<not> fless tmo (Fin 0)" "\<not> fless ftmo (Fin 0)"
      "se_strategy s = quoter_init offset_ticks sz" "good n (se_feed s)" "2 * n < 2 ^ 64" "n < fuel"
  shows "\<exists>s'. run_strategy_loop next_price quoter_step quoter_on_fill fuel max_ticks tmo ftmo s = Some (Inr n, s')"
proof -
  have "quoter_inv (se_strategy s)" "fq_ids (se_strategy s) + 2 * int n \<le> 2 ^ 64"
    using s(6) by (simp_all add: s(4) quoter_init_def quoter_inv_def)
  then have "\<exists>t. tick_loop next_price quoter_step quoter_on_fill fuel max_ticks tmo 0 s =
      Some (Inr (0 + n), t) \<and> client_ready (se_client t)"
    using stop s by (intro quoter_tick_loop_ok [where good = good and ?q0.0 = "se_strategy s"] next_ok) auto
  then obtain t where t: "tick_loop next_price quoter_step quoter_on_fill fuel max_ticks tmo 0 s =
      Some (Inr n, t)" "client_ready (se_client t)" by auto
  from final_drain_ok [OF t(2) s(3)] obtain u where "final_drain quoter_on_fill ftmo t = (Inr (), u)"
    by blast
  with t(1) show ?thesis by (simp add: run_strategy_loop_def)
qed

text \<open>The two feeds the drivers run the quoter over.\<close>

definition historical_good :: "FixedOffsetQuoter \<Rightarrow> nat \<Rightarrow> HistoricalPriceFeed \<Rightarrow> bool" where
  "historical_good q k f \<longleftrightarrow> historical_remaining f = k \<and>
     (\<forall>p\<in>set (drop (hf_index f) (hf_prices f)). quotable q p)"

lemma historical_good_next:
  assumes "historical_good q (Suc k) f"
  shows "\<exists>p g. historical_next_price f = (Inr p, g) \<and> quotable q p \<and> historical_good q k g"
proof -
  have l: "hf_index f < length (hf_prices f)"
    using assms by (auto simp: historical_good_def historical_remaining_def)
  then have d: "drop (hf_index f) (hf_prices f) =
      hf_prices f ! hf_index f # drop (Suc (hf_index f)) (hf_prices f)" by (simp add: Cons_nth_drop_Suc)
  with assms l show ?thesis
    by (auto simp: historical_good_def historical_remaining_def historical_next_price_def)
qed

lemma historical_good_stop: "historical_good q 0 f \<Longrightarrow> historical_next_price f = (Inl StopIteration, f)"
  by (simp add: historical_good_def historical_remaining_def historical_next_price_def)

lemma historical_quoter_session_ok:
  assumes "client_ready (se_client s)" "\<not> fless tmo (Fin 0)" "\<not> fless ftmo (Fin 0)"
    "se_feed s = historical_init prices" "se_strategy s = quoter_init offset_ticks sz"
    "\<forall>p\<in>set prices. quotable (quoter_init offset_ticks sz) p"
    "2 * length prices < 2 ^ 64" "length prices < fuel"
  shows "\<exists>s'. run_strategy_loop historical_next_price quoter_step quoter_on_fill fuel None tmo ftmo s =
    Some (Inr (length prices), s')"
proof (rule quoter_session_ok [where good = "historical_good (se_strategy s)"])
  show "historical_good (se_strategy s) (length prices) (se_feed s)"
    using assms(4-6) by (simp add: historical_good_def historical_init_def historical_remaining_def)
qed (use assms historical_good_next historical_good_stop in auto)

definition synthetic_good :: "FixedOffsetQuoter \<Rightarrow> nat \<Rightarrow> SyntheticPriceFeed \<Rightarrow> bool" where
  "synthetic_good q k f \<longleftrightarrow> (\<forall>i. sf_rng f i < 5) \<and>
     (\<forall>p. \<bar>p - sf_price f\<bar> \<le> 2 * int k \<longrightarrow> quotable q p)"

lemma synthetic_good_next:
  assumes "synthetic_good q (Suc k) f"
  shows "\<exists>p g. synthetic_next_price f = (Inr p, g) \<and> quotable q p \<and> synthetic_good q k g"
proof -
  define st where "st = STEPS ! sf_rng f (sf_draws f)"
  have st: "\<bar>st\<bar> \<le> 2" using assms STEPS_bound by (simp add: st_def synthetic_good_def)
  have "quotable q p" if "\<bar>p - (sf_price f + st)\<bar> \<le> 2 * int k" for p
  proof -
    have "\<bar>p - sf_price f\<bar> \<le> 2 * int (Suc k)" using that st by simp
    with assms show ?thesis by (simp add: synthetic_good_def)
  qed
  with assms show ?thesis
    by (simp add: synthetic_good_def synthetic_next_price_def st_def [symmetric] Let_def)
qed

text \<open>A session for the witnesses: two prices, and a partial fill that arrives in the first poll.\<close>

definition demo_fill :: FillEvent where
  "demo_fill = \<lparr>fe_resting_order_id = 1, fe_incoming_order_id = 900, fe_resting_side = BUY,
     fe_price_ticks = 99, fe_quantity = 4, fe_timestamp = 7\<rparr>"

definition demo_session :: "(HistoricalPriceFeed, FixedOffsetQuoter) Session" where
  "demo_session = \<lparr>se_feed = historical_init [100, 102], se_strategy = quoter_init 1 10,
     se_client = client_init [] [[Fill_Event demo_fill]], se_log = tradelog_init (\<lambda>k. Fin 0)\<rparr>"

lemma demo_session_facts:
  "se_feed demo_session = historical_init [100, 102]" "se_strategy demo_session = quoter_init 1 10"
  "client_ready (se_client demo_session)" "log_rows (se_log demo_session) = []"
  "\<forall>p\<in>set [100, 102]. quotable (quoter_init 1 10) p" "\<not> fless (Fin 0) (Fin 0)"
  by (simp_all add: demo_session_def client_ready_def client_init_def log_rows_def tradelog_init_def
      quotable_def quoter_init_def fless_def)

lemma demo_session_runs:
  "\<exists>s'. run_strategy_loop historical_next_price quoter_step quoter_on_fill 3 None (Fin 0) (Fin 0) demo_session =
    Some (Inr 2, s')"
  using historical_quoter_session_ok [of demo_session "Fin 0" "Fin 0" "[100, 102]" 1 10 3] demo_session_facts
  by (simp add: numeral_2_eq_2 [symmetric])

section \<open>Properties\<close>

text \<open>C2: however a session ends, by returning or by any exception of the feed, the strategy,
  the encoder, the socket or the poll, the connection is closed; the bytes on the wire are
  exactly the encodings of the actions the log records as sent, in order, followed by nothing,
  or, when the session ended because a \<^verbatim>\<open>sendall\<close> raised, by the part of its message that had
  been sent, which is the beginning of the encoding of an action the strategy returned; and
  the events the log records are exactly a prefix of those the connection delivered, in order.\<close>

theorem session_audit_always:
  assumes "run_strategy_loop next_price on_price on_fill fuel max_ticks tick_poll_timeout
    final_drain_timeout s = Some (r, s')"
  shows "\<not> cl_open (se_client s') \<and> (\<exists>acts evs msgs part. audit s acts evs s' \<and>
    map action_msg acts = map Inr msgs \<and>
    cl_wire (se_client s') = cl_wire (se_client s) @ concat msgs @ part \<and>
    (part \<noteq> [] \<longrightarrow> r = Inl OSError \<and> (\<exists>st price actions st' a buf.
       on_price st price = (Inr actions, st') \<and> a \<in> set actions \<and> action_msg a = Inr buf \<and>
       prefix part buf)))"
proof -
  from run_strategy_loop_cases [OF assms] obtain acts evs where
    a: "\<not> cl_open (se_client s')" "audit s acts evs s'" by blast
  from a(2) obtain msgs where m: "map action_msg acts = map Inr msgs"
    "cl_sent (se_client s') = cl_sent (se_client s) @ concat msgs" by (auto simp: audit_def)
  from run_strategy_loop_wire [OF assms] obtain part where w: "wire_ok on_price s r part s'" by blast
  with m(2) have "cl_wire (se_client s') = cl_wire (se_client s) @ concat msgs @ part"
    by (auto simp: wire_ok_def delivered_def)
  with a m(1) w show ?thesis unfolding wire_ok_def by blast
qed

definition cut_session :: "(HistoricalPriceFeed, FixedOffsetQuoter) Session" where
  "cut_session = demo_session\<lparr>se_client := client_init [None, Some 5] []\<rparr>"

text \<open>A session whose second \<^verbatim>\<open>sendall\<close> raises after five bytes of the sell order.\<close>

theorem session_audit_always_witness:
  "\<exists>s' acts evs msgs part.
    run_strategy_loop historical_next_price quoter_step quoter_on_fill 3 None (Fin 0) (Fin 0) cut_session =
      Some (Inl OSError, s') \<and> audit cut_session acts evs s' \<and>
    map action_msg acts = map Inr msgs \<and> cl_wire (se_client s') = concat msgs @ part \<and>
    length (cl_wire (se_client s')) = 28"
proof -
  let ?r = "run_strategy_loop historical_next_price quoter_step quoter_on_fill 3 None (Fin 0) (Fin 0) cut_session"
  have "case ?r of Some (Inl OSError, s') \<Rightarrow> length (cl_wire (se_client s')) = 28 | _ \<Rightarrow> False"
    by code_simp
  then obtain s' where s': "?r = Some (Inl OSError, s')" "length (cl_wire (se_client s')) = 28"
    by (auto split: option.splits prod.splits sum.splits py_exc.splits)
  have "cl_wire (se_client cut_session) = []" by (simp add: cut_session_def client_init_def)
  with session_audit_always [OF s'(1)] s' show ?thesis by auto
qed

text \<open>C1: a session that returns n has shown the strategy exactly n prices, which are the next n
  prices of the feed in order, interleaved with exactly the fills the log records, in order;
  what it sent and logged is what the strategy returned for that input; and it stopped only
  because the tick limit was reached or the feed raised \<^verbatim>\<open>StopIteration\<close>.\<close>

theorem session_refines_strategy:
  assumes "run_strategy_loop next_price on_price on_fill fuel max_ticks tick_poll_timeout
    final_drain_timeout s = Some (Inr n, s')"
  shows "\<exists>xs acts evs f. strategy_run on_price on_fill (se_strategy s) xs = Inr (acts, se_strategy s') \<and>
    audit s acts evs s' \<and> stim_fills xs = fills_of evs \<and> length (stim_prices xs) = n \<and>
    feed_prices next_price (se_feed s) (stim_prices xs) f \<and>
    loop_done next_price max_ticks n f (se_feed s')"
  using run_strategy_loop_cases [OF assms] by auto

theorem session_refines_strategy_witness:
  "\<exists>s' xs acts evs f. run_strategy_loop historical_next_price quoter_step quoter_on_fill 3 None (Fin 0) (Fin 0)
      demo_session = Some (Inr 2, s') \<and>
    quoter_run (quoter_init 1 10) xs = Inr (acts, se_strategy s') \<and>
    audit demo_session acts evs s' \<and> length (stim_prices xs) = 2 \<and>
    feed_prices historical_next_price (historical_init [100, 102]) (stim_prices xs) f"
proof -
  obtain s' where s': "run_strategy_loop historical_next_price quoter_step quoter_on_fill 3 None (Fin 0) (Fin 0)
      demo_session = Some (Inr 2, s')" using demo_session_runs by blast
  from session_refines_strategy [OF s'] s' demo_session_facts(1,2) show ?thesis by auto
qed

text \<open>C33: a session whose connection delivers finitely many events ends: over a historical feed;
  over a live feed, whatever ticks arrive, when the clock of some later call has reached the
  deadline; and over any feed when a tick limit is given.  One unit of fuel per price plus one
  is enough: per price left, per call before the deadline, per tick of the limit.  The final
  drain reads no further than its first poll that gets nothing.\<close>

theorem session_terminates:
  "(historical_remaining (se_feed sh) < fuel \<longrightarrow>
      run_strategy_loop historical_next_price on_price on_fill fuel max_ticks tmo ftmo sh \<noteq> None) \<and>
   (deadline_reached (se_feed sl) (lf_calls (se_feed sl) + k) \<and> k < fuel \<longrightarrow>
      run_strategy_loop live_next_price on_price on_fill fuel max_ticks tmo ftmo sl \<noteq> None) \<and>
   (nat m < fuel \<longrightarrow>
      run_strategy_loop next_price on_price on_fill fuel (Some m) tmo ftmo s \<noteq> None) \<and>
   (cl_events (se_client s) = [] \<and> [] \<notin> set batches \<and> cl_arrivals (se_client s) = batches @ [] # rest \<and>
      \<not> fless ftmo (Fin 0) \<longrightarrow>
      (\<exists>s'. final_drain on_fill ftmo s = (Inr (), s') \<and> cl_arrivals (se_client s') = rest))"
proof (intro conjI impI, goal_cases)
  case 1
  then show ?case by (intro historical.session_ends) simp
next
  case 2
  then have "live_ends (se_feed sl)" "live_remaining (se_feed sl) \<le> k"
    using live_remaining_le by (auto simp: live_ends_def)
  with 2 show ?case by (intro live.session_ends) simp_all
next
  case 3
  then show ?case by (rule session_max_ends)
next
  case 4
  then show ?case using final_drain_quiet by blast
qed

definition demo_live_session :: "(LiveIBKRFeed, FixedOffsetQuoter) Session" where
  "demo_live_session = \<lparr>se_feed = live_init (Fin 0) (Fin 1) demo_env, se_strategy = quoter_init 1 10,
     se_client = client_init [] [], se_log = tradelog_init (\<lambda>k. Fin 0)\<rparr>"

text \<open>A live session whose clock reaches the deadline of one second at its third call.\<close>

theorem session_terminates_witness:
  "run_strategy_loop live_next_price quoter_step quoter_on_fill 3 None (Fin 0) (Fin 0) demo_live_session \<noteq> None \<and>
   run_strategy_loop historical_next_price quoter_step quoter_on_fill 3 None (Fin 0) (Fin 0) demo_session \<noteq> None \<and>
   run_strategy_loop live_next_price quoter_step quoter_on_fill 3 (Some 2) (Fin 0) (Fin 0) demo_live_session \<noteq> None \<and>
   (\<exists>s'. final_drain quoter_on_fill (Fin 0)
      (demo_session\<lparr>se_client := client_init [] [[Fill_Event demo_fill], [], [Fill_Event demo_fill]]\<rparr>) =
        (Inr (), s') \<and> cl_arrivals (se_client s') = [[Fill_Event demo_fill]])"
proof -
  let ?s = "demo_session\<lparr>se_client := client_init [] [[Fill_Event demo_fill], [], [Fill_Event demo_fill]]\<rparr>"
  have d: "deadline_reached (se_feed demo_live_session) (lf_calls (se_feed demo_live_session) + 2)"
    using demo_deadline by (simp add: demo_live_session_def live_init_def numeral_2_eq_2)
  have h: "historical_remaining (se_feed demo_session) < 3"
    by (simp add: demo_session_facts historical_init_def historical_remaining_def)
  have f: "cl_events (se_client ?s) = [] \<and> [] \<notin> set [[Fill_Event demo_fill]] \<and>
      cl_arrivals (se_client ?s) = [[Fill_Event demo_fill]] @ [] # [[Fill_Event demo_fill]] \<and>
      \<not> fless (Fin 0) (Fin 0)"
    by (simp add: client_init_def fless_def)
  note t = session_terminates [where fuel = 3 and on_price = quoter_step and on_fill = quoter_on_fill and
      tmo = "Fin 0" and ftmo = "Fin 0" and max_ticks = None]
  show ?thesis
    using t [where sl = demo_live_session and k = 2 and m = 2 and next_price = live_next_price and
        s = demo_live_session and sh = demo_session]
      t [where s = ?s and batches = "[[Fill_Event demo_fill]]" and rest = "[[Fill_Event demo_fill]]"]
      d h f by simp
qed

text \<open>A quoter session over a historical feed, on a connection that stays up, runs to the end
  of the feed and returns the number of its prices, as long as every quote it can derive
  from them fits the wire format.\<close>

lemma quoter_session_completes:
  assumes "se_client s = client_init [] arrivals" "se_feed s = historical_init prices"
    "se_strategy s = quoter_init offset_ticks sz"
    "\<not> fless tick_poll_timeout (Fin 0)" "\<not> fless final_drain_timeout (Fin 0)"
    "\<forall>p\<in>set prices. quotable (quoter_init offset_ticks sz) p"
    "2 * length prices < 2 ^ 64" "length prices < fuel"
  shows "\<exists>s'. run_strategy_loop historical_next_price quoter_step quoter_on_fill fuel None
      tick_poll_timeout final_drain_timeout s = Some (Inr (length prices), s')"
  using assms by (intro historical_quoter_session_ok) (auto simp: client_ready_def client_init_def)

lemma quoter_session_completes_witness:
  "\<exists>s'. run_strategy_loop historical_next_price quoter_step quoter_on_fill 3 None (Fin 0) (Fin 0)
      demo_session = Some (Inr 2, s')"
  using quoter_session_completes [of demo_session "[[Fill_Event demo_fill]]" "[100, 102]" 1 10 "Fin 0" "Fin 0" 3]
    demo_session_facts by (simp add: demo_session_def numeral_2_eq_2 [symmetric])

text \<open>The order ids the log of a quoter session records are 1, 2, 3, ... up to the quoter's
  counter, each exactly once and in order, over every feed and every schedule of fills.\<close>

lemma quoter_session_order_ids:
  assumes "run_strategy_loop next_price quoter_step quoter_on_fill fuel max_ticks tmo ftmo
      \<lparr>se_feed = feed, se_strategy = quoter_init offset_ticks sz, se_client = c,
       se_log = tradelog_init clock\<rparr> = Some (Inr n, s')"
  shows "logged_order_ids (log_rows (se_log s')) =
    map (Some \<circ> CInt) [1..fq_ids (se_strategy s') - 1]"
  using quoter_source.session_order_ids [OF _ _ assms]
  by (simp add: log_rows_def tradelog_init_def quoter_init_def quoter_inv_def)

lemma quoter_session_order_ids_witness:
  "\<exists>s'. run_strategy_loop historical_next_price quoter_step quoter_on_fill 3 None (Fin 0) (Fin 0)
      demo_session = Some (Inr 2, s') \<and>
    logged_order_ids (log_rows (se_log s')) = map (Some \<circ> CInt) [1..fq_ids (se_strategy s') - 1]"
proof -
  obtain s' where s': "run_strategy_loop historical_next_price quoter_step quoter_on_fill 3 None (Fin 0) (Fin 0)
      demo_session = Some (Inr 2, s')" using demo_session_runs by blast
  with quoter_session_order_ids [OF s' [unfolded demo_session_def]] show ?thesis by blast
qed

end
