(* ===== verification/Reports.thy ===== *)
theory Reports
  imports Statistics SessionRunner
begin

text \<open>
  \<^verbatim>\<open>strategy/orderbook_client/backtest_report.py\<close>: the position replay over the logged fills,
  the equity curve and the figures of the report; and \<^verbatim>\<open>hedge_report.py\<close>.  Average entry
  prices are binary64, as in the code; the exact results are proved against an integer
  specification of average-cost accounting, with the range in which the floats are exact.
  \<^verbatim>\<open>periods_per_year ** 0.5\<close> is the C library's \<^verbatim>\<open>pow\<close>: its result is a parameter.
\<close>

section \<open>The position replay\<close>

definition sign :: "int \<Rightarrow> int" where
  "sign x = of_bool (x > 0) - of_bool (x < 0)"

record PositionReplay =
  pr_net_position :: int
  pr_realized_pnl_ticks :: int
  pr_avg_entry_price_ticks :: pyfloat

definition replay_init :: PositionReplay where
  "replay_init = \<lparr>pr_net_position = 0, pr_realized_pnl_ticks = 0, pr_avg_entry_price_ticks = Fin 0\<rparr>"

definition replay_on_fill ::
  "int \<Rightarrow> int \<Rightarrow> int \<Rightarrow> PositionReplay \<Rightarrow> (int \<times> PositionReplay) res" where
  "replay_on_fill incoming_sd quantity price_ticks r =
     (let sq = (if incoming_sd = 0 then quantity else - quantity);
          net = pr_net_position r; avg = pr_avg_entry_price_ticks r in
      if net = 0 \<or> sign net = sign sq then
        res_bind (fmul_int avg \<bar>net\<bar>) (\<lambda>held.
        res_bind (fadd_int held (price_ticks * \<bar>sq\<bar>)) (\<lambda>cost.
        res_bind (fdiv_int cost (\<bar>net\<bar> + \<bar>sq\<bar>)) (\<lambda>avg'.
        Inr (0, r\<lparr>pr_avg_entry_price_ticks := avg', pr_net_position := net + sq\<rparr>))))
      else
        let direction = sign net; closing_qty = min \<bar>sq\<bar> \<bar>net\<bar> in
        res_bind (int_fsub price_ticks avg) (\<lambda>move.
        res_bind (fmul_int move (direction * closing_qty)) (\<lambda>x.
        res_bind (py_round x) (\<lambda>delta.
        let r1 = r\<lparr>pr_realized_pnl_ticks := pr_realized_pnl_ticks r + delta,
                   pr_net_position := net + sq\<rparr> in
        if net + sq \<noteq> 0 \<and> sign (net + sq) \<noteq> direction then
          res_bind (int_to_float price_ticks) (\<lambda>p.
          Inr (delta, r1\<lparr>pr_avg_entry_price_ticks := p\<rparr>))
        else Inr (delta, r1)))))"

section \<open>The report\<close>

record BacktestReport =
  br_sharpe_ratio :: pyfloat
  br_max_drawdown_ticks :: int
  br_win_rate :: pyfloat
  br_num_trades :: nat
  br_total_realized_pnl_ticks :: int

text \<open>Cells of a log row: every quantity the log writes is an int.\<close>

definition row_get :: "Row \<Rightarrow> string \<Rightarrow> Cell res" where
  "row_get row k = (case map_of row k of None \<Rightarrow> Inl KeyError | Some v \<Rightarrow> Inr v)"

definition row_int :: "Row \<Rightarrow> string \<Rightarrow> int res" where
  "row_int row k = res_bind (row_get row k) (\<lambda>v. case v of CInt n \<Rightarrow> Inr n | _ \<Rightarrow> Inl TypeError)"

fun report_loop ::
  "Row list \<Rightarrow> PositionReplay \<Rightarrow> int list \<Rightarrow> int list \<Rightarrow> (PositionReplay \<times> int list \<times> int list) res" where
  "report_loop [] replay trade_pnls equity_curve = Inr (replay, trade_pnls, equity_curve)"
| "report_loop (row # rows) replay trade_pnls equity_curve =
     res_bind (row_get row ''event'') (\<lambda>ev.
     if ev \<noteq> CStr ''fill'' then report_loop rows replay trade_pnls equity_curve
     else
       res_bind (row_int row ''incoming_side'') (\<lambda>sd.
       res_bind (row_int row ''qty'') (\<lambda>qty.
       res_bind (row_int row ''price_ticks'') (\<lambda>px.
       res_bind (replay_on_fill sd qty px replay) (\<lambda>(delta, replay').
       report_loop rows replay' (if delta \<noteq> 0 then trade_pnls @ [delta] else trade_pnls)
         (equity_curve @ [last equity_curve + delta]))))))"

definition max_drawdown :: "int list \<Rightarrow> int" where
  "max_drawdown equity_curve =
     snd (foldl (\<lambda>(peak, max_dd) value.
            let peak' = max peak value in (peak', min max_dd (value - peak')))
          (hd equity_curve, 0) equity_curve)"

definition win_rate :: "int list \<Rightarrow> pyfloat res" where
  "win_rate trade_pnls =
     (if trade_pnls = [] then Inr (Fin 0)
      else int_truediv (int (length (filter (\<lambda>p. 0 < p) trade_pnls))) (int (length trade_pnls)))"

definition sharpe_ratio :: "int list \<Rightarrow> pyfloat res \<Rightarrow> pyfloat res" where
  "sharpe_ratio trade_pnls sqrt_periods =
     (if length trade_pnls < 2 then Inr (Fin 0)
      else
        res_bind (py_mean trade_pnls) (\<lambda>mean.
        res_bind (py_stdev trade_pnls) (\<lambda>stdev.
        if feq stdev (Fin 0) then Inr (Fin 0)
        else
          res_bind (case mean of Mean_Float m \<Rightarrow> fdiv m stdev
                    | Mean_Int n \<Rightarrow> res_bind (int_to_float n) (\<lambda>m. fdiv m stdev)) (\<lambda>ratio.
          res_bind sqrt_periods (\<lambda>p. Inr (fmul ratio p))))))"

definition build_report :: "Row list \<Rightarrow> pyfloat res \<Rightarrow> BacktestReport res" where
  "build_report trade_log_rows sqrt_periods =
     res_bind (report_loop trade_log_rows replay_init [] [0]) (\<lambda>(replay, trade_pnls, equity_curve).
     res_bind (sharpe_ratio trade_pnls sqrt_periods) (\<lambda>sharpe.
     res_bind (win_rate trade_pnls) (\<lambda>wins.
     Inr \<lparr>br_sharpe_ratio = sharpe, br_max_drawdown_ticks = max_drawdown equity_curve,
          br_win_rate = wins, br_num_trades = length trade_pnls,
          br_total_realized_pnl_ticks = pr_realized_pnl_ticks replay\<rparr>)))"

section \<open>The hedge report\<close>

record HedgeReport =
  hr_mean_abs_hedge_error_contracts :: mean_value
  hr_rehedge_count :: nat
  hr_hedged_pnl_variance :: pyfloat
  hr_unhedged_pnl_variance :: pyfloat
  hr_variance_reduction_pct :: pyfloat

definition pnl_variance :: "pyfloat list \<Rightarrow> pyfloat res" where
  "pnl_variance xs = (if 1 < length xs then py_pvariance xs else Inr (Fin 0))"

definition variance_reduction :: "pyfloat \<Rightarrow> pyfloat \<Rightarrow> pyfloat res" where
  "variance_reduction hedged_var unhedged_var =
     (if fless (Fin 0) unhedged_var
      then res_bind (fdiv hedged_var unhedged_var) (\<lambda>q. Inr (fmul (fsub (Fin 1) q) (Fin 100)))
      else Inr (Fin 0))"

definition build_hedge_report ::
  "int list \<Rightarrow> nat \<Rightarrow> pyfloat list \<Rightarrow> pyfloat list \<Rightarrow> HedgeReport res" where
  "build_hedge_report hedge_error_history rehedge_count hedged_pnl_series unhedged_pnl_series =
     res_bind (if hedge_error_history = [] then Inr (Mean_Float (Fin 0))
               else py_mean (map abs hedge_error_history)) (\<lambda>mean_abs.
     res_bind (pnl_variance hedged_pnl_series) (\<lambda>hedged_var.
     res_bind (pnl_variance unhedged_pnl_series) (\<lambda>unhedged_var.
     res_bind (variance_reduction hedged_var unhedged_var) (\<lambda>reduction.
     Inr \<lparr>hr_mean_abs_hedge_error_contracts = mean_abs, hr_rehedge_count = rehedge_count,
          hr_hedged_pnl_variance = hedged_var, hr_unhedged_pnl_variance = unhedged_var,
          hr_variance_reduction_pct = reduction\<rparr>))))"

section \<open>Lemmas\<close>

lemma sign_cases: "sign x = (if 0 < x then 1 else if x < 0 then - 1 else 0)"
  by (simp add: sign_def)

subsection \<open>Drawdown\<close>

lemma drawdown_fold:
  fixes xs :: "int list"
  assumes "foldl (\<lambda>(peak, max_dd) value. let peak' = max peak value in (peak', min max_dd (value - peak')))
      (hd xs, 0) xs = (peak, dd)" "xs \<noteq> []"
  shows "peak = Max (set xs) \<and> dd \<le> 0 \<and>
    (\<forall>i j. i \<le> j \<and> j < length xs \<longrightarrow> dd \<le> xs ! j - xs ! i) \<and>
    (\<exists>i j. i \<le> j \<and> j < length xs \<and> dd = xs ! j - xs ! i)"
  using assms
proof (induction xs arbitrary: peak dd rule: rev_induct)
  case (snoc x xs)
  show ?case
  proof (cases "xs = []")
    case True
    with snoc.prems show ?thesis by auto
  next
    case False
    obtain p d where pd: "foldl (\<lambda>(peak, max_dd) value. let peak' = max peak value in (peak', min max_dd (value - peak')))
      (hd xs, 0) xs = (p, d)" by fastforce
    note ih = snoc.IH [OF pd False]
    have pk: "peak = max p x" "dd = min d (x - max p x)"
      using snoc.prems(1) pd False by (auto simp: Let_def)
    have "peak = Max (set (xs @ [x]))" using ih pk(1) False by (simp add: max.commute)
    moreover have "dd \<le> 0" using ih pk by auto
    moreover have "dd \<le> (xs @ [x]) ! j - (xs @ [x]) ! i" if "i \<le> j" "j < length (xs @ [x])" for i j
    proof (cases "j < length xs")
      case True
      then have "d \<le> xs ! j - xs ! i" using that ih by blast
      moreover have "dd \<le> d" using pk by simp
      ultimately show ?thesis using True that by (simp add: nth_append)
    next
      case j: False
      with that have j: "j = length xs" by simp
      have "(xs @ [x]) ! i \<le> max p x"
      proof (cases "i < length xs")
        case True
        then have "xs ! i \<le> p" using ih by (simp add: Max_ge)
        with True show ?thesis by (simp add: nth_append)
      next
        case False
        with that j show ?thesis by (simp add: nth_append)
      qed
      with j pk show ?thesis by (simp add: nth_append)
    qed
    moreover have "\<exists>i j. i \<le> j \<and> j < length (xs @ [x]) \<and> dd = (xs @ [x]) ! j - (xs @ [x]) ! i"
    proof (cases "d \<le> x - max p x")
      case True
      from ih obtain i j where "i \<le> j" "j < length xs" "d = xs ! j - xs ! i" by blast
      with True pk show ?thesis by (intro exI [of _ i] exI [of _ j]) (simp add: nth_append)
    next
      case d: False
      show ?thesis
      proof (cases "x \<le> p")
        case True
        have "p \<in> set xs" using ih False by simp
        then obtain i where "i < length xs" "xs ! i = p" by (auto simp: in_set_conv_nth)
        with d True pk show ?thesis
          by (intro exI [of _ i] exI [of _ "length xs"]) (simp add: nth_append)
      next
        case False
        with d pk show ?thesis
          by (intro exI [of _ "length xs"]) (simp add: nth_append)
      qed
    qed
    ultimately show ?thesis by blast
  qed
qed simp

subsection \<open>Average-cost accounting in integers\<close>

text \<open>
  The specification the replay is compared with: net position, realized profit and average
  entry price in integers; \<open>None\<close> when an average would not be an integer.
\<close>

fun cost_step :: "int \<times> int \<times> int \<Rightarrow> int \<times> int \<Rightarrow> (int \<times> int \<times> int) option" where
  "cost_step (net, realized, avg) (sq, price) =
     (if net = 0 \<or> sign net = sign sq then
        let total = \<bar>net\<bar> + \<bar>sq\<bar>; cost = avg * \<bar>net\<bar> + price * \<bar>sq\<bar> in
        if total \<noteq> 0 \<and> cost mod total = 0 then Some (net + sq, realized, cost div total) else None
      else
        let closing = sign net * min \<bar>sq\<bar> \<bar>net\<bar>; net' = net + sq in
        Some (net', realized + closing * (price - avg),
              if net' \<noteq> 0 \<and> sign net' \<noteq> sign net then price else avg))"

fun cost_run :: "int \<times> int \<times> int \<Rightarrow> (int \<times> int) list \<Rightarrow> (int \<times> int \<times> int) option" where
  "cost_run st [] = Some st"
| "cost_run st (f # fs) = (case cost_step st f of None \<Rightarrow> None | Some st' \<Rightarrow> cost_run st' fs)"

text \<open>Realized profit plus the open position marked at any price is the cash paid in.\<close>

lemma cost_step_conserves:
  assumes "cost_step (net, realized, avg) (sq, price) = Some (net', realized', avg')"
  shows "net' = net + sq \<and>
    realized' + net' * (mark - avg') = realized + net * (mark - avg) + sq * (mark - price)"
proof (cases "net = 0 \<or> sign net = sign sq")
  case True
  let ?total = "\<bar>net\<bar> + \<bar>sq\<bar>" and ?cost = "avg * \<bar>net\<bar> + price * \<bar>sq\<bar>"
  have d: "?total \<noteq> 0" "?cost mod ?total = 0" "net' = net + sq" "realized' = realized"
    "avg' = ?cost div ?total"
    using assms True by (auto simp: Let_def split: if_splits)
  have e: "avg' * ?total = ?cost" using d(2,5) by (metis div_mult_mod_eq add.right_neutral)
  have "net' * avg' = net * avg + sq * price"
  proof (cases "0 < net \<or> (net = 0 \<and> 0 < sq)")
    case pos: True
    then have "\<bar>net\<bar> = net" "\<bar>sq\<bar> = sq"
      using True by (auto simp: sign_cases split: if_splits)
    then show ?thesis using e d(3) by (simp add: algebra_simps)
  next
    case neg: False
    then have "\<bar>net\<bar> = - net" "\<bar>sq\<bar> = - sq"
      using True by (auto simp: sign_cases split: if_splits)
    then have "- (avg' * (net + sq)) = - (avg * net + price * sq)"
      using e by (simp add: algebra_simps)
    then show ?thesis using d(3) by (simp add: algebra_simps)
  qed
  then show ?thesis using d(3,4) by (simp add: algebra_simps)
next
  case False
  define closing where "closing = sign net * min \<bar>sq\<bar> \<bar>net\<bar>"
  have r: "net' = net + sq" "realized' = realized + closing * (price - avg)"
    "avg' = (if net' \<noteq> 0 \<and> sign net' \<noteq> sign net then price else avg)"
    using assms False by (auto simp: Let_def closing_def)
  show ?thesis
  proof (cases "net' \<noteq> 0 \<and> sign net' \<noteq> sign net")
    case True
    then have "closing = net" using False r(1)
      by (auto simp: closing_def sign_cases split: if_splits)
    with True r show ?thesis by (simp add: algebra_simps)
  next
    case keep: False
    then have "closing = - sq" using False r(1)
      by (auto simp: closing_def sign_cases split: if_splits)
    with keep r show ?thesis by (auto simp: algebra_simps)
  qed
qed

lemma cost_run_conserves:
  "cost_run (net, realized, avg) fs = Some (net', realized', avg') \<Longrightarrow>
   net' = net + sum_list (map fst fs) \<and>
   realized' + net' * (mark - avg') =
     realized + net * (mark - avg) + sum_list (map (\<lambda>(s, p). s * (mark - p)) fs)"
proof (induction fs arbitrary: net realized avg)
  case (Cons f fs)
  obtain s p where f: "f = (s, p)" by (cases f)
  from Cons.prems obtain n1 r1 a1 where 1: "cost_step (net, realized, avg) (s, p) = Some (n1, r1, a1)"
    "cost_run (n1, r1, a1) fs = Some (net', realized', avg')"
    unfolding f cost_run.simps by (auto split: option.splits)
  have A: "n1 = net + s" "r1 + n1 * (mark - a1) = realized + net * (mark - avg) + s * (mark - p)"
    using cost_step_conserves [OF 1(1), of mark] by auto
  have B: "net' = n1 + sum_list (map fst fs)" "realized' + net' * (mark - avg') =
      r1 + n1 * (mark - a1) + sum_list (map (\<lambda>(s, p). s * (mark - p)) fs)"
    using Cons.IH [OF 1(2)] by auto
  have "realized' + net' * (mark - avg') = realized + net * (mark - avg) + s * (mark - p) +
      sum_list (map (\<lambda>(s, p). s * (mark - p)) fs)"
    using A(2) B(2) by linarith
  with A(1) B(1) f show ?case by (simp add: add.assoc)
qed simp

subsection \<open>The floats are exact in range\<close>

lemma fmul_int_exact:
  assumes "is_finite x" "fval x = of_int a" "\<bar>n\<bar> \<le> 2 ^ 53" "\<bar>a * n\<bar> \<le> 2 ^ 53"
  shows "\<exists>y. fmul_int x n = Inr y \<and> is_finite y \<and> fval y = of_int (a * n)"
proof -
  have e: "exact (of_int (a * n))" using assms(4) by (rule exact_of_int)
  have "is_finite (fmul x (Fin (of_int n))) \<and> fval (fmul x (Fin (of_int n))) = of_int (a * n)"
    using fmul_finite [of x "Fin (of_int n)"] e assms(1,2) by (simp add: exact_def)
  with assms(3) show ?thesis by (simp add: fmul_int_def)
qed

lemma fadd_int_exact:
  assumes "is_finite x" "fval x = of_int a" "\<bar>n\<bar> \<le> 2 ^ 53" "\<bar>a + n\<bar> \<le> 2 ^ 53"
  shows "\<exists>y. fadd_int x n = Inr y \<and> is_finite y \<and> fval y = of_int (a + n)"
proof -
  have "exact (of_int (a + n))" using assms(4) by (rule exact_of_int)
  then have "is_finite (fadd x (Fin (of_int n))) \<and> fval (fadd x (Fin (of_int n))) = of_int (a + n)"
    using fadd_finite [of x "Fin (of_int n)"] assms(1,2) by (simp add: exact_def)
  with assms(3) show ?thesis by (simp add: fadd_int_def)
qed

lemma int_fsub_exact:
  assumes "\<bar>p\<bar> \<le> 2 ^ 53" "\<bar>p - a\<bar> \<le> 2 ^ 53" "is_finite x" "fval x = of_int a"
  shows "\<exists>y. int_fsub p x = Inr y \<and> is_finite y \<and> fval y = of_int (p - a)"
proof -
  have "exact (of_int (p - a))" using assms(2) by (rule exact_of_int)
  then have "is_finite (fsub (Fin (of_int p)) x) \<and> fval (fsub (Fin (of_int p)) x) = of_int (p - a)"
    using fsub_finite [of "Fin (of_int p)" x] assms(3,4) by (simp add: exact_def)
  with assms(1) show ?thesis by (simp add: int_fsub_def)
qed

lemma fdiv_int_exact:
  assumes "is_finite x" "fval x = of_int (k * n)" "n \<noteq> 0" "\<bar>n\<bar> \<le> 2 ^ 53" "\<bar>k\<bar> \<le> 2 ^ 53"
  shows "\<exists>y. fdiv_int x n = Inr y \<and> is_finite y \<and> fval y = of_int k"
proof -
  have e: "exact (of_int k)" using assms(5) by (rule exact_of_int)
  have "fval x / fval (Fin (of_int n)) = of_int k" using assms(2,3) by simp
  with fdiv_finite [of x "Fin (of_int n)"] e assms(1,3) obtain y where
    "fdiv x (Fin (of_int n)) = Inr y" "is_finite y" "fval y = of_int k"
    by (auto simp: exact_def)
  with assms(4) show ?thesis by (simp add: fdiv_int_def)
qed

text \<open>The replay agrees with the specification while \<open>P * Q \<le> 2^52\<close>.\<close>

definition replays :: "int \<times> int \<times> int \<Rightarrow> PositionReplay \<Rightarrow> bool" where
  "replays st r \<longleftrightarrow> (case st of (net, realized, avg) \<Rightarrow>
     pr_net_position r = net \<and> pr_realized_pnl_ticks r = realized \<and>
     is_finite (pr_avg_entry_price_ticks r) \<and> fval (pr_avg_entry_price_ticks r) = of_int avg)"

lemma abs_mult_le: "\<bar>a\<bar> \<le> P \<Longrightarrow> \<bar>b\<bar> \<le> Q \<Longrightarrow> \<bar>a * b\<bar> \<le> P * (Q :: int)"
  by (simp add: abs_mult mult_mono)

lemma le_product: "1 \<le> P \<Longrightarrow> 1 \<le> Q \<Longrightarrow> P \<le> P * Q \<and> Q \<le> P * (Q :: int)"
  using mult_left_mono [of 1 Q P] mult_right_mono [of 1 P Q] by simp

lemma replay_step_exact:
  assumes r: "replays (net, realized, avg) r"
    and s: "cost_step (net, realized, avg) (sq, price) = Some (net', realized', avg')"
    and b: "\<bar>avg\<bar> \<le> P" "\<bar>price\<bar> \<le> P" "\<bar>net\<bar> + \<bar>sq\<bar> \<le> Q" "1 \<le> P" "1 \<le> Q" "P * Q \<le> 2 ^ 52"
    and sd: "sq = (if sd = 0 then qty else - qty)"
  shows "\<exists>r'. replay_on_fill sd qty price r = Inr (realized' - realized, r') \<and>
    replays (net', realized', avg') r' \<and> \<bar>avg'\<bar> \<le> P"
proof -
  have PQ: "P \<le> 2 ^ 52" "Q \<le> 2 ^ 52" using le_product [OF b(4,5)] b(6) by auto
  have n: "\<bar>net\<bar> \<le> Q" "\<bar>sq\<bar> \<le> Q" using b(3) by auto
  have x: "is_finite (pr_avg_entry_price_ticks r)" "fval (pr_avg_entry_price_ticks r) = of_int avg"
    "pr_net_position r = net" "pr_realized_pnl_ticks r = realized"
    using r by (simp_all add: replays_def)
  show ?thesis
  proof (cases "net = 0 \<or> sign net = sign sq")
    case True
    let ?total = "\<bar>net\<bar> + \<bar>sq\<bar>" and ?cost = "avg * \<bar>net\<bar> + price * \<bar>sq\<bar>"
    have d: "?total \<noteq> 0" "?cost mod ?total = 0" "net' = net + sq" "realized' = realized"
      "avg' = ?cost div ?total"
      using s True by (auto simp: Let_def split: if_splits)
    have e: "avg' * ?total = ?cost" using d(2,5) by (metis div_mult_mod_eq add.right_neutral)
    have c1: "\<bar>avg * \<bar>net\<bar>\<bar> \<le> P * \<bar>net\<bar>" "\<bar>price * \<bar>sq\<bar>\<bar> \<le> P * \<bar>sq\<bar>"
      using b by (auto intro: abs_mult_le)
    have c2: "\<bar>?cost\<bar> \<le> P * ?total"
      using c1 abs_triangle_ineq [of "avg * \<bar>net\<bar>" "price * \<bar>sq\<bar>"] by (simp add: distrib_left)
    have c3: "P * ?total \<le> P * Q" using b by (intro mult_left_mono) auto
    have "\<bar>avg'\<bar> * ?total \<le> P * ?total"
    proof -
      have "\<bar>avg'\<bar> * ?total = \<bar>avg' * ?total\<bar>" by (simp add: abs_mult)
      also have "\<dots> \<le> P * ?total" using c2 unfolding e .
      finally show ?thesis .
    qed
    then have a: "\<bar>avg'\<bar> \<le> P" using d(1) by (simp add: mult_le_cancel_right)
    have pq: "P * \<bar>net\<bar> \<le> P * Q" "P * \<bar>sq\<bar> \<le> P * Q" using b n by (auto intro: mult_left_mono)
    have two: "P * Q \<le> 2 ^ 53" using b(6) by simp
    have pn: "\<bar>avg * \<bar>net\<bar>\<bar> \<le> 2 ^ 53" "\<bar>price * \<bar>sq\<bar>\<bar> \<le> 2 ^ 53" "\<bar>?cost\<bar> \<le> 2 ^ 53"
      by (rule order_trans [OF c1(1) order_trans [OF pq(1) two]],
        rule order_trans [OF c1(2) order_trans [OF pq(2) two]],
        rule order_trans [OF c2 order_trans [OF c3 two]])
    have k: "\<bar>\<bar>net\<bar>\<bar> \<le> 2 ^ 53" "\<bar>?total\<bar> \<le> 2 ^ 53" "\<bar>avg'\<bar> \<le> 2 ^ 53"
      using n a PQ b(3) by auto
    from fmul_int_exact [OF x(1,2) k(1) pn(1)] obtain y1 where
      y1: "fmul_int (pr_avg_entry_price_ticks r) \<bar>net\<bar> = Inr y1" "is_finite y1" "fval y1 = of_int (avg * \<bar>net\<bar>)"
      by blast
    from fadd_int_exact [OF y1(2,3) pn(2,3)] obtain y2 where
      y2: "fadd_int y1 (price * \<bar>sq\<bar>) = Inr y2" "is_finite y2" "fval y2 = of_int ?cost" by blast
    from fdiv_int_exact [OF y2(2) _ d(1) k(2,3)] y2(3) e obtain y3 where
      y3: "fdiv_int y2 ?total = Inr y3" "is_finite y3" "fval y3 = of_int avg'" by metis
    show ?thesis
      using True x y1(1) y2(1) y3 d(3,4) a sd
      by (simp add: replay_on_fill_def Let_def replays_def)
  next
    case False
    define c where "c = sign net * min \<bar>sq\<bar> \<bar>net\<bar>"
    have d: "net' = net + sq" "realized' = realized + c * (price - avg)"
      "avg' = (if net' \<noteq> 0 \<and> sign net' \<noteq> sign net then price else avg)"
      using s False by (auto simp: Let_def c_def)
    have c: "\<bar>c\<bar> \<le> \<bar>net\<bar>" "2 * \<bar>c\<bar> \<le> Q"
      using b(3) by (auto simp: c_def sign_cases)
    have "\<bar>price - avg\<bar> \<le> 2 * P" using b(1,2) by linarith
    then have "\<bar>(price - avg) * c\<bar> \<le> (2 * P) * \<bar>c\<bar>" by (intro abs_mult_le) auto
    also have "\<dots> = P * (2 * \<bar>c\<bar>)" by simp
    also have "\<dots> \<le> P * Q" using c(2) b(4) by (intro mult_left_mono) auto
    finally have pc: "\<bar>(price - avg) * c\<bar> \<le> 2 ^ 53" using b(6) by simp
    have k: "\<bar>price\<bar> \<le> 2 ^ 53" "\<bar>price - avg\<bar> \<le> 2 ^ 53" "\<bar>c\<bar> \<le> 2 ^ 53"
      using b(1,2) c n PQ by auto
    from int_fsub_exact [OF k(1,2) x(1,2)] obtain y1 where
      y1: "int_fsub price (pr_avg_entry_price_ticks r) = Inr y1" "is_finite y1"
        "fval y1 = of_int (price - avg)" by blast
    from fmul_int_exact [OF y1(2,3) k(3) pc] obtain y2 where
      y2: "fmul_int y1 c = Inr y2" "is_finite y2" "fval y2 = of_int ((price - avg) * c)" by blast
    have "py_round y2 = Inr ((price - avg) * c)"
      using py_round_finite [OF y2(2)] unfolding y2(3) round_half_even_of_int .
    then have y3: "py_round y2 = Inr (c * (price - avg))" by (simp add: mult.commute)
    have "int_to_float price = Inr (Fin (of_int price))" using k(1) by simp
    then have eq: "replay_on_fill sd qty price r =
      (if net + sq \<noteq> 0 \<and> sign (net + sq) \<noteq> sign net
       then Inr (c * (price - avg), r\<lparr>pr_realized_pnl_ticks := realized + c * (price - avg),
         pr_net_position := net + sq, pr_avg_entry_price_ticks := Fin (of_int price)\<rparr>)
       else Inr (c * (price - avg), r\<lparr>pr_realized_pnl_ticks := realized + c * (price - avg),
         pr_net_position := net + sq\<rparr>))"
      using False x(3,4) y1(1) y2(1) y3
      by (simp only: replay_on_fill_def Let_def sd [symmetric] c_def [symmetric] res_bind_simps
          if_False simp_thms)
    show ?thesis
    proof (cases "net + sq \<noteq> 0 \<and> sign (net + sq) \<noteq> sign net")
      case True
      with eq d b(2) show ?thesis by (simp add: replays_def)
    next
      case False
      with eq d b(1) x(1,2) show ?thesis by (simp add: replays_def)
    qed
  qed
qed

subsection \<open>Whole runs\<close>

text \<open>The loop of \<open>build_report\<close> over the fills alone: side, quantity and price of each.\<close>

fun replay_all ::
  "(int \<times> int \<times> int) list \<Rightarrow> PositionReplay \<Rightarrow> int list \<Rightarrow> int list \<Rightarrow>
   (PositionReplay \<times> int list \<times> int list) res" where
  "replay_all [] replay trade_pnls equity_curve = Inr (replay, trade_pnls, equity_curve)"
| "replay_all ((sd, qty, px) # fs) replay trade_pnls equity_curve =
     res_bind (replay_on_fill sd qty px replay) (\<lambda>(delta, replay').
       replay_all fs replay' (if delta \<noteq> 0 then trade_pnls @ [delta] else trade_pnls)
         (equity_curve @ [last equity_curve + delta]))"

definition fill_triple :: "FillEvent \<Rightarrow> int \<times> int \<times> int" where
  "fill_triple f = (Side_value (incoming_side f), fe_quantity f, fe_price_ticks f)"

definition signed_fill :: "int \<times> int \<times> int \<Rightarrow> int \<times> int" where
  "signed_fill t = (case t of (sd, qty, px) \<Rightarrow> (if sd = 0 then qty else - qty, px))"

lemma row_get_strip [simp]: "k \<noteq> ''ts'' \<Longrightarrow> row_get (strip_ts r) k = row_get r k"
  by (simp add: row_get_def)

lemma report_loop_strip: "report_loop (map strip_ts rows) p t e = report_loop rows p t e"
  by (induction rows arbitrary: p t e) (auto simp: row_int_def intro!: arg_cong [where f = "res_bind _"])

lemma report_loop_filter:
  "report_loop rows p t e = report_loop (filter (\<lambda>r. \<not> is_send_row r) rows) p t e"
proof (induction rows arbitrary: p t e)
  case (Cons r rows)
  show ?case
  proof (cases "is_send_row r")
    case True
    then obtain v where "map_of r ''event'' = Some v" "v \<noteq> CStr ''fill''"
      by (auto simp: is_send_row_def)
    with Cons True show ?thesis by (simp add: row_get_def)
  next
    case False
    have eq: "report_loop rows = report_loop (filter (\<lambda>r. \<not> is_send_row r) rows)"
      by (intro ext) (rule Cons)
    from False have f: "filter (\<lambda>r. \<not> is_send_row r) (r # rows) = r # filter (\<lambda>r. \<not> is_send_row r) rows"
      by simp
    show ?thesis unfolding f report_loop.simps eq [symmetric] ..
  qed
qed simp

lemma report_loop_events:
  "report_loop (map event_row evs) p t e = replay_all (map fill_triple (fills_of evs)) p t e"
proof (induction evs arbitrary: p t e)
  case (Cons ev evs)
  then show ?case
    by (cases ev) (simp_all add: row_defs row_get_def row_int_def fill_triple_def)
qed simp

lemma report_loop_audit:
  assumes "audit s0 acts evs s" "log_rows (se_log s0) = []"
  shows "report_loop (log_rows (se_log s)) p t e = replay_all (map fill_triple (fills_of evs)) p t e"
proof -
  from assms have f: "map strip_ts (filter (\<lambda>r. \<not> is_send_row r) (log_rows (se_log s))) = map event_row evs"
    by (auto simp: audit_def)
  have "report_loop (log_rows (se_log s)) p t e =
      report_loop (map strip_ts (filter (\<lambda>r. \<not> is_send_row r) (log_rows (se_log s)))) p t e"
    unfolding report_loop_strip by (rule report_loop_filter)
  then show ?thesis unfolding f report_loop_events .
qed

lemma replay_delta:
  "replay_on_fill sd qty px r = Inr (delta, r') \<Longrightarrow>
   pr_realized_pnl_ticks r' = pr_realized_pnl_ticks r + delta \<and>
   pr_net_position r' = pr_net_position r + (if sd = 0 then qty else - qty)"
  by (auto simp: replay_on_fill_def Let_def split: if_splits)

lemma report_loop_sums:
  assumes "report_loop rows p t e = Inr (p', t', e')" "e \<noteq> []"
  shows "sum_list t' - sum_list t = pr_realized_pnl_ticks p' - pr_realized_pnl_ticks p \<and>
    last e' - last e = pr_realized_pnl_ticks p' - pr_realized_pnl_ticks p \<and>
    length e' = length e + length (filter (\<lambda>r. map_of r ''event'' = Some (CStr ''fill'')) rows) \<and>
    hd e' = hd e \<and> e' \<noteq> [] \<and> (0 \<notin> set t \<longrightarrow> 0 \<notin> set t')"
  using assms
proof (induction rows arbitrary: p t e)
  case (Cons r rows)
  from Cons.prems obtain v where v: "map_of r ''event'' = Some v"
    by (auto simp: row_get_def split: option.splits)
  show ?case
  proof (cases "v = CStr ''fill''")
    case False
    with Cons v show ?thesis by (simp add: row_get_def)
  next
    case True
    with Cons.prems v obtain sd qty px d q where
      q: "replay_on_fill sd qty px p = Inr (d, q)" and
      l: "report_loop rows q (if d \<noteq> 0 then t @ [d] else t) (e @ [last e + d]) = Inr (p', t', e')"
      by (auto simp: row_get_def split: prod.splits)
    note ih = Cons.IH [OF l]
    with replay_delta [OF q] v True Cons.prems(2) show ?thesis by (auto split: if_splits)
  qed
qed simp

text \<open>Along a run the specification describes, the replay is exact.\<close>

lemma replay_all_exact:
  assumes "cost_run (net, realized, avg) (map signed_fill fs) = Some (net', realized', avg')"
    "replays (net, realized, avg) p" "\<bar>avg\<bar> \<le> P" "\<forall>(sd, qty, px)\<in>set fs. \<bar>px\<bar> \<le> P"
    "\<bar>net\<bar> + sum_list (map (\<lambda>(sd, qty, px). \<bar>qty\<bar>) fs) \<le> Q" "1 \<le> P" "1 \<le> Q" "P * Q \<le> 2 ^ 52"
  shows "\<exists>p' t' e'. replay_all fs p t e = Inr (p', t', e') \<and> replays (net', realized', avg') p'"
  using assms(1-5)
proof (induction fs arbitrary: net realized avg p t e)
  case (Cons f fs)
  obtain sd qty px where f: "f = (sd, qty, px)" by (cases f)
  define sq where "sq = (if sd = 0 then qty else - qty)"
  from Cons.prems(1) obtain n1 r1 a1 where 1: "cost_step (net, realized, avg) (sq, px) = Some (n1, r1, a1)"
    "cost_run (n1, r1, a1) (map signed_fill fs) = Some (net', realized', avg')"
    unfolding f list.map cost_run.simps signed_fill_def by (auto simp: sq_def split: option.splits)
  have nn: "0 \<le> sum_list (map (\<lambda>(sd, qty, px). \<bar>qty\<bar>) fs)"
    by (intro sum_list_nonneg) auto
  have b: "\<bar>px\<bar> \<le> P" "\<bar>net\<bar> + \<bar>sq\<bar> \<le> Q" using Cons.prems(4,5) f nn by (auto simp: sq_def)
  from replay_step_exact [OF Cons.prems(2) 1(1) Cons.prems(3) b assms(6-8) sq_def] obtain p1 where
    p1: "replay_on_fill sd qty px p = Inr (r1 - realized, p1)" "replays (n1, r1, a1) p1" "\<bar>a1\<bar> \<le> P" by blast
  have "n1 = net + sq" using cost_step_conserves [OF 1(1), of 0] by simp
  then have "\<bar>n1\<bar> + sum_list (map (\<lambda>(sd, qty, px). \<bar>qty\<bar>) fs) \<le> Q"
    using Cons.prems(5) f by (auto simp: sq_def)
  with Cons.IH [OF 1(2) p1(2,3)] Cons.prems(4) f p1(1) show ?case by simp
qed simp

subsection \<open>The replay never raises on what the wire can carry\<close>

lemma rnd_scaled_bound:
  assumes "\<bar>x\<bar> \<le> 2 ^ 63 * of_int n" "0 \<le> n" "n \<le> 2 ^ 53"
  shows "\<bar>rnd x\<bar> \<le> 2 ^ 63 * of_int n \<and> \<bar>rnd x\<bar> < 2 ^ 1024"
proof -
  have "rnd (of_int n) = of_int n" using assms by (intro rnd_of_int) simp
  from rnd_mult_pow2 [OF this, of 63] have r: "rnd (2 ^ 63 * of_int n) = 2 ^ 63 * of_int n"
    by (simp add: pow2_eval mult.commute)
  have 1: "\<bar>rnd x\<bar> \<le> 2 ^ 63 * of_int n" by (rule rnd_bound [OF assms(1) r])
  have "of_int n \<le> (2 ^ 53 :: rat)" using assms(3) by (metis of_int_le_iff of_int_numeral of_int_power)
  then have "2 ^ 63 * of_int n \<le> (2 ^ 116 :: rat)" by simp
  also have "\<dots> < 2 ^ 1024" by (rule power_strict_increasing) auto
  finally show ?thesis using 1 by linarith
qed

lemma int_to_float_scaled:
  assumes "\<bar>m\<bar> \<le> 2 ^ 63 * n" "0 \<le> n" "n \<le> 2 ^ 53"
  shows "int_to_float m = Inr (Fin (rnd (of_int m))) \<and> \<bar>rnd (of_int m)\<bar> \<le> 2 ^ 63 * of_int n"
proof -
  have "\<bar>of_int m :: rat\<bar> \<le> of_int (2 ^ 63 * n)" using assms(1) by (metis of_int_abs of_int_le_iff)
  then have "\<bar>of_int m :: rat\<bar> \<le> 2 ^ 63 * of_int n" by simp
  from rnd_scaled_bound [OF this assms(2,3)] show ?thesis by (simp add: int_to_float_def Let_def)
qed

definition replay_ok :: "PositionReplay \<Rightarrow> bool" where
  "replay_ok r \<longleftrightarrow> is_finite (pr_avg_entry_price_ticks r) \<and> \<bar>fval (pr_avg_entry_price_ticks r)\<bar> \<le> 2 ^ 63"

lemma replay_add_ok:
  assumes x: "is_finite x" "\<bar>fval x\<bar> \<le> 2 ^ 63" and n: "0 \<le> n" "0 < m" "n + m \<le> 2 ^ 53"
    and p: "\<bar>p\<bar> \<le> 2 ^ 63"
  shows "\<exists>y1 y2 y3. fmul_int x n = Inr y1 \<and> fadd_int y1 (p * m) = Inr y2 \<and> fdiv_int y2 (n + m) = Inr y3 \<and>
    is_finite y3 \<and> \<bar>fval y3\<bar> \<le> 2 ^ 63"
proof -
  have nf: "int_to_float n = Inr (Fin (of_int n))" "int_to_float (n + m) = Inr (Fin (of_int (n + m)))"
    using n int_to_float_exact [of n] int_to_float_exact [of "n + m"] by auto
  have "\<bar>fval x * of_int n\<bar> \<le> 2 ^ 63 * of_int n"
    using x(2) n(1) by (simp add: abs_mult mult_right_mono)
  from rnd_scaled_bound [OF this] n have b1: "\<bar>rnd (fval x * of_int n)\<bar> \<le> 2 ^ 63 * of_int n"
    "\<bar>rnd (fval x * of_int n)\<bar> < 2 ^ 1024" by auto
  define y1 where "y1 = fmul x (Fin (of_int n))"
  have y1: "fmul_int x n = Inr y1" "is_finite y1" "fval y1 = rnd (fval x * of_int n)"
    using nf(1) fmul_finite [of x "Fin (of_int n)"] x(1) b1(2) by (simp_all add: fmul_int_def y1_def)
  have "\<bar>p * m\<bar> \<le> 2 ^ 63 * m" using p n(2) by (simp add: abs_mult mult_right_mono)
  from int_to_float_scaled [OF this] n have pm: "int_to_float (p * m) = Inr (Fin (rnd (of_int (p * m))))"
    "\<bar>rnd (of_int (p * m))\<bar> \<le> 2 ^ 63 * of_int m" by auto
  have "\<bar>fval y1 + rnd (of_int (p * m))\<bar> \<le> 2 ^ 63 * of_int (n + m)"
    using b1(1) pm(2) y1(3) by (simp add: distrib_left)
  from rnd_scaled_bound [OF this] n have b2: "\<bar>rnd (fval y1 + rnd (of_int (p * m)))\<bar> \<le> 2 ^ 63 * of_int (n + m)"
    "\<bar>rnd (fval y1 + rnd (of_int (p * m)))\<bar> < 2 ^ 1024" by auto
  define y2 where "y2 = fadd y1 (Fin (rnd (of_int (p * m))))"
  have y2: "fadd_int y1 (p * m) = Inr y2" "is_finite y2" "fval y2 = rnd (fval y1 + rnd (of_int (p * m)))"
    using pm(1) fadd_finite [of y1 "Fin (rnd (of_int (p * m)))"] y1(2) b2(2)
    by (simp_all add: fadd_int_def y2_def)
  have pos: "(0 :: rat) < of_int (n + m)" using n by simp
  have "\<bar>fval y2 / of_int (n + m)\<bar> \<le> 2 ^ 63 * of_int 1"
    using b2(1) pos y2(3) by (simp add: abs_divide divide_le_eq del: of_int_add)
  from rnd_scaled_bound [OF this] have b3: "\<bar>rnd (fval y2 / of_int (n + m))\<bar> \<le> 2 ^ 63"
    "\<bar>rnd (fval y2 / of_int (n + m))\<bar> < 2 ^ 1024" by auto
  from fdiv_finite [of y2 "Fin (of_int (n + m))"] y2(2) pos b3(2) obtain y3 where
    y3: "fdiv y2 (Fin (of_int (n + m))) = Inr y3" "is_finite y3" "fval y3 = rnd (fval y2 / of_int (n + m))"
    by auto
  have "fdiv_int y2 (n + m) = Inr y3" using nf(2) y3(1) by (simp add: fdiv_int_def)
  with y1(1) y2(1) y3 b3(1) show ?thesis by auto
qed

lemma replay_close_ok:
  assumes x: "is_finite x" "\<bar>fval x\<bar> \<le> 2 ^ 63" and p: "\<bar>p\<bar> \<le> 2 ^ 63" and c: "\<bar>c\<bar> \<le> 2 ^ 53"
  shows "\<exists>y1 y2 d. int_fsub p x = Inr y1 \<and> fmul_int y1 c = Inr y2 \<and> py_round y2 = Inr d"
    "\<exists>y. int_to_float p = Inr (Fin y) \<and> \<bar>y\<bar> \<le> 2 ^ 63"
proof -
  from int_to_float_scaled [of p 1] p have pf: "int_to_float p = Inr (Fin (rnd (of_int p)))"
    "\<bar>rnd (of_int p)\<bar> \<le> 2 ^ 63" by auto
  then show "\<exists>y. int_to_float p = Inr (Fin y) \<and> \<bar>y\<bar> \<le> 2 ^ 63" by auto
  have "\<bar>rnd (of_int p) - fval x\<bar> \<le> 2 ^ 64" using pf(2) x(2) by simp
  from rnd_bound_pow [OF this] rnd_bound_lt_max [OF this]
  have b1: "\<bar>rnd (rnd (of_int p) - fval x)\<bar> \<le> 2 ^ 64" "\<bar>rnd (rnd (of_int p) - fval x)\<bar> < 2 ^ 1024" by auto
  define y1 where "y1 = fsub (Fin (rnd (of_int p))) x"
  have y1: "int_fsub p x = Inr y1" "is_finite y1" "fval y1 = rnd (rnd (of_int p) - fval x)"
    using pf(1) fsub_finite [of "Fin (rnd (of_int p))" x] x(1) b1(2)
    by (simp_all add: int_fsub_def y1_def)
  have "\<bar>of_int c :: rat\<bar> \<le> 2 ^ 53" using c by (metis of_int_abs of_int_le_iff of_int_numeral of_int_power)
  then have "\<bar>fval y1 * of_int c\<bar> \<le> 2 ^ 64 * 2 ^ 53"
    using b1(1) y1(3) unfolding abs_mult by (intro mult_mono) auto
  then have "\<bar>fval y1 * of_int c\<bar> \<le> 2 ^ 117" by simp
  from rnd_bound_lt_max [OF this] have b2: "\<bar>rnd (fval y1 * of_int c)\<bar> < 2 ^ 1024" by simp
  then have y2: "is_finite (fmul y1 (Fin (of_int c)))"
    using fmul_finite [of y1 "Fin (of_int c)"] y1(2) by simp
  have "fmul_int y1 c = Inr (fmul y1 (Fin (of_int c)))" using c by (simp add: fmul_int_def)
  with y1(1) py_round_finite [OF y2] show "\<exists>y1 y2 d. int_fsub p x = Inr y1 \<and> fmul_int y1 c = Inr y2 \<and> py_round y2 = Inr d"
    by blast
qed

lemma replay_on_fill_ok:
  assumes "replay_ok r" "0 < qty" "\<bar>pr_net_position r\<bar> + qty \<le> 2 ^ 53" "\<bar>px\<bar> \<le> 2 ^ 63"
  shows "\<exists>d r'. replay_on_fill sd qty px r = Inr (d, r') \<and> replay_ok r'"
proof -
  define sq where "sq = (if sd = 0 then qty else - qty)"
  have sq: "\<bar>sq\<bar> = qty" using assms(2) by (simp add: sq_def)
  let ?net = "pr_net_position r" and ?avg = "pr_avg_entry_price_ticks r"
  have x: "is_finite ?avg" "\<bar>fval ?avg\<bar> \<le> 2 ^ 63" using assms(1) by (simp_all add: replay_ok_def)
  show ?thesis
  proof (cases "?net = 0 \<or> sign ?net = sign sq")
    case True
    from replay_add_ok [OF x, of "\<bar>?net\<bar>" "\<bar>sq\<bar>" px] assms(2-4) sq obtain y1 y2 y3 where
      "fmul_int ?avg \<bar>?net\<bar> = Inr y1" "fadd_int y1 (px * \<bar>sq\<bar>) = Inr y2"
      "fdiv_int y2 (\<bar>?net\<bar> + \<bar>sq\<bar>) = Inr y3" "is_finite y3" "\<bar>fval y3\<bar> \<le> 2 ^ 63" by auto
    with True show ?thesis
      by (simp add: replay_on_fill_def Let_def sq_def [symmetric] replay_ok_def)
  next
    case False
    define c where "c = sign ?net * min \<bar>sq\<bar> \<bar>?net\<bar>"
    have "\<bar>c\<bar> \<le> 2 ^ 53" using assms(3) sq assms(2) by (auto simp: c_def sign_cases)
    from replay_close_ok [OF x assms(4) this] obtain y1 y2 d y where
      "int_fsub px ?avg = Inr y1" "fmul_int y1 c = Inr y2" "py_round y2 = Inr d"
      "int_to_float px = Inr (Fin y)" "\<bar>y\<bar> \<le> 2 ^ 63" by blast
    with False x show ?thesis
      by (simp add: replay_on_fill_def Let_def sq_def [symmetric] c_def [symmetric] replay_ok_def)
  qed
qed

lemma replay_all_ok:
  assumes "replay_ok r" "\<forall>(sd, qty, px)\<in>set fs. 0 < qty \<and> \<bar>px\<bar> \<le> 2 ^ 63"
    "\<bar>pr_net_position r\<bar> + sum_list (map (\<lambda>(sd, qty, px). qty) fs) \<le> 2 ^ 53"
  shows "\<exists>st. replay_all fs r t e = Inr st"
  using assms
proof (induction fs arbitrary: r t e)
  case (Cons f fs)
  obtain sd qty px where f: "f = (sd, qty, px)" by (cases f)
  have nn: "0 \<le> sum_list (map (\<lambda>(sd, qty, px). qty) fs)"
    using Cons.prems(2) by (intro sum_list_nonneg) fastforce
  have "\<bar>pr_net_position r\<bar> + qty \<le> 2 ^ 53" using Cons.prems(3) f nn by simp
  with replay_on_fill_ok [OF Cons.prems(1), of qty px sd] Cons.prems(2) f obtain d r1 where
    r1: "replay_on_fill sd qty px r = Inr (d, r1)" "replay_ok r1" by auto
  have "\<bar>pr_net_position r1\<bar> \<le> \<bar>pr_net_position r\<bar> + qty"
    using replay_delta [OF r1(1)] Cons.prems(2) f by auto
  with Cons.prems(2,3) f r1 Cons.IH [OF r1(2)] show ?case by auto
qed simp

lemma replay_all_pnls:
  assumes "replay_all fs r t e = Inr (p, t', e')"
  shows "length t' \<le> length t + length fs"
  using assms
proof (induction fs arbitrary: r t e)
  case (Cons f fs)
  obtain sd qty px where f: "f = (sd, qty, px)" by (cases f)
  with Cons.prems obtain d q where
    "replay_all fs q (if d \<noteq> 0 then t @ [d] else t) (e @ [last e + d]) = Inr (p, t', e')"
    by (auto split: prod.splits)
  from Cons.IH [OF this] show ?case by (auto split: if_splits)
qed simp

subsection \<open>Ratios\<close>

lemma int_truediv_unit:
  assumes "0 \<le> a" "a \<le> b" "0 < b"
  shows "\<exists>z. int_truediv a b = Inr z \<and> is_finite z \<and> 0 \<le> fval z \<and> fval z \<le> 1 \<and>
    fval z = rnd (of_int a / of_int b)"
proof -
  have "0 \<le> of_int a / (of_int b :: rat)" "of_int a / (of_int b :: rat) \<le> 1"
    using assms by (simp_all add: divide_le_eq)
  then have r: "0 \<le> rnd (of_int a / of_int b)" "rnd (of_int a / of_int b) \<le> 1"
    using rnd_nonneg rnd_mono [of "of_int a / of_int b" 1] rnd_of_int [of 1] by simp_all
  have "(1 :: rat) < 2 ^ 1024" by simp
  then have "\<not> 2 ^ 1024 \<le> \<bar>rnd (of_int a / of_int b)\<bar>" using r by linarith
  with r assms show ?thesis by (auto simp: int_truediv_def Let_def zero_of_def)
qed

lemma win_rate_unit:
  "\<exists>z. win_rate pnls = Inr z \<and> is_finite z \<and> 0 \<le> fval z \<and> fval z \<le> 1"
proof (cases "pnls = []")
  case False
  then show ?thesis
    using int_truediv_unit [of "int (length (filter (\<lambda>p. 0 < p) pnls))" "int (length pnls)"]
    by (auto simp: win_rate_def)
qed (simp add: win_rate_def)

lemma py_mean_raises: "py_mean xs = Inl e \<Longrightarrow> xs \<noteq> [] \<Longrightarrow> e = OverflowError"
proof -
  assume a: "py_mean xs = Inl e" "xs \<noteq> []"
  obtain n d where q: "quotient_of (of_int (sum_list xs) / of_nat (length xs)) = (n, d)"
    by (cases "quotient_of (of_int (sum_list xs) / of_nat (length xs))")
  then have "0 < d" by (rule quotient_of_denom_pos)
  with a q show ?thesis by (auto simp: py_mean_def int_truediv_def Let_def split: if_splits)
qed

lemma sharpe_ratio_raises:
  assumes "length pnls < 2 ^ 53" "sharpe_ratio pnls (Inr p) = Inl e"
  shows "e = OverflowError"
proof -
  have l: "2 \<le> length pnls" using assms(2) by (auto simp: sharpe_ratio_def split: if_splits)
  then have ne: "pnls \<noteq> []" by auto
  have sd: "py_stdev pnls = Inl OverflowError \<or> (\<exists>z\<ge>0. py_stdev pnls = Inr (Fin z))"
    using py_stdev_zero_iff [OF l assms(1)] by blast
  have div: "fdiv x (Fin z) = Inl e' \<Longrightarrow> z = 0" for x z e'
    by (auto simp: fdiv_def Let_def split: if_splits)
  have itf: "int_to_float n = Inl e' \<Longrightarrow> e' = OverflowError" for n e'
    by (auto simp: int_to_float_def Let_def split: if_splits)
  show ?thesis
    using assms(2) l sd py_mean_raises [OF _ ne]
    by (auto simp: sharpe_ratio_def res_bind_eq_Inl feq_def split: if_splits mean_value.splits
        dest: div itf)
qed

lemma sharpe_ratio_constant:
  assumes "\<forall>x\<in>set pnls. x = hd pnls" "length pnls < 2 ^ 53" "py_mean pnls \<noteq> Inl OverflowError"
  shows "sharpe_ratio pnls sp = Inr (Fin 0)"
proof (cases "length pnls < 2")
  case False
  then have l: "2 \<le> length pnls" "pnls \<noteq> []" by auto
  with py_stdev_zero_iff [OF l(1) assms(2)] assms(1) have "py_stdev pnls = Inr (Fin 0)" by blast
  moreover obtain m where "py_mean pnls = Inr m"
    using py_mean_raises [OF _ l(2)] assms(3) by (cases "py_mean pnls") auto
  ultimately show ?thesis using l by (simp add: sharpe_ratio_def feq_def)
qed (simp add: sharpe_ratio_def)

subsection \<open>Variances\<close>

lemma pnl_variance_exact:
  assumes "list_all is_finite xs" "1 < length xs"
  defines "v \<equiv> sum_list (map (\<lambda>x. (x - sum_list (map fval xs) / of_nat (length xs))\<^sup>2) (map fval xs))
    / of_nat (length xs)"
  shows "0 \<le> v \<and> pnl_variance xs = (if 2 ^ 1024 \<le> rnd v then Inl OverflowError else Inr (Fin (rnd v)))"
proof
  have "0 \<le> sum_list (map (\<lambda>x. (x - sum_list (map fval xs) / of_nat (length xs))\<^sup>2) (map fval xs))"
    by (intro sum_list_nonneg) auto
  then show v: "0 \<le> v" by (simp add: v_def)
  have ne: "map fval xs \<noteq> []" using assms(2) by auto
  have "filter (\<lambda>x. \<not> is_finite x) xs = []" using assms(1) by (simp add: filter_empty_conv list_all_iff)
  then have "pnl_variance xs = frac_to_float (exact_ss (map fval xs) / of_nat (length xs))"
    using assms(2) ne by (auto simp: pnl_variance_def py_pvariance_def Let_def)
  also have "exact_ss (map fval xs) / of_nat (length xs) = v"
    using exact_ss_deviations [OF ne] by (simp add: v_def o_def)
  also have "frac_to_float v = (if 2 ^ 1024 \<le> rnd v then Inl OverflowError else Inr (Fin (rnd v)))"
    using rnd_nonneg [OF v] v by (simp add: frac_to_float_cases zero_of_def)
  finally show "pnl_variance xs = (if 2 ^ 1024 \<le> rnd v then Inl OverflowError else Inr (Fin (rnd v)))" .
qed

lemma to_float_nonpos: "rnd x \<le> 0 \<Longrightarrow> to_float b x \<noteq> NaN \<and> \<not> fless (Fin 0) (to_float b x)"
  by (auto simp: to_float_def Let_def zero_of_def inf_of_def fless_def)

lemma fmul_finite_eq:
  "is_finite x \<Longrightarrow> is_finite y \<Longrightarrow> fmul x y = to_float (fsign x \<noteq> fsign y) (fval x * fval y)"
  by (simp add: fmul_def Let_def is_finite_not_NaN)

lemma variance_reduction_range:
  assumes "0 \<le> h" "0 < u"
  shows "(h \<le> u \<longrightarrow> (\<exists>z. variance_reduction (Fin h) (Fin u) = Inr z \<and> is_finite z \<and> 0 \<le> fval z \<and> fval z \<le> 100)) \<and>
    (u \<le> h \<longrightarrow> (\<exists>z. variance_reduction (Fin h) (Fin u) = Inr z \<and> z \<noteq> NaN \<and> \<not> fless (Fin 0) z))"
proof -
  have eq: "variance_reduction (Fin h) (Fin u) =
      Inr (fmul (fsub (Fin 1) (to_float False (h / u))) (Fin 100))"
    using assms by (simp add: variance_reduction_def fless_def fdiv_def Let_def)
  have r1: "rnd 1 = (1 :: rat)" "rnd 100 = (100 :: rat)" using rnd_of_int [of 1] rnd_of_int [of 100] by simp_all
  have q0: "0 \<le> rnd (h / u)" using assms by (intro rnd_nonneg) simp
  have big: "(100 :: rat) < 2 ^ 1024" by simp
  show ?thesis
  proof (intro conjI impI)
    assume "h \<le> u"
    then have "rnd (h / u) \<le> 1" using rnd_mono [of "h / u" 1] r1 assms by (simp add: divide_le_eq)
    then have q: "is_finite (to_float False (h / u))" "fval (to_float False (h / u)) = rnd (h / u)"
      using q0 big to_float_of_finite [of "h / u" False] by auto
    have d: "0 \<le> rnd (1 - rnd (h / u))" "rnd (1 - rnd (h / u)) \<le> 1"
      using \<open>rnd (h / u) \<le> 1\<close> q0 rnd_nonneg [of "1 - rnd (h / u)"] rnd_mono [of "1 - rnd (h / u)" 1] r1 by auto
    then have s: "is_finite (fsub (Fin 1) (to_float False (h / u)))"
      "fval (fsub (Fin 1) (to_float False (h / u))) = rnd (1 - rnd (h / u))"
      using fsub_finite [of "Fin 1" "to_float False (h / u)"] q big by auto
    have m: "0 \<le> rnd (rnd (1 - rnd (h / u)) * 100)" "rnd (rnd (1 - rnd (h / u)) * 100) \<le> 100"
      using d rnd_nonneg [of "rnd (1 - rnd (h / u)) * 100"]
        rnd_mono [of "rnd (1 - rnd (h / u)) * 100" 100] r1 by auto
    then show "\<exists>z. variance_reduction (Fin h) (Fin u) = Inr z \<and> is_finite z \<and> 0 \<le> fval z \<and> fval z \<le> 100"
      using eq fmul_finite [of "fsub (Fin 1) (to_float False (h / u))" "Fin 100"] s big by auto
  next
    assume "u \<le> h"
    then have q1: "1 \<le> rnd (h / u)" using rnd_mono [of 1 "h / u"] r1 assms by (simp add: le_divide_eq)
    show "\<exists>z. variance_reduction (Fin h) (Fin u) = Inr z \<and> z \<noteq> NaN \<and> \<not> fless (Fin 0) z"
    proof (cases "2 ^ 1024 \<le> rnd (h / u)")
      case True
      then have "to_float False (h / u) = PosInf"
        using q1 by (simp add: to_float_def Let_def inf_of_def)
      then show ?thesis
        using eq by (simp add: fsub_def fadd_def fmul_def Let_def inf_of_def fless_def)
    next
      case False
      then have q: "is_finite (to_float False (h / u))" "fval (to_float False (h / u)) = rnd (h / u)"
        using q1 to_float_of_finite [of "h / u" False] by auto
      define s where "s = fadd (Fin 1) (fneg (to_float False (h / u)))"
      have d: "rnd (1 - rnd (h / u)) \<le> 0"
        using q1 rnd_mono [of "1 - rnd (h / u)" 0] by simp
      have "rnd (- rnd (h / u)) \<le> rnd (1 - rnd (h / u))" by (rule rnd_mono) simp
      then have "\<bar>rnd (1 - rnd (h / u))\<bar> < 2 ^ 1024" using d False by simp
      then have s: "is_finite s" "fval s = rnd (1 - rnd (h / u))"
        using fsub_finite [of "Fin 1" "to_float False (h / u)"] q by (auto simp: s_def fsub_def)
      have "rnd (fval s * 100) \<le> 0" using d s(2) rnd_mono [of "fval s * 100" 0] by simp
      then have "fmul s (Fin 100) \<noteq> NaN \<and> \<not> fless (Fin 0) (fmul s (Fin 100))"
        using s(1) by (simp only: fmul_finite_eq is_finite.simps fval.simps to_float_nonpos not_False_eq_True simp_thms)
      then show ?thesis
        unfolding eq fsub_def s_def [symmetric] by blast
    qed
  qed
qed

text \<open>Average-cost accounting of the fills stays in integers and in the exact range.\<close>

definition exact_cost :: "FillEvent list \<Rightarrow> int \<Rightarrow> int \<Rightarrow> int \<Rightarrow> bool" where
  "exact_cost fills net realized avg \<longleftrightarrow>
     cost_run (0, 0, 0) (map (signed_fill \<circ> fill_triple) fills) = Some (net, realized, avg) \<and>
     (\<exists>P Q. (\<forall>f\<in>set fills. \<bar>fe_price_ticks f\<bar> \<le> P) \<and> sum_list (map (\<lambda>f. \<bar>fe_quantity f\<bar>) fills) \<le> Q \<and>
        1 \<le> P \<and> 1 \<le> Q \<and> P * Q \<le> 2 ^ 52)"

lemma report_accounts:
  assumes "audit s0 acts evs s" "log_rows (se_log s0) = []" "exact_cost (fills_of evs) net realized avg"
  shows "\<exists>replay pnls curve. report_loop (log_rows (se_log s)) replay_init [] [0] = Inr (replay, pnls, curve) \<and>
      pr_net_position replay = net \<and> pr_realized_pnl_ticks replay = realized"
proof -
  let ?fs = "map fill_triple (fills_of evs)"
  from assms(3) obtain P Q where c: "cost_run (0, 0, 0) (map signed_fill ?fs) = Some (net, realized, avg)" and
    pq: "\<forall>f\<in>set (fills_of evs). \<bar>fe_price_ticks f\<bar> \<le> P" "sum_list (map (\<lambda>f. \<bar>fe_quantity f\<bar>) (fills_of evs)) \<le> Q"
      "1 \<le> P" "1 \<le> Q" "P * Q \<le> 2 ^ 52"
    by (auto simp: exact_cost_def)
  have i: "replays (0, 0, 0) replay_init" by (simp add: replays_def replay_init_def)
  have "\<forall>(sd, qty, px)\<in>set ?fs. \<bar>px\<bar> \<le> P" using pq(1) by (auto simp: fill_triple_def)
  moreover have "\<bar>0\<bar> + sum_list (map (\<lambda>(sd, qty, px). \<bar>qty\<bar>) ?fs) \<le> Q"
    using pq(2) by (simp add: o_def fill_triple_def)
  ultimately obtain p t e where "replay_all ?fs replay_init [] [0] = Inr (p, t, e)" "replays (net, realized, avg) p"
    using replay_all_exact [OF c i, of P Q "[]" "[0]"] pq(3-5) by auto
  then show ?thesis
    using report_loop_audit [OF assms(1,2)] by (auto simp: replays_def)
qed

subsection \<open>The report exists\<close>

lemma report_total:
  assumes "audit s0 acts evs s" "log_rows (se_log s0) = []"
    "\<forall>f\<in>set (fills_of evs). 0 < fe_quantity f \<and> \<bar>fe_price_ticks f\<bar> \<le> 2 ^ 63"
    "sum_list (map fe_quantity (fills_of evs)) < 2 ^ 53"
  shows "(\<exists>replay pnls curve. report_loop (log_rows (se_log s)) replay_init [] [0] = Inr (replay, pnls, curve)) \<and>
    ((\<exists>rep. build_report (log_rows (se_log s)) (Inr sqrt_periods) = Inr rep) \<or>
     build_report (log_rows (se_log s)) (Inr sqrt_periods) = Inl OverflowError)"
proof -
  let ?fs = "map fill_triple (fills_of evs)"
  have q: "\<forall>(sd, qty, px)\<in>set ?fs. 0 < qty \<and> \<bar>px\<bar> \<le> 2 ^ 63" using assms(3) by (auto simp: fill_triple_def)
  have s: "sum_list (map (\<lambda>(sd, qty, px). qty) ?fs) < 2 ^ 53"
    using assms(4) by (simp add: o_def fill_triple_def)
  have "replay_ok replay_init" by (simp add: replay_ok_def replay_init_def)
  from replay_all_ok [OF this q, of "[]" "[0]"] s obtain p t e where
    r: "replay_all ?fs replay_init [] [0] = Inr (p, t, e)" by (auto simp: replay_init_def)
  note l = report_loop_audit [OF assms(1,2), of replay_init "[]" "[0]", unfolded r]
  have "int (length gs) \<le> sum_list (map (\<lambda>(sd, qty, px). qty) gs)"
    if "\<forall>(sd, qty, px)\<in>set gs. 0 < qty \<and> \<bar>px\<bar> \<le> 2 ^ 63" for gs :: "(int \<times> int \<times> int) list"
    using that by (induction gs) auto
  from this [OF q] s have "int (length ?fs) < 2 ^ 53" by linarith
  then have "length t < 2 ^ 53" using replay_all_pnls [OF r] by simp
  from sharpe_ratio_raises [OF this, of sqrt_periods] l win_rate_unit [of t] show ?thesis
    by (cases "sharpe_ratio t (Inr sqrt_periods)") (auto simp: build_report_def)
qed

section \<open>Properties\<close>

text \<open>For any log rows on which the report is computed at all, the realized total is the sum
  of the trade profits and the last point of the equity curve, the curve starts at 0 with one
  point per fill row, and no trade profit is zero.\<close>

lemma report_sums_agree:
  assumes "report_loop rows replay_init [] [0] = Inr (replay, trade_pnls, equity_curve)"
  shows "pr_realized_pnl_ticks replay = sum_list trade_pnls \<and>
    pr_realized_pnl_ticks replay = last equity_curve \<and> hd equity_curve = 0 \<and>
    length equity_curve = Suc (length (filter (\<lambda>r. map_of r ''event'' = Some (CStr ''fill'')) rows)) \<and>
    0 \<notin> set trade_pnls"
  using report_loop_sums [OF assms] by (simp add: replay_init_def)

text \<open>Buy 2 at 100, sell 3 at 103: one trade of 6, and a short of 1 at 103.\<close>

definition demo_rows :: "Row list" where
  "demo_rows = [fill_row 1 2 BUY 100 2, ack_row 3 0, fill_row 4 5 SELL 103 3]"

lemma demo_rows_loop:
  "\<exists>p t e. report_loop demo_rows replay_init [] [0] = Inr (p, t, e) \<and> replays (- 1, 6, 103) p"
proof -
  have r: "report_loop demo_rows replay_init [] [0] =
      replay_all [(0, 2, 100), (1, 3, 103)] replay_init [] [0]"
    by (simp add: demo_rows_def row_defs row_get_def row_int_def)
  have c: "cost_run (0, 0, 0) (map signed_fill [(0, 2, 100), (1, 3, 103)]) = Some (- 1, 6, 103)"
    by (simp add: signed_fill_def sign_def)
  have "replays (0, 0, 0) replay_init" by (simp add: replays_def replay_init_def)
  from replay_all_exact [OF c this, of 103 5 "[]" "[0]"] obtain p t e where
    "replay_all [(0, 2, 100), (1, 3, 103)] replay_init [] [0] = Inr (p, t, e)" "replays (- 1, 6, 103) p"
    by (auto simp del: replay_all.simps)
  then show ?thesis unfolding r by blast
qed

lemma report_sums_agree_witness:
  "\<exists>p t e. report_loop demo_rows replay_init [] [0] = Inr (p, t, e) \<and>
     sum_list t = 6 \<and> last e = 6 \<and> length e = 3"
proof -
  from demo_rows_loop obtain p t e where
    l: "report_loop demo_rows replay_init [] [0] = Inr (p, t, e)" "replays (- 1, 6, 103) p" by blast
  have "length (filter (\<lambda>r. map_of r ''event'' = Some (CStr ''fill'')) demo_rows) = 2"
    by (simp add: demo_rows_def row_defs)
  then have "sum_list t = 6" "last e = 6" "length e = 3"
    using report_sums_agree [OF l(1)] l(2) by (simp_all add: replays_def)
  with l(1) show ?thesis by blast
qed

text \<open>The maximum drawdown is the largest fall of the equity curve from any point to a later
  one, as a number of at most 0: no pair of points falls further, and some pair falls
  exactly that far.\<close>

lemma max_drawdown_largest_fall:
  assumes "equity_curve \<noteq> []"
  shows "max_drawdown equity_curve \<le> 0 \<and>
    (\<forall>i j. i \<le> j \<and> j < length equity_curve \<longrightarrow>
       max_drawdown equity_curve \<le> equity_curve ! j - equity_curve ! i) \<and>
    (\<exists>i j. i \<le> j \<and> j < length equity_curve \<and>
       max_drawdown equity_curve = equity_curve ! j - equity_curve ! i)"
proof -
  obtain p d where "foldl (\<lambda>(peak, max_dd) value. let peak' = max peak value in (peak', min max_dd (value - peak')))
      (hd equity_curve, 0) equity_curve = (p, d)" by fastforce
  from drawdown_fold [OF this assms] this show ?thesis by (simp add: max_drawdown_def)
qed

lemma max_drawdown_largest_fall_witness:
  "max_drawdown [0, 5, 2, 7, - 3, 4] = - 10 \<and>
   (\<exists>i j. i \<le> j \<and> j < 6 \<and> [0, 5, 2, 7, - 3, 4 :: int] ! j - [0, 5, 2, 7, - 3, 4] ! i = - 10)"
proof -
  have d: "max_drawdown [0, 5, 2, 7, - 3, 4] = - 10" by (simp add: max_drawdown_def Let_def)
  from max_drawdown_largest_fall [of "[0, 5, 2, 7, - 3, 4]"] d show ?thesis by force
qed

lemma exact_cost_conserves:
  assumes "exact_cost fills net realized avg"
  shows "net = sum_list (map (\<lambda>f. if incoming_side f = BUY then fe_quantity f else - fe_quantity f) fills) \<and>
    realized + net * (mark - avg) =
      sum_list (map (\<lambda>f. (if incoming_side f = BUY then fe_quantity f else - fe_quantity f) *
        (mark - fe_price_ticks f)) fills)"
proof -
  have c: "cost_run (0, 0, 0) (map (signed_fill \<circ> fill_triple) fills) = Some (net, realized, avg)"
    using assms by (simp add: exact_cost_def)
  have sg: "signed_fill (fill_triple f) =
      (if incoming_side f = BUY then fe_quantity f else - fe_quantity f, fe_price_ticks f)" for f
    by (cases "incoming_side f") (simp_all add: signed_fill_def fill_triple_def)
  show ?thesis
    using cost_run_conserves [OF c, of mark] unfolding list.map_comp
    by (intro conjI) (drule conjunct1, simp add: o_def sg, drule conjunct2, simp add: o_def sg)
qed

lemma build_report_of_loop:
  assumes "build_report rows sqrt_periods = Inr rep"
  shows "\<exists>replay pnls curve. report_loop rows replay_init [] [0] = Inr (replay, pnls, curve) \<and>
    br_total_realized_pnl_ticks rep = pr_realized_pnl_ticks replay \<and> br_num_trades rep = length pnls \<and>
    br_max_drawdown_ticks rep = max_drawdown curve \<and> win_rate pnls = Inr (br_win_rate rep) \<and>
    sharpe_ratio pnls sqrt_periods = Inr (br_sharpe_ratio rep) \<and>
    sum_list pnls = br_total_realized_pnl_ticks rep \<and> last curve = br_total_realized_pnl_ticks rep"
proof -
  from assms obtain p t e where l: "report_loop rows replay_init [] [0] = Inr (p, t, e)"
    and rep: "sharpe_ratio t sqrt_periods = Inr (br_sharpe_ratio rep)" "win_rate t = Inr (br_win_rate rep)"
      "br_max_drawdown_ticks rep = max_drawdown e" "br_num_trades rep = length t"
      "br_total_realized_pnl_ticks rep = pr_realized_pnl_ticks p"
    by (auto simp: build_report_def)
  from report_loop_sums [OF l] rep l show ?thesis by (auto simp: replay_init_def)
qed

lemma exact_cost_report:
  assumes "audit s0 acts evs s" "log_rows (se_log s0) = []" "exact_cost (fills_of evs) net realized avg"
    "\<forall>f\<in>set (fills_of evs). 0 < fe_quantity f"
  shows "(\<exists>rep. build_report (log_rows (se_log s)) (Inr sqrt_periods) = Inr rep) \<or>
    build_report (log_rows (se_log s)) (Inr sqrt_periods) = Inl OverflowError"
proof -
  from assms(3) obtain P Q where pq: "\<forall>f\<in>set (fills_of evs). \<bar>fe_price_ticks f\<bar> \<le> P"
      "sum_list (map (\<lambda>f. \<bar>fe_quantity f\<bar>) (fills_of evs)) \<le> Q" "1 \<le> P" "1 \<le> Q" "P * Q \<le> 2 ^ 52"
    by (auto simp: exact_cost_def)
  have "P * 1 \<le> P * Q" "1 * Q \<le> P * Q" using pq(3,4) by (intro mult_mono; simp)+
  then have b: "P \<le> 2 ^ 63" "Q < 2 ^ 53" using pq(5) by simp_all
  have "sum_list (map fe_quantity (fills_of evs)) \<le> sum_list (map (\<lambda>f. \<bar>fe_quantity f\<bar>) (fills_of evs))"
    by (rule sum_list_mono) (rule abs_ge_self)
  then have q: "sum_list (map fe_quantity (fills_of evs)) < 2 ^ 53" using pq(2) b(2) by linarith
  have "\<forall>f\<in>set (fills_of evs). 0 < fe_quantity f \<and> \<bar>fe_price_ticks f\<bar> \<le> 2 ^ 63" using assms(4) pq(1) b(1) by fastforce
  from report_total [OF assms(1,2) this q, of sqrt_periods] show ?thesis by blast
qed

text \<open>C37: The report over the log a session leaves is computed from exactly the fills the session received, in
  their order, whatever they are: the loop replays side, quantity and price of each, its errors included, and every
  figure of a returned report is that replay's, the realized total being the sum of the trade profits and the end
  of the equity curve.  When average-cost accounting of the fills stays in integers and in the range where binary64
  is exact (\<open>exact_cost\<close>), the loop ends, its position and its realized total, and that of any returned report,
  are the accounting's, and the realized total together with the open position marked at any price equals the cash
  the fills moved; with positive quantities the report is returned unless one of its figures overflows.\<close>

theorem session_report_accounts:
  assumes "audit s0 acts evs s" "log_rows (se_log s0) = []"
  shows "report_loop (log_rows (se_log s)) replay_init [] [0] = replay_all (map fill_triple (fills_of evs)) replay_init [] [0] \<and>
    (\<forall>rep. build_report (log_rows (se_log s)) sqrt_periods = Inr rep \<longrightarrow>
      (\<exists>replay pnls curve. replay_all (map fill_triple (fills_of evs)) replay_init [] [0] = Inr (replay, pnls, curve) \<and>
        br_total_realized_pnl_ticks rep = pr_realized_pnl_ticks replay \<and> br_num_trades rep = length pnls \<and>
        br_max_drawdown_ticks rep = max_drawdown curve \<and> win_rate pnls = Inr (br_win_rate rep) \<and>
        sharpe_ratio pnls sqrt_periods = Inr (br_sharpe_ratio rep) \<and>
        sum_list pnls = br_total_realized_pnl_ticks rep \<and> last curve = br_total_realized_pnl_ticks rep)) \<and>
    (exact_cost (fills_of evs) net realized avg \<longrightarrow>
      (\<exists>replay pnls curve. report_loop (log_rows (se_log s)) replay_init [] [0] = Inr (replay, pnls, curve) \<and>
        pr_net_position replay = net \<and> pr_realized_pnl_ticks replay = realized) \<and>
      (\<forall>rep. build_report (log_rows (se_log s)) sqrt_periods = Inr rep \<longrightarrow> br_total_realized_pnl_ticks rep = realized) \<and>
      net = sum_list (map (\<lambda>f. if incoming_side f = BUY then fe_quantity f else - fe_quantity f) (fills_of evs)) \<and>
      realized + net * (mark - avg) =
        sum_list (map (\<lambda>f. (if incoming_side f = BUY then fe_quantity f else - fe_quantity f) *
          (mark - fe_price_ticks f)) (fills_of evs)) \<and>
      ((\<forall>f\<in>set (fills_of evs). 0 < fe_quantity f) \<longrightarrow>
        (\<exists>rep. build_report (log_rows (se_log s)) (Inr (Fin periods)) = Inr rep) \<or>
        build_report (log_rows (se_log s)) (Inr (Fin periods)) = Inl OverflowError))"
proof (intro conjI allI impI)
  show loop: "report_loop (log_rows (se_log s)) replay_init [] [0] = replay_all (map fill_triple (fills_of evs)) replay_init [] [0]"
    by (rule report_loop_audit [OF assms])
  show "\<exists>replay pnls curve. replay_all (map fill_triple (fills_of evs)) replay_init [] [0] = Inr (replay, pnls, curve) \<and>
      br_total_realized_pnl_ticks rep = pr_realized_pnl_ticks replay \<and> br_num_trades rep = length pnls \<and>
      br_max_drawdown_ticks rep = max_drawdown curve \<and> win_rate pnls = Inr (br_win_rate rep) \<and>
      sharpe_ratio pnls sqrt_periods = Inr (br_sharpe_ratio rep) \<and>
      sum_list pnls = br_total_realized_pnl_ticks rep \<and> last curve = br_total_realized_pnl_ticks rep"
    if "build_report (log_rows (se_log s)) sqrt_periods = Inr rep" for rep
    using build_report_of_loop [OF that] unfolding loop .
  assume e: "exact_cost (fills_of evs) net realized avg"
  show a: "\<exists>replay pnls curve. report_loop (log_rows (se_log s)) replay_init [] [0] = Inr (replay, pnls, curve) \<and>
      pr_net_position replay = net \<and> pr_realized_pnl_ticks replay = realized"
    by (rule report_accounts [OF assms e])
  show "br_total_realized_pnl_ticks rep = realized" if "build_report (log_rows (se_log s)) sqrt_periods = Inr rep" for rep
    using build_report_of_loop [OF that] a by auto
  show "net = sum_list (map (\<lambda>f. if incoming_side f = BUY then fe_quantity f else - fe_quantity f) (fills_of evs))"
    "realized + net * (mark - avg) =
      sum_list (map (\<lambda>f. (if incoming_side f = BUY then fe_quantity f else - fe_quantity f) *
        (mark - fe_price_ticks f)) (fills_of evs))"
    using exact_cost_conserves [OF e, of mark] by blast+
  assume "\<forall>f\<in>set (fills_of evs). 0 < fe_quantity f"
  then show "(\<exists>rep. build_report (log_rows (se_log s)) (Inr (Fin periods)) = Inr rep) \<or>
      build_report (log_rows (se_log s)) (Inr (Fin periods)) = Inl OverflowError"
    by (rule exact_cost_report [OF assms e])
qed

lemma demo_poll:
  "\<exists>s'. poll_and_drain quoter_on_fill (Fin 0) demo_session = (Inr [Fill_Event demo_fill], s') \<and>
     audit demo_session [] [Fill_Event demo_fill] s'"
proof -
  obtain s' where s': "poll_and_drain quoter_on_fill (Fin 0) demo_session = (Inr [Fill_Event demo_fill], s')"
    using poll_events_eq [of "Some (Fin 0)" "se_client demo_session"]
    by (simp add: poll_and_drain_def demo_session_def client_init_def fless_def)
  from poll_and_drain_audit [OF s', of quoter_step] s' show ?thesis by auto
qed

theorem session_report_accounts_witness:
  "\<exists>s' replay pnls curve. poll_and_drain quoter_on_fill (Fin 0) demo_session = (Inr [Fill_Event demo_fill], s') \<and>
     report_loop (log_rows (se_log s')) replay_init [] [0] = Inr (replay, pnls, curve) \<and>
     pr_net_position replay = - 4 \<and> pr_realized_pnl_ticks replay = 0 \<and>
     (\<forall>rep. build_report (log_rows (se_log s')) (Inr (Fin 16)) = Inr rep \<longrightarrow>
        br_total_realized_pnl_ticks rep = 0 \<and> br_num_trades rep = length pnls \<and> sum_list pnls = 0) \<and>
     ((\<exists>rep. build_report (log_rows (se_log s')) (Inr (Fin 16)) = Inr rep) \<or>
      build_report (log_rows (se_log s')) (Inr (Fin 16)) = Inl OverflowError)"
proof -
  from demo_poll obtain s' where s': "poll_and_drain quoter_on_fill (Fin 0) demo_session = (Inr [Fill_Event demo_fill], s')"
    "audit demo_session [] [Fill_Event demo_fill] s'" by blast
  have e: "exact_cost (fills_of [Fill_Event demo_fill]) (- 4) 0 99"
    unfolding exact_cost_def
    by (intro conjI exI [of _ 99] exI [of _ 4]) (simp_all add: signed_fill_def fill_triple_def demo_fill_def incoming_side_def sign_def)
  note c = session_report_accounts [OF s'(2) demo_session_facts(4), of "Inr (Fin 16)" "- 4" 0 99 99 16]
  note d = mp [OF conjunct2 [OF conjunct2 [OF c]] e]
  from conjunct1 [OF d] obtain replay pnls curve where
    l: "report_loop (log_rows (se_log s')) replay_init [] [0] = Inr (replay, pnls, curve)"
      "pr_net_position replay = - 4" "pr_realized_pnl_ticks replay = 0" by blast
  have "\<forall>f\<in>set (fills_of [Fill_Event demo_fill]). 0 < fe_quantity f" by (simp add: demo_fill_def)
  with d have t: "(\<exists>rep. build_report (log_rows (se_log s')) (Inr (Fin 16)) = Inr rep) \<or>
      build_report (log_rows (se_log s')) (Inr (Fin 16)) = Inl OverflowError" by blast
  have "replay_all (map fill_triple (fills_of [Fill_Event demo_fill])) replay_init [] [0] = Inr (replay, pnls, curve)"
    using conjunct1 [OF c] l(1) by simp
  with conjunct1 [OF conjunct2 [OF c]] l(3) have "br_total_realized_pnl_ticks rep = 0 \<and> br_num_trades rep = length pnls \<and> sum_list pnls = 0"
    if "build_report (log_rows (se_log s')) (Inr (Fin 16)) = Inr rep" for rep using that by fastforce
  with t show ?thesis using s'(1) l by blast
qed

text \<open>On fills the wire can carry, of positive quantity and fewer than 2^53 contracts in all,
  the report over a session's log is always produced, unless a figure overflows: no division
  by zero, no missing key, no NaN reaches a conversion.\<close>

lemma session_report_total:
  assumes "audit s0 acts evs s" "log_rows (se_log s0) = []"
    "\<forall>f\<in>set (fills_of evs). 0 < fe_quantity f \<and> \<bar>fe_price_ticks f\<bar> \<le> 2 ^ 63"
    "sum_list (map fe_quantity (fills_of evs)) < 2 ^ 53"
  shows "(\<exists>replay pnls curve. report_loop (log_rows (se_log s)) replay_init [] [0] = Inr (replay, pnls, curve)) \<and>
    ((\<exists>rep. build_report (log_rows (se_log s)) (Inr sqrt_periods) = Inr rep) \<or>
     build_report (log_rows (se_log s)) (Inr sqrt_periods) = Inl OverflowError)"
  by (rule report_total [OF assms])

lemma session_report_total_witness:
  "\<exists>s' rep. poll_and_drain quoter_on_fill (Fin 0) demo_session = (Inr [Fill_Event demo_fill], s') \<and>
     (build_report (log_rows (se_log s')) (Inr (Fin 16)) = Inr rep \<or>
      build_report (log_rows (se_log s')) (Inr (Fin 16)) = Inl OverflowError)"
proof -
  from demo_poll obtain s' where s': "poll_and_drain quoter_on_fill (Fin 0) demo_session = (Inr [Fill_Event demo_fill], s')"
    "audit demo_session [] [Fill_Event demo_fill] s'" by blast
  from session_report_total [OF s'(2) demo_session_facts(4), of "Fin 16"] s'(1) show ?thesis
    by (auto simp: demo_fill_def)
qed

text \<open>Every report lies in its ranges: the win rate is a finite number between 0 and 1, the
  drawdown is at most 0, the trade count is at most the number of fill rows, and the Sharpe
  ratio of fewer than two trades is 0.\<close>

lemma report_figures_in_range:
  assumes "build_report rows sqrt_periods = Inr rep"
  shows "is_finite (br_win_rate rep) \<and> 0 \<le> fval (br_win_rate rep) \<and> fval (br_win_rate rep) \<le> 1 \<and>
    br_max_drawdown_ticks rep \<le> 0 \<and> (br_num_trades rep < 2 \<longrightarrow> br_sharpe_ratio rep = Fin 0) \<and>
    br_max_drawdown_ticks rep \<le> br_total_realized_pnl_ticks rep"
proof -
  from assms obtain p t e where l: "report_loop rows replay_init [] [0] = Inr (p, t, e)"
    and sh: "sharpe_ratio t sqrt_periods = Inr (br_sharpe_ratio rep)"
    and w: "win_rate t = Inr (br_win_rate rep)"
    and m: "br_max_drawdown_ticks rep = max_drawdown e" "br_num_trades rep = length t"
      "br_total_realized_pnl_ticks rep = pr_realized_pnl_ticks p"
    by (auto simp: build_report_def)
  from report_loop_sums [OF l] have e: "hd e = 0" "e \<noteq> []" "last e = pr_realized_pnl_ticks p"
    by (simp_all add: replay_init_def)
  obtain pk d where f: "foldl (\<lambda>(peak, max_dd) value. let peak' = max peak value in (peak', min max_dd (value - peak')))
      (hd e, 0) e = (pk, d)" by fastforce
  have d: "max_drawdown e = d" using f by (simp add: max_drawdown_def)
  have "d \<le> e ! (length e - 1) - e ! 0"
    using drawdown_fold [OF f e(2)] e(2) by (metis diff_less le0 length_greater_0_conv zero_less_one)
  then have "d \<le> pr_realized_pnl_ticks p" using e by (simp add: hd_conv_nth last_conv_nth)
  with drawdown_fold [OF f e(2)] d m win_rate_unit [of t] w sh show ?thesis
    by (auto simp: sharpe_ratio_def)
qed

lemma report_figures_in_range_witness:
  "\<exists>rep. build_report demo_rows (Inr (Fin 16)) = Inr rep \<and> br_num_trades rep = 1 \<and>
     br_sharpe_ratio rep = Fin 0 \<and> fval (br_win_rate rep) \<le> 1"
proof -
  from demo_rows_loop obtain p t e where
    l: "report_loop demo_rows replay_init [] [0] = Inr (p, t, e)" "replays (- 1, 6, 103) p" by blast
  have "t = [6]"
  proof -
    have r: "replay_all [(0, 2, 100), (1, 3, 103)] replay_init [] [0] = Inr (p, t, e)"
      using l(1) by (simp add: demo_rows_def row_defs row_get_def row_int_def)
    have "length t \<le> 1 \<and> sum_list t = 6 \<and> 0 \<notin> set t"
    proof -
      have "\<exists>q. replay_on_fill 0 2 100 replay_init = Inr (0, q)"
        using r by (auto simp: replay_on_fill_def replay_init_def Let_def split: prod.splits)
      then obtain q where q: "replay_on_fill 0 2 100 replay_init = Inr (0, q)" by blast
      then have "replay_all [(0, 2, 100), (1, 3, 103)] replay_init [] [0] = replay_all [(1, 3, 103)] q [] [0, 0]"
        by simp
      with r have "replay_all [(1, 3, 103)] q [] [0, 0] = Inr (p, t, e)" by (simp only:)
      from replay_all_pnls [OF this] report_loop_sums [OF l(1)] l(2) show ?thesis
        by (simp add: replays_def replay_init_def)
    qed
    then show ?thesis by (cases t) auto
  qed
  then obtain rep where rep: "build_report demo_rows (Inr (Fin 16)) = Inr rep" "br_num_trades rep = 1"
    using l(1) win_rate_unit [of t] by (auto simp: build_report_def sharpe_ratio_def)
  from report_figures_in_range [OF rep(1)] rep show ?thesis by auto
qed

text \<open>The variance the hedge report gives is the exact population variance of the series,
  rounded once to binary64; it is never negative.\<close>

lemma pnl_variance_rounded_exact:
  assumes "list_all is_finite xs" "1 < length xs"
  shows "(let m = sum_list (map fval xs) / of_nat (length xs);
              v = sum_list (map (\<lambda>x. (x - m)\<^sup>2) (map fval xs)) / of_nat (length xs) in
    0 \<le> v \<and> pnl_variance xs = (if 2 ^ 1024 \<le> rnd v then Inl OverflowError else Inr (Fin (rnd v))))"
  using pnl_variance_exact [OF assms] by (simp only: Let_def)

lemma pnl_variance_rounded_exact_witness:
  "pnl_variance [Fin 1, Fin 3] = Inr (Fin 1)"
proof -
  have "rnd 1 = (1 :: rat)" using rnd_of_int [of 1] by simp
  with pnl_variance_rounded_exact [of "[Fin 1, Fin 3]"] show ?thesis
    by (simp add: Let_def power2_eq_square)
qed

text \<open>The variance reduction is a percentage between 0 and 100 when hedging lowered the
  variance, never positive when it raised it, and never a NaN.\<close>

lemma variance_reduction_sign:
  assumes "0 \<le> h" "0 < u"
  shows "(h \<le> u \<longrightarrow> (\<exists>z. variance_reduction (Fin h) (Fin u) = Inr z \<and> is_finite z \<and> 0 \<le> fval z \<and> fval z \<le> 100)) \<and>
    (u \<le> h \<longrightarrow> (\<exists>z. variance_reduction (Fin h) (Fin u) = Inr z \<and> z \<noteq> NaN \<and> \<not> fless (Fin 0) z))"
  using assms by (rule variance_reduction_range)

lemma variance_reduction_sign_witness:
  "\<exists>z. variance_reduction (Fin 1) (Fin 4) = Inr z \<and> is_finite z \<and> 0 \<le> fval z \<and> fval z \<le> 100"
  using variance_reduction_sign [of 1 4] by simp

end
