(* ===== verification/LiveClient.thy ===== *)
theory LiveClient
  imports Feeds
begin

text \<open>
  \<^verbatim>\<open>strategy/orderbook_client/live_ib_client.py\<close>: \<open>IBAsyncClient\<close>, whose constructor and
  \<^verbatim>\<open>subscribe\<close> run on the caller's thread and hand work to a background thread through
  three \<^verbatim>\<open>threading.Event\<close>s.  The two threads interleave freely, so the class is a step
  relation: one step per statement that another thread can observe.  What \<^verbatim>\<open>ib_async\<close> does
  (connecting, ticker updates) is nondeterministic, as are the timeouts of
  \<^verbatim>\<open>Event.wait\<close>, which may expire whenever the event is not set; \<^verbatim>\<open>qualifyContracts\<close> is the
  parameter \<open>qualify\<close>: the lists of contracts it may return for a contract.  \<^verbatim>\<open>subscribe\<close> is called
  once, as \<open>LiveIBKRFeed\<close> calls it.
\<close>

section \<open>The contract\<close>

text \<open>\<open>future\<close> is the constructor of \<^verbatim>\<open>ib_async.Future\<close>: symbol, expiry, exchange.\<close>

definition default_es_contract :: "(string \<Rightarrow> string \<Rightarrow> string \<Rightarrow> 'c) \<Rightarrow> string \<Rightarrow> 'c" where
  "default_es_contract future expiry = future ''ES'' expiry ''CME''"

section \<open>The state of the two threads\<close>

datatype Thread_Pc =
    T_Start
  | T_Created
  | T_Failed
  | T_Returned
  | T_Waiting
  | T_Qualifying
  | T_Requested
  | T_Attached
  | T_Running
  | T_Stopped
  | T_Raised py_exc

datatype Main_Pc =
    M_Connecting
  | M_Raised py_exc
  | M_Ready
  | M_Contract_Set
  | M_Callback_Set
  | M_Subscribing
  | M_Subscribed

text \<open>
  \<open>ib_market_data\<close> is the contract of the one \<^verbatim>\<open>reqMktData\<close> call, \<open>ib_handler\<close> the
  callback the ticker's handler closes over, \<open>ib_ticks\<close> the calls it has made.
\<close>

record ('c, 'k) IBAsyncClient =
  ib_made :: bool
  ib_connect_error :: "py_exc option"
  ib_connected :: bool
  ib_subscribe_requested :: bool
  ib_subscribed :: bool
  ib_pending_contract :: "'c option"
  ib_pending_on_tick :: "'k option"
  ib_market_data :: "'c option"
  ib_handler :: "'k option"
  ib_ticks :: "('k option \<times> pyfloat) list"
  ib_disconnected :: bool
  ib_thread :: Thread_Pc
  ib_main :: Main_Pc

definition ib_init :: "('c, 'k) IBAsyncClient" where
  "ib_init = \<lparr>ib_made = False, ib_connect_error = None, ib_connected = False,
     ib_subscribe_requested = False, ib_subscribed = False, ib_pending_contract = None,
     ib_pending_on_tick = None, ib_market_data = None, ib_handler = None, ib_ticks = [],
     ib_disconnected = False, ib_thread = T_Start, ib_main = M_Connecting\<rparr>"

text \<open>The ticker's handler.\<close>

definition on_update :: "Ticker \<Rightarrow> ('c, 'k) IBAsyncClient \<Rightarrow> ('c, 'k) IBAsyncClient" where
  "on_update tk s =
     (case best_price tk of
        Inr (Some price) \<Rightarrow> s\<lparr>ib_ticks := ib_ticks s @ [(ib_handler s, price)]\<rparr>
      | _ \<Rightarrow> s)"

text \<open>\<^verbatim>\<open>disconnect\<close>, which does nothing before the background thread has made its \<open>IB\<close>.\<close>

definition ib_disconnect :: "('c, 'k) IBAsyncClient \<Rightarrow> ('c, 'k) IBAsyncClient" where
  "ib_disconnect s = (if ib_made s then s\<lparr>ib_disconnected := True\<rparr> else s)"

section \<open>Steps\<close>

text \<open>
  \<^verbatim>\<open>_thread_main\<close>.  \<^verbatim>\<open>qualifyContracts\<close> and \<^verbatim>\<open>reqMktData\<close> may raise; \<^verbatim>\<open>qualifyContracts\<close> may
  return nothing, which is an \<^verbatim>\<open>IndexError\<close>, and market data are asked for the first contract
  it returns.  Nothing catches an exception there.
\<close>

inductive thread_step ::
  "('c option \<Rightarrow> 'c list \<Rightarrow> bool) \<Rightarrow> ('c, 'k) IBAsyncClient \<Rightarrow> ('c, 'k) IBAsyncClient \<Rightarrow> bool"
  for qualify where
  create: "ib_thread s = T_Start \<Longrightarrow> thread_step qualify s (s\<lparr>ib_made := True, ib_thread := T_Created\<rparr>)"
| connect_ok: "ib_thread s = T_Created \<Longrightarrow>
    thread_step qualify s (s\<lparr>ib_connected := True, ib_thread := T_Waiting\<rparr>)"
| connect_fail: "ib_thread s = T_Created \<Longrightarrow>
    thread_step qualify s (s\<lparr>ib_connect_error := Some e, ib_thread := T_Failed\<rparr>)"
| report_fail: "ib_thread s = T_Failed \<Longrightarrow>
    thread_step qualify s (s\<lparr>ib_connected := True, ib_thread := T_Returned\<rparr>)"
| wake: "ib_thread s = T_Waiting \<Longrightarrow> ib_subscribe_requested s \<Longrightarrow>
    thread_step qualify s (s\<lparr>ib_thread := T_Qualifying\<rparr>)"
| qualify_fail: "ib_thread s = T_Qualifying \<Longrightarrow> thread_step qualify s (s\<lparr>ib_thread := T_Raised e\<rparr>)"
| qualify_none: "ib_thread s = T_Qualifying \<Longrightarrow> qualify (ib_pending_contract s) [] \<Longrightarrow>
    thread_step qualify s (s\<lparr>ib_thread := T_Raised IndexError\<rparr>)"
| qualify_ok: "ib_thread s = T_Qualifying \<Longrightarrow> qualify (ib_pending_contract s) (qualified # qs) \<Longrightarrow>
    thread_step qualify s (s\<lparr>ib_market_data := Some qualified, ib_thread := T_Requested\<rparr>)"
| attach: "ib_thread s = T_Requested \<Longrightarrow>
    thread_step qualify s (s\<lparr>ib_handler := ib_pending_on_tick s, ib_thread := T_Attached\<rparr>)"
| announce: "ib_thread s = T_Attached \<Longrightarrow>
    thread_step qualify s (s\<lparr>ib_subscribed := True, ib_thread := T_Running\<rparr>)"
| update: "ib_thread s = T_Running \<Longrightarrow> thread_step qualify s (on_update tk s)"
| stop: "ib_thread s = T_Running \<Longrightarrow> ib_disconnected s \<Longrightarrow> thread_step qualify s (s\<lparr>ib_thread := T_Stopped\<rparr>)"

text \<open>The rest of the constructor, \<^verbatim>\<open>subscribe\<close> and \<^verbatim>\<open>disconnect\<close>.\<close>

inductive main_step :: "'c \<Rightarrow> 'k \<Rightarrow> ('c, 'k) IBAsyncClient \<Rightarrow> ('c, 'k) IBAsyncClient \<Rightarrow> bool"
  for contract on_tick where
  init_timeout: "ib_main s = M_Connecting \<Longrightarrow> \<not> ib_connected s \<Longrightarrow>
    main_step contract on_tick s (s\<lparr>ib_main := M_Raised RuntimeError\<rparr>)"
| init_error: "ib_main s = M_Connecting \<Longrightarrow> ib_connected s \<Longrightarrow> ib_connect_error s = Some e \<Longrightarrow>
    main_step contract on_tick s (s\<lparr>ib_main := M_Raised e\<rparr>)"
| init_ok: "ib_main s = M_Connecting \<Longrightarrow> ib_connected s \<Longrightarrow> ib_connect_error s = None \<Longrightarrow>
    main_step contract on_tick s (s\<lparr>ib_main := M_Ready\<rparr>)"
| set_contract: "ib_main s = M_Ready \<Longrightarrow>
    main_step contract on_tick s (s\<lparr>ib_pending_contract := Some contract, ib_main := M_Contract_Set\<rparr>)"
| set_callback: "ib_main s = M_Contract_Set \<Longrightarrow>
    main_step contract on_tick s (s\<lparr>ib_pending_on_tick := Some on_tick, ib_main := M_Callback_Set\<rparr>)"
| request: "ib_main s = M_Callback_Set \<Longrightarrow>
    main_step contract on_tick s (s\<lparr>ib_subscribe_requested := True, ib_main := M_Subscribing\<rparr>)"
| subscribe_ok: "ib_main s = M_Subscribing \<Longrightarrow> ib_subscribed s \<Longrightarrow>
    main_step contract on_tick s (s\<lparr>ib_main := M_Subscribed\<rparr>)"
| subscribe_timeout: "ib_main s = M_Subscribing \<Longrightarrow> \<not> ib_subscribed s \<Longrightarrow>
    main_step contract on_tick s (s\<lparr>ib_main := M_Subscribed\<rparr>)"
| disconnect: "ib_main s \<in> {M_Ready, M_Subscribed} \<Longrightarrow> main_step contract on_tick s (ib_disconnect s)"

definition ib_step ::
  "('c option \<Rightarrow> 'c list \<Rightarrow> bool) \<Rightarrow> 'c \<Rightarrow> 'k \<Rightarrow> ('c, 'k) IBAsyncClient \<Rightarrow> ('c, 'k) IBAsyncClient \<Rightarrow> bool" where
  "ib_step qualify contract on_tick s s' \<longleftrightarrow> thread_step qualify s s' \<or> main_step contract on_tick s s'"

abbreviation ib_run ::
  "('c option \<Rightarrow> 'c list \<Rightarrow> bool) \<Rightarrow> 'c \<Rightarrow> 'k \<Rightarrow> ('c, 'k) IBAsyncClient \<Rightarrow> ('c, 'k) IBAsyncClient \<Rightarrow> bool" where
  "ib_run qualify contract on_tick \<equiv> (ib_step qualify contract on_tick)\<^sup>*\<^sup>*"

section \<open>The handshake invariant\<close>

definition past_connect :: "Thread_Pc \<Rightarrow> bool" where
  "past_connect pc \<longleftrightarrow> pc \<notin> {T_Start, T_Created, T_Failed, T_Returned}"

definition past_wake :: "Thread_Pc \<Rightarrow> bool" where
  "past_wake pc \<longleftrightarrow> past_connect pc \<and> pc \<noteq> T_Waiting"

definition constructed :: "Main_Pc \<Rightarrow> bool" where
  "constructed pc \<longleftrightarrow> pc \<in> {M_Ready, M_Contract_Set, M_Callback_Set, M_Subscribing, M_Subscribed}"

definition requested :: "Main_Pc \<Rightarrow> bool" where
  "requested pc \<longleftrightarrow> pc \<in> {M_Subscribing, M_Subscribed}"

lemmas pc_defs = past_connect_def past_wake_def constructed_def requested_def

definition asked_for :: "('c option \<Rightarrow> 'c list \<Rightarrow> bool) \<Rightarrow> 'c \<Rightarrow> 'c option \<Rightarrow> bool" where
  "asked_for qualify contract asked \<longleftrightarrow> (\<exists>q qs. qualify (Some contract) (q # qs) \<and> asked = Some q)"

lemma asked_forI [intro]: "qualify (Some contract) (q # qs) \<Longrightarrow> asked_for qualify contract (Some q)"
  by (auto simp: asked_for_def)

definition control_inv :: "('c option \<Rightarrow> 'c list \<Rightarrow> bool) \<Rightarrow> 'c \<Rightarrow> 'k \<Rightarrow> ('c, 'k) IBAsyncClient \<Rightarrow> bool" where
  "control_inv qualify contract on_tick s \<longleftrightarrow>
     (ib_connected s \<longleftrightarrow> ib_thread s \<notin> {T_Start, T_Created, T_Failed}) \<and>
     (ib_connect_error s = None \<longleftrightarrow> ib_thread s \<notin> {T_Failed, T_Returned}) \<and>
     (constructed (ib_main s) \<longrightarrow> past_connect (ib_thread s)) \<and>
     (case ib_main s of M_Raised e \<Rightarrow> e = RuntimeError \<or> ib_connect_error s = Some e | _ \<Rightarrow> True) \<and>
     (ib_subscribe_requested s \<longleftrightarrow> requested (ib_main s)) \<and>
     (ib_main s = M_Contract_Set \<or> ib_main s = M_Callback_Set \<or> requested (ib_main s) \<longrightarrow>
        ib_pending_contract s = Some contract) \<and>
     (ib_main s = M_Callback_Set \<or> requested (ib_main s) \<longrightarrow> ib_pending_on_tick s = Some on_tick) \<and>
     (past_wake (ib_thread s) \<longrightarrow> requested (ib_main s)) \<and>
     (ib_thread s \<in> {T_Requested, T_Attached, T_Running, T_Stopped} \<longrightarrow>
        asked_for qualify contract (ib_market_data s)) \<and>
     (ib_thread s \<in> {T_Attached, T_Running, T_Stopped} \<longrightarrow> ib_handler s = Some on_tick) \<and>
     (ib_subscribed s \<longleftrightarrow> ib_thread s \<in> {T_Running, T_Stopped})"

definition ticks_inv :: "'k \<Rightarrow> ('c, 'k) IBAsyncClient \<Rightarrow> bool" where
  "ticks_inv on_tick s \<longleftrightarrow>
     (ib_ticks s \<noteq> [] \<longrightarrow> ib_subscribed s) \<and> fst ` set (ib_ticks s) \<subseteq> {Some on_tick}"

definition handshake_inv :: "('c option \<Rightarrow> 'c list \<Rightarrow> bool) \<Rightarrow> 'c \<Rightarrow> 'k \<Rightarrow> ('c, 'k) IBAsyncClient \<Rightarrow> bool" where
  "handshake_inv qualify contract on_tick s \<longleftrightarrow> control_inv qualify contract on_tick s \<and> ticks_inv on_tick s"

lemma handshake_init [simp]: "handshake_inv qualify contract on_tick ib_init"
  by (simp add: handshake_inv_def control_inv_def ticks_inv_def ib_init_def pc_defs)

lemma on_update_simps [simp]:
  "ib_thread (on_update tk s) = ib_thread s" "ib_main (on_update tk s) = ib_main s"
  "ib_connected (on_update tk s) = ib_connected s" "ib_connect_error (on_update tk s) = ib_connect_error s"
  "ib_subscribe_requested (on_update tk s) = ib_subscribe_requested s"
  "ib_subscribed (on_update tk s) = ib_subscribed s"
  "ib_pending_contract (on_update tk s) = ib_pending_contract s"
  "ib_pending_on_tick (on_update tk s) = ib_pending_on_tick s"
  "ib_market_data (on_update tk s) = ib_market_data s" "ib_handler (on_update tk s) = ib_handler s"
  by (simp_all add: on_update_def split: sum.splits option.splits)

lemma ib_disconnect_simps [simp]:
  "ib_thread (ib_disconnect s) = ib_thread s"
  "ib_main (ib_disconnect s) = ib_main s"
  "ib_connected (ib_disconnect s) = ib_connected s"
  "ib_connect_error (ib_disconnect s) = ib_connect_error s"
  "ib_subscribe_requested (ib_disconnect s) = ib_subscribe_requested s"
  "ib_subscribed (ib_disconnect s) = ib_subscribed s"
  "ib_pending_contract (ib_disconnect s) = ib_pending_contract s"
  "ib_pending_on_tick (ib_disconnect s) = ib_pending_on_tick s"
  "ib_market_data (ib_disconnect s) = ib_market_data s"
  "ib_handler (ib_disconnect s) = ib_handler s"
  "ib_ticks (ib_disconnect s) = ib_ticks s"
  by (simp_all add: ib_disconnect_def)

lemma on_update_ticks:
  "set (ib_ticks (on_update tk s)) \<subseteq> set (ib_ticks s) \<union> {ib_handler s} \<times> UNIV"
  by (auto simp: on_update_def split: sum.splits option.splits)

lemma control_thread:
  assumes "control_inv qualify contract on_tick s" "thread_step qualify s s'"
  shows "control_inv qualify contract on_tick s'"
  using assms(2,1) by (cases; cases "ib_main s"; simp add: control_inv_def pc_defs asked_forI)

lemma ticks_thread:
  assumes "control_inv qualify contract on_tick s" "ticks_inv on_tick s" "thread_step qualify s s'"
  shows "ticks_inv on_tick s'"
  using assms(3,2)
proof cases
  case (update tk)
  have "ib_subscribed s" "ib_handler s = Some on_tick"
    using assms(1) update by (simp_all add: control_inv_def)
  then show ?thesis
    using assms(2) update on_update_ticks [of tk s] by (fastforce simp: ticks_inv_def)
qed (simp_all add: ticks_inv_def)

lemma control_disconnect: "control_inv qualify contract on_tick (ib_disconnect s) = control_inv qualify contract on_tick s"
  by (simp add: control_inv_def cong: Main_Pc.case_cong)

lemma control_init_ok:
  assumes "control_inv qualify contract on_tick s" "ib_main s = M_Connecting" "ib_connected s" "ib_connect_error s = None"
  shows "control_inv qualify contract on_tick (s\<lparr>ib_main := M_Ready\<rparr>)"
  using assms by (cases "ib_thread s") (simp_all add: control_inv_def pc_defs)

lemma control_main:
  assumes "control_inv qualify contract on_tick s" "main_step contract on_tick s s'"
  shows "control_inv qualify contract on_tick s'"
  using assms(2,1)
proof cases
  case init_ok
  with assms(1) show ?thesis by (simp add: control_init_ok)
next
  case disconnect
  with assms(1) show ?thesis by (simp add: control_disconnect)
qed (auto simp: control_inv_def constructed_def requested_def)

lemma ticks_main: "ticks_inv on_tick s \<Longrightarrow> main_step contract on_tick s s' \<Longrightarrow> ticks_inv on_tick s'"
  by (erule main_step.cases) (simp_all add: ticks_inv_def)

lemma handshake_run:
  assumes "ib_run qualify contract on_tick s s'" "handshake_inv qualify contract on_tick s"
  shows "handshake_inv qualify contract on_tick s'"
  using assms
proof (induction rule: rtranclp_induct)
  case (step t u)
  then show ?case
    unfolding ib_step_def handshake_inv_def
    using control_thread [of qualify contract on_tick t u] control_main [of qualify contract on_tick t u]
      ticks_thread [of qualify contract on_tick t u] ticks_main [of on_tick t contract u] by blast
qed

text \<open>A thread that has raised stays dead, and nothing more is delivered.\<close>

lemma dead_step:
  assumes "ib_step qualify contract on_tick s s'" "ib_thread s = T_Raised e"
  shows "ib_thread s' = T_Raised e \<and> ib_ticks s' = ib_ticks s \<and> ib_subscribed s' = ib_subscribed s"
  using assms(1)[unfolded ib_step_def] assms(2)
  by (elim disjE) (auto elim!: thread_step.cases main_step.cases)

lemma dead_run:
  assumes "ib_run qualify contract on_tick s s'" "ib_thread s = T_Raised e"
  shows "ib_thread s' = T_Raised e \<and> ib_ticks s' = ib_ticks s \<and> ib_subscribed s' = ib_subscribed s"
  using assms by (induction rule: rtranclp_induct) (auto dest: dead_step)


section \<open>Runs for the witnesses\<close>

text \<open>The schedule in which connecting and subscribing succeed and one trade print arrives.\<close>

definition demo_ticker :: Ticker where
  "demo_ticker = \<lparr>tk_last = Fin 5000, tk_bid = NaN, tk_ask = NaN, tk_close = NaN\<rparr>"

text \<open>\<^verbatim>\<open>qualifyContracts\<close> completing the contract in place and returning it.\<close>

definition same_contract :: "'c option \<Rightarrow> 'c list \<Rightarrow> bool" where
  "same_contract c qs \<longleftrightarrow> qs = (case c of None \<Rightarrow> [] | Some q \<Rightarrow> [q])"

definition ib_live :: "(string, nat) IBAsyncClient" where
  "ib_live = ib_init\<lparr>ib_made := True, ib_connected := True, ib_main := M_Subscribing,
     ib_pending_contract := Some ''ES'', ib_pending_on_tick := Some 7,
     ib_subscribe_requested := True, ib_thread := T_Qualifying\<rparr>"

lemma ib_live_run: "ib_run same_contract ''ES'' 7 ib_init ib_live"
proof -
  let ?s1 = "ib_init\<lparr>ib_made := True, ib_thread := T_Created\<rparr> :: (string, nat) IBAsyncClient"
  let ?s2 = "?s1\<lparr>ib_connected := True, ib_thread := T_Waiting\<rparr>"
  let ?s3 = "?s2\<lparr>ib_main := M_Ready\<rparr>"
  let ?s4 = "?s3\<lparr>ib_pending_contract := Some ''ES'', ib_main := M_Contract_Set\<rparr>"
  let ?s5 = "?s4\<lparr>ib_pending_on_tick := Some 7, ib_main := M_Callback_Set\<rparr>"
  let ?s6 = "?s5\<lparr>ib_subscribe_requested := True, ib_main := M_Subscribing\<rparr>"
  have "ib_step same_contract ''ES'' 7 ib_init ?s1" unfolding ib_step_def
    by (rule disjI1, rule create) (simp add: ib_init_def)
  moreover have "ib_step same_contract ''ES'' 7 ?s1 ?s2" unfolding ib_step_def
    by (rule disjI1, rule connect_ok) simp
  moreover have "ib_step same_contract ''ES'' 7 ?s2 ?s3" unfolding ib_step_def
    by (rule disjI2, rule init_ok) (simp_all add: ib_init_def)
  moreover have "ib_step same_contract ''ES'' 7 ?s3 ?s4" unfolding ib_step_def
    by (rule disjI2, rule set_contract) simp
  moreover have "ib_step same_contract ''ES'' 7 ?s4 ?s5" unfolding ib_step_def
    by (rule disjI2, rule set_callback) simp
  moreover have "ib_step same_contract ''ES'' 7 ?s5 ?s6" unfolding ib_step_def
    by (rule disjI2, rule request) simp
  moreover have "ib_step same_contract ''ES'' 7 ?s6 (?s6\<lparr>ib_thread := T_Qualifying\<rparr>)" unfolding ib_step_def
    by (rule disjI1, rule wake) simp_all
  moreover have "?s6\<lparr>ib_thread := T_Qualifying\<rparr> = ib_live" by (simp add: ib_live_def ib_init_def)
  ultimately show ?thesis by (simp only: converse_rtranclp_into_rtranclp rtranclp.rtrancl_refl)
qed

section \<open>Properties\<close>

text \<open>C36: under every interleaving of the two threads, and whatever \<^verbatim>\<open>qualifyContracts\<close> returns,
  the constructor returns only once the connection is up and raises only \<^verbatim>\<open>RuntimeError\<close> or
  the connection's own error; the background thread asks for market data only after it was
  requested, and only for the first contract that qualifying the one given to \<^verbatim>\<open>subscribe\<close>
  returned (for that contract itself, where qualifying returns only what it was given); and
  every tick goes to the callback given to \<^verbatim>\<open>subscribe\<close>, none before the subscription was
  announced.\<close>

theorem ib_client_handshake:
  assumes "ib_run qualify contract on_tick ib_init s"
  shows "(ib_main s \<in> {M_Ready, M_Contract_Set, M_Callback_Set, M_Subscribing, M_Subscribed} \<longrightarrow>
       ib_connected s \<and> ib_connect_error s = None) \<and>
    (ib_main s = M_Raised e \<longrightarrow> e = RuntimeError \<or> ib_connect_error s = Some e) \<and>
    (ib_thread s \<in> {T_Requested, T_Attached, T_Running, T_Stopped} \<longrightarrow>
       ib_subscribe_requested s \<and>
       (\<exists>q qs. qualify (Some contract) (q # qs) \<and> ib_market_data s = Some q) \<and>
       ((\<forall>qs. qualify (Some contract) qs \<longrightarrow> set qs \<subseteq> {contract}) \<longrightarrow> ib_market_data s = Some contract)) \<and>
    (\<forall>(k, price)\<in>set (ib_ticks s). k = Some on_tick) \<and>
    (\<not> ib_subscribed s \<longrightarrow> ib_ticks s = [])"
proof -
  have c: "control_inv qualify contract on_tick s" and t: "ticks_inv on_tick s"
    using handshake_run [OF assms handshake_init] by (simp_all add: handshake_inv_def)
  have conn: "constructed (ib_main s) \<longrightarrow> ib_connected s \<and> ib_connect_error s = None"
    and raised: "case ib_main s of M_Raised e \<Rightarrow> e = RuntimeError \<or> ib_connect_error s = Some e | _ \<Rightarrow> True"
    and req: "past_wake (ib_thread s) \<longrightarrow> ib_subscribe_requested s"
    and data: "ib_thread s \<in> {T_Requested, T_Attached, T_Running, T_Stopped} \<longrightarrow>
      (\<exists>q qs. qualify (Some contract) (q # qs) \<and> ib_market_data s = Some q)"
    using c by (simp_all add: control_inv_def past_connect_def asked_for_def)
  show ?thesis
  proof (intro conjI impI)
    assume "ib_main s \<in> {M_Ready, M_Contract_Set, M_Callback_Set, M_Subscribing, M_Subscribed}"
    with conn show "ib_connected s" "ib_connect_error s = None" unfolding constructed_def by blast+
  next
    assume "ib_main s = M_Raised e"
    with raised show "e = RuntimeError \<or> ib_connect_error s = Some e" by simp
  next
    assume p: "ib_thread s \<in> {T_Requested, T_Attached, T_Running, T_Stopped}"
    with data show q: "\<exists>q qs. qualify (Some contract) (q # qs) \<and> ib_market_data s = Some q" by blast
    from p req show "ib_subscribe_requested s" by (auto simp: past_wake_def past_connect_def)
    assume "\<forall>qs. qualify (Some contract) qs \<longrightarrow> set qs \<subseteq> {contract}"
    with q show "ib_market_data s = Some contract" by fastforce
  next
    from t show "\<forall>(k, price)\<in>set (ib_ticks s). k = Some on_tick" by (fastforce simp: ticks_inv_def)
  next
    assume "\<not> ib_subscribed s"
    with t show "ib_ticks s = []" by (simp add: ticks_inv_def)
  qed
qed

definition ib_ticking :: "(string, nat) IBAsyncClient" where
  "ib_ticking = ib_live\<lparr>ib_market_data := Some ''ES'', ib_handler := Some 7, ib_subscribed := True,
     ib_thread := T_Running, ib_ticks := [(Some 7, Fin 5000)]\<rparr>"

lemma ib_ticking_run: "ib_run same_contract ''ES'' 7 ib_init ib_ticking"
proof -
  let ?s1 = "ib_live\<lparr>ib_market_data := Some ''ES'', ib_thread := T_Requested\<rparr>"
  let ?s2 = "?s1\<lparr>ib_handler := Some 7, ib_thread := T_Attached\<rparr>"
  let ?s3 = "?s2\<lparr>ib_subscribed := True, ib_thread := T_Running\<rparr>"
  have "ib_step same_contract ''ES'' 7 ib_live ?s1" unfolding ib_step_def
    by (rule disjI1, rule qualify_ok [where qs = "[]"]) (simp_all add: ib_live_def same_contract_def)
  moreover have "ib_step same_contract ''ES'' 7 ?s1 ?s2"
    using attach [of ?s1 same_contract] by (simp add: ib_step_def ib_live_def)
  moreover have "ib_step same_contract ''ES'' 7 ?s2 ?s3" unfolding ib_step_def
    by (rule disjI1, rule announce) simp
  moreover have "ib_ticking = on_update demo_ticker ?s3"
    by (simp add: ib_ticking_def ib_live_def ib_init_def on_update_def best_price_def demo_ticker_def)
  then have "ib_step same_contract ''ES'' 7 ?s3 ib_ticking"
    using update [of ?s3 same_contract demo_ticker] by (simp add: ib_step_def)
  ultimately show ?thesis
    using ib_live_run by (meson rtranclp.rtrancl_into_rtrancl)
qed

theorem ib_client_handshake_witness:
  "ib_connected ib_ticking \<and> ib_connect_error ib_ticking = None \<and> ib_subscribe_requested ib_ticking \<and>
   ib_market_data ib_ticking = Some ''ES'' \<and> ib_ticks ib_ticking = [(Some 7, Fin 5000)]"
proof -
  have "set qs \<subseteq> {''ES''}" if "same_contract (Some ''ES'') qs" for qs
    using that by (simp add: same_contract_def)
  with ib_client_handshake [OF ib_ticking_run] show ?thesis
    by (simp add: ib_ticking_def ib_live_def)
qed

text \<open>A subscription that fails is silent: once the background thread has died qualifying the
  contract, \<^verbatim>\<open>subscribe\<close> times out and returns as if it had succeeded, the caller never
  raises, and no tick is ever delivered.\<close>

lemma ib_subscribe_failure_is_silent:
  assumes "ib_run qualify contract on_tick ib_init s" "ib_thread s = T_Raised e"
  shows "(ib_main s = M_Subscribing \<longrightarrow> main_step contract on_tick s (s\<lparr>ib_main := M_Subscribed\<rparr>)) \<and>
    (ib_run qualify contract on_tick s s' \<longrightarrow>
       ib_ticks s' = [] \<and> (\<forall>e'. ib_main s' \<noteq> M_Raised e'))"
proof -
  note i = handshake_run [OF assms(1) handshake_init]
  have sub: "\<not> ib_subscribed s" "ib_ticks s = []" "ib_main s \<in> {M_Subscribing, M_Subscribed}"
    using i assms(2) by (auto simp: handshake_inv_def control_inv_def ticks_inv_def past_wake_def
      past_connect_def requested_def)
  have "ib_ticks s' = [] \<and> (\<forall>e'. ib_main s' \<noteq> M_Raised e')" if r: "ib_run qualify contract on_tick s s'"
  proof -
    from dead_run [OF r assms(2)] sub have d: "ib_thread s' = T_Raised e" "ib_ticks s' = []" by auto
    have "handshake_inv qualify contract on_tick s'" by (rule handshake_run [OF r i])
    with d(1) have "ib_main s' \<in> {M_Subscribing, M_Subscribed}"
      by (simp add: handshake_inv_def control_inv_def past_wake_def past_connect_def requested_def)
    with d(2) show ?thesis by auto
  qed
  with sub(1) show ?thesis by (blast intro: subscribe_timeout)
qed

lemma ib_subscribe_failure_is_silent_witness:
  "\<exists>s. ib_run same_contract ''ES'' (7 :: nat) ib_init s \<and> ib_thread s = T_Raised IndexError \<and>
    main_step ''ES'' 7 s (s\<lparr>ib_main := M_Subscribed\<rparr>)"
proof (intro exI conjI)
  let ?s = "ib_live\<lparr>ib_thread := T_Raised IndexError\<rparr>"
  have "ib_step same_contract ''ES'' 7 ib_live ?s" unfolding ib_step_def
    by (rule disjI1, rule qualify_fail) (simp add: ib_live_def)
  with ib_live_run show r: "ib_run same_contract ''ES'' (7 :: nat) ib_init ?s" by (rule rtranclp.rtrancl_into_rtrancl)
  show t: "ib_thread ?s = T_Raised IndexError" by simp
  from ib_subscribe_failure_is_silent [OF r t, of ?s]
  show "main_step ''ES'' 7 ?s (?s\<lparr>ib_main := M_Subscribed\<rparr>)" by (simp add: ib_live_def)
qed

end
