(* ===== verification/Drivers.thy ===== *)
theory Drivers
  imports Reports LiveClient
begin

text \<open>
  The entry points that join the components: \<^verbatim>\<open>run_session\<close> of
  \<^verbatim>\<open>strategy/run_synthetic_session.py\<close>, \<^verbatim>\<open>run_backtest\<close> of
  \<^verbatim>\<open>run_historical_backtest.py\<close> and \<^verbatim>\<open>run_live_session\<close> of \<^verbatim>\<open>run_live_session.py\<close>.
  A connection attempt is an argument: the exception it raises or the connected client with
  its script of arrivals.  \<^verbatim>\<open>random.Random(seed)\<close>, the clock, the cache's text form of
  floats, the downloader and \<^verbatim>\<open>n ** 0.5\<close> are parameters as in the theories below.  The
  \<^verbatim>\<open>main\<close>s take the parsed arguments (\<open>CommandLine\<close> has the parsers) and give the figures they
  print, unformatted, and the files they write.
\<close>

section \<open>Sessions\<close>

text \<open>The defaults of \<^verbatim>\<open>run_strategy_loop\<close>: 0.05 and 0.2 as binary64.\<close>

definition default_tick_poll_timeout :: pyfloat where
  "default_tick_poll_timeout = to_float False (1 / 20)"

definition default_final_drain_timeout :: pyfloat where
  "default_final_drain_timeout = to_float False (1 / 5)"

definition quoter_session ::
  "'f \<Rightarrow> int \<Rightarrow> int \<Rightarrow> OrderBookClient \<Rightarrow> (nat \<Rightarrow> pyfloat) \<Rightarrow> ('f, FixedOffsetQuoter) Session" where
  "quoter_session feed offset_ticks sz client clock =
     \<lparr>se_feed = feed, se_strategy = quoter_init offset_ticks sz, se_client = client,
      se_log = tradelog_init clock\<rparr>"

fun count_events :: "string \<Rightarrow> Row list \<Rightarrow> nat res" where
  "count_events k [] = Inr 0"
| "count_events k (r # rows) =
     res_bind (row_get r ''event'') (\<lambda>v.
     res_bind (count_events k rows) (\<lambda>n. Inr (if v = CStr k then n + 1 else n)))"

section \<open>\<^verbatim>\<open>run_synthetic_session.py\<close>\<close>

definition run_session ::
  "(int \<Rightarrow> nat \<Rightarrow> nat) \<Rightarrow> (nat \<Rightarrow> pyfloat) \<Rightarrow> OrderBookClient res \<Rightarrow> nat \<Rightarrow> int \<Rightarrow> int \<Rightarrow>
   (TradeLog res \<times> (SyntheticPriceFeed, FixedOffsetQuoter) Session option) option" where
  "run_session rng clock connect fuel ticks seed =
     (let feed = synthetic_init 10000 (rng seed) in
      case connect of
        Inl e \<Rightarrow> Some (Inl e, None)
      | Inr client \<Rightarrow>
          (case run_strategy_loop synthetic_next_price quoter_step quoter_on_fill fuel (Some ticks)
                  default_tick_poll_timeout default_final_drain_timeout
                  (quoter_session feed 1 10 client clock) of
             None \<Rightarrow> None
           | Some (Inl e, s) \<Rightarrow> Some (Inl e, Some s)
           | Some (Inr _, s) \<Rightarrow> Some (Inr (se_log s), Some s)))"

section \<open>\<^verbatim>\<open>run_historical_backtest.py\<close>\<close>

definition periods_per_year :: "string \<Rightarrow> int" where
  "periods_per_year interval =
     (case map_of [(''1d'', 252), (''1h'', 252 * 7)] interval of None \<Rightarrow> 252 | Some n \<Rightarrow> n)"

definition run_backtest ::
  "(pyfloat \<Rightarrow> string) \<Rightarrow> (string \<Rightarrow> pyfloat res) \<Rightarrow> Downloader \<Rightarrow> (int \<Rightarrow> pyfloat res) \<Rightarrow>
   (nat \<Rightarrow> pyfloat) \<Rightarrow> OrderBookClient res \<Rightarrow> nat \<Rightarrow>
   string \<Rightarrow> string \<Rightarrow> string \<Rightarrow> string \<Rightarrow> string \<Rightarrow> file_system \<Rightarrow>
   ((TradeLog \<times> BacktestReport) res \<times> file_system \<times>
    (HistoricalPriceFeed, FixedOffsetQuoter) Session option) option" where
  "run_backtest repr float_of_str downloader power_half clock connect fuel
     ticker start end_d interval cache_dir fs =
     (case load_or_download repr float_of_str ticker start end_d interval cache_dir downloader fs of
        (Inl e, fs') \<Rightarrow> Some (Inl e, fs', None)
      | (Inr prices, fs') \<Rightarrow>
          (case connect of
             Inl e \<Rightarrow> Some (Inl e, fs', None)
           | Inr client \<Rightarrow>
               (case run_strategy_loop historical_next_price quoter_step quoter_on_fill fuel None
                       default_tick_poll_timeout default_final_drain_timeout
                       (quoter_session (historical_init prices) 1 10 client clock) of
                  None \<Rightarrow> None
                | Some (Inl e, s) \<Rightarrow> Some (Inl e, fs', Some s)
                | Some (Inr _, s) \<Rightarrow>
                    Some (res_bind (build_report (log_rows (se_log s)) (power_half (periods_per_year interval)))
                            (\<lambda>report. Inr (se_log s, report)), fs', Some s))))"

section \<open>\<^verbatim>\<open>run_live_session.py\<close>\<close>

text \<open>
  \<open>ib\<close> is what \<^verbatim>\<open>IBAsyncClient(...)\<close> gives, \<open>now\<close> the clock when the feed is made, \<open>env\<close> what
  the callback queues for each later call.  Only the loop is inside the \<^verbatim>\<open>try\<close>.
\<close>

definition run_live_session ::
  "('c, 'k) IBAsyncClient res \<Rightarrow> pyfloat \<Rightarrow> live_env \<Rightarrow> (nat \<Rightarrow> pyfloat) \<Rightarrow>
   OrderBookClient res \<Rightarrow> nat \<Rightarrow> pyfloat \<Rightarrow>
   (TradeLog res \<times> ('c, 'k) IBAsyncClient option \<times> (LiveIBKRFeed, FixedOffsetQuoter) Session option) option" where
  "run_live_session ib now env clock connect fuel duration_seconds =
     (case ib of
        Inl e \<Rightarrow> Some (Inl e, None, None)
      | Inr ib_client \<Rightarrow>
          (let feed = live_init now duration_seconds env in
           case connect of
             Inl e \<Rightarrow> Some (Inl e, Some ib_client, None)
           | Inr client \<Rightarrow>
               (case run_strategy_loop live_next_price quoter_step quoter_on_fill fuel None
                       default_tick_poll_timeout default_final_drain_timeout
                       (quoter_session feed 1 10 client clock) of
                  None \<Rightarrow> None
                | Some (Inl e, s) \<Rightarrow> Some (Inl e, Some (ib_disconnect ib_client), Some s)
                | Some (Inr _, s) \<Rightarrow> Some (Inr (se_log s), Some (ib_disconnect ib_client), Some s))))"

section \<open>The \<^verbatim>\<open>main\<close>s\<close>

text \<open>The counts printed at the end, and the CSV file when a path was given.\<close>

definition print_session ::
  "(pyfloat \<Rightarrow> string) \<Rightarrow> TradeLog \<Rightarrow> string \<Rightarrow> file_system \<Rightarrow> (nat \<times> nat \<times> nat) res \<times> file_system" where
  "print_session repr tlog csv fs =
     (let rows = log_rows tlog in
      case res_bind (count_events ''order_sent'' rows) (\<lambda>orders_sent.
           res_bind (count_events ''fill'' rows) (\<lambda>fills. Inr (orders_sent, fills, length rows))) of
        Inl e \<Rightarrow> (Inl e, fs)
      | Inr figures \<Rightarrow>
          if csv = [] then (Inr figures, fs)
          else (case to_csv repr tlog of
              Inl e \<Rightarrow> (Inl e, fs)
            | Inr file \<Rightarrow> (Inr figures, fs(csv \<mapsto> file))))"

definition main_synthetic ::
  "(int \<Rightarrow> nat \<Rightarrow> nat) \<Rightarrow> (nat \<Rightarrow> pyfloat) \<Rightarrow> OrderBookClient res \<Rightarrow> nat \<Rightarrow> (pyfloat \<Rightarrow> string) \<Rightarrow>
   int \<Rightarrow> int \<Rightarrow> string \<Rightarrow> file_system \<Rightarrow> ((nat \<times> nat \<times> nat) res \<times> file_system) option" where
  "main_synthetic rng clock connect fuel repr ticks seed csv fs =
     (case run_session rng clock connect fuel ticks seed of
        None \<Rightarrow> None
      | Some (Inl e, _) \<Rightarrow> Some (Inl e, fs)
      | Some (Inr tlog, _) \<Rightarrow> Some (print_session repr tlog csv fs))"

definition main_live ::
  "('c, 'k) IBAsyncClient res \<Rightarrow> pyfloat \<Rightarrow> live_env \<Rightarrow> (nat \<Rightarrow> pyfloat) \<Rightarrow>
   OrderBookClient res \<Rightarrow> nat \<Rightarrow> (pyfloat \<Rightarrow> string) \<Rightarrow> pyfloat \<Rightarrow> string \<Rightarrow> file_system \<Rightarrow>
   ((nat \<times> nat \<times> nat) res \<times> file_system) option" where
  "main_live ib now env clock connect fuel repr duration csv fs =
     (case run_live_session ib now env clock connect fuel duration of
        None \<Rightarrow> None
      | Some (Inl e, _) \<Rightarrow> Some (Inl e, fs)
      | Some (Inr tlog, _) \<Rightarrow> Some (print_session repr tlog csv fs))"

text \<open>ES is worth 50 dollars a point: \<^verbatim>\<open>ticks_to_price(1) * 50\<close> dollars a tick.\<close>

definition drawdown_dollars :: "BacktestReport \<Rightarrow> pyfloat res" where
  "drawdown_dollars report =
     res_bind (ticks_to_price 1) (\<lambda>tick.
     res_bind (fmul_int tick 50) (\<lambda>dollars_per_tick.
     fmul_int dollars_per_tick (br_max_drawdown_ticks report)))"

text \<open>The figures are the counts, the report and the drawdown in dollars.\<close>

definition print_backtest ::
  "(pyfloat \<Rightarrow> string) \<Rightarrow> TradeLog \<Rightarrow> BacktestReport \<Rightarrow> string \<Rightarrow> file_system \<Rightarrow>
   (nat \<times> nat \<times> BacktestReport \<times> pyfloat) res \<times> file_system" where
  "print_backtest repr tlog report csv fs =
     (let rows = log_rows tlog in
      case res_bind (count_events ''order_sent'' rows) (\<lambda>orders_sent.
           res_bind (count_events ''fill'' rows) (\<lambda>fills.
           res_bind (drawdown_dollars report) (\<lambda>dollars. Inr (orders_sent, fills, report, dollars)))) of
        Inl e \<Rightarrow> (Inl e, fs)
      | Inr figures \<Rightarrow>
          if csv = [] then (Inr figures, fs)
          else (case to_csv repr tlog of
              Inl e \<Rightarrow> (Inl e, fs)
            | Inr file \<Rightarrow> (Inr figures, fs(csv \<mapsto> file))))"

definition main_backtest ::
  "(pyfloat \<Rightarrow> string) \<Rightarrow> (string \<Rightarrow> pyfloat res) \<Rightarrow> Downloader \<Rightarrow> (int \<Rightarrow> pyfloat res) \<Rightarrow>
   (nat \<Rightarrow> pyfloat) \<Rightarrow> OrderBookClient res \<Rightarrow> nat \<Rightarrow>
   string \<Rightarrow> string \<Rightarrow> string \<Rightarrow> string \<Rightarrow> string \<Rightarrow> string \<Rightarrow> file_system \<Rightarrow>
   ((nat \<times> nat \<times> BacktestReport \<times> pyfloat) res \<times> file_system) option" where
  "main_backtest repr float_of_str downloader power_half clock connect fuel
     ticker start end_d interval cache_dir csv fs =
     (case run_backtest repr float_of_str downloader power_half clock connect fuel
             ticker start end_d interval cache_dir fs of
        None \<Rightarrow> None
      | Some (Inl e, fs', _) \<Rightarrow> Some (Inl e, fs')
      | Some (Inr (tlog, report), fs', _) \<Rightarrow> Some (print_backtest repr tlog report csv fs'))"

section \<open>Lemmas\<close>

lemma to_float_nonneg: "0 \<le> x \<Longrightarrow> \<not> fless (to_float False x) (Fin 0)"
  using rnd_nonneg [of x] by (auto simp: to_float_def Let_def zero_of_def inf_of_def fless_def)

lemma timeouts_ok [simp]:
  "\<not> fless default_tick_poll_timeout (Fin 0)" "\<not> fless default_final_drain_timeout (Fin 0)"
  by (simp_all add: default_tick_poll_timeout_def default_final_drain_timeout_def to_float_nonneg)

lemma quoter_session_simps [simp]:
  "se_feed (quoter_session feed off sz c clock) = feed"
  "se_strategy (quoter_session feed off sz c clock) = quoter_init off sz"
  "se_client (quoter_session feed off sz c clock) = c"
  "log_rows (se_log (quoter_session feed off sz c clock)) = []"
  by (simp_all add: quoter_session_def log_rows_def tradelog_init_def)

lemma client_init_ready [simp]: "client_ready (client_init [] arrivals)"
  by (simp add: client_ready_def client_init_def)

lemma client_init_pending [simp]: "pending_events (client_init sends arrivals) = concat arrivals"
  by (simp add: pending_events_def client_init_def)

subsection \<open>What a quoter sends\<close>

text \<open>Every order quotes at the offset from a price it was shown, at its full size.\<close>

definition quote_of :: "int \<Rightarrow> int \<Rightarrow> int list \<Rightarrow> StrategyAction \<Rightarrow> bool" where
  "quote_of off sz prices a = (case a of
     Order_Action r \<Rightarrow> or_order_type r = LIMIT \<and> or_quantity r = sz \<and>
       (\<exists>p\<in>set prices. or_price_ticks r = (if or_side r = BUY then p - off else p + off))
   | Cancel_Action c \<Rightarrow> True)"

lemma quoter_price_quotes:
  "quoter_on_price q p = (acts, q') \<Longrightarrow> a \<in> set acts \<Longrightarrow> quote_of (fq_offset q) (fq_size q) [p] a"
  unfolding quoter_on_price_eq Let_def by (auto simp: quote_of_def split: if_splits)

lemma quote_of_mono: "quote_of off sz ps a \<Longrightarrow> set ps \<subseteq> set qs \<Longrightarrow> quote_of off sz qs a"
  by (auto simp: quote_of_def split: StrategyAction.splits)

lemma quoter_run_quotes:
  "quoter_run q xs = Inr (acts, q') \<Longrightarrow> a \<in> set acts \<Longrightarrow>
   quote_of (fq_offset q) (fq_size q) (stim_prices xs) a"
proof (induction xs arbitrary: q acts)
  case (Cons x xs)
  show ?case
  proof (cases x)
    case (Price p)
    obtain b t where b: "quoter_on_price q p = (b, t)" by (cases "quoter_on_price q p")
    with Cons.prems Price obtain c where c: "quoter_run t xs = Inr (c, q')" "acts = b @ c"
      by (auto simp: quoter_step_def [of q p] split: prod.splits)
    have k: "fq_offset t = fq_offset q" "fq_size t = fq_size q"
      using quoter_offset [OF b] quoter_size_kept [OF b] by auto
    from Cons.prems(2) c(2) consider "a \<in> set b" | "a \<in> set c" by auto
    then show ?thesis
    proof cases
      case 1
      from quote_of_mono [OF quoter_price_quotes [OF b 1]] Price show ?thesis by simp
    next
      case 2
      from quote_of_mono [OF Cons.IH [OF c(1) 2], of "p # stim_prices xs"] Price k show ?thesis
        by (simp add: subset_insertI)
    qed
  next
    case (Fill_In f)
    with Cons.prems have "quoter_run (quoter_on_fill q f) xs = Inr (acts, q')" by simp
    from Cons.IH [OF this Cons.prems(2)] Fill_In show ?thesis
      by (auto simp: quoter_on_fill_def split: if_splits)
  qed
qed simp

lemma feed_prices_synthetic:
  "feed_prices synthetic_next_price f ps g \<Longrightarrow> ps = synthetic_prices (length ps) f"
proof (induction ps arbitrary: f)
  case (Cons p ps)
  then show ?case by (auto simp: synthetic_next_price_def Let_def)
qed simp

lemma synthetic_stim_bound:
  assumes "\<And>k. sf_rng f k < 5" "feed_prices synthetic_next_price f ps g" "p \<in> set ps"
  shows "\<bar>p - sf_price f\<bar> \<le> 2 * int (length ps)"
proof -
  from assms(3) obtain i where i: "i < length ps" "p = ps ! i" by (auto simp: in_set_conv_nth)
  with feed_prices_synthetic [OF assms(2)] synthetic_prices_bounds [of f i "length ps"] assms(1)
  show ?thesis by fastforce
qed

subsection \<open>Counting the log\<close>

lemma count_events_ok:
  "\<forall>r\<in>set rows. map_of r ''event'' \<noteq> None \<Longrightarrow>
   count_events k rows = Inr (length (filter (\<lambda>r. map_of r ''event'' = Some (CStr k)) rows))"
  by (induction rows) (auto simp: row_get_def)

lemma action_event_rows_have_event [simp]:
  "map_of (action_row a) ''event'' \<noteq> None" "map_of (event_row e) ''event'' \<noteq> None"
  by (cases a; simp add: row_defs) (cases e; simp add: row_defs)

lemma audit_rows_have_event:
  assumes "audit s0 acts evs s" "log_rows (se_log s0) = []" "r \<in> set (log_rows (se_log s))"
  shows "map_of r ''event'' \<noteq> None"
proof -
  from assms(1,2) have f:
    "map strip_ts (filter is_send_row (log_rows (se_log s))) = map action_row acts"
    "map strip_ts (filter (\<lambda>r. \<not> is_send_row r) (log_rows (se_log s))) = map event_row evs"
    by (auto simp: audit_def)
  have "strip_ts r \<in> set (map action_row acts) \<union> set (map event_row evs)"
    using assms(3) by (cases "is_send_row r") (simp_all flip: f)
  then consider a where "strip_ts r = action_row a" | e where "strip_ts r = event_row e" by auto
  then have "map_of (strip_ts r) ''event'' \<noteq> None"
    by cases (use action_event_rows_have_event in metis)+
  then show ?thesis by simp
qed

lemma filter_event_split:
  "length (filter (\<lambda>r. map_of r ''event'' = Some (CStr k)) rows) =
   length (filter (\<lambda>r. map_of r ''event'' = Some (CStr k)) (map strip_ts (filter is_send_row rows))) +
   length (filter (\<lambda>r. map_of r ''event'' = Some (CStr k)) (map strip_ts (filter (\<lambda>r. \<not> is_send_row r) rows)))"
  by (induction rows) auto

lemma action_rows_count:
  "length (filter (\<lambda>r. map_of r ''event'' = Some (CStr ''order_sent'')) (map action_row acts)) = length (order_ids acts)"
  "length (filter (\<lambda>r. map_of r ''event'' = Some (CStr ''fill'')) (map action_row acts)) = 0"
  by (induction acts rule: order_ids.induct) (auto simp: row_defs)

lemma event_rows_count:
  "length (filter (\<lambda>r. map_of r ''event'' = Some (CStr ''fill'')) (map event_row evs)) = length (fills_of evs)"
  "length (filter (\<lambda>r. map_of r ''event'' = Some (CStr ''order_sent'')) (map event_row evs)) = 0"
  by (induction evs rule: fills_of.induct) (auto simp: row_defs)

lemma audit_counts:
  assumes "audit s0 acts evs s" "log_rows (se_log s0) = []"
  shows "count_events ''order_sent'' (log_rows (se_log s)) = Inr (length (order_ids acts))"
    "count_events ''fill'' (log_rows (se_log s)) = Inr (length (fills_of evs))"
proof -
  from assms have f:
    "map strip_ts (filter is_send_row (log_rows (se_log s))) = map action_row acts"
    "map strip_ts (filter (\<lambda>r. \<not> is_send_row r) (log_rows (se_log s))) = map event_row evs"
    by (auto simp: audit_def)
  have c: "count_events k (log_rows (se_log s)) =
      Inr (length (filter (\<lambda>r. map_of r ''event'' = Some (CStr k)) (map action_row acts)) +
           length (filter (\<lambda>r. map_of r ''event'' = Some (CStr k)) (map event_row evs)))" for k
    using count_events_ok [of "log_rows (se_log s)" k] audit_rows_have_event [OF assms]
    by (simp only: filter_event_split [of k "log_rows (se_log s)"] f) blast
  show "count_events ''order_sent'' (log_rows (se_log s)) = Inr (length (order_ids acts))"
    "count_events ''fill'' (log_rows (se_log s)) = Inr (length (fills_of evs))"
    unfolding c by (simp_all only: action_rows_count event_rows_count add_0_left add_0_right)
qed


subsection \<open>What is printed\<close>

lemma print_session_audit:
  assumes "audit s0 acts evs s" "log_rows (se_log s0) = []"
  shows "\<exists>file. to_csv repr (se_log s) = Inr file \<and> print_session repr (se_log s) csv fs =
    (Inr (length (order_ids acts), length (fills_of evs), length (log_rows (se_log s))),
     if csv = [] then fs else fs(csv \<mapsto> file))"
  using audit_counts [OF assms] to_csv_records [of repr "se_log s"] by (simp add: print_session_def Let_def)

lemma drawdown_dollars_exact:
  assumes "\<bar>br_max_drawdown_ticks report\<bar> \<le> 2 ^ 47"
  shows "\<exists>d. drawdown_dollars report = Inr d \<and> is_finite d \<and>
    fval d = 25 / 2 * of_int (br_max_drawdown_ticks report)"
proof -
  let ?n = "br_max_drawdown_ticks report"
  have 1: "ticks_to_price 1 = Inr (Fin (1 / 4))" using ticks_to_price_exact [of 1] by simp
  have "to_float False (25 / 2) = Fin (25 / 2)"
    using to_float_exact [OF exact_quarter [of 50]] by simp
  then have 2: "fmul_int (Fin (1 / 4)) 50 = Inr (Fin (25 / 2))"
    using int_to_float_exact [of 50] by (simp add: fmul_int_def fmul_def)
  have "\<bar>50 * ?n\<bar> \<le> 2 ^ 53" using assms by simp
  from exact_quarter [OF this] have e: "exact (25 / 2 * of_int ?n)" by simp
  have "int_to_float ?n = Inr (Fin (of_int ?n))" using assms by (intro int_to_float_exact) simp
  moreover have "is_finite (fmul (Fin (25 / 2)) (Fin (of_int ?n))) \<and>
      fval (fmul (Fin (25 / 2)) (Fin (of_int ?n))) = fval (Fin (25 / 2)) * fval (Fin (of_int ?n))"
    by (rule fmul_exact) (use e in simp_all)
  ultimately show ?thesis using 1 2 by (simp add: drawdown_dollars_def fmul_int_def)
qed

lemma print_backtest_audit:
  assumes "audit s0 acts evs s" "log_rows (se_log s0) = []" "\<bar>br_max_drawdown_ticks report\<bar> \<le> 2 ^ 47"
  shows "\<exists>file d. to_csv repr (se_log s) = Inr file \<and>
    print_backtest repr (se_log s) report csv fs =
      (Inr (length (order_ids acts), length (fills_of evs), report, d),
       if csv = [] then fs else fs(csv \<mapsto> file)) \<and>
    is_finite d \<and> fval d = 25 / 2 * of_int (br_max_drawdown_ticks report)"
  using audit_counts [OF assms(1,2)] to_csv_records [of repr "se_log s"] drawdown_dollars_exact [OF assms(3)]
  by (auto simp: print_backtest_def Let_def)

section \<open>Properties\<close>

lemma synthetic_loop_runs:
  assumes "\<And>k. rng seed k < 5" "0 \<le> ticks" "ticks < 2 ^ 61" "nat ticks < fuel"
  shows "\<exists>s. run_strategy_loop synthetic_next_price quoter_step quoter_on_fill fuel (Some ticks)
      default_tick_poll_timeout default_final_drain_timeout
      (quoter_session (synthetic_init 10000 (rng seed)) 1 10 (client_init [] arrivals) clock) = Some (Inr (nat ticks), s)"
proof -
  have t: "ticks = int (nat ticks)" using assms(2) by simp
  have "synthetic_good (quoter_init 1 10) (nat ticks) (synthetic_init 10000 (rng seed))"
    using assms by (auto simp: synthetic_good_def synthetic_init_def quotable_def quoter_init_def)
  moreover have "2 * nat ticks < 2 ^ 64" using assms(2,3) by (simp add: nat_less_iff)
  ultimately show ?thesis
    using assms(4) t synthetic_good_next
    by (intro quoter_session_ok [where good = "synthetic_good (quoter_init 1 10)"]) auto
qed

text \<open>C28: a synthetic session on a connection that stays up returns its log, with the connection
  closed, for any number of ticks below 2^61: the orders it logs have the ids 1, 2, 3, ...,
  every one of them is a limit order for 10 within one tick of the walk, so within
  2 * ticks + 1 of 10000; it logs no more fills than arrived; and \<^verbatim>\<open>main\<close> prints exactly the
  numbers of orders sent, of fills received and of rows, and writes the log's CSV when asked.\<close>

theorem synthetic_session_runs:
  assumes "\<And>k. rng seed k < 5" "0 \<le> ticks" "ticks < 2 ^ 61" "nat ticks < fuel"
  shows "\<exists>log s acts evs.
    run_session rng clock (Inr (client_init [] arrivals)) fuel ticks seed = Some (Inr log, Some s) \<and>
    log = se_log s \<and> \<not> cl_open (se_client s) \<and>
    audit (quoter_session (synthetic_init 10000 (rng seed)) 1 10 (client_init [] arrivals) clock) acts evs s \<and>
    logged_order_ids (log_rows log) = map (Some \<circ> CInt) [1..int (length (order_ids acts))] \<and>
    (\<forall>r. Order_Action r \<in> set acts \<longrightarrow> or_order_type r = LIMIT \<and> or_quantity r = 10 \<and>
       \<bar>or_price_ticks r - 10000\<bar> \<le> 2 * ticks + 1) \<and>
    length (fills_of evs) \<le> length (fills_of (concat arrivals)) \<and>
    (\<exists>file. to_csv repr log = Inr file \<and>
       main_synthetic rng clock (Inr (client_init [] arrivals)) fuel repr ticks seed csv fs =
         Some (Inr (length (order_ids acts), length (fills_of evs), length (log_rows log)),
           if csv = [] then fs else fs(csv \<mapsto> file)))"
proof -
  let ?feed = "synthetic_init 10000 (rng seed)"
  let ?s0 = "quoter_session ?feed 1 10 (client_init [] arrivals) clock"
  let ?loop = "run_strategy_loop synthetic_next_price quoter_step quoter_on_fill fuel (Some ticks)
      default_tick_poll_timeout default_final_drain_timeout ?s0"
  have t: "ticks = int (nat ticks)" using assms(2) by simp
  obtain s where s: "?loop = Some (Inr (nat ticks), s)"
    using synthetic_loop_runs [where rng = rng and seed = seed, OF assms] by blast
  from run_strategy_loop_cases [OF s] obtain acts evs xs f where
    closed: "\<not> cl_open (se_client s)" and a: "audit ?s0 acts evs s" and
    run: "quoter_run (quoter_init 1 10) xs = Inr (acts, se_strategy s)" and
    n: "nat ticks = length (stim_prices xs)" and ps: "feed_prices synthetic_next_price ?feed (stim_prices xs) f"
    by auto
  have ids: "order_ids acts = [1..fq_ids (se_strategy s) - 1]" "1 \<le> fq_ids (se_strategy s)"
    using quoter_source.run_ids [OF _ run] by (simp_all add: quoter_init_def quoter_inv_def)
  have len: "int (length (order_ids acts)) = fq_ids (se_strategy s) - 1" using ids by simp
  have quotes: "or_order_type r = LIMIT \<and> or_quantity r = 10 \<and> \<bar>or_price_ticks r - 10000\<bar> \<le> 2 * ticks + 1"
    if "Order_Action r \<in> set acts" for r
  proof -
    from quoter_run_quotes [OF run that] obtain p where r: "or_order_type r = LIMIT" "or_quantity r = 10"
      "p \<in> set (stim_prices xs)" "or_price_ticks r = (if or_side r = BUY then p - 1 else p + 1)"
      by (auto simp: quote_of_def quoter_init_def)
    have "\<bar>p - 10000\<bar> \<le> 2 * ticks"
      using synthetic_stim_bound [OF _ ps r(3)] assms(1) n t by (simp add: synthetic_init_def)
    with r show ?thesis by auto
  qed
  have "logged_order_ids (log_rows (se_log s)) = map (Some \<circ> CInt) [1..int (length (order_ids acts))]"
    unfolding len ids(1) [symmetric] by (rule audit_order_ids [OF a]) simp
  moreover have "concat arrivals = evs @ pending_events (se_client s)" using a by (auto simp: audit_def)
  then have "length (fills_of evs) \<le> length (fills_of (concat arrivals))" by simp
  moreover have "run_session rng clock (Inr (client_init [] arrivals)) fuel ticks seed = Some (Inr (se_log s), Some s)"
    using s by (simp add: run_session_def)
  moreover from print_session_audit [OF a, of repr csv fs] obtain txt_out where
    "to_csv repr (se_log s) = Inr txt_out" "print_session repr (se_log s) csv fs =
      (Inr (length (order_ids acts), length (fills_of evs), length (log_rows (se_log s))),
       if csv = [] then fs else fs(csv \<mapsto> txt_out))" by auto
  ultimately show ?thesis using closed a quotes
    by (intro exI [of _ "se_log s"] exI [of _ s] exI [of _ acts] exI [of _ evs])
      (simp add: main_synthetic_def)
qed

theorem synthetic_session_runs_witness:
  "\<exists>log s. run_session (\<lambda>seed k. (nat seed + k) mod 5) (\<lambda>k. Fin 0)
      (Inr (client_init [] [[Fill_Event demo_fill]])) 4 3 42 = Some (Inr log, Some s) \<and> \<not> cl_open (se_client s)"
  using synthetic_session_runs [of "\<lambda>seed k. (nat seed + k) mod 5" 42 3 4 "\<lambda>k. Fin 0"
    "[[Fill_Event demo_fill]]" demo_repr "[]" "\<lambda>_. None"] by auto

text \<open>A backtest whose closes load and whose quotes fit the wire, on a connection that stays up,
  ends with its log and a report (or a figure of the report overflows) and the connection
  closed; when average-cost accounting of the fills it received stays in integers in the
  exact range, the report's realized total is that accounting's.  \<^verbatim>\<open>main\<close> then prints the numbers
  of orders sent and of fills received, the report, and its drawdown at exactly 12.5 dollars a
  tick while it is at most 2^47 ticks, and writes the log's CSV when asked.\<close>

lemma backtest_reports_fills:
  assumes "load_or_download repr float_of_str ticker start end_d interval cache_dir downloader fs = (Inr prices, fs')"
    "\<forall>p\<in>set prices. \<bar>p\<bar> < 2 ^ 62" "2 * length prices < 2 ^ 64" "length prices < fuel"
    "power_half (periods_per_year interval) = Inr sqrt_periods"
    "\<forall>f\<in>set (fills_of (concat arrivals)). 0 < fe_quantity f \<and> \<bar>fe_price_ticks f\<bar> \<le> 2 ^ 63"
    "sum_list (map fe_quantity (fills_of (concat arrivals))) < 2 ^ 53"
  shows "\<exists>result s acts evs. run_backtest repr float_of_str downloader power_half clock
      (Inr (client_init [] arrivals)) fuel ticker start end_d interval cache_dir fs = Some (result, fs', Some s) \<and>
    \<not> cl_open (se_client s) \<and>
    audit (quoter_session (historical_init prices) 1 10 (client_init [] arrivals) clock) acts evs s \<and>
    (result = Inl OverflowError \<or> (\<exists>report. result = Inr (se_log s, report) \<and>
       build_report (log_rows (se_log s)) (Inr sqrt_periods) = Inr report \<and>
       (\<forall>net realized avg. exact_cost (fills_of evs) net realized avg \<longrightarrow>
          br_total_realized_pnl_ticks report = realized) \<and>
       (\<bar>br_max_drawdown_ticks report\<bar> \<le> 2 ^ 47 \<longrightarrow> (\<exists>file d. to_csv repr (se_log s) = Inr file \<and>
          main_backtest repr float_of_str downloader power_half clock (Inr (client_init [] arrivals)) fuel
            ticker start end_d interval cache_dir csv fs =
            Some (Inr (length (order_ids acts), length (fills_of evs), report, d),
              if csv = [] then fs' else fs'(csv \<mapsto> file)) \<and>
          is_finite d \<and> fval d = 25 / 2 * of_int (br_max_drawdown_ticks report)))))"
proof -
  let ?s0 = "quoter_session (historical_init prices) 1 10 (client_init [] arrivals) clock"
  let ?loop = "run_strategy_loop historical_next_price quoter_step quoter_on_fill fuel None
      default_tick_poll_timeout default_final_drain_timeout ?s0"
  have q: "\<forall>p\<in>set prices. quotable (quoter_init 1 10) p"
    using assms(2) by (force simp: quotable_def quoter_init_def)
  obtain s where s: "?loop = Some (Inr (length prices), s)"
    using historical_quoter_session_ok [OF _ timeouts_ok, of ?s0 prices 1 10 fuel] q assms(3,4) by auto
  from run_strategy_loop_cases [OF s] obtain acts evs where
    closed: "\<not> cl_open (se_client s)" and a: "audit ?s0 acts evs s" by auto
  have "concat arrivals = evs @ pending_events (se_client s)" using a by (auto simp: audit_def)
  then have f: "fills_of (concat arrivals) = fills_of evs @ fills_of (pending_events (se_client s))" by simp
  have pos: "\<forall>f\<in>set (fills_of evs). 0 < fe_quantity f \<and> \<bar>fe_price_ticks f\<bar> \<le> 2 ^ 63"
    using assms(6) unfolding f by auto
  have "0 \<le> sum_list (map fe_quantity (fills_of (pending_events (se_client s))))"
    using assms(6) unfolding f by (intro sum_list_nonneg) force
  then have "sum_list (map fe_quantity (fills_of evs)) < 2 ^ 53" using assms(7) unfolding f by simp
  note total = report_total [OF a _ pos this, of sqrt_periods, simplified]
  let ?r = "build_report (log_rows (se_log s)) (Inr sqrt_periods)"
  have run: "run_backtest repr float_of_str downloader power_half clock (Inr (client_init [] arrivals)) fuel
      ticker start end_d interval cache_dir fs =
    Some (res_bind ?r (\<lambda>report. Inr (se_log s, report)), fs', Some s)"
    using assms(1,5) s by (simp add: run_backtest_def)
  have "br_total_realized_pnl_ticks report = realized"
    if r: "?r = Inr report" and c: "exact_cost (fills_of evs) net realized avg" for report net realized avg
  proof -
    from report_accounts [OF a _ c] obtain replay pnls curve where
      "report_loop (log_rows (se_log s)) replay_init [] [0] = Inr (replay, pnls, curve)"
      "pr_realized_pnl_ticks replay = realized" by auto
    with r show ?thesis by (auto simp: build_report_def)
  qed
  note realized = this
  have printed: "\<exists>file d. to_csv repr (se_log s) = Inr file \<and>
      main_backtest repr float_of_str downloader power_half clock (Inr (client_init [] arrivals)) fuel
        ticker start end_d interval cache_dir csv fs =
        Some (Inr (length (order_ids acts), length (fills_of evs), report, d),
          if csv = [] then fs' else fs'(csv \<mapsto> file)) \<and>
      is_finite d \<and> fval d = 25 / 2 * of_int (br_max_drawdown_ticks report)"
    if "?r = Inr report" "\<bar>br_max_drawdown_ticks report\<bar> \<le> 2 ^ 47" for report
    using print_backtest_audit [OF a _ that(2), of repr csv fs'] that(1) run
    by (auto simp: main_backtest_def)
  let ?res = "res_bind ?r (\<lambda>report. Inr (se_log s, report))"
  show ?thesis
  proof (rule exI [of _ ?res], rule exI [of _ s], rule exI [of _ acts], rule exI [of _ evs], intro conjI)
    show "?res = Inl OverflowError \<or> (\<exists>report. ?res = Inr (se_log s, report) \<and> ?r = Inr report \<and>
       (\<forall>net realized avg. exact_cost (fills_of evs) net realized avg \<longrightarrow>
          br_total_realized_pnl_ticks report = realized) \<and>
       (\<bar>br_max_drawdown_ticks report\<bar> \<le> 2 ^ 47 \<longrightarrow> (\<exists>file d. to_csv repr (se_log s) = Inr file \<and>
          main_backtest repr float_of_str downloader power_half clock (Inr (client_init [] arrivals)) fuel
            ticker start end_d interval cache_dir csv fs =
            Some (Inr (length (order_ids acts), length (fills_of evs), report, d),
              if csv = [] then fs' else fs'(csv \<mapsto> file)) \<and>
          is_finite d \<and> fval d = 25 / 2 * of_int (br_max_drawdown_ticks report))))"
    proof (cases ?r)
      case (Inl e)
      with total show ?thesis by simp
    next
      case (Inr report)
      with realized [OF Inr] printed [OF Inr] show ?thesis by (simp only: res_bind_simps) blast
    qed
  qed (fact run closed a)+
qed

lemma backtest_reports_fills_witness:
  "\<exists>result fs' s. run_backtest demo_repr demo_float (\<lambda>_ _ _ _. Inr [Fin 100, Fin 0]) (\<lambda>n. Inr (Fin 16))
      (\<lambda>k. Fin 0) (Inr (client_init [] [[Fill_Event demo_fill]])) 3 ''ES=F'' ''a'' ''b'' ''1d'' ''d'' (\<lambda>_. None) =
      Some (result, fs', Some s) \<and> \<not> cl_open (se_client s) \<and>
    (result = Inl OverflowError \<or> (\<exists>report. result = Inr (se_log s, report)))"
proof -
  obtain r fs' where l: "load_or_download demo_repr demo_float ''ES=F'' ''a'' ''b'' ''1d'' ''d''
       (\<lambda>_ _ _ _. Inr [Fin 100, Fin 0]) (\<lambda>_. None) = (r, fs')"
    by (cases "load_or_download demo_repr demo_float ''ES=F'' ''a'' ''b'' ''1d'' ''d''
       (\<lambda>_ _ _ _. Inr [Fin 100, Fin 0]) (\<lambda>_. None)")
  have "r = read_cache demo_float (write_cache demo_repr [Fin 100, Fin 0])"
    using l by (simp add: load_or_download_def Let_def)
  also have "\<dots> = map_res price_to_ticks [Fin 100, Fin 0]"
    by (rule read_write_cache) (auto simp: demo_repr_def demo_float_def)
  also have "\<dots> = Inr [400, 0]" by (simp add: demo_ticks)
  finally show ?thesis
    using backtest_reports_fills [of demo_repr demo_float "''ES=F''" "''a''" "''b''" "''1d''" "''d''"
      "\<lambda>_ _ _ _. Inr [Fin 100, Fin 0]" "\<lambda>_. None" "[400, 0]" fs' 3 "\<lambda>n. Inr (Fin 16)" "Fin 16"
      "[[Fill_Event demo_fill]]" "\<lambda>k. Fin 0" "[]"] l by (simp add: demo_fill_def) blast
qed

text \<open>A live session ends, whatever the ticks and the fills, when the clock of its k-th call has
  reached the deadline; once its loop has been entered the order connection is closed and the
  IBKR client disconnected, however the loop ends; but when the order server cannot be
  reached the IBKR client stays connected.\<close>

lemma live_session_disconnects:
  assumes "ib_made ib" "deadline_reached (live_init now duration_seconds env) k" "k < fuel"
  shows "(\<exists>result s. run_live_session (Inr ib) now env clock (Inr client) fuel duration_seconds =
        Some (result, Some (ib\<lparr>ib_disconnected := True\<rparr>), Some s) \<and> \<not> cl_open (se_client s) \<and>
      (\<exists>acts evs. audit (quoter_session (live_init now duration_seconds env) 1 10 client clock) acts evs s)) \<and>
    run_live_session (Inr ib) now env clock (Inl e) fuel duration_seconds = Some (Inl e, Some ib, None)"
proof -
  let ?s0 = "quoter_session (live_init now duration_seconds env) 1 10 client clock"
  let ?loop = "run_strategy_loop live_next_price quoter_step quoter_on_fill fuel None
      default_tick_poll_timeout default_final_drain_timeout ?s0"
  have d: "deadline_reached (se_feed ?s0) (lf_calls (se_feed ?s0) + k)"
    using assms(2) by (simp add: live_init_def)
  then have "live_ends (se_feed ?s0)" "live_remaining (se_feed ?s0) < fuel"
    using live_remaining_le [OF d] assms(3) by (auto simp: live_ends_def)
  then have "?loop \<noteq> None" by (rule live.session_ends)
  then obtain r s where s: "?loop = Some (r, s)" by auto
  from run_strategy_loop_cases [OF s] have "\<not> cl_open (se_client s)" "\<exists>acts evs. audit ?s0 acts evs s" by auto
  with s assms(1) show ?thesis
    by (cases r) (auto simp: run_live_session_def ib_disconnect_def Let_def)
qed

lemma live_session_disconnects_witness:
  "\<exists>result s. run_live_session (Inr ib_live) (Fin 0) demo_env (\<lambda>k. Fin 0)
      (Inr (client_init [] [])) 3 (Fin 1) = Some (result, Some (ib_live\<lparr>ib_disconnected := True\<rparr>), Some s)"
proof -
  have "ib_made ib_live" by (simp add: ib_live_def)
  from live_session_disconnects [OF this demo_deadline, of 3] show ?thesis by fastforce
qed

end
