(* ===== verification/Pricing.thy ===== *)
theory Pricing
  imports Client
begin

text \<open>
  The pricing connection.  \<^verbatim>\<open>strategy/orderbook_client/pricing_client.py\<close>: the request and
  response layouts and the synchronous client, over the socket model of \<open>Client\<close> (a script
  of arrivals and of send outcomes); here a closed connection raises instead of ending a
  thread.  \<^verbatim>\<open>risk/src/pricing_protocol.rs\<close>: the server's codec of the same messages, so that
  the two implementations can be proved to agree byte for byte.
\<close>

section \<open>Layouts\<close>

definition PRICE_REQUEST_TAG :: byte where
  "PRICE_REQUEST_TAG = 0x20"

definition PRICE_RESPONSE_TAG :: byte where
  "PRICE_RESPONSE_TAG = 0x21"

definition REQUEST_FMT :: "fmt list" where
  "REQUEST_FMT = [Fmtq, Fmtq, Fmtd, Fmtd, Fmtd, FmtB]"

definition RESPONSE_FMT :: "fmt list" where
  "RESPONSE_FMT = [Fmtd, Fmtd, Fmtd, Fmtd, Fmtd, Fmtd]"

definition REQUEST_SIZE :: nat where
  "REQUEST_SIZE = calcsize REQUEST_FMT"

definition RESPONSE_SIZE :: nat where
  "RESPONSE_SIZE = calcsize RESPONSE_FMT"

record Greeks =
  gr_price :: pyfloat
  gr_delta :: pyfloat
  gr_gamma :: pyfloat
  gr_vega :: pyfloat
  gr_theta :: pyfloat
  gr_rho :: pyfloat

fun greeks_of_fields :: "sval list \<Rightarrow> Greeks res" where
  "greeks_of_fields [SFlt price, SFlt delta, SFlt gamma, SFlt vega, SFlt theta, SFlt rho] =
     Inr \<lparr>gr_price = price, gr_delta = delta, gr_gamma = gamma, gr_vega = vega,
          gr_theta = theta, gr_rho = rho\<rparr>"
| "greeks_of_fields _ = Inl ValueError"

section \<open>The client\<close>

text \<open>
  \<open>pc_sent\<close> is every byte written to the socket.  As for the order client, the script of send
  outcomes says of each later \<^verbatim>\<open>sendall\<close> that it returns (\<open>None\<close>) or raises after the first
  \<open>n\<close> bytes of the message were sent (\<open>Some n\<close>).
\<close>

record PricingClient =
  pc_sent :: bytes
  pc_open :: bool
  pc_send_results :: "nat option list"
  pc_arrivals :: "Arrival list"

definition pricing_init :: "nat option list \<Rightarrow> Arrival list \<Rightarrow> PricingClient" where
  "pricing_init sends arrivals =
     \<lparr>pc_sent = [], pc_open = True, pc_send_results = sends, pc_arrivals = arrivals\<rparr>"

definition pricing_send :: "bytes \<Rightarrow> PricingClient \<Rightarrow> unit res \<times> PricingClient" where
  "pricing_send buf c =
     (if \<not> pc_open c then (Inl OSError, c)
      else case pc_send_results c of
          Some n # rs \<Rightarrow> (Inl OSError, c\<lparr>pc_send_results := rs, pc_sent := pc_sent c @ take n buf\<rparr>)
        | None # rs \<Rightarrow> (Inr (), c\<lparr>pc_send_results := rs, pc_sent := pc_sent c @ buf\<rparr>)
        | [] \<Rightarrow> (Inr (), c\<lparr>pc_sent := pc_sent c @ buf\<rparr>))"

function recv_exact_or_raise :: "nat \<Rightarrow> bytes \<Rightarrow> Arrival list \<Rightarrow> bytes res \<times> Arrival list" where
  "recv_exact_or_raise n buf inp =
     (if length buf < n then
        (case sock_recv (n - length buf) inp of
           (Inl e, inp') \<Rightarrow> (Inl e, inp')
         | (Inr chunk, inp') \<Rightarrow>
             if chunk = [] then (Inl ConnectionError, inp')
             else recv_exact_or_raise n (buf @ chunk) inp')
      else (Inr buf, inp))"
  by pat_completeness auto
termination
  by (relation "measure (\<lambda>(n, buf, inp). n - length buf)")
    (auto simp flip: length_greater_0_conv)

declare recv_exact_or_raise.simps [simp del]

definition price ::
  "int \<Rightarrow> int \<Rightarrow> pyfloat \<Rightarrow> pyfloat \<Rightarrow> pyfloat \<Rightarrow> bool \<Rightarrow> PricingClient \<Rightarrow> Greeks res \<times> PricingClient" where
  "price spot_ticks strike_ticks rate vol time_to_expiry is_call c =
     (case pack REQUEST_FMT [SInt spot_ticks, SInt strike_ticks, SFlt rate, SFlt vol,
             SFlt time_to_expiry, SInt (if is_call then 1 else 0)] of
        Inl e \<Rightarrow> (Inl e, c)
      | Inr body \<Rightarrow>
          (case pricing_send (PRICE_REQUEST_TAG # body) c of
             (Inl e, c1) \<Rightarrow> (Inl e, c1)
           | (Inr _, c1) \<Rightarrow>
               (case recv_exact_or_raise 1 [] (pc_arrivals c1) of
                  (Inl e, inp) \<Rightarrow> (Inl e, c1\<lparr>pc_arrivals := inp\<rparr>)
                | (Inr tag, inp) \<Rightarrow>
                    if hd tag \<noteq> PRICE_RESPONSE_TAG then (Inl ValueError, c1\<lparr>pc_arrivals := inp\<rparr>)
                    else (case recv_exact_or_raise RESPONSE_SIZE [] inp of
                        (Inl e, inp') \<Rightarrow> (Inl e, c1\<lparr>pc_arrivals := inp'\<rparr>)
                      | (Inr payload, inp') \<Rightarrow>
                          (res_bind (unpack RESPONSE_FMT payload) greeks_of_fields,
                           c1\<lparr>pc_arrivals := inp'\<rparr>)))))"

definition pricing_close :: "PricingClient \<Rightarrow> PricingClient" where
  "pricing_close c = c\<lparr>pc_open := False\<rparr>"

section \<open>The server's codec\<close>

text \<open>\<^verbatim>\<open>to_be_bytes\<close> and \<^verbatim>\<open>from_be_bytes\<close> of \<^verbatim>\<open>i64\<close> and \<^verbatim>\<open>f64\<close>.\<close>

definition i64_to_be_bytes :: "64 word \<Rightarrow> bytes" where
  "i64_to_be_bytes w = be_bytes 8 (unat w)"

definition i64_from_be_bytes :: "bytes \<Rightarrow> 64 word" where
  "i64_from_be_bytes bs = of_nat (be_value bs)"

definition f64_to_be_bytes :: "pyfloat \<Rightarrow> bytes" where
  "f64_to_be_bytes x = be_bytes 8 (double_bits x)"

definition f64_from_be_bytes :: "bytes \<Rightarrow> pyfloat" where
  "f64_from_be_bytes bs = bits_double (be_value bs)"

record PriceRequest =
  pq_spot_ticks :: "64 word"
  pq_strike_ticks :: "64 word"
  pq_rate :: pyfloat
  pq_vol :: pyfloat
  pq_time_to_expiry :: pyfloat
  pq_is_call :: bool

definition rust_decode_request :: "bytes \<Rightarrow> PriceRequest" where
  "rust_decode_request payload =
     \<lparr>pq_spot_ticks = i64_from_be_bytes (take 8 payload),
      pq_strike_ticks = i64_from_be_bytes (take 8 (drop 8 payload)),
      pq_rate = f64_from_be_bytes (take 8 (drop 16 payload)),
      pq_vol = f64_from_be_bytes (take 8 (drop 24 payload)),
      pq_time_to_expiry = f64_from_be_bytes (take 8 (drop 32 payload)),
      pq_is_call = (payload ! 40 \<noteq> 0)\<rparr>"

definition rust_encode_response :: "Greeks \<Rightarrow> bytes" where
  "rust_encode_response m = PRICE_RESPONSE_TAG #
     concat (map f64_to_be_bytes
       [gr_price m, gr_delta m, gr_gamma m, gr_vega m, gr_theta m, gr_rho m])"

section \<open>Lemmas\<close>

definition wf_greeks :: "Greeks \<Rightarrow> bool" where
  "wf_greeks g \<longleftrightarrow> wf_float (gr_price g) \<and> wf_float (gr_delta g) \<and> wf_float (gr_gamma g) \<and>
     wf_float (gr_vega g) \<and> wf_float (gr_theta g) \<and> wf_float (gr_rho g)"

lemma sizes [simp]: "REQUEST_SIZE = 41" "RESPONSE_SIZE = 48"
  by (simp_all add: REQUEST_SIZE_def RESPONSE_SIZE_def REQUEST_FMT_def RESPONSE_FMT_def)

lemma recv_exact_or_raise_spec:
  assumes "recv_exact_or_raise n buf inp = (r, inp')" "length buf \<le> n"
  shows "if n - length buf \<le> length (stream_of inp)
    then r = Inr (buf @ take (n - length buf) (stream_of inp)) \<and>
         stream_of inp' = drop (n - length buf) (stream_of inp)
    else r = Inl ConnectionError \<or> r = Inl OSError"
  using assms
proof (induction n buf inp rule: recv_exact_or_raise.induct)
  case (1 n buf inp)
  show ?case
  proof (cases "length buf < n")
    case True
    obtain rr inp1 where s: "sock_recv (n - length buf) inp = (rr, inp1)"
      by (cases "sock_recv (n - length buf) inp")
    from sock_recv_stream [OF _ s] True consider
      (empty) "stream_of inp = []" "rr = Inr [] \<or> rr = Inl OSError"
    | (chunk) c where "rr = Inr c" "c \<noteq> []" "length c \<le> n - length buf"
        "stream_of inp = c @ stream_of inp1" by auto
    then show ?thesis
    proof cases
      case empty
      then have "r = Inl ConnectionError \<or> r = Inl OSError"
        using "1.prems" True s by (subst (asm) recv_exact_or_raise.simps) auto
      with empty True show ?thesis by simp
    next
      case chunk
      have "recv_exact_or_raise n (buf @ c) inp1 = (r, inp')"
        using "1.prems" True s chunk by (subst (asm) recv_exact_or_raise.simps) auto
      moreover have "length (buf @ c) \<le> n" using chunk(3) True by simp
      ultimately have ih: "if n - length (buf @ c) \<le> length (stream_of inp1)
        then r = Inr ((buf @ c) @ take (n - length (buf @ c)) (stream_of inp1)) \<and>
             stream_of inp' = drop (n - length (buf @ c)) (stream_of inp1)
        else r = Inl ConnectionError \<or> r = Inl OSError"
        by (rule "1.IH" [OF True s [symmetric] chunk(1) chunk(2)])
      have "n - length buf = length c + (n - length (buf @ c))" using chunk(3) by simp
      with ih chunk(4) show ?thesis by simp
    qed
  next
    case False
    then show ?thesis using "1.prems" by (subst (asm) recv_exact_or_raise.simps) auto
  qed
qed

lemma double_bits_byte_range: "wf_float x \<Longrightarrow> double_bits x < 256 ^ 8"
  using double_bits_less [of x] by simp

lemma f64_round: "wf_float x \<Longrightarrow> f64_from_be_bytes (f64_to_be_bytes x) = x"
  using double_bits_byte_range [of x]
  by (simp add: f64_from_be_bytes_def f64_to_be_bytes_def bits_double_double_bits)

lemma f64_to_be_bytes_length [simp]: "length (f64_to_be_bytes x) = 8"
  by (simp add: f64_to_be_bytes_def)

lemma rust_response_decodes:
  assumes "wf_greeks g"
  shows "\<exists>body. rust_encode_response g = PRICE_RESPONSE_TAG # body \<and> length body = RESPONSE_SIZE \<and>
    res_bind (unpack RESPONSE_FMT body) greeks_of_fields = Inr g"
  using assms
  by (auto simp: rust_encode_response_def unpack_def RESPONSE_FMT_def wf_greeks_def
      f64_round [unfolded f64_from_be_bytes_def])

interpretation response_codec: tagged_codec "\<lambda>g. Inr (rust_encode_response g)"
    "\<lambda>body. res_bind (unpack RESPONSE_FMT body) greeks_of_fields" wf_greeks PRICE_RESPONSE_TAG RESPONSE_SIZE
  by unfold_locales (use rust_response_decodes in auto)

definition request_in_range :: "int \<Rightarrow> int \<Rightarrow> pyfloat \<Rightarrow> pyfloat \<Rightarrow> pyfloat \<Rightarrow> bool" where
  "request_in_range spot strike rate vol tte \<longleftrightarrow>
     - (2 ^ 63) \<le> spot \<and> spot < 2 ^ 63 \<and> - (2 ^ 63) \<le> strike \<and> strike < 2 ^ 63 \<and>
     wf_float rate \<and> wf_float vol \<and> wf_float tte"

definition price_request_body :: "int \<Rightarrow> int \<Rightarrow> pyfloat \<Rightarrow> pyfloat \<Rightarrow> pyfloat \<Rightarrow> bool \<Rightarrow> bytes res" where
  "price_request_body spot strike rate vol tte is_call =
     pack REQUEST_FMT [SInt spot, SInt strike, SFlt rate, SFlt vol, SFlt tte, SInt (if is_call then 1 else 0)]"

lemma price_request_packs:
  assumes "request_in_range spot strike rate vol tte"
  shows "\<exists>body. price_request_body spot strike rate vol tte is_call = Inr body \<and> length body = 41 \<and>
    unpack REQUEST_FMT body =
      Inr [SInt spot, SInt strike, SFlt rate, SFlt vol, SFlt tte, SInt (if is_call then 1 else 0)]"
proof -
  have "list_all2 fits REQUEST_FMT
     [SInt spot, SInt strike, SFlt rate, SFlt vol, SFlt tte, SInt (if is_call then 1 else 0)]"
    using assms by (simp add: REQUEST_FMT_def request_in_range_def)
  from pack_unpack [OF this] show ?thesis
    by (auto simp: price_request_body_def REQUEST_SIZE_def [symmetric])
qed

lemma price_request_raises:
  "\<not> (- (2 ^ 63) \<le> spot \<and> spot < 2 ^ 63 \<and> - (2 ^ 63) \<le> strike \<and> strike < 2 ^ 63) \<Longrightarrow>
   price_request_body spot strike rate vol tte is_call = Inl StructError"
  by (auto simp: price_request_body_def REQUEST_FMT_def res_bind_eq_Inl split: sum.splits)

lemma sint_i64_from_be_bytes:
  "length bs = 8 \<Longrightarrow> SInt (sint (i64_from_be_bytes bs)) = unpack_one Fmtq bs"
  using be_value_less [of bs]
  by (simp add: i64_from_be_bytes_def sint_of_nat_be Let_def)

lemma price_eq:
  "price spot strike rate vol tte is_call c =
     (case price_request_body spot strike rate vol tte is_call of
        Inl e \<Rightarrow> (Inl e, c)
      | Inr body \<Rightarrow>
          (case pricing_send (PRICE_REQUEST_TAG # body) c of
             (Inl e, c1) \<Rightarrow> (Inl e, c1)
           | (Inr _, c1) \<Rightarrow>
               (case recv_exact_or_raise 1 [] (pc_arrivals c1) of
                  (Inl e, inp) \<Rightarrow> (Inl e, c1\<lparr>pc_arrivals := inp\<rparr>)
                | (Inr tag, inp) \<Rightarrow>
                    if hd tag \<noteq> PRICE_RESPONSE_TAG then (Inl ValueError, c1\<lparr>pc_arrivals := inp\<rparr>)
                    else (case recv_exact_or_raise RESPONSE_SIZE [] inp of
                        (Inl e, inp') \<Rightarrow> (Inl e, c1\<lparr>pc_arrivals := inp'\<rparr>)
                      | (Inr payload, inp') \<Rightarrow>
                          (res_bind (unpack RESPONSE_FMT payload) greeks_of_fields,
                           c1\<lparr>pc_arrivals := inp'\<rparr>)))))"
  unfolding price_def price_request_body_def ..

definition pricing_ready :: "PricingClient \<Rightarrow> bool" where
  "pricing_ready c \<longleftrightarrow> pc_open c \<and> pc_send_results c = []"

abbreviation pricing_stream :: "PricingClient \<Rightarrow> bytes" where
  "pricing_stream c \<equiv> stream_of (pc_arrivals c)"

lemma price_reply:
  assumes "pricing_ready c" "request_in_range spot strike rate vol tte" "wf_greeks g"
    "pricing_stream c = rust_encode_response g @ rest"
  shows "\<exists>body c'. price_request_body spot strike rate vol tte is_call = Inr body \<and>
    price spot strike rate vol tte is_call c = (Inr g, c') \<and> pricing_ready c' \<and>
    pc_sent c' = pc_sent c @ PRICE_REQUEST_TAG # body \<and> pricing_stream c' = rest"
proof -
  from price_request_packs [OF assms(2)] obtain body where
    b: "price_request_body spot strike rate vol tte is_call = Inr body" by blast
  from rust_response_decodes [OF assms(3)] obtain p where
    p: "rust_encode_response g = PRICE_RESPONSE_TAG # p" "length p = RESPONSE_SIZE"
    "res_bind (unpack RESPONSE_FMT p) greeks_of_fields = Inr g" by blast
  let ?c1 = "c\<lparr>pc_sent := pc_sent c @ PRICE_REQUEST_TAG # body\<rparr>"
  have send: "pricing_send (PRICE_REQUEST_TAG # body) c = (Inr (), ?c1)"
    using assms(1) by (simp add: pricing_send_def pricing_ready_def)
  obtain r1 i1 where r1: "recv_exact_or_raise 1 [] (pc_arrivals c) = (r1, i1)"
    by (cases "recv_exact_or_raise 1 [] (pc_arrivals c)")
  have 1: "r1 = Inr [PRICE_RESPONSE_TAG]" "stream_of i1 = p @ rest"
    using recv_exact_or_raise_spec [OF r1] assms(4) p(1) by simp_all
  obtain r2 i2 where r2: "recv_exact_or_raise RESPONSE_SIZE [] i1 = (r2, i2)"
    by (cases "recv_exact_or_raise RESPONSE_SIZE [] i1")
  have 2: "r2 = Inr p" "stream_of i2 = rest"
    using recv_exact_or_raise_spec [OF r2] 1(2) p(2) by simp_all
  show ?thesis
    using assms(1) b send r1 1 r2 2 p(3) by (simp add: price_eq pricing_ready_def)
qed

section \<open>Properties\<close>

text \<open>The request the Python client packs is read by the Rust server as the same request:
  for ticks in 64-bit range and any floats the body has 41 bytes and decodes to equal fields;
  ticks out of range raise \<^verbatim>\<open>struct.error\<close> before anything is sent.\<close>

lemma price_request_cross_language:
  "(request_in_range spot strike rate vol tte \<longrightarrow>
     (\<exists>body. price_request_body spot strike rate vol tte is_call = Inr body \<and> length body = REQUEST_SIZE \<and>
        sint (pq_spot_ticks (rust_decode_request body)) = spot \<and>
        sint (pq_strike_ticks (rust_decode_request body)) = strike \<and>
        pq_rate (rust_decode_request body) = rate \<and> pq_vol (rust_decode_request body) = vol \<and>
        pq_time_to_expiry (rust_decode_request body) = tte \<and>
        pq_is_call (rust_decode_request body) = is_call)) \<and>
   (\<not> (- (2 ^ 63) \<le> spot \<and> spot < 2 ^ 63 \<and> - (2 ^ 63) \<le> strike \<and> strike < 2 ^ 63) \<longrightarrow>
     price spot strike rate vol tte is_call c = (Inl StructError, c))"
proof (intro conjI impI)
  assume "request_in_range spot strike rate vol tte"
  from price_request_packs [OF this] obtain body where
    b: "price_request_body spot strike rate vol tte is_call = Inr body" "length body = 41"
    "unpack REQUEST_FMT body =
      Inr [SInt spot, SInt strike, SFlt rate, SFlt vol, SFlt tte, SInt (if is_call then 1 else 0)]"
    by blast
  have f: "unpack_one Fmtq (take 8 body) = SInt spot" "unpack_one Fmtq (take 8 (drop 8 body)) = SInt strike"
    "f64_from_be_bytes (take 8 (drop 16 body)) = rate" "f64_from_be_bytes (take 8 (drop 24 body)) = vol"
    "f64_from_be_bytes (take 8 (drop 32 body)) = tte"
    "int (be_value (take 1 (drop 40 body))) = (if is_call then 1 else 0)"
    using b(2,3) by (simp_all add: unpack_def REQUEST_FMT_def f64_from_be_bytes_def)
  have "take 1 (drop 40 body) = [body ! 40]"
    using b(2) Cons_nth_drop_Suc [of 40 body] by simp
  then have "int (unat (body ! 40)) = (if is_call then 1 else 0)"
    using f(6) be_value_snoc [of "[]" "body ! 40"] by simp
  then have "unat (body ! 40) = 0 \<longleftrightarrow> \<not> is_call" by (metis of_nat_eq_0_iff zero_neq_one)
  then have "(body ! 40 \<noteq> 0) = is_call" by (simp add: unat_eq_zero)
  moreover have "SInt (sint (i64_from_be_bytes (take 8 body))) = SInt spot"
    "SInt (sint (i64_from_be_bytes (take 8 (drop 8 body)))) = SInt strike"
    using f(1,2) b(2) sint_i64_from_be_bytes by simp_all
  ultimately show "\<exists>body. price_request_body spot strike rate vol tte is_call = Inr body \<and> length body = REQUEST_SIZE \<and>
        sint (pq_spot_ticks (rust_decode_request body)) = spot \<and>
        sint (pq_strike_ticks (rust_decode_request body)) = strike \<and>
        pq_rate (rust_decode_request body) = rate \<and> pq_vol (rust_decode_request body) = vol \<and>
        pq_time_to_expiry (rust_decode_request body) = tte \<and>
        pq_is_call (rust_decode_request body) = is_call"
    using b(1,2) f(3-5) by (intro exI [of _ body]) (simp add: rust_decode_request_def)
qed (simp add: price_eq price_request_raises)

lemma price_request_cross_language_witness:
  "\<exists>body. price_request_body 30000 (- 5) (Fin 0) (Fin 0) NaN True = Inr body \<and>
     sint (pq_spot_ticks (rust_decode_request body)) = 30000 \<and>
     sint (pq_strike_ticks (rust_decode_request body)) = - 5 \<and> pq_is_call (rust_decode_request body)"
proof -
  have "request_in_range 30000 (- 5) (Fin 0) (Fin 0) NaN" by (simp add: request_in_range_def)
  with price_request_cross_language [of 30000 "- 5" "Fin 0" "Fin 0" NaN True] show ?thesis by auto
qed

text \<open>One request, one reply: when the server's next message is a response, however TCP
  cuts it, \<^verbatim>\<open>price\<close> returns exactly the Greeks the server encoded, has sent exactly one
  tagged request, and leaves the stream at the first byte after the response.\<close>

lemma price_returns_reply:
  assumes "pc_open c" "pc_send_results c = []" "request_in_range spot strike rate vol tte"
    "wf_greeks g" "pricing_stream c = rust_encode_response g @ rest"
  shows "\<exists>c' body. price spot strike rate vol tte is_call c = (Inr g, c') \<and>
    price_request_body spot strike rate vol tte is_call = Inr body \<and>
    pc_sent c' = pc_sent c @ PRICE_REQUEST_TAG # body \<and> pricing_stream c' = rest"
  using price_reply [of c spot strike rate vol tte g rest is_call] assms
  by (auto simp: pricing_ready_def)

definition demo_greeks :: Greeks where
  "demo_greeks = \<lparr>gr_price = Fin 10, gr_delta = Fin (1 / 2), gr_gamma = Fin 0, gr_vega = Fin 0,
     gr_theta = Fin 0, gr_rho = Fin 0\<rparr>"

lemma demo_greeks_wf: "wf_greeks demo_greeks"
proof -
  have "rnd (10 :: rat) = 10" "rnd (1 / 2 :: rat) = 1 / 2"
    using rnd_of_int [of 10] rnd_exact [of "1 / 2" 2 "- 2"] by (simp_all add: pow2_eval)
  then show ?thesis by (simp add: wf_greeks_def demo_greeks_def)
qed

lemma price_returns_reply_witness:
  "\<exists>c'. price 30000 30000 (Fin 0) (Fin 0) (Fin 0) True
     (pricing_init [] [Data (take 20 (rust_encode_response demo_greeks)),
        Data (drop 20 (rust_encode_response demo_greeks) @ [0x21])]) = (Inr demo_greeks, c') \<and>
     pricing_stream c' = [0x21]"
  using price_returns_reply [of "pricing_init [] [Data (take 20 (rust_encode_response demo_greeks)),
        Data (drop 20 (rust_encode_response demo_greeks) @ [0x21])]" 30000 30000 "Fin 0" "Fin 0" "Fin 0"
        demo_greeks "[0x21]" True] demo_greeks_wf
  by (auto simp: pricing_init_def request_in_range_def)

text \<open>Every other reply raises: a stream that ends inside the reply raises
  \<^verbatim>\<open>ConnectionError\<close> (or the socket's error), and any other tag raises \<^verbatim>\<open>ValueError\<close> with
  only the tag consumed, so the next request starts reading inside that message.\<close>

lemma price_bad_reply:
  assumes "pc_open c" "pc_send_results c = []" "request_in_range spot strike rate vol tte"
    "price spot strike rate vol tte is_call c = (r, c')"
  shows "(case pricing_stream c of
      [] \<Rightarrow> r = Inl ConnectionError \<or> r = Inl OSError
    | t # rest \<Rightarrow>
        if t \<noteq> PRICE_RESPONSE_TAG then r = Inl ValueError \<and> pricing_stream c' = rest
        else if length rest < RESPONSE_SIZE then r = Inl ConnectionError \<or> r = Inl OSError
        else (\<exists>g. r = Inr g) \<and> pricing_stream c' = drop RESPONSE_SIZE rest)"
proof -
  from price_request_packs [OF assms(3)] obtain body where
    b: "price_request_body spot strike rate vol tte is_call = Inr body" by blast
  let ?c1 = "c\<lparr>pc_sent := pc_sent c @ PRICE_REQUEST_TAG # body\<rparr>"
  have send: "pricing_send (PRICE_REQUEST_TAG # body) c = (Inr (), ?c1)"
    using assms(1,2) by (simp add: pricing_send_def)
  obtain r1 i1 where r1: "recv_exact_or_raise 1 [] (pc_arrivals c) = (r1, i1)"
    by (cases "recv_exact_or_raise 1 [] (pc_arrivals c)")
  note s1 = recv_exact_or_raise_spec [OF r1, simplified]
  obtain r2 i2 where r2: "recv_exact_or_raise RESPONSE_SIZE [] i1 = (r2, i2)"
    by (cases "recv_exact_or_raise RESPONSE_SIZE [] i1")
  note s2 = recv_exact_or_raise_spec [OF r2, simplified]
  show ?thesis
  proof (cases "pricing_stream c")
    case Nil
    with assms(4) b send r1 s1 show ?thesis by (auto simp: price_eq)
  next
    case (Cons t rest)
    with s1 have 1: "r1 = Inr [t]" "stream_of i1 = rest" by auto
    have dec: "\<exists>g. res_bind (unpack RESPONSE_FMT p) greeks_of_fields = Inr g" if "length p = 48" for p
      using that by (auto simp: unpack_def RESPONSE_FMT_def)
    show ?thesis
    proof (cases "t \<noteq> PRICE_RESPONSE_TAG \<or> length rest < 48")
      case True
      then show ?thesis
        using assms(4) b send r1 1 r2 s2 Cons by (auto simp: price_eq not_le split: if_splits)
    next
      case False
      then have "r = res_bind (unpack RESPONSE_FMT (take 48 rest)) greeks_of_fields"
        "pricing_stream c' = drop 48 rest"
        using assms(4) b send r1 1 r2 s2 by (auto simp: price_eq)
      with False Cons dec [of "take 48 rest"] show ?thesis by simp
    qed
  qed
qed

lemma price_bad_reply_witness:
  "\<exists>c'. price 30000 30000 (Fin 0) (Fin 0) (Fin 0) True (pricing_init [] [Data [0x22, 7]]) =
     (Inl ValueError, c') \<and> pricing_stream c' = [7]"
proof -
  let ?c = "pricing_init [] [Data [0x22, 7]]"
  obtain r c' where r: "price 30000 30000 (Fin 0) (Fin 0) (Fin 0) True ?c = (r, c')"
    by (cases "price 30000 30000 (Fin 0) (Fin 0) (Fin 0) True ?c")
  have "request_in_range 30000 30000 (Fin 0) (Fin 0) (Fin 0)" by (simp add: request_in_range_def)
  from price_bad_reply [OF _ _ this r] r show ?thesis
    by (auto simp: pricing_init_def PRICE_RESPONSE_TAG_def)
qed

end
