(* ===== verification/Hedging.thy ===== *)
theory Hedging
  imports Strategy Pricing SessionRunner
begin

text \<open>
  \<^verbatim>\<open>strategy/orderbook_client/options.py\<close> and \<^verbatim>\<open>delta_hedger.py\<close>: the option book, whose
  Greeks come over the pricing connection, one synchronous request per leg, and the hedger
  that keeps the futures position near minus the book's delta.  Python's \<^verbatim>\<open>sum\<close> starts from
  the int 0 and adds floats with a running compensation (CPython 3.12 and later, which the
  pinned packages require); both are written out, so an empty book sums to an int.  The
  hedger is an \<open>order_source\<close>, so the session results about order ids hold for it too.
\<close>

section \<open>Numbers and sums\<close>

datatype pynum = PInt int | PFlt pyfloat

fun pynum_neg :: "pynum \<Rightarrow> pynum" where
  "pynum_neg (PInt n) = PInt (- n)"
| "pynum_neg (PFlt x) = PFlt (fneg x)"

fun pynum_round :: "pynum \<Rightarrow> int res" where
  "pynum_round (PInt n) = Inr n"
| "pynum_round (PFlt x) = py_round x"

fun sum_compensated :: "pyfloat \<Rightarrow> pyfloat \<Rightarrow> pyfloat list \<Rightarrow> pyfloat" where
  "sum_compensated t c [] = (if is_finite c \<and> fval c \<noteq> 0 then fadd t c else t)"
| "sum_compensated t c (x # xs) =
     (let s = fadd t x;
          e = (if fless (fabs x) (fabs t) \<or> feq (fabs x) (fabs t)
               then fadd (fsub t s) x else fadd (fsub x s) t)
      in sum_compensated s (fadd c e) xs)"

fun py_sum :: "pyfloat list \<Rightarrow> pynum" where
  "py_sum [] = PInt 0"
| "py_sum (x # xs) = PFlt (sum_compensated (fadd (Fin 0) x) (Fin 0) xs)"

section \<open>The option book\<close>

record OptionLeg =
  ol_strike_ticks :: int
  ol_time_to_expiry_years :: pyfloat
  ol_vol :: pyfloat
  ol_is_call :: bool
  ol_quantity :: int

definition leg_greek ::
  "(Greeks \<Rightarrow> pyfloat) \<Rightarrow> OptionLeg \<Rightarrow> int \<Rightarrow> pyfloat \<Rightarrow> PricingClient \<Rightarrow> pyfloat res \<times> PricingClient" where
  "leg_greek field leg spot_ticks rate pc =
     (case price spot_ticks (ol_strike_ticks leg) rate (ol_vol leg)
             (ol_time_to_expiry_years leg) (ol_is_call leg) pc of
        (Inl e, pc') \<Rightarrow> (Inl e, pc')
      | (Inr greeks, pc') \<Rightarrow> (Inr (field greeks), pc'))"

definition leg_delta :: "OptionLeg \<Rightarrow> int \<Rightarrow> pyfloat \<Rightarrow> PricingClient \<Rightarrow> pyfloat res \<times> PricingClient" where
  "leg_delta = leg_greek gr_delta"

definition leg_value :: "OptionLeg \<Rightarrow> int \<Rightarrow> pyfloat \<Rightarrow> PricingClient \<Rightarrow> pyfloat res \<times> PricingClient" where
  "leg_value = leg_greek gr_price"

record OptionBook =
  ob_legs :: "OptionLeg list"
  ob_rate :: pyfloat

text \<open>The generator the sum consumes: one term per leg, the first exception ends it.\<close>

fun leg_terms ::
  "(OptionLeg \<Rightarrow> PricingClient \<Rightarrow> pyfloat res \<times> PricingClient) \<Rightarrow> OptionLeg list \<Rightarrow> PricingClient \<Rightarrow>
   pyfloat list res \<times> PricingClient" where
  "leg_terms greek [] pc = (Inr [], pc)"
| "leg_terms greek (leg # legs) pc =
     (case greek leg pc of
        (Inl e, pc1) \<Rightarrow> (Inl e, pc1)
      | (Inr x, pc1) \<Rightarrow>
          (case fmul_int x (ol_quantity leg) of
             Inl e \<Rightarrow> (Inl e, pc1)
           | Inr term \<Rightarrow>
               (case leg_terms greek legs pc1 of
                  (Inl e, pc2) \<Rightarrow> (Inl e, pc2)
                | (Inr terms, pc2) \<Rightarrow> (Inr (term # terms), pc2))))"

definition aggregate_delta :: "OptionBook \<Rightarrow> int \<Rightarrow> PricingClient \<Rightarrow> pynum res \<times> PricingClient" where
  "aggregate_delta b spot_ticks pc =
     (case leg_terms (\<lambda>leg. leg_delta leg spot_ticks (ob_rate b)) (ob_legs b) pc of
        (Inl e, pc') \<Rightarrow> (Inl e, pc')
      | (Inr terms, pc') \<Rightarrow> (Inr (py_sum terms), pc'))"

definition aggregate_value :: "OptionBook \<Rightarrow> int \<Rightarrow> PricingClient \<Rightarrow> pynum res \<times> PricingClient" where
  "aggregate_value b spot_ticks pc =
     (case leg_terms (\<lambda>leg. leg_value leg spot_ticks (ob_rate b)) (ob_legs b) pc of
        (Inl e, pc') \<Rightarrow> (Inl e, pc')
      | (Inr terms, pc') \<Rightarrow> (Inr (py_sum terms), pc'))"

section \<open>DeltaHedger\<close>

record DeltaHedger =
  dh_options_book :: OptionBook
  dh_pricing_client :: PricingClient
  dh_hedge_band :: int
  dh_ids :: int
  dh_current_futures_position :: int
  dh_my_order_ids :: "int set"
  dh_hedge_error_history :: "int list"
  dh_rehedge_count :: nat

definition hedger_init :: "OptionBook \<Rightarrow> PricingClient \<Rightarrow> int \<Rightarrow> DeltaHedger" where
  "hedger_init options_book pricing_client hedge_band_contracts =
     \<lparr>dh_options_book = options_book, dh_pricing_client = pricing_client,
      dh_hedge_band = hedge_band_contracts, dh_ids = 1, dh_current_futures_position = 0,
      dh_my_order_ids = {}, dh_hedge_error_history = [], dh_rehedge_count = 0\<rparr>"

text \<open>What the backtest reads of a hedger.\<close>

definition current_futures_position :: "DeltaHedger \<Rightarrow> int" where
  [simp]: "current_futures_position h = dh_current_futures_position h"

definition hedge_error_history :: "DeltaHedger \<Rightarrow> int list" where
  [simp]: "hedge_error_history h = dh_hedge_error_history h"

definition rehedge_count :: "DeltaHedger \<Rightarrow> nat" where
  [simp]: "rehedge_count h = dh_rehedge_count h"

text \<open>The target position and the state of the connection after asking for it.\<close>

definition hedge_target :: "DeltaHedger \<Rightarrow> int \<Rightarrow> int res \<times> PricingClient" where
  "hedge_target h price_ticks =
     (case aggregate_delta (dh_options_book h) price_ticks (dh_pricing_client h) of
        (Inl e, pc) \<Rightarrow> (Inl e, pc)
      | (Inr d, pc) \<Rightarrow> (pynum_round (pynum_neg d), pc))"

definition hedger_on_price :: "DeltaHedger \<Rightarrow> int \<Rightarrow> StrategyAction list res \<times> DeltaHedger" where
  "hedger_on_price h price_ticks =
     (case hedge_target h price_ticks of
        (Inl e, pc) \<Rightarrow> (Inl e, h\<lparr>dh_pricing_client := pc\<rparr>)
      | (Inr target, pc) \<Rightarrow>
          (let hedge_error = dh_current_futures_position h - target;
               h1 = h\<lparr>dh_pricing_client := pc,
                      dh_hedge_error_history := dh_hedge_error_history h @ [hedge_error]\<rparr> in
           if \<bar>hedge_error\<bar> \<le> dh_hedge_band h then (Inr [], h1)
           else
             let order_id = dh_ids h; side = (if hedge_error > 0 then SELL else BUY) in
             (Inr [Order_Action \<lparr>or_order_id = order_id, or_side = side, or_order_type = MARKET,
                    or_price_ticks = 0, or_quantity = \<bar>hedge_error\<bar>\<rparr>],
              h1\<lparr>dh_rehedge_count := dh_rehedge_count h + 1, dh_ids := order_id + 1,
                 dh_my_order_ids := insert order_id (dh_my_order_ids h)\<rparr>)))"

definition signed_qty :: "FillEvent \<Rightarrow> int" where
  "signed_qty f = (if incoming_side f = BUY then fe_quantity f else - fe_quantity f)"

definition hedger_on_fill :: "DeltaHedger \<Rightarrow> FillEvent \<Rightarrow> DeltaHedger" where
  "hedger_on_fill h event =
     (if fe_incoming_order_id event \<notin> dh_my_order_ids h then h
      else h\<lparr>dh_current_futures_position := dh_current_futures_position h + signed_qty event\<rparr>)"

section \<open>Lemmas\<close>

definition hedger_inv :: "DeltaHedger \<Rightarrow> bool" where
  "hedger_inv h \<longleftrightarrow> 1 \<le> dh_ids h \<and> dh_my_order_ids h = {1..<dh_ids h} \<and>
     int (dh_rehedge_count h) = dh_ids h - 1 \<and>
     dh_rehedge_count h \<le> length (dh_hedge_error_history h)"

lemma hedger_inv_init [simp]: "hedger_inv (hedger_init b pc band)"
  by (simp add: hedger_inv_def hedger_init_def)

lemma hedger_price_cases:
  assumes "hedger_on_price h p = (r, h')"
  shows "(\<exists>e pc. hedge_target h p = (Inl e, pc) \<and> r = Inl e \<and> h' = h\<lparr>dh_pricing_client := pc\<rparr>) \<or>
    (\<exists>t pc. hedge_target h p = (Inr t, pc) \<and>
      (let err = dh_current_futures_position h - t;
           h1 = h\<lparr>dh_pricing_client := pc,
                  dh_hedge_error_history := dh_hedge_error_history h @ [err]\<rparr> in
       (\<bar>err\<bar> \<le> dh_hedge_band h \<and> r = Inr [] \<and> h' = h1) \<or>
       (dh_hedge_band h < \<bar>err\<bar> \<and>
        r = Inr [Order_Action \<lparr>or_order_id = dh_ids h, or_side = (if err > 0 then SELL else BUY),
              or_order_type = MARKET, or_price_ticks = 0, or_quantity = \<bar>err\<bar>\<rparr>] \<and>
        h' = h1\<lparr>dh_rehedge_count := dh_rehedge_count h + 1, dh_ids := dh_ids h + 1,
                dh_my_order_ids := insert (dh_ids h) (dh_my_order_ids h)\<rparr>)))"
proof -
  obtain q pc where q: "hedge_target h p = (q, pc)" by (cases "hedge_target h p")
  show ?thesis
  proof (cases q)
    case (Inl e)
    with assms q show ?thesis by (simp add: hedger_on_price_def)
  next
    case (Inr t)
    define err where "err = dh_current_futures_position h - t"
    show ?thesis
      by (rule disjI2, rule exI [of _ t], rule exI [of _ pc])
        (use assms q Inr in \<open>auto simp: hedger_on_price_def Let_def err_def [symmetric] split: if_split_asm\<close>)
  qed
qed

lemma hedger_inv_price: "hedger_inv h \<Longrightarrow> hedger_on_price h p = (r, h') \<Longrightarrow> hedger_inv h'"
  by (drule hedger_price_cases) (auto simp: hedger_inv_def Let_def)

lemma hedger_inv_fill: "hedger_inv h \<Longrightarrow> hedger_inv (hedger_on_fill h f)"
  by (simp add: hedger_inv_def hedger_on_fill_def)

lemma hedger_order_ids:
  "hedger_on_price h p = (Inr acts, h') \<Longrightarrow>
   order_ids acts = [dh_ids h..dh_ids h' - 1] \<and> dh_ids h \<le> dh_ids h'"
  by (drule hedger_price_cases) (auto simp: Let_def)

interpretation hedger_source: order_source hedger_on_price hedger_on_fill dh_ids hedger_inv
proof
  fix h f
  assume "hedger_inv h"
  then show "hedger_inv (hedger_on_fill h f) \<and> dh_ids (hedger_on_fill h f) = dh_ids h"
    using hedger_inv_fill by (simp add: hedger_on_fill_def)
qed (use hedger_inv_price hedger_order_ids in blast)+

subsection \<open>Sums of values on one grid are exact\<close>

definition on_grid :: "int \<Rightarrow> int \<Rightarrow> pyfloat" where
  "on_grid e n = Fin (of_int n * pow2 e)"

lemma grid_exact:
  assumes "- 1074 \<le> e" "e \<le> 970" "\<bar>n\<bar> \<le> 2 ^ 53"
  shows "exact (of_int n * pow2 e)"
proof -
  have r: "rnd (of_int n * pow2 e) = of_int n * pow2 e"
    using assms by (intro rnd_exact) auto
  have "\<bar>of_int n :: rat\<bar> \<le> 2 ^ 53"
    using assms(3) by (metis of_int_abs of_int_le_iff of_int_numeral of_int_power)
  then have "\<bar>of_int n * pow2 e\<bar> \<le> 2 ^ 53 * pow2 e"
    by (simp add: abs_mult mult_right_mono)
  also have "\<dots> = pow2 (53 + e)" using pow2_of_nat [of 53] by (simp add: pow2_add)
  also have "\<dots> < pow2 1024" using assms(2) by (subst pow2_less_iff) simp
  also have "pow2 1024 = 2 ^ 1024" using pow2_of_nat [of 1024] by simp
  finally show ?thesis using r by (simp add: exact_def)
qed

lemma grid_add:
  assumes "- 1074 \<le> e" "e \<le> 970" "\<bar>a + b\<bar> \<le> 2 ^ 53"
  shows "fadd (on_grid e a) (on_grid e b) = on_grid e (a + b)"
proof -
  have s: "of_int a * pow2 e + of_int b * pow2 e = of_int (a + b) * pow2 e"
    by (simp add: algebra_simps)
  show ?thesis
    unfolding fadd_def on_grid_def fval.simps Let_def s
    using to_float_exact [OF grid_exact [OF assms]] by (auto simp: zero_of_def)
qed

lemma grid_error:
  assumes "- 1074 \<le> e" "e \<le> 970" "\<bar>a\<bar> \<le> 2 ^ 53" "\<bar>b\<bar> \<le> 2 ^ 53"
  defines "s \<equiv> on_grid e (a + b)"
  shows "is_finite (fadd (fsub (on_grid e a) s) (on_grid e b)) \<and>
    fval (fadd (fsub (on_grid e a) s) (on_grid e b)) = 0"
proof -
  have d: "fval (on_grid e a) - fval s = of_int (- b) * pow2 e"
    by (simp add: s_def on_grid_def algebra_simps)
  have x: "exact (of_int (- b) * pow2 e)" using assms by (intro grid_exact) auto
  have 1: "is_finite (fsub (on_grid e a) s)" "fval (fsub (on_grid e a) s) = of_int (- b) * pow2 e"
    using fsub_finite [of "on_grid e a" s] x d by (auto simp: on_grid_def s_def exact_def)
  have z: "fval (fsub (on_grid e a) s) + fval (on_grid e b) = 0"
    using 1(2) by (simp add: on_grid_def)
  have "\<bar>rnd 0\<bar> < (2 :: rat) ^ 1024" by simp
  with fadd_finite [of "fsub (on_grid e a) s" "on_grid e b"] 1(1) show ?thesis
    unfolding z by (simp add: on_grid_def)
qed

lemma sum_compensated_grid:
  assumes "- 1074 \<le> e" "e \<le> 970" "is_finite c" "fval c = 0"
    "\<bar>a\<bar> + sum_list (map abs ns) \<le> 2 ^ 53"
  shows "sum_compensated (on_grid e a) c (map (on_grid e) ns) = on_grid e (a + sum_list ns)"
  using assms(3-5)
proof (induction ns arbitrary: a c)
  case (Cons n ns)
  have nn: "0 \<le> sum_list (map abs ns)" by (rule sum_list_nonneg) auto
  then have b: "\<bar>a\<bar> \<le> 2 ^ 53" "\<bar>n\<bar> \<le> 2 ^ 53" "\<bar>a + n\<bar> \<le> 2 ^ 53"
    "\<bar>a + n\<bar> + sum_list (map abs ns) \<le> 2 ^ 53"
    using Cons.prems(3) by auto
  let ?e = "if fless (fabs (on_grid e n)) (fabs (on_grid e a)) \<or> feq (fabs (on_grid e n)) (fabs (on_grid e a))
    then fadd (fsub (on_grid e a) (on_grid e (a + n))) (on_grid e n)
    else fadd (fsub (on_grid e n) (on_grid e (a + n))) (on_grid e a)"
  have e: "is_finite ?e" "fval ?e = 0"
    using grid_error [OF assms(1,2) b(1,2)] grid_error [OF assms(1,2) b(2,1)] by (auto simp: add.commute)
  have z: "fval c + fval ?e = 0" using e(2) Cons.prems(2) by simp
  have "\<bar>rnd 0\<bar> < (2 :: rat) ^ 1024" by simp
  then have c: "is_finite (fadd c ?e)" "fval (fadd c ?e) = 0"
    using fadd_finite [OF Cons.prems(1) e(1)] unfolding z by simp_all
  have "sum_compensated (on_grid e a) c (map (on_grid e) (n # ns)) =
      sum_compensated (on_grid e (a + n)) (fadd c ?e) (map (on_grid e) ns)"
    using grid_add [OF assms(1,2) b(3)] by (simp add: Let_def)
  also have "\<dots> = on_grid e (a + n + sum_list ns)"
    using c b(4) by (rule Cons.IH)
  finally show ?case by (simp add: add.assoc)
qed simp

lemma py_sum_grid:
  assumes "- 1074 \<le> e" "e \<le> 970" "sum_list (map abs ns) \<le> 2 ^ 53"
  shows "py_sum (map (on_grid e) ns) = (if ns = [] then PInt 0 else PFlt (on_grid e (sum_list ns)))"
proof (cases ns)
  case (Cons n ms)
  have nn: "0 \<le> sum_list (map abs ms)" by (rule sum_list_nonneg) auto
  then have "fadd (Fin 0) (on_grid e n) = on_grid e n"
    using grid_add [OF assms(1,2), of 0 n] assms(3) Cons by (simp add: on_grid_def)
  moreover have "sum_compensated (on_grid e n) (Fin 0) (map (on_grid e) ms) = on_grid e (n + sum_list ms)"
    using assms Cons by (intro sum_compensated_grid) auto
  ultimately show ?thesis using Cons by simp
qed simp

subsection \<open>One request and one reply per leg\<close>

definition leg_in_range :: "OptionLeg \<Rightarrow> bool" where
  "leg_in_range leg \<longleftrightarrow> - (2 ^ 63) \<le> ol_strike_ticks leg \<and> ol_strike_ticks leg < 2 ^ 63 \<and>
     wf_float (ol_vol leg) \<and> wf_float (ol_time_to_expiry_years leg) \<and> \<bar>ol_quantity leg\<bar> \<le> 2 ^ 53"

definition leg_product :: "(Greeks \<Rightarrow> pyfloat) \<Rightarrow> OptionLeg \<Rightarrow> Greeks \<Rightarrow> pyfloat" where
  "leg_product field leg g = fmul (field g) (Fin (of_int (ol_quantity leg)))"

lemma leg_terms_replies:
  assumes "pricing_ready pc" "- (2 ^ 63) \<le> spot" "spot < 2 ^ 63" "wf_float rate"
    "list_all leg_in_range legs" "list_all wf_greeks gs" "length gs = length legs"
    "pricing_stream pc = concat (map rust_encode_response gs) @ rest"
  shows "\<exists>pc'. leg_terms (\<lambda>leg. leg_greek field leg spot rate) legs pc =
      (Inr (map2 (leg_product field) legs gs), pc') \<and> pricing_ready pc' \<and> pricing_stream pc' = rest"
  using assms
proof (induction legs arbitrary: pc gs)
  case (Cons leg legs)
  then obtain g gs' where gs: "gs = g # gs'" by (cases gs) auto
  have rng: "request_in_range spot (ol_strike_ticks leg) rate (ol_vol leg) (ol_time_to_expiry_years leg)"
    using Cons.prems by (simp add: request_in_range_def leg_in_range_def)
  have q: "\<bar>ol_quantity leg\<bar> \<le> 2 ^ 53" using Cons.prems by (simp add: leg_in_range_def)
  from price_reply [OF Cons.prems(1) rng, of g "concat (map rust_encode_response gs') @ rest"] Cons.prems gs
  obtain pc1 where 1: "price spot (ol_strike_ticks leg) rate (ol_vol leg) (ol_time_to_expiry_years leg)
      (ol_is_call leg) pc = (Inr g, pc1)" "pricing_ready pc1"
    "pricing_stream pc1 = concat (map rust_encode_response gs') @ rest" by fastforce
  have "\<exists>pc'. leg_terms (\<lambda>leg. leg_greek field leg spot rate) legs pc1 =
      (Inr (map2 (leg_product field) legs gs'), pc') \<and> pricing_ready pc' \<and> pricing_stream pc' = rest"
    using Cons.prems gs 1(2,3) by (intro Cons.IH) auto
  then obtain pc' where 2: "leg_terms (\<lambda>leg. leg_greek field leg spot rate) legs pc1 =
      (Inr (map2 (leg_product field) legs gs'), pc')" "pricing_ready pc'" "pricing_stream pc' = rest"
    by blast
  have "fmul_int (field g) (ol_quantity leg) = Inr (leg_product field leg g)"
    using int_to_float_exact [OF q] by (simp add: fmul_int_def leg_product_def)
  moreover have "leg_greek field leg spot rate pc = (Inr (field g), pc1)"
    using 1(1) by (simp add: leg_greek_def)
  ultimately show ?case using 2 gs by simp
qed simp

subsection \<open>Fills\<close>

lemma hedger_fill_simps [simp]:
  "dh_my_order_ids (hedger_on_fill h f) = dh_my_order_ids h"
  "dh_hedge_error_history (hedger_on_fill h f) = dh_hedge_error_history h"
  "dh_rehedge_count (hedger_on_fill h f) = dh_rehedge_count h"
  by (simp_all add: hedger_on_fill_def)

lemma hedger_fills_position:
  "dh_current_futures_position (foldl hedger_on_fill h fs) = dh_current_futures_position h +
     sum_list (map signed_qty (filter (\<lambda>f. fe_incoming_order_id f \<in> dh_my_order_ids h) fs))"
  by (induction fs arbitrary: h) (auto simp: hedger_on_fill_def)

text \<open>The fills that execute an order completely: the order is the incoming one of each.\<close>

definition fills_order :: "OrderRequest \<Rightarrow> FillEvent list \<Rightarrow> bool" where
  "fills_order r fs \<longleftrightarrow>
     list_all (\<lambda>f. fe_incoming_order_id f = or_order_id r \<and> incoming_side f = or_side r) fs \<and>
     sum_list (map fe_quantity fs) = or_quantity r"

lemma fills_order_signed:
  assumes "fills_order r fs"
  shows "sum_list (map signed_qty fs) = (if or_side r = BUY then or_quantity r else - or_quantity r)"
proof -
  have "sum_list (map signed_qty gs) =
      (if or_side r = BUY then sum_list (map fe_quantity gs) else - sum_list (map fe_quantity gs))"
    if "list_all (\<lambda>f. fe_incoming_order_id f = or_order_id r \<and> incoming_side f = or_side r) gs" for gs
    using that by (induction gs) (auto simp: signed_qty_def)
  with assms show ?thesis by (simp add: fills_order_def)
qed

lemma filter_own_fills:
  assumes "fills_order r fs" "or_order_id r \<in> ids"
  shows "filter (\<lambda>f. fe_incoming_order_id f \<in> ids) fs = fs"
  using assms by (auto simp: fills_order_def list_all_iff intro: filter_True)

lemma hedge_fills_move:
  assumes "fills_order r fs" "or_order_id r \<in> dh_my_order_ids h"
  shows "dh_current_futures_position (foldl hedger_on_fill h fs) = dh_current_futures_position h +
    (if or_side r = BUY then or_quantity r else - or_quantity r)"
  using assms by (simp add: hedger_fills_position filter_own_fills fills_order_signed)

lemma hedger_run_counts:
  assumes "hedger_inv h" "strategy_run hedger_on_price hedger_on_fill h xs = Inr (acts, h')"
  shows "length (dh_hedge_error_history h') = length (dh_hedge_error_history h) +
      length (filter (\<lambda>x. case x of Price p \<Rightarrow> True | Fill_In f \<Rightarrow> False) xs) \<and>
    dh_rehedge_count h' = dh_rehedge_count h + length (order_ids acts) \<and> cancel_ids acts = []"
  using assms
proof (induction xs arbitrary: h acts)
  case (Cons x xs)
  show ?case
  proof (cases x)
    case (Price p)
    with Cons.prems obtain a t b where a: "hedger_on_price h p = (Inr a, t)" and
      b: "strategy_run hedger_on_price hedger_on_fill t xs = Inr (b, h')" and acts: "acts = a @ b"
      by (auto split: prod.splits sum.splits)
    note ih = Cons.IH [OF hedger_inv_price [OF Cons.prems(1) a] b]
    have "length (dh_hedge_error_history t) = Suc (length (dh_hedge_error_history h))"
      "dh_rehedge_count t = dh_rehedge_count h + length (order_ids a)" "cancel_ids a = []"
      using hedger_price_cases [OF a] by (auto simp: Let_def)
    with ih Price acts show ?thesis by simp
  next
    case (Fill_In f)
    with Cons.prems have "strategy_run hedger_on_price hedger_on_fill (hedger_on_fill h f) xs = Inr (acts, h')"
      by simp
    from Cons.IH [OF hedger_inv_fill [OF Cons.prems(1)] this] Fill_In show ?thesis by simp
  qed
qed simp

subsection \<open>A hedger for the witnesses\<close>

text \<open>One call of 100 contracts with delta 1/2, and a server that has answered twice.\<close>

definition demo_leg :: OptionLeg where
  "demo_leg = \<lparr>ol_strike_ticks = 30000, ol_time_to_expiry_years = Fin 0, ol_vol = Fin 0,
     ol_is_call = True, ol_quantity = 100\<rparr>"

definition demo_hedger :: DeltaHedger where
  "demo_hedger = hedger_init \<lparr>ob_legs = [demo_leg], ob_rate = Fin 0\<rparr>
     (pricing_init [] [Data (rust_encode_response demo_greeks), Data (rust_encode_response demo_greeks)]) 5"

lemma demo_product: "leg_product gr_delta demo_leg demo_greeks = Fin 50"
proof -
  have "exact 50" using exact_of_int [of 50] by simp
  then have "to_float False 50 = Fin 50" by (simp add: to_float_exact)
  then show ?thesis by (simp add: leg_product_def demo_leg_def demo_greeks_def fmul_def)
qed

lemma demo_leg_ok: "leg_in_range demo_leg"
  by (simp add: leg_in_range_def demo_leg_def)

lemma demo_py_sum: "py_sum [Fin 50] = PFlt (Fin 50)"
  using py_sum_grid [of 0 "[50]"] by (simp add: on_grid_def pow2_eval)

lemma demo_target:
  assumes "pricing_ready (dh_pricing_client h)" "dh_options_book h = \<lparr>ob_legs = [demo_leg], ob_rate = Fin 0\<rparr>"
    "pricing_stream (dh_pricing_client h) = rust_encode_response demo_greeks @ rest"
    "- (2 ^ 63) \<le> p" "p < 2 ^ 63"
  shows "\<exists>pc. hedge_target h p = (Inr (- 50), pc) \<and> pricing_ready pc \<and> pricing_stream pc = rest"
proof -
  from leg_terms_replies [of "dh_pricing_client h" p "Fin 0" "[demo_leg]" "[demo_greeks]" rest gr_delta]
    assms demo_leg_ok demo_greeks_wf demo_product
  obtain pc where "leg_terms (\<lambda>leg. leg_greek gr_delta leg p (Fin 0)) [demo_leg] (dh_pricing_client h) =
      (Inr [Fin 50], pc)" "pricing_ready pc" "pricing_stream pc = rest" by auto
  moreover have "round_half_even (- 50) = - 50" using round_half_even_of_int [of "- 50"] by simp
  ultimately show ?thesis
    using assms(2) demo_py_sum by (simp add: hedge_target_def aggregate_delta_def leg_delta_def)
qed

lemma demo_hedger_tick:
  "\<exists>h1. hedger_on_price demo_hedger 30000 = (Inr [Order_Action \<lparr>or_order_id = 1, or_side = SELL,
       or_order_type = MARKET, or_price_ticks = 0, or_quantity = 50\<rparr>], h1) \<and>
     (\<exists>pc. hedge_target h1 30001 = (Inr (- 50), pc)) \<and> (\<exists>pc. hedge_target demo_hedger 30000 = (Inr (- 50), pc))"
proof -
  from demo_target [of demo_hedger "rust_encode_response demo_greeks" 30000]
  obtain pc where pc: "hedge_target demo_hedger 30000 = (Inr (- 50), pc)" "pricing_ready pc"
    "pricing_stream pc = rust_encode_response demo_greeks"
    by (auto simp: demo_hedger_def hedger_init_def pricing_init_def pricing_ready_def)
  let ?h1 = "demo_hedger\<lparr>dh_pricing_client := pc, dh_hedge_error_history := [50],
      dh_rehedge_count := 1, dh_ids := 2, dh_my_order_ids := {1}\<rparr>"
  have 1: "hedger_on_price demo_hedger 30000 = (Inr [Order_Action \<lparr>or_order_id = 1, or_side = SELL,
       or_order_type = MARKET, or_price_ticks = 0, or_quantity = 50\<rparr>], ?h1)"
    using pc(1) by (simp add: hedger_on_price_def demo_hedger_def hedger_init_def Let_def)
  have "\<exists>pc'. hedge_target ?h1 30001 = (Inr (- 50), pc') \<and> pricing_ready pc' \<and> pricing_stream pc' = []"
    using pc by (intro demo_target) (simp_all add: demo_hedger_def hedger_init_def)
  with 1 pc(1) show ?thesis by blast
qed

subsection \<open>NaN\<close>

lemma sum_compensated_NaN: "NaN \<in> insert t (set xs) \<Longrightarrow> sum_compensated t c xs = NaN"
  by (induction xs arbitrary: t c) (auto simp: Let_def)

lemma py_sum_NaN: "NaN \<in> set xs \<Longrightarrow> py_sum xs = PFlt NaN"
  by (cases xs) (auto simp: sum_compensated_NaN)

lemma leg_product_NaN: "field g = NaN \<Longrightarrow> leg_product field leg g = NaN"
  by (simp add: leg_product_def fmul_def)

section \<open>Properties\<close>

text \<open>When the server answers every leg in order, the target position is minus the book's
  delta rounded to the nearest integer, ties to even, with no rounding error before that,
  provided the legs' deltas lie on one binary grid and their absolute sum fits 53 bits;
  the connection is left exactly after the last reply.\<close>

lemma hedge_target_exact:
  assumes "pc_open (dh_pricing_client h)" "pc_send_results (dh_pricing_client h) = []"
    "- (2 ^ 63) \<le> spot" "spot < 2 ^ 63" "wf_float (ob_rate (dh_options_book h))"
    "list_all leg_in_range (ob_legs (dh_options_book h))" "list_all wf_greeks gs"
    "length gs = length (ob_legs (dh_options_book h))"
    "pricing_stream (dh_pricing_client h) = concat (map rust_encode_response gs) @ rest"
    "map2 (leg_product gr_delta) (ob_legs (dh_options_book h)) gs = map (on_grid e) ns"
    "- 1074 \<le> e" "e \<le> 970" "sum_list (map abs ns) \<le> 2 ^ 53"
  shows "\<exists>pc. hedge_target h spot = (Inr (round_half_even (- (of_int (sum_list ns) * pow2 e))), pc) \<and>
    pricing_stream pc = rest"
proof -
  have "pricing_ready (dh_pricing_client h)" using assms(1,2) by (simp add: pricing_ready_def)
  from leg_terms_replies [OF this assms(3-9), of gr_delta] assms(10) obtain pc where
    pc: "leg_terms (\<lambda>leg. leg_greek gr_delta leg spot (ob_rate (dh_options_book h)))
      (ob_legs (dh_options_book h)) (dh_pricing_client h) = (Inr (map (on_grid e) ns), pc)"
    "pricing_stream pc = rest" by auto
  have z: "round_half_even 0 = 0" using round_half_even_of_int [of 0] by simp
  have "pynum_round (pynum_neg (py_sum (map (on_grid e) ns))) =
      Inr (round_half_even (- (of_int (sum_list ns) * pow2 e)))"
    using py_sum_grid [OF assms(11-13)] z by (auto simp: on_grid_def)
  with pc show ?thesis by (simp add: hedge_target_def aggregate_delta_def leg_delta_def)
qed

lemma hedge_target_exact_witness:
  "\<exists>pc. hedge_target demo_hedger 30000 = (Inr (- 50), pc) \<and>
     pricing_stream pc = rust_encode_response demo_greeks"
proof -
  have r: "round_half_even (- 50) = - 50" using round_half_even_of_int [of "- 50"] by simp
  show ?thesis
    using hedge_target_exact [of demo_hedger 30000 "[demo_greeks]" "rust_encode_response demo_greeks" 0 "[50]"]
      demo_leg_ok demo_greeks_wf demo_product r
    by (simp add: demo_hedger_def hedger_init_def pricing_init_def on_grid_def pow2_eval)
qed

text \<open>C38: the hedging decision: within the band nothing is sent; outside it one market order of
  exactly the error's size is sent, and once that order is completely filled, in however
  many partial fills, the position equals the target; every error is recorded.\<close>

theorem hedger_rehedges_to_target:
  assumes "hedge_target h p = (Inr t, pc)" "hedger_on_price h p = (r, h')"
  shows "(\<bar>dh_current_futures_position h - t\<bar> \<le> dh_hedge_band h \<longrightarrow> r = Inr []) \<and>
    (dh_hedge_band h < \<bar>dh_current_futures_position h - t\<bar> \<longrightarrow>
      (\<exists>q. r = Inr [Order_Action q] \<and> or_order_type q = MARKET \<and> or_order_id q = dh_ids h \<and>
         or_quantity q = \<bar>dh_current_futures_position h - t\<bar> \<and>
         (\<forall>fs. fills_order q fs \<longrightarrow> dh_current_futures_position (foldl hedger_on_fill h' fs) = t))) \<and>
    dh_current_futures_position h' = dh_current_futures_position h \<and>
    dh_hedge_error_history h' = dh_hedge_error_history h @ [dh_current_futures_position h - t]"
  using hedger_price_cases [OF assms(2)] assms(1)
  by (auto simp: Let_def hedge_fills_move)

theorem hedger_rehedges_to_target_witness:
  "\<exists>h'. hedger_on_price demo_hedger 30000 = (Inr [Order_Action \<lparr>or_order_id = 1, or_side = SELL,
       or_order_type = MARKET, or_price_ticks = 0, or_quantity = 50\<rparr>], h') \<and>
     dh_hedge_error_history h' = [50]"
proof -
  from demo_hedger_tick obtain h1 pc where
    1: "hedger_on_price demo_hedger 30000 = (Inr [Order_Action \<lparr>or_order_id = 1, or_side = SELL,
       or_order_type = MARKET, or_price_ticks = 0, or_quantity = 50\<rparr>], h1)"
    "hedge_target demo_hedger 30000 = (Inr (- 50), pc)" by blast
  from hedger_rehedges_to_target [OF 1(2,1)] 1 show ?thesis
    by (simp add: demo_hedger_def hedger_init_def)
qed

text \<open>Orders in flight are not counted: a second tick with the same target before the first
  order's fills arrive sends the whole hedge again, and when both orders fill the position
  is off by the original error with the opposite sign.\<close>

lemma hedger_double_hedges:
  assumes "hedge_target h p = (Inr t, pc)" "dh_hedge_band h < \<bar>dh_current_futures_position h - t\<bar>"
    "hedger_on_price h p = (Inr acts, h1)" "hedge_target h1 p' = (Inr t, pc')"
    "hedger_on_price h1 p' = (Inr acts', h2)"
  shows "\<exists>q q'. acts = [Order_Action q] \<and> acts' = [Order_Action q'] \<and>
    or_order_id q' = or_order_id q + 1 \<and> or_side q' = or_side q \<and> or_quantity q' = or_quantity q \<and>
    (\<forall>fs fs'. fills_order q fs \<and> fills_order q' fs' \<longrightarrow>
      dh_current_futures_position (foldl hedger_on_fill (foldl hedger_on_fill h2 fs) fs') - t =
        - (dh_current_futures_position h - t))"
proof -
  define err where "err = dh_current_futures_position h - t"
  let ?q = "\<lambda>i. \<lparr>or_order_id = i, or_side = (if err > 0 then SELL else BUY), or_order_type = MARKET,
      or_price_ticks = 0, or_quantity = \<bar>err\<bar>\<rparr>"
  have 1: "acts = [Order_Action (?q (dh_ids h))]" "dh_ids h1 = dh_ids h + 1"
    "dh_current_futures_position h1 = dh_current_futures_position h" "dh_hedge_band h1 = dh_hedge_band h"
    "dh_my_order_ids h1 = insert (dh_ids h) (dh_my_order_ids h)"
    using hedger_price_cases [OF assms(3)] assms(1,2) by (auto simp: Let_def err_def)
  have 2: "acts' = [Order_Action (?q (dh_ids h + 1))]"
    "dh_current_futures_position h2 = dh_current_futures_position h"
    "dh_my_order_ids h2 = insert (dh_ids h + 1) (insert (dh_ids h) (dh_my_order_ids h))"
    using hedger_price_cases [OF assms(5)] assms(2,4) 1 by (auto simp: Let_def err_def)
  have ids: "dh_my_order_ids (foldl hedger_on_fill h2 fs) = dh_my_order_ids h2" for fs
    by (induction fs arbitrary: h2) auto
  have "dh_current_futures_position (foldl hedger_on_fill (foldl hedger_on_fill h2 fs) fs') - t = - err"
    if "fills_order (?q (dh_ids h)) fs" "fills_order (?q (dh_ids h + 1)) fs'" for fs fs'
    using hedge_fills_move [OF that(1), of h2] hedge_fills_move [OF that(2), of "foldl hedger_on_fill h2 fs"]
      ids 2 by (auto simp: err_def)
  with 1(1) 2(1) show ?thesis
    by (intro exI [of _ "?q (dh_ids h)"] exI [of _ "?q (dh_ids h + 1)"]) (simp add: err_def)
qed

lemma hedger_double_hedges_witness:
  "\<exists>h1 h2 q q'. hedger_on_price demo_hedger 30000 = (Inr [Order_Action q], h1) \<and>
     hedger_on_price h1 30001 = (Inr [Order_Action q'], h2) \<and>
     or_quantity q = 50 \<and> or_quantity q' = 50 \<and> or_side q = SELL \<and> or_side q' = SELL"
proof -
  from demo_hedger_tick obtain h1 pc pc' where
    1: "hedger_on_price demo_hedger 30000 = (Inr [Order_Action \<lparr>or_order_id = 1, or_side = SELL,
       or_order_type = MARKET, or_price_ticks = 0, or_quantity = 50\<rparr>], h1)"
    "hedge_target demo_hedger 30000 = (Inr (- 50), pc)" "hedge_target h1 30001 = (Inr (- 50), pc')" by blast
  obtain acts' h2 where 2: "hedger_on_price h1 30001 = (Inr acts', h2)"
    using 1(3) by (fastforce simp: hedger_on_price_def Let_def)
  have "dh_hedge_band demo_hedger < \<bar>dh_current_futures_position demo_hedger - (- 50)\<bar>"
    by (simp add: demo_hedger_def hedger_init_def)
  from hedger_double_hedges [OF 1(2) this 1(1,3) 2] 1 2 show ?thesis by auto
qed

text \<open>Over any run of prices and fills from a new hedger, one hedge error is recorded per
  price, the rehedge count is the number of orders sent, their ids are 1, 2, 3, ..., nothing
  is ever cancelled, and the ids the hedger counts as its own are exactly those it sent.\<close>

lemma hedger_run_accounted:
  assumes "strategy_run hedger_on_price hedger_on_fill (hedger_init b pc band) xs = Inr (acts, h)"
  shows "length (dh_hedge_error_history h) =
      length (filter (\<lambda>x. case x of Price p \<Rightarrow> True | Fill_In f \<Rightarrow> False) xs) \<and>
    dh_rehedge_count h = length (order_ids acts) \<and> order_ids acts = [1..int (dh_rehedge_count h)] \<and>
    cancel_ids acts = [] \<and> dh_my_order_ids h = set (order_ids acts)"
proof -
  have i: "hedger_inv (hedger_init b pc band)" by simp
  have "hedger_inv h" using hedger_source.run_inv [OF i assms] .
  then have m: "dh_my_order_ids h = {1..<dh_ids h}" "dh_ids h = int (dh_rehedge_count h) + 1"
    by (simp_all add: hedger_inv_def)
  have o: "order_ids acts = [1..int (dh_rehedge_count h)]"
    using hedger_source.run_ids [OF i assms] m(2) by (simp add: hedger_init_def)
  have "{1..<int (dh_rehedge_count h) + 1} = {1..int (dh_rehedge_count h)}" by auto
  with m have ids: "dh_my_order_ids h = set (order_ids acts)" unfolding o set_upto by simp
  have init: "dh_hedge_error_history (hedger_init b pc band) = []"
    "dh_rehedge_count (hedger_init b pc band) = 0" by (simp_all add: hedger_init_def)
  show ?thesis
    using hedger_run_counts [OF i assms] unfolding init
    by (intro conjI) (simp, simp, rule o, simp, rule ids)
qed

lemma hedger_run_accounted_witness:
  "\<exists>acts h. strategy_run hedger_on_price hedger_on_fill demo_hedger [Price 30000, Fill_In demo_fill] = Inr (acts, h) \<and>
     order_ids acts = [1] \<and> dh_rehedge_count h = 1 \<and> dh_my_order_ids h = {1}"
proof -
  from demo_hedger_tick obtain h1 where
    "hedger_on_price demo_hedger 30000 = (Inr [Order_Action \<lparr>or_order_id = 1, or_side = SELL,
       or_order_type = MARKET, or_price_ticks = 0, or_quantity = 50\<rparr>], h1)" by blast
  then have r: "strategy_run hedger_on_price hedger_on_fill demo_hedger [Price 30000, Fill_In demo_fill] =
      Inr ([Order_Action \<lparr>or_order_id = 1, or_side = SELL, or_order_type = MARKET,
        or_price_ticks = 0, or_quantity = 50\<rparr>], hedger_on_fill h1 demo_fill)" by simp
  let ?h = "hedger_on_fill h1 demo_fill"
  have c: "dh_rehedge_count ?h = 1" "dh_my_order_ids ?h = {1}"
    using hedger_run_accounted [OF r [unfolded demo_hedger_def]] by simp_all
  show ?thesis
    by (intro exI conjI) (rule r, simp, rule c(1), rule c(2))
qed

text \<open>A tick that raises, because the connection fails or because the server prices a leg
  with a NaN delta, changes nothing in the hedger but the connection: no id is used, no error
  recorded, no order sent; and a NaN delta always raises \<^verbatim>\<open>ValueError\<close>, whatever the other
  legs are.\<close>

lemma hedger_tick_raises:
  assumes "pricing_ready (dh_pricing_client h)" "- (2 ^ 63) \<le> spot" "spot < 2 ^ 63"
    "wf_float (ob_rate (dh_options_book h))" "list_all leg_in_range (ob_legs (dh_options_book h))"
    "list_all wf_greeks gs" "length gs = length (ob_legs (dh_options_book h))"
    "pricing_stream (dh_pricing_client h) = concat (map rust_encode_response gs) @ rest"
    "hedger_on_price h spot = (r, h')"
  shows "(NaN \<in> gr_delta ` set gs \<longrightarrow> r = Inl ValueError) \<and>
    (r = Inl e \<longrightarrow> h' = h\<lparr>dh_pricing_client := dh_pricing_client h'\<rparr>)"
proof
  from leg_terms_replies [OF assms(1-8), of gr_delta] obtain pc where
    pc: "leg_terms (\<lambda>leg. leg_greek gr_delta leg spot (ob_rate (dh_options_book h)))
      (ob_legs (dh_options_book h)) (dh_pricing_client h) =
      (Inr (map2 (leg_product gr_delta) (ob_legs (dh_options_book h)) gs), pc)" by blast
  show "NaN \<in> gr_delta ` set gs \<longrightarrow> r = Inl ValueError"
  proof
    assume "NaN \<in> gr_delta ` set gs"
    then obtain i where i: "i < length gs" "gr_delta (gs ! i) = NaN"
      by (metis imageE in_set_conv_nth)
    then have "map2 (leg_product gr_delta) (ob_legs (dh_options_book h)) gs ! i = NaN"
      using assms(7) by (simp add: leg_product_NaN)
    then have "NaN \<in> set (map2 (leg_product gr_delta) (ob_legs (dh_options_book h)) gs)"
      using i(1) assms(7) by (metis length_map length_zip min.idem nth_mem)
    then have "py_sum (map2 (leg_product gr_delta) (ob_legs (dh_options_book h)) gs) = PFlt NaN"
      by (rule py_sum_NaN)
    then have "hedge_target h spot = (Inl ValueError, pc)"
      using pc by (simp add: hedge_target_def aggregate_delta_def leg_delta_def)
    with assms(9) show "r = Inl ValueError" by (simp add: hedger_on_price_def)
  qed
  show "r = Inl e \<longrightarrow> h' = h\<lparr>dh_pricing_client := dh_pricing_client h'\<rparr>"
    using hedger_price_cases [OF assms(9)] by (auto simp: Let_def)
qed

lemma hedger_tick_raises_witness:
  "\<exists>h'. hedger_on_price (hedger_init \<lparr>ob_legs = [demo_leg, demo_leg], ob_rate = Fin 0\<rparr>
       (pricing_init [] [Data (rust_encode_response demo_greeks),
          Data (rust_encode_response (demo_greeks\<lparr>gr_delta := NaN\<rparr>))]) 5) 30000 = (Inl ValueError, h') \<and>
     dh_ids h' = 1"
proof -
  let ?gs = "[demo_greeks, demo_greeks\<lparr>gr_delta := NaN\<rparr>]"
  let ?h = "hedger_init \<lparr>ob_legs = [demo_leg, demo_leg], ob_rate = Fin 0\<rparr>
       (pricing_init [] [Data (rust_encode_response demo_greeks),
          Data (rust_encode_response (demo_greeks\<lparr>gr_delta := NaN\<rparr>))]) 5"
  obtain r h' where r: "hedger_on_price ?h 30000 = (r, h')" by (cases "hedger_on_price ?h 30000")
  have wf: "wf_greeks (demo_greeks\<lparr>gr_delta := NaN\<rparr>)"
    using demo_greeks_wf by (simp add: wf_greeks_def)
  have raises: "(NaN \<in> gr_delta ` set ?gs \<longrightarrow> r = Inl ValueError) \<and>
    (r = Inl ValueError \<longrightarrow> h' = ?h\<lparr>dh_pricing_client := dh_pricing_client h'\<rparr>)"
    by (rule hedger_tick_raises [where rest = "[]", OF _ _ _ _ _ _ _ _ r])
      (use demo_leg_ok demo_greeks_wf wf in
        \<open>simp_all add: hedger_init_def pricing_init_def pricing_ready_def\<close>)
  then have v: "r = Inl ValueError" by simp
  with raises have h': "h' = ?h\<lparr>dh_pricing_client := dh_pricing_client h'\<rparr>" by simp
  have "dh_ids h' = 1" by (subst h') (simp add: hedger_init_def)
  with r v show ?thesis by blast
qed

end
