(* ===== verification/HedgeBacktest.thy ===== *)
theory HedgeBacktest
  imports Drivers Hedging
begin

text \<open>
  \<^verbatim>\<open>strategy/run_delta_hedge_backtest.py\<close>: the companion quoter \<^verbatim>\<open>run_quoter\<close> and
  \<^verbatim>\<open>run_hedge_backtest\<close>, which runs the delta hedger over a synthetic feed with its own
  copy of the session loop, marks the futures position and the option book at every tick
  and ends with two reports.  The hedger and the loop share one \<open>PricingClient\<close> object:
  it is kept in the hedger's state and the loop reads and writes it there.  The quoter
  runs in another thread on its own connection; what it does reaches this loop only
  through the order server, so through the script of arrivals.
\<close>

section \<open>The companion quoter\<close>

definition run_quoter ::
  "(int \<Rightarrow> nat \<Rightarrow> nat) \<Rightarrow> (nat \<Rightarrow> pyfloat) \<Rightarrow> OrderBookClient res \<Rightarrow> nat \<Rightarrow> int \<Rightarrow> int \<Rightarrow>
   (unit res \<times> (SyntheticPriceFeed, FixedOffsetQuoter) Session option) option" where
  "run_quoter rng clock connect fuel ticks seed =
     (let feed = synthetic_init 30000 (rng seed) in
      case connect of
        Inl e \<Rightarrow> Some (Inl e, None)
      | Inr client \<Rightarrow>
          (case run_strategy_loop synthetic_next_price quoter_step quoter_on_fill fuel (Some ticks)
                  (to_float False (1 / 100)) (to_float False (1 / 10))
                  (quoter_session feed 1 50 client clock) of
             None \<Rightarrow> None
           | Some (Inl e, s) \<Rightarrow> Some (Inl e, Some s)
           | Some (Inr _, s) \<Rightarrow> Some (Inr (), Some s)))"

section \<open>The hedged loop\<close>

text \<open>The rate 0.03, the vol 0.2 and the expiry 0.25 are binary64 literals.\<close>

definition RATE :: pyfloat where
  "RATE = to_float False (3 / 100)"

definition hedge_leg :: OptionLeg where
  "hedge_leg = \<lparr>ol_strike_ticks = 30000, ol_time_to_expiry_years = Fin (1 / 4),
     ol_vol = to_float False (1 / 5), ol_is_call = True, ol_quantity = 100\<rparr>"

definition hedge_book :: OptionBook where
  "hedge_book = \<lparr>ob_legs = [hedge_leg], ob_rate = RATE\<rparr>"

text \<open>
  The local variables of the loop.  \<open>hb_session\<close> holds the feed, the hedger, the client
  and the log.
\<close>

record HedgeBacktest =
  hb_session :: "(SyntheticPriceFeed, DeltaHedger) Session"
  hb_unhedged_pnl :: "pyfloat list"
  hb_hedged_pnl :: "pyfloat list"
  hb_baseline_value :: "pyfloat option"
  hb_cumulative_futures_pnl :: pyfloat
  hb_prev_price_ticks :: "int option"

definition hedge_start ::
  "SyntheticPriceFeed \<Rightarrow> PricingClient \<Rightarrow> int \<Rightarrow> OrderBookClient \<Rightarrow> (nat \<Rightarrow> pyfloat) \<Rightarrow> HedgeBacktest" where
  "hedge_start feed pricing_client hedge_band client clock =
     \<lparr>hb_session = \<lparr>se_feed = feed, se_strategy = hedger_init hedge_book pricing_client hedge_band,
        se_client = client, se_log = tradelog_init clock\<rparr>,
      hb_unhedged_pnl = [], hb_hedged_pnl = [], hb_baseline_value = None,
      hb_cumulative_futures_pnl = Fin 0, hb_prev_price_ticks = None\<rparr>"

abbreviation hb_hedger :: "HedgeBacktest \<Rightarrow> DeltaHedger" where
  "hb_hedger b \<equiv> se_strategy (hb_session b)"

text \<open>\<^verbatim>\<open>cumulative_futures_pnl += position * ((price_ticks - prev_price_ticks) * 0.25)\<close>.\<close>

definition mark_futures :: "int \<Rightarrow> HedgeBacktest \<Rightarrow> pyfloat res" where
  "mark_futures price_ticks b =
     (case hb_prev_price_ticks b of
        None \<Rightarrow> Inr (hb_cumulative_futures_pnl b)
      | Some prev \<Rightarrow>
          res_bind (fmul_int (Fin (1 / 4)) (price_ticks - prev)) (\<lambda>price_move_points.
          res_bind (fmul_int price_move_points (current_futures_position (hb_hedger b))) (\<lambda>gain.
          Inr (fadd (hb_cumulative_futures_pnl b) gain))))"

text \<open>The value of a book with a leg is a float; the int 0 of an empty one does not occur here.\<close>

fun book_float :: "pynum \<Rightarrow> pyfloat" where
  "book_float (PFlt x) = x"
| "book_float (PInt n) = Fin (of_int n)"

definition mark_book :: "int \<Rightarrow> HedgeBacktest \<Rightarrow> unit res \<times> HedgeBacktest" where
  "mark_book price_ticks b =
     (let h = hb_hedger b in
      case aggregate_value (dh_options_book h) price_ticks (dh_pricing_client h) of
        (Inl e, pc) \<Rightarrow> (Inl e, b\<lparr>hb_session := (hb_session b)\<lparr>se_strategy := h\<lparr>dh_pricing_client := pc\<rparr>\<rparr>\<rparr>)
      | (Inr v, pc) \<Rightarrow>
          (let book_value = book_float v;
               baseline = (case hb_baseline_value b of None \<Rightarrow> book_value | Some v0 \<Rightarrow> v0);
               pnl = fsub book_value baseline in
           (Inr (), b\<lparr>hb_session := (hb_session b)\<lparr>se_strategy := h\<lparr>dh_pricing_client := pc\<rparr>\<rparr>,
              hb_baseline_value := Some baseline,
              hb_unhedged_pnl := hb_unhedged_pnl b @ [pnl],
              hb_hedged_pnl := hb_hedged_pnl b @ [fadd pnl (hb_cumulative_futures_pnl b)]\<rparr>)))"

text \<open>The loop reads \<^verbatim>\<open>action.order_type\<close> of every action; a \<open>CancelRequest\<close> has none.\<close>

fun hedge_action :: "StrategyAction \<Rightarrow> ('f, 's) Session \<Rightarrow> unit res \<times> ('f, 's) Session" where
  "hedge_action (Cancel_Action r) s = (Inl AttributeError, s)"
| "hedge_action (Order_Action r) s = do_action (Order_Action r) s"

fun hedge_actions :: "StrategyAction list \<Rightarrow> ('f, 's) Session \<Rightarrow> unit res \<times> ('f, 's) Session" where
  "hedge_actions [] s = (Inr (), s)"
| "hedge_actions (a # as) s =
     (case hedge_action a s of
        (Inl e, s') \<Rightarrow> (Inl e, s')
      | (Inr _, s') \<Rightarrow> hedge_actions as s')"

definition hedge_trade ::
  "int \<Rightarrow> (SyntheticPriceFeed, DeltaHedger) Session \<Rightarrow> unit res \<times> (SyntheticPriceFeed, DeltaHedger) Session" where
  "hedge_trade price_ticks s =
     (case hedger_on_price (se_strategy s) price_ticks of
        (Inl e, h) \<Rightarrow> (Inl e, s\<lparr>se_strategy := h\<rparr>)
      | (Inr actions, h) \<Rightarrow>
          (case hedge_actions actions (s\<lparr>se_strategy := h\<rparr>) of
             (Inl e, s') \<Rightarrow> (Inl e, s')
           | (Inr _, s') \<Rightarrow>
               (case poll_and_drain hedger_on_fill default_tick_poll_timeout s' of
                  (Inl e, s'') \<Rightarrow> (Inl e, s'')
                | (Inr _, s'') \<Rightarrow> (Inr (), s''))))"

definition hedge_tick :: "HedgeBacktest \<Rightarrow> unit res \<times> HedgeBacktest" where
  "hedge_tick b =
     (case synthetic_next_price (se_feed (hb_session b)) of
        (Inl e, f) \<Rightarrow> (Inl e, b\<lparr>hb_session := (hb_session b)\<lparr>se_feed := f\<rparr>\<rparr>)
      | (Inr price_ticks, f) \<Rightarrow>
          (let b0 = b\<lparr>hb_session := (hb_session b)\<lparr>se_feed := f\<rparr>\<rparr> in
           case mark_futures price_ticks b0 of
             Inl e \<Rightarrow> (Inl e, b0)
           | Inr cumulative \<Rightarrow>
               (case mark_book price_ticks (b0\<lparr>hb_cumulative_futures_pnl := cumulative\<rparr>) of
                  (Inl e, b1) \<Rightarrow> (Inl e, b1)
                | (Inr _, b1) \<Rightarrow>
                    (case hedge_trade price_ticks (hb_session b1) of
                       (Inl e, s) \<Rightarrow> (Inl e, b1\<lparr>hb_session := s\<rparr>)
                     | (Inr _, s) \<Rightarrow>
                         (Inr (), b1\<lparr>hb_session := s, hb_prev_price_ticks := Some price_ticks\<rparr>)))))"

fun hedge_loop :: "nat \<Rightarrow> HedgeBacktest \<Rightarrow> unit res \<times> HedgeBacktest" where
  "hedge_loop 0 b = (Inr (), b)"
| "hedge_loop (Suc n) b =
     (case hedge_tick b of
        (Inl e, b') \<Rightarrow> (Inl e, b')
      | (Inr _, b') \<Rightarrow> hedge_loop n b')"

text \<open>The \<^verbatim>\<open>finally\<close> block: both connections are closed.\<close>

definition close_hedge :: "HedgeBacktest \<Rightarrow> HedgeBacktest" where
  "close_hedge b =
     (let s = close_session (hb_session b); h = se_strategy s in
      b\<lparr>hb_session := s\<lparr>se_strategy := h\<lparr>dh_pricing_client := pricing_close (dh_pricing_client h)\<rparr>\<rparr>\<rparr>)"

definition run_hedge_backtest ::
  "(int \<Rightarrow> nat \<Rightarrow> nat) \<Rightarrow> (int \<Rightarrow> pyfloat res) \<Rightarrow> (nat \<Rightarrow> pyfloat) \<Rightarrow> PricingClient res \<Rightarrow>
   OrderBookClient res \<Rightarrow> int \<Rightarrow> int \<Rightarrow> int \<Rightarrow>
   (TradeLog \<times> BacktestReport \<times> HedgeReport) res \<times> HedgeBacktest option" where
  "run_hedge_backtest rng power_half clock pricing connect ticks seed hedge_band =
     (case pricing of
        Inl e \<Rightarrow> (Inl e, None)
      | Inr pricing_client \<Rightarrow>
          (case connect of
             Inl e \<Rightarrow> (Inl e, None)
           | Inr client \<Rightarrow>
               (case hedge_loop (nat ticks)
                       (hedge_start (synthetic_init 30000 (rng seed)) pricing_client hedge_band client clock) of
                  (Inl e, b) \<Rightarrow> (Inl e, Some (close_hedge b))
                | (Inr _, b) \<Rightarrow>
                    (case final_drain hedger_on_fill default_final_drain_timeout (hb_session b) of
                       (Inl e, s) \<Rightarrow> (Inl e, Some (close_hedge (b\<lparr>hb_session := s\<rparr>)))
                     | (Inr _, s) \<Rightarrow>
                         (let b' = close_hedge (b\<lparr>hb_session := s\<rparr>); h = hb_hedger b' in
                          (res_bind (build_report (log_rows (se_log (hb_session b'))) (power_half 252)) (\<lambda>backtest_report.
                           res_bind (build_hedge_report (hedge_error_history h) (rehedge_count h)
                              (hb_hedged_pnl b') (hb_unhedged_pnl b')) (\<lambda>hedge_report.
                           Inr (se_log (hb_session b'), backtest_report, hedge_report))), Some b'))))))"

text \<open>The figures \<^verbatim>\<open>main\<close> prints, unformatted, in the order of its lines.\<close>

definition main_hedge_backtest ::
  "(int \<Rightarrow> nat \<Rightarrow> nat) \<Rightarrow> (int \<Rightarrow> pyfloat res) \<Rightarrow> (nat \<Rightarrow> pyfloat) \<Rightarrow> PricingClient res \<Rightarrow>
   OrderBookClient res \<Rightarrow> int \<Rightarrow> int \<Rightarrow> int \<Rightarrow>
   (nat \<times> nat \<times> mean_value \<times> pyfloat \<times> pyfloat \<times> pyfloat \<times> pyfloat) res" where
  "main_hedge_backtest rng power_half clock pricing connect ticks seed hedge_band =
     res_bind (fst (run_hedge_backtest rng power_half clock pricing connect ticks seed hedge_band))
       (\<lambda>(tlog, backtest_report, hedge_report).
     res_bind (count_events ''fill'' (log_rows tlog)) (\<lambda>fills.
     Inr (hr_rehedge_count hedge_report, fills, hr_mean_abs_hedge_error_contracts hedge_report,
       hr_hedged_pnl_variance hedge_report, hr_unhedged_pnl_variance hedge_report,
       hr_variance_reduction_pct hedge_report, br_sharpe_ratio backtest_report)))"

section \<open>Lemmas\<close>

subsection \<open>The loop does what the session loop does\<close>

lemma hedge_actions_orders: "cancel_ids as = [] \<Longrightarrow> hedge_actions as s = do_actions as s"
  by (induction as arbitrary: s rule: cancel_ids.induct) (auto split: prod.splits sum.splits)

lemma hedger_no_cancels: "hedger_on_price h p = (Inr as, h') \<Longrightarrow> cancel_ids as = []"
  by (drule hedger_price_cases) (auto simp: Let_def)

lemma hedge_trade_session_tick:
  "hedge_trade p s = session_tick hedger_on_price hedger_on_fill default_tick_poll_timeout p s"
proof (cases "hedger_on_price (se_strategy s) p")
  case (Pair r h)
  then show ?thesis
    by (cases r) (auto simp: hedge_trade_def session_tick_def hedge_actions_orders dest: hedger_no_cancels)
qed

lemma hedge_loop_Suc:
  "hedge_loop (Suc n) b = (case hedge_loop n b of (Inl e, b') \<Rightarrow> (Inl e, b') | (Inr _, b') \<Rightarrow> hedge_tick b')"
proof (induction n arbitrary: b)
  case 0
  show ?case by (auto split: prod.splits sum.splits)
next
  case (Suc n)
  obtain r b1 where t: "hedge_tick b = (r, b1)" by (cases "hedge_tick b")
  show ?case
  proof (cases r)
    case (Inl e)
    with t show ?thesis by simp
  next
    case (Inr u)
    have "hedge_loop (Suc (Suc n)) b = hedge_loop (Suc n) b1" using t Inr by simp
    also have "\<dots> = (case hedge_loop n b1 of (Inl e, b') \<Rightarrow> (Inl e, b') | (Inr _, b') \<Rightarrow> hedge_tick b')"
      by (rule Suc.IH)
    also have "hedge_loop n b1 = hedge_loop (Suc n) b" using t Inr by simp
    finally show ?thesis .
  qed
qed

text \<open>The session a tick trades on: the feed has moved and the pricing client was used.\<close>

definition priced :: "SyntheticPriceFeed \<Rightarrow> PricingClient \<Rightarrow> (SyntheticPriceFeed, DeltaHedger) Session \<Rightarrow>
    (SyntheticPriceFeed, DeltaHedger) Session" where
  "priced f pc s = s\<lparr>se_feed := f, se_strategy := (se_strategy s)\<lparr>dh_pricing_client := pc\<rparr>\<rparr>"

lemma priced_simps [simp]:
  "se_feed (priced f pc s) = f" "se_log (priced f pc s) = se_log s" "se_client (priced f pc s) = se_client s"
  "se_strategy (priced f pc s) = (se_strategy s)\<lparr>dh_pricing_client := pc\<rparr>"
  by (simp_all add: priced_def)

lemma audit_priced [simp]: "audit (priced f pc s) acts evs t = audit s acts evs t"
  by (simp add: audit_def)

lemma audit_unchanged:
  "se_log t = se_log s \<Longrightarrow> se_client t = se_client s \<Longrightarrow> audit s [] [] t"
  by (simp add: audit_def)

lemma mark_futures_feed [simp]: "mark_futures p (b\<lparr>hb_session := (hb_session b)\<lparr>se_feed := f\<rparr>\<rparr>) = mark_futures p b"
  by (cases "hb_prev_price_ticks b") (simp_all add: mark_futures_def)

lemma mark_book_cases:
  assumes "mark_book p b = (r, b')"
  shows "\<exists>pc. hb_session b' = priced (se_feed (hb_session b)) pc (hb_session b) \<and>
    hb_prev_price_ticks b' = hb_prev_price_ticks b \<and>
    hb_cumulative_futures_pnl b' = hb_cumulative_futures_pnl b \<and>
    (r = Inr () \<longrightarrow> (\<exists>v. let base = (case hb_baseline_value b of None \<Rightarrow> v | Some v0 \<Rightarrow> v0) in
      hb_baseline_value b' = Some base \<and> hb_unhedged_pnl b' = hb_unhedged_pnl b @ [fsub v base] \<and>
      hb_hedged_pnl b' = hb_hedged_pnl b @ [fadd (fsub v base) (hb_cumulative_futures_pnl b)]))"
proof -
  obtain q pc where q: "aggregate_value (dh_options_book (hb_hedger b)) p (dh_pricing_client (hb_hedger b)) = (q, pc)"
    by (cases "aggregate_value (dh_options_book (hb_hedger b)) p (dh_pricing_client (hb_hedger b))")
  have s: "(hb_session b)\<lparr>se_strategy := (hb_hedger b)\<lparr>dh_pricing_client := pc\<rparr>\<rparr> =
      priced (se_feed (hb_session b)) pc (hb_session b)" by (simp add: priced_def)
  show ?thesis
    using assms q s by (cases q) (auto simp: mark_book_def Let_def intro!: exI [of _ pc])
qed

lemma hedge_tick_cases:
  assumes "hedge_tick b = (r, b')"
  obtains p f where "synthetic_next_price (se_feed (hb_session b)) = (Inr p, f)"
    "(\<exists>e. r = Inl e \<and> se_log (hb_session b') = se_log (hb_session b) \<and>
          se_client (hb_session b') = se_client (hb_session b)) \<or>
     (\<exists>cum pc v. let base = (case hb_baseline_value b of None \<Rightarrow> v | Some v0 \<Rightarrow> v0) in
        mark_futures p b = Inr cum \<and>
        session_tick hedger_on_price hedger_on_fill default_tick_poll_timeout p (priced f pc (hb_session b)) =
          (r, hb_session b') \<and>
        (r = Inr () \<longrightarrow> hb_prev_price_ticks b' = Some p \<and> hb_cumulative_futures_pnl b' = cum \<and>
             hb_baseline_value b' = Some base \<and> hb_unhedged_pnl b' = hb_unhedged_pnl b @ [fsub v base] \<and>
             hb_hedged_pnl b' = hb_hedged_pnl b @ [fadd (fsub v base) cum]))"
proof -
  obtain p f where f: "synthetic_next_price (se_feed (hb_session b)) = (Inr p, f)"
    by (simp add: synthetic_next_price_def Let_def)
  let ?b0 = "b\<lparr>hb_session := (hb_session b)\<lparr>se_feed := f\<rparr>\<rparr>"
  note that = that [OF f]
  show ?thesis
  proof (cases "mark_futures p b")
    case (Inl e)
    with assms f show ?thesis by (intro that) (auto simp: hedge_tick_def Let_def)
  next
    case cum: (Inr cum)
    obtain q1 b1 where m: "mark_book p (?b0\<lparr>hb_cumulative_futures_pnl := cum\<rparr>) = (q1, b1)"
      by (cases "mark_book p (?b0\<lparr>hb_cumulative_futures_pnl := cum\<rparr>)")
    from mark_book_cases [OF m] obtain pc where pc: "hb_session b1 = priced f pc (hb_session ?b0)"
      "hb_prev_price_ticks b1 = hb_prev_price_ticks b" "hb_cumulative_futures_pnl b1 = cum" by auto
    then have s1: "hb_session b1 = priced f pc (hb_session b)" by (simp add: priced_def)
    show ?thesis
    proof (cases q1)
      case (Inl e)
      with assms f cum m s1 show ?thesis by (intro that) (auto simp: hedge_tick_def Let_def)
    next
      case (Inr u)
      with mark_book_cases [OF m] obtain v where
        v: "hb_baseline_value b1 = Some (case hb_baseline_value b of None \<Rightarrow> v | Some v0 \<Rightarrow> v0)"
        "hb_unhedged_pnl b1 = hb_unhedged_pnl b @ [fsub v (case hb_baseline_value b of None \<Rightarrow> v | Some v0 \<Rightarrow> v0)]"
        "hb_hedged_pnl b1 = hb_hedged_pnl b @
           [fadd (fsub v (case hb_baseline_value b of None \<Rightarrow> v | Some v0 \<Rightarrow> v0)) cum]"
        by (auto simp: Let_def)
      obtain q s where t: "hedge_trade p (hb_session b1) = (q, s)" by (cases "hedge_trade p (hb_session b1)")
      have b': "b' = (case q of Inl e \<Rightarrow> b1\<lparr>hb_session := s\<rparr>
          | Inr _ \<Rightarrow> b1\<lparr>hb_session := s, hb_prev_price_ticks := Some p\<rparr>)"
        "r = (case q of Inl e \<Rightarrow> Inl e | Inr _ \<Rightarrow> Inr ())"
        using assms f cum m Inr t by (auto simp: hedge_tick_def Let_def split: sum.splits)
      have "session_tick hedger_on_price hedger_on_fill default_tick_poll_timeout p (priced f pc (hb_session b)) = (q, s)"
        using t s1 by (simp add: hedge_trade_session_tick)
      then show ?thesis
        using b' cum v pc(3)
        by (intro that disjI2 exI [of _ cum] exI [of _ pc] exI [of _ v])
          (auto simp: Let_def split: sum.splits)
    qed
  qed
qed

subsection \<open>What every tick keeps\<close>

lemma hedge_tick_session:
  assumes "hedge_tick b = (r, b')"
  shows "(se_log (hb_session b') = se_log (hb_session b) \<and> se_client (hb_session b') = se_client (hb_session b)) \<or>
     (\<exists>p f pc. session_tick hedger_on_price hedger_on_fill default_tick_poll_timeout p (priced f pc (hb_session b)) =
          (r, hb_session b'))"
proof (rule hedge_tick_cases [OF assms], elim disjE exE)
  fix p f cum pc v
  assume "let base = (case hb_baseline_value b of None \<Rightarrow> v | Some v0 \<Rightarrow> v0) in
        mark_futures p b = Inr cum \<and>
        session_tick hedger_on_price hedger_on_fill default_tick_poll_timeout p (priced f pc (hb_session b)) =
          (r, hb_session b') \<and>
        (r = Inr () \<longrightarrow> hb_prev_price_ticks b' = Some p \<and> hb_cumulative_futures_pnl b' = cum \<and>
             hb_baseline_value b' = Some base \<and> hb_unhedged_pnl b' = hb_unhedged_pnl b @ [fsub v base] \<and>
             hb_hedged_pnl b' = hb_hedged_pnl b @ [fadd (fsub v base) cum])"
  then have "session_tick hedger_on_price hedger_on_fill default_tick_poll_timeout p (priced f pc (hb_session b)) =
          (r, hb_session b')" by (simp only: Let_def)
  then show ?thesis by blast
qed blast

lemma hedge_tick_audit:
  assumes "hedge_tick b = (r, b')"
  shows "\<exists>acts evs. audit (hb_session b) acts evs (hb_session b')"
  using hedge_tick_session [OF assms]
proof (elim disjE conjE exE)
  assume "se_log (hb_session b') = se_log (hb_session b)" "se_client (hb_session b') = se_client (hb_session b)"
  then have "audit (hb_session b) [] [] (hb_session b')" by (rule audit_unchanged)
  then show ?thesis by blast
next
  fix p f pc
  assume "session_tick hedger_on_price hedger_on_fill default_tick_poll_timeout p (priced f pc (hb_session b)) =
          (r, hb_session b')"
  from session_tick_audit [OF this] show ?thesis by auto
qed

lemma hedge_loop_audit:
  "hedge_loop n b = (r, b') \<Longrightarrow> \<exists>acts evs. audit (hb_session b) acts evs (hb_session b')"
proof (induction n arbitrary: b)
  case (Suc n)
  obtain q b1 where t: "hedge_tick b = (q, b1)" by (cases "hedge_tick b")
  from hedge_tick_audit [OF t] obtain a1 e1 where a1: "audit (hb_session b) a1 e1 (hb_session b1)" by blast
  show ?case
  proof (cases q)
    case (Inl e)
    with Suc.prems t a1 show ?thesis by auto
  next
    case (Inr u)
    with Suc.prems t have "hedge_loop n b1 = (r, b')" by simp
    from Suc.IH [OF this] audit_trans [OF a1] show ?thesis by blast
  qed
qed (auto intro!: exI [of _ "[]"])


text \<open>After n ticks that returned.\<close>

definition hedge_inv :: "SyntheticPriceFeed \<Rightarrow> nat \<Rightarrow> StrategyAction list \<Rightarrow> HedgeBacktest \<Rightarrow> bool" where
  "hedge_inv feed n acts b \<longleftrightarrow>
     hedger_inv (hb_hedger b) \<and> order_ids acts = [1..dh_ids (hb_hedger b) - 1] \<and> cancel_ids acts = [] \<and>
     length (dh_hedge_error_history (hb_hedger b)) = n \<and>
     length (hb_unhedged_pnl b) = n \<and> length (hb_hedged_pnl b) = n \<and>
     (\<forall>m. synthetic_prices (n + m) feed =
        synthetic_prices n feed @ synthetic_prices m (se_feed (hb_session b))) \<and>
     hb_prev_price_ticks b = (if n = 0 then None else Some (synthetic_prices n feed ! (n - 1)))"

lemma hedger_inv_pricing [simp]: "hedger_inv (h\<lparr>dh_pricing_client := pc\<rparr>) = hedger_inv h"
  by (simp add: hedger_inv_def)

lemma hedge_inv_tick:
  assumes "hedge_inv feed n acts b" "hedge_tick b = (Inr (), b')"
  shows "\<exists>acts' evs'. audit (hb_session b) acts' evs' (hb_session b') \<and> hedge_inv feed (Suc n) (acts @ acts') b' \<and>
    mark_futures (synthetic_prices (Suc n) feed ! n) b = Inr (hb_cumulative_futures_pnl b') \<and>
    (\<exists>v. let base = (case hb_baseline_value b of None \<Rightarrow> v | Some v0 \<Rightarrow> v0) in
      hb_baseline_value b' = Some base \<and> hb_unhedged_pnl b' = hb_unhedged_pnl b @ [fsub v base] \<and>
      hb_hedged_pnl b' = hb_hedged_pnl b @ [fadd (fsub v base) (hb_cumulative_futures_pnl b')])"
proof -
  obtain p f pc v where f: "synthetic_next_price (se_feed (hb_session b)) = (Inr p, f)" and
    tick: "session_tick hedger_on_price hedger_on_fill default_tick_poll_timeout p (priced f pc (hb_session b)) =
      (Inr (), hb_session b')" and
    marks: "mark_futures p b = Inr (hb_cumulative_futures_pnl b')" "hb_prev_price_ticks b' = Some p"
      "let base = (case hb_baseline_value b of None \<Rightarrow> v | Some v0 \<Rightarrow> v0) in
      hb_baseline_value b' = Some base \<and> hb_unhedged_pnl b' = hb_unhedged_pnl b @ [fsub v base] \<and>
      hb_hedged_pnl b' = hb_hedged_pnl b @ [fadd (fsub v base) (hb_cumulative_futures_pnl b')]"
    by (rule hedge_tick_cases [OF assms(2)]) (auto simp: Let_def split: sum.splits)
  from session_tick_audit [OF tick] obtain acts' evs' where
    a: "audit (priced f pc (hb_session b)) acts' evs' (hb_session b')" and
    fd: "se_feed (hb_session b') = f" and
    run: "strategy_run hedger_on_price hedger_on_fill ((hb_hedger b)\<lparr>dh_pricing_client := pc\<rparr>)
      (Price p # map Fill_In (fills_of evs')) = Inr (acts', hb_hedger b')"
    by auto
  have i: "hedger_inv ((hb_hedger b)\<lparr>dh_pricing_client := pc\<rparr>)" using assms(1) by (simp add: hedge_inv_def)
  have ids: "order_ids acts' = [dh_ids (hb_hedger b)..dh_ids (hb_hedger b') - 1]"
      "dh_ids (hb_hedger b) \<le> dh_ids (hb_hedger b')"
    using hedger_source.run_ids [OF i run] by simp_all
  have hist: "length (dh_hedge_error_history (hb_hedger b')) = Suc n" "cancel_ids acts' = []"
    using hedger_run_counts [OF i run] assms(1) by (simp_all add: hedge_inv_def o_def)
  have "1 \<le> dh_ids (hb_hedger b)" using assms(1) by (simp add: hedge_inv_def hedger_inv_def)
  then have "[1..dh_ids (hb_hedger b') - 1] = order_ids acts @ order_ids acts'"
    using assms(1) ids upto_split1 [of 1 "dh_ids (hb_hedger b)" "dh_ids (hb_hedger b') - 1"]
    by (cases "dh_ids (hb_hedger b) \<le> dh_ids (hb_hedger b') - 1") (auto simp: hedge_inv_def)
  note ids' = this
  have sp: "synthetic_prices (n + Suc m) feed = synthetic_prices n feed @ p # synthetic_prices m f" for m
  proof -
    have "synthetic_prices (n + Suc m) feed =
        synthetic_prices n feed @ synthetic_prices (Suc m) (se_feed (hb_session b))"
      using assms(1) unfolding hedge_inv_def by blast
    with f show ?thesis by simp
  qed
  have "synthetic_prices (Suc n) feed = synthetic_prices n feed @ [p]" using sp [of 0] by simp
  then have p: "synthetic_prices (Suc n) feed ! n = p" and
    sp': "synthetic_prices (Suc n + m) feed = synthetic_prices (Suc n) feed @ synthetic_prices m f" for m
    using sp [of m] by (simp_all add: nth_append)
  have "hedge_inv feed (Suc n) (acts @ acts') b'"
    using assms(1) hedger_source.run_inv [OF i run] ids' hist marks(2,3) sp' p fd
    by (simp add: hedge_inv_def Let_def)
  moreover have "audit (hb_session b) acts' evs' (hb_session b')" using a by simp
  ultimately show ?thesis
    unfolding p using marks(1,3) by (intro exI [of _ acts'] exI [of _ evs'] conjI exI [of _ v])
qed

lemma hedge_inv_start: "hedge_inv feed 0 [] (hedge_start feed pc band client clock)"
  by (simp add: hedge_inv_def hedge_start_def hedger_init_def hedger_inv_def)

lemma hedge_loop_inv:
  assumes "hedge_loop n (hedge_start feed pc band client clock) = (Inr (), b)"
  shows "\<exists>acts evs. audit (hb_session (hedge_start feed pc band client clock)) acts evs (hb_session b) \<and>
    hedge_inv feed n acts b"
  using assms
proof (induction n arbitrary: b)
  case 0
  then show ?case using hedge_inv_start by (auto intro!: exI [of _ "[]"])
next
  case (Suc n)
  then obtain b1 where b1: "hedge_loop n (hedge_start feed pc band client clock) = (Inr (), b1)"
    and t: "hedge_tick b1 = (Inr (), b)"
    by (auto simp: hedge_loop_Suc simp del: hedge_loop.simps split: prod.splits sum.splits)
  from Suc.IH [OF b1] obtain acts evs where i: "audit (hb_session (hedge_start feed pc band client clock)) acts evs (hb_session b1)"
    "hedge_inv feed n acts b1" by blast
  from hedge_inv_tick [OF i(2) t] audit_trans [OF i(1)] show ?case by blast
qed


subsection \<open>Attribution of the futures profit\<close>

lemma fmul_int_grid:
  assumes "- 1074 \<le> e" "e \<le> 970" "is_finite x" "fval x = of_int a * pow2 e" "\<bar>n\<bar> \<le> 2 ^ 53" "\<bar>a * n\<bar> \<le> 2 ^ 53"
  shows "\<exists>y. fmul_int x n = Inr y \<and> is_finite y \<and> fval y = of_int (a * n) * pow2 e"
proof -
  have e: "exact (of_int (a * n) * pow2 e)" using assms by (intro grid_exact) auto
  have v: "fval x * of_int n = of_int (a * n) * pow2 e" using assms(4) by simp
  have "is_finite (fmul x (Fin (of_int n))) \<and> fval (fmul x (Fin (of_int n))) = of_int (a * n) * pow2 e"
    using fmul_finite [of x "Fin (of_int n)"] e v assms(3) by (simp add: exact_def)
  with assms(5) show ?thesis by (simp add: fmul_int_def)
qed

lemma fadd_grid:
  assumes "- 1074 \<le> e" "e \<le> 970" "is_finite x" "fval x = of_int a * pow2 e" "is_finite y" "fval y = of_int b * pow2 e"
    "\<bar>a + b\<bar> \<le> 2 ^ 53"
  shows "is_finite (fadd x y) \<and> fval (fadd x y) = of_int (a + b) * pow2 e"
proof -
  have "exact (of_int (a + b) * pow2 e)" using assms by (intro grid_exact) auto
  moreover have "fval x + fval y = of_int (a + b) * pow2 e" using assms(4,6) by (simp add: algebra_simps)
  ultimately show ?thesis using fadd_finite [of x y] assms(3,5) by (simp add: exact_def)
qed

lemma mark_futures_exact:
  assumes "hb_prev_price_ticks b = Some q" "is_finite (hb_cumulative_futures_pnl b)"
    "fval (hb_cumulative_futures_pnl b) = of_int c * pow2 (- 2)"
    "\<bar>p - q\<bar> \<le> 2" "\<bar>dh_current_futures_position (hb_hedger b)\<bar> \<le> 2 ^ 52"
    "\<bar>c + dh_current_futures_position (hb_hedger b) * (p - q)\<bar> \<le> 2 ^ 53"
  shows "\<exists>y. mark_futures p b = Inr y \<and> is_finite y \<and>
    fval y = of_int (c + dh_current_futures_position (hb_hedger b) * (p - q)) * pow2 (- 2)"
proof -
  let ?n = "dh_current_futures_position (hb_hedger b)"
  have quarter: "fval (Fin (1 / 4)) = of_int 1 * pow2 (- 2)" by (simp add: pow2_eval)
  obtain m where m: "fmul_int (Fin (1 / 4)) (p - q) = Inr m" "is_finite m" "fval m = of_int (p - q) * pow2 (- 2)"
    using fmul_int_grid [OF _ _ _ quarter, of "p - q"] assms(4) by auto
  have "\<bar>(p - q) * ?n\<bar> \<le> 2 * 2 ^ 52"
    unfolding abs_mult using assms(4,5) by (intro mult_mono) auto
  then obtain g where g: "fmul_int m ?n = Inr g" "is_finite g" "fval g = of_int ((p - q) * ?n) * pow2 (- 2)"
    using fmul_int_grid [OF _ _ m(2,3), of ?n] assms(5) by auto
  have "is_finite (fadd (hb_cumulative_futures_pnl b) g) \<and>
    fval (fadd (hb_cumulative_futures_pnl b) g) = of_int (c + (p - q) * ?n) * pow2 (- 2)"
    using fadd_grid [OF _ _ assms(2,3) g(2,3)] assms(6) by (simp add: mult.commute)
  with m(1) g(1) assms(1) show ?thesis by (simp add: mark_futures_def mult.commute)
qed

lemma synthetic_prices_nth:
  "i < n \<Longrightarrow> synthetic_prices n f ! i = synthetic_prices (Suc i) f ! i"
proof (induction n f arbitrary: i rule: synthetic_prices.induct)
  case (2 n f)
  then show ?case by (cases i) (auto split: prod.splits sum.splits)
qed simp

text \<open>Price of tick i, state after n ticks, and the position then.\<close>

definition tick_price :: "SyntheticPriceFeed \<Rightarrow> nat \<Rightarrow> int" where
  "tick_price feed i = synthetic_prices (Suc i) feed ! i"

definition after_ticks :: "nat \<Rightarrow> HedgeBacktest \<Rightarrow> HedgeBacktest" where
  "after_ticks n b = snd (hedge_loop n b)"

definition position_after :: "nat \<Rightarrow> HedgeBacktest \<Rightarrow> int" where
  "position_after n b = dh_current_futures_position (hb_hedger (after_ticks n b))"

text \<open>In quarters of a point: the position before each tick times the move to it.\<close>

definition futures_gain :: "SyntheticPriceFeed \<Rightarrow> HedgeBacktest \<Rightarrow> nat \<Rightarrow> int" where
  "futures_gain feed b i =
     (\<Sum>j\<in>{1..i}. position_after j b * (tick_price feed j - tick_price feed (j - 1)))"

lemma tick_price_step:
  assumes "\<And>k. sf_rng feed k < 5" "0 < j"
  shows "\<bar>tick_price feed j - tick_price feed (j - 1)\<bar> \<le> 2"
proof -
  have "tick_price feed (j - 1) = synthetic_prices (Suc j) feed ! (j - 1)"
    using assms(2) synthetic_prices_nth [of "j - 1" "Suc j" feed] by (simp add: tick_price_def)
  with synthetic_prices_bounds [of feed j "Suc j"] assms show ?thesis by (simp add: tick_price_def)
qed

lemma futures_gain_bound:
  assumes "\<And>k. sf_rng feed k < 5" "\<And>j. j \<le> i \<Longrightarrow> \<bar>position_after j b\<bar> \<le> Q" "0 \<le> Q"
  shows "\<bar>futures_gain feed b i\<bar> \<le> 2 * int i * Q"
proof -
  have "\<bar>position_after j b * (tick_price feed j - tick_price feed (j - 1))\<bar> \<le> Q * 2" if "j \<in> {1..i}" for j
    unfolding abs_mult using that assms(2) [of j] tick_price_step [OF assms(1), of j] assms(3)
    by (intro mult_mono) auto
  then have "(\<Sum>j\<in>{1..i}. \<bar>position_after j b * (tick_price feed j - tick_price feed (j - 1))\<bar>) \<le> (\<Sum>j\<in>{1..i}. Q * 2)"
    by (rule sum_mono)
  moreover have "\<bar>futures_gain feed b i\<bar> \<le>
      (\<Sum>j\<in>{1..i}. \<bar>position_after j b * (tick_price feed j - tick_price feed (j - 1))\<bar>)"
    unfolding futures_gain_def by (rule sum_abs)
  ultimately show ?thesis by (simp add: algebra_simps)
qed

lemma futures_gain_0 [simp]: "futures_gain feed b 0 = 0"
  by (simp add: futures_gain_def)

lemma futures_gain_Suc: "futures_gain feed b (Suc i) =
    futures_gain feed b i + position_after (Suc i) b * (tick_price feed (Suc i) - tick_price feed i)"
  by (simp add: futures_gain_def)

lemma after_ticks_loop [simp]: "hedge_loop n b = (r, b') \<Longrightarrow> after_ticks n b = b'"
  by (simp add: after_ticks_def)


lemma hedge_attribution:
  assumes "\<And>k. sf_rng feed k < 5"
    "hedge_loop n (hedge_start feed pc band client clock) = (Inr (), b)"
    "\<And>j. j < n \<Longrightarrow> \<bar>position_after j (hedge_start feed pc band client clock)\<bar> \<le> Q" "0 \<le> Q"
    "2 * int n * Q \<le> 2 ^ 52"
  defines "b0 \<equiv> hedge_start feed pc band client clock"
  shows "is_finite (hb_cumulative_futures_pnl b) \<and>
    fval (hb_cumulative_futures_pnl b) = of_int (futures_gain feed b0 (n - 1)) * pow2 (- 2) \<and>
    (\<exists>values. length values = n \<and> hb_baseline_value b = (if n = 0 then None else Some (values ! 0)) \<and>
      (\<forall>i<n. hb_unhedged_pnl b ! i = fsub (values ! i) (values ! 0) \<and>
        hb_hedged_pnl b ! i = fadd (hb_unhedged_pnl b ! i) (hb_cumulative_futures_pnl (after_ticks (Suc i) b0)) \<and>
        is_finite (hb_cumulative_futures_pnl (after_ticks (Suc i) b0)) \<and>
        fval (hb_cumulative_futures_pnl (after_ticks (Suc i) b0)) = of_int (futures_gain feed b0 i) * pow2 (- 2)))"
  using assms(2,3,5)
proof (induction n arbitrary: b)
  case 0
  then have "b = hedge_start feed pc band client clock" by simp
  then show ?case by (simp add: hedge_start_def)
next
  case (Suc n)
  then obtain b1 where b1: "hedge_loop n b0 = (Inr (), b1)" and t: "hedge_tick b1 = (Inr (), b)"
    by (auto simp: hedge_loop_Suc b0_def simp del: hedge_loop.simps split: prod.splits sum.splits)
  have q: "2 * int n * Q \<le> 2 ^ 52" "2 * (1 + int n) * Q \<le> 2 ^ 52"
    using Suc.prems(3) assms(4) by (simp_all add: algebra_simps)
  note ih = Suc.IH [OF b1 [unfolded b0_def] Suc.prems(2) q(1), folded b0_def, simplified]
  from ih obtain vs where vs: "length vs = n" "hb_baseline_value b1 = (if n = 0 then None else Some (vs ! 0))"
    "\<And>i. i < n \<Longrightarrow> hb_unhedged_pnl b1 ! i = fsub (vs ! i) (vs ! 0) \<and>
        hb_hedged_pnl b1 ! i = fadd (hb_unhedged_pnl b1 ! i) (hb_cumulative_futures_pnl (after_ticks (Suc i) b0)) \<and>
        is_finite (hb_cumulative_futures_pnl (after_ticks (Suc i) b0)) \<and>
        fval (hb_cumulative_futures_pnl (after_ticks (Suc i) b0)) = of_int (futures_gain feed b0 i) * pow2 (- 2)"
    by blast
  from hedge_loop_inv [OF b1 [unfolded b0_def]] obtain acts where inv: "hedge_inv feed n acts b1" by blast
  from hedge_inv_tick [OF inv t] obtain v where
    mark: "mark_futures (tick_price feed n) b1 = Inr (hb_cumulative_futures_pnl b)" and
    v: "hb_baseline_value b = Some (case hb_baseline_value b1 of None \<Rightarrow> v | Some v0 \<Rightarrow> v0)"
      "hb_unhedged_pnl b = hb_unhedged_pnl b1 @ [fsub v (case hb_baseline_value b1 of None \<Rightarrow> v | Some v0 \<Rightarrow> v0)]"
      "hb_hedged_pnl b = hb_hedged_pnl b1 @ [fadd (fsub v (case hb_baseline_value b1 of None \<Rightarrow> v | Some v0 \<Rightarrow> v0))
         (hb_cumulative_futures_pnl b)]"
    by (auto simp: Let_def tick_price_def)
  have after: "after_ticks (Suc n) b0 = b" "after_ticks n b0 = b1"
    using Suc.prems(1) b1 by (simp_all add: b0_def del: hedge_loop.simps)
  have base: "(case hb_baseline_value b1 of None \<Rightarrow> v | Some v0 \<Rightarrow> v0) = (vs @ [v]) ! 0"
    using vs(1,2) by (cases vs) auto
  have cum: "is_finite (hb_cumulative_futures_pnl b) \<and>
      fval (hb_cumulative_futures_pnl b) = of_int (futures_gain feed b0 n) * pow2 (- 2)"
  proof (cases n)
    case 0
    with inv mark ih show ?thesis by (simp add: hedge_inv_def mark_futures_def)
  next
    case (Suc m)
    have p: "dh_current_futures_position (hb_hedger b1) = position_after n b0"
      by (simp add: position_after_def after)
    have prev: "hb_prev_price_ticks b1 = Some (tick_price feed m)"
      using inv Suc by (simp add: hedge_inv_def tick_price_def)
    have b: "\<bar>position_after j b0\<bar> \<le> Q" if "j \<le> n" for j
      using Suc.prems(2) [of j] that by (simp add: b0_def)
    have "2 * 1 * Q \<le> 2 * int n * Q" using Suc assms(4) by (intro mult_right_mono) auto
    then have qb: "Q \<le> 2 ^ 52" using q(1) assms(4) by linarith
    have g: "\<bar>futures_gain feed b0 n\<bar> \<le> 2 * int n * Q"
      by (rule futures_gain_bound [OF assms(1) b assms(4)])
    from mark_futures_exact [OF prev, of "futures_gain feed b0 m" "tick_price feed n"] ih Suc
    have "\<exists>y. mark_futures (tick_price feed n) b1 = Inr y \<and> is_finite y \<and>
        fval y = of_int (futures_gain feed b0 n) * pow2 (- 2)"
      using tick_price_step [OF assms(1), of n] b [of n] qb g q(1) p by (simp add: futures_gain_Suc)
    with mark show ?thesis by auto
  qed
  have len: "length (hb_unhedged_pnl b1) = n" "length (hb_hedged_pnl b1) = n"
    using inv by (simp_all add: hedge_inv_def)
  show ?case
  proof (intro conjI exI [of _ "vs @ [v]"] allI impI)
    fix i assume "i < Suc n"
    then consider "i < n" | "i = n" by linarith
    then show "hb_unhedged_pnl b ! i = fsub ((vs @ [v]) ! i) ((vs @ [v]) ! 0)"
      "hb_hedged_pnl b ! i = fadd (hb_unhedged_pnl b ! i) (hb_cumulative_futures_pnl (after_ticks (Suc i) b0))"
      "is_finite (hb_cumulative_futures_pnl (after_ticks (Suc i) b0))"
      "fval (hb_cumulative_futures_pnl (after_ticks (Suc i) b0)) = of_int (futures_gain feed b0 i) * pow2 (- 2)"
      by (cases; use vs len v base after cum in \<open>auto simp: nth_append\<close>)+
  qed (use cum v base vs in auto)
qed

subsection \<open>Closing\<close>

lemma close_hedge_simps [simp]:
  "se_log (hb_session (close_hedge b)) = se_log (hb_session b)"
  "hb_unhedged_pnl (close_hedge b) = hb_unhedged_pnl b" "hb_hedged_pnl (close_hedge b) = hb_hedged_pnl b"
  "dh_hedge_error_history (hb_hedger (close_hedge b)) = dh_hedge_error_history (hb_hedger b)"
  "dh_rehedge_count (hb_hedger (close_hedge b)) = dh_rehedge_count (hb_hedger b)"
  "\<not> cl_open (se_client (hb_session (close_hedge b)))" "\<not> pc_open (dh_pricing_client (hb_hedger (close_hedge b)))"
  "audit s acts evs (hb_session (close_hedge b)) = audit s acts evs (hb_session b)"
  by (simp_all add: close_hedge_def close_session_def client_close_def pricing_close_def Let_def audit_def
      pending_events_def)

lemma build_hedge_report_count: "build_hedge_report errs n hs us = Inr rep \<Longrightarrow> hr_rehedge_count rep = n"
  by (auto simp: build_hedge_report_def)

lemma hedge_final_drain:
  assumes "final_drain hedger_on_fill tmo s = (r, s')" "hedger_inv (se_strategy s)"
  shows "\<exists>evs. audit s [] evs s' \<and> hedger_inv (se_strategy s') \<and> dh_ids (se_strategy s') = dh_ids (se_strategy s) \<and>
    length (dh_hedge_error_history (se_strategy s')) = length (dh_hedge_error_history (se_strategy s))"
proof -
  from final_drain_audit [OF assms(1), of hedger_on_price] obtain evs where
    a: "audit s [] evs s'" and
    run: "strategy_run hedger_on_price hedger_on_fill (se_strategy s) (map Fill_In (fills_of evs)) =
      Inr ([], se_strategy s')" by blast
  have "dh_ids (se_strategy s') = dh_ids (se_strategy s)"
    using hedger_source.run_ids [OF assms(2) run] by simp
  moreover have "length (dh_hedge_error_history (se_strategy s')) = length (dh_hedge_error_history (se_strategy s))"
    using hedger_run_counts [OF assms(2) run] by (simp add: o_def)
  ultimately show ?thesis using a hedger_source.run_inv [OF assms(2) run] by blast
qed

subsection \<open>The loop completes\<close>

lemma hedge_book_simps [simp]:
  "ob_legs hedge_book = [hedge_leg]" "ob_rate hedge_book = RATE" "wf_float RATE" "leg_in_range hedge_leg"
  "ol_quantity hedge_leg = 100"
proof -
  have "rnd (1 / 4 :: rat) = 1 / 4" using rnd_exact [of "1 / 4" 1 "- 2"] by (simp add: pow2_eval)
  then show "leg_in_range hedge_leg" by (simp add: hedge_leg_def leg_in_range_def)
qed (simp_all add: hedge_book_def RATE_def hedge_leg_def)

text \<open>A reply the hedger can use: its delta is a number between -1 and 1.\<close>

definition usable_reply :: "Greeks \<Rightarrow> bool" where
  "usable_reply g \<longleftrightarrow> wf_greeks g \<and> is_finite (gr_delta g) \<and> \<bar>fval (gr_delta g)\<bar> \<le> 1"

lemma book_value_ok:
  assumes "pricing_ready pc" "- (2 ^ 63) \<le> p" "p < 2 ^ 63" "wf_greeks g"
    "pricing_stream pc = rust_encode_response g @ rest"
  shows "\<exists>v pc'. aggregate_value hedge_book p pc = (Inr (PFlt v), pc') \<and> pricing_ready pc' \<and> pricing_stream pc' = rest"
proof -
  from leg_terms_replies [of pc p RATE "[hedge_leg]" "[g]" rest gr_price] assms
  obtain pc' where "leg_terms (\<lambda>leg. leg_greek gr_price leg p RATE) [hedge_leg] pc =
      (Inr [leg_product gr_price hedge_leg g], pc')" "pricing_ready pc'" "pricing_stream pc' = rest" by auto
  then show ?thesis by (simp add: aggregate_value_def leg_value_def)
qed

lemma hedge_delta_product:
  assumes "usable_reply g"
  shows "is_finite (leg_product gr_delta hedge_leg g) \<and> \<bar>fval (leg_product gr_delta hedge_leg g)\<bar> \<le> 100"
proof -
  let ?x = "fval (gr_delta g) * 100"
  have x: "\<bar>?x\<bar> \<le> 100" using assms by (simp add: usable_reply_def abs_mult)
  have r: "\<bar>rnd ?x\<bar> \<le> 100" by (rule rnd_bound [OF x]) (use rnd_of_int [of 100] in simp)
  then have "\<bar>rnd ?x\<bar> < 2 ^ 1024" by (rule le_less_trans) simp
  with r fmul_finite [of "gr_delta g" "Fin 100"] assms show ?thesis
    by (simp add: leg_product_def usable_reply_def)
qed

lemma hedge_target_ok:
  assumes "dh_options_book h = hedge_book" "pricing_ready (dh_pricing_client h)" "- (2 ^ 63) \<le> p" "p < 2 ^ 63"
    "usable_reply g" "pricing_stream (dh_pricing_client h) = rust_encode_response g @ rest"
  shows "\<exists>t pc'. hedge_target h p = (Inr t, pc') \<and> \<bar>t\<bar> \<le> 100 \<and> pricing_ready pc' \<and> pricing_stream pc' = rest"
proof -
  let ?x = "leg_product gr_delta hedge_leg g"
  from leg_terms_replies [of "dh_pricing_client h" p RATE "[hedge_leg]" "[g]" rest gr_delta] assms
  obtain pc' where pc': "leg_terms (\<lambda>leg. leg_greek gr_delta leg p RATE) [hedge_leg] (dh_pricing_client h) =
      (Inr [?x], pc')" "pricing_ready pc'" "pricing_stream pc' = rest"
    by (auto simp: usable_reply_def)
  note x = hedge_delta_product [OF assms(5)]
  let ?s = "fadd (Fin 0) ?x"
  have b: "\<bar>rnd (fval ?x)\<bar> \<le> 100"
    by (rule rnd_bound [OF conjunct2 [OF x]]) (use rnd_of_int [of 100] in simp)
  then have "\<bar>rnd (fval ?x)\<bar> < 2 ^ 1024" by (rule le_less_trans) simp
  with fadd_finite [of "Fin 0" ?x] x have s: "is_finite ?s" "fval ?s = rnd (fval ?x)" by simp_all
  have "py_sum [?x] = PFlt ?s" by simp
  then have "hedge_target h p = (py_round (fneg ?s), pc')"
    using pc'(1) assms(1) by (simp add: hedge_target_def aggregate_delta_def leg_delta_def)
  also have "py_round (fneg ?s) = Inr (round_half_even (- fval ?s))"
    using py_round_finite [of "fneg ?s"] s(1) by simp
  finally have t: "hedge_target h p = (Inr (round_half_even (- rnd (fval ?x))), pc')" by (simp add: s(2))
  have "- 100 \<le> round_half_even (- rnd (fval ?x))" "round_half_even (- rnd (fval ?x)) \<le> 100"
    using b round_half_even_ge_int [of "- 100" "- rnd (fval ?x)"] round_half_even_le_int [of "- rnd (fval ?x)" 100]
    by (simp_all add: abs_le_iff)
  with t pc'(2,3) show ?thesis by (auto simp: abs_le_iff)
qed

lemma hedger_actions_ok:
  assumes "hedger_inv h" "hedger_on_price h p = (Inr acts, h')" "hedge_target h p = (Inr t, pc)"
    "\<bar>dh_current_futures_position h - t\<bar> < 2 ^ 32" "dh_ids h < 2 ^ 63"
  shows "(\<forall>a\<in>set acts. \<exists>bs. action_msg a = Inr bs) \<and> dh_ids h' \<le> dh_ids h + 1 \<and>
    dh_options_book h' = dh_options_book h \<and> dh_pricing_client h' = pc \<and>
    dh_current_futures_position h' = dh_current_futures_position h"
proof -
  have "1 \<le> dh_ids h" using assms(1) by (simp add: hedger_inv_def)
  then have "\<exists>bs. encode_new_order \<lparr>com_client_order_id = dh_ids h, com_side = sd, com_order_type = MARKET,
      com_price_ticks = 0, com_quantity = \<bar>dh_current_futures_position h - t\<bar>\<rparr> = Inr bs" for sd
    using assms(4,5) by (intro encode_new_order_ok) (simp add: order_in_range_def)
  then show ?thesis
    using hedger_price_cases [OF assms(2)] assms(3) by (auto simp: Let_def)
qed

text \<open>The quantity still to arrive in fills bounds how far the position can move.\<close>

definition fill_volume :: "Event list \<Rightarrow> int" where
  "fill_volume evs = sum_list (map (\<lambda>f. \<bar>fe_quantity f\<bar>) (fills_of evs))"

lemma fill_volume_append [simp]: "fill_volume (xs @ ys) = fill_volume xs + fill_volume ys"
  by (simp add: fill_volume_def)

lemma fill_volume_nonneg [simp]: "0 \<le> fill_volume evs"
  unfolding fill_volume_def by (rule sum_list_nonneg) auto

lemma drained_hedger:
  "strategy_run hedger_on_price hedger_on_fill h (map Fill_In fs) = Inr (acts, h') \<Longrightarrow>
   h' = foldl hedger_on_fill h fs"
  by (induction fs arbitrary: h) auto

lemma fills_move_position:
  "\<bar>dh_current_futures_position (foldl hedger_on_fill h fs)\<bar> \<le>
     \<bar>dh_current_futures_position h\<bar> + sum_list (map (\<lambda>f. \<bar>fe_quantity f\<bar>) fs) \<and>
   dh_options_book (foldl hedger_on_fill h fs) = dh_options_book h \<and>
   dh_pricing_client (foldl hedger_on_fill h fs) = dh_pricing_client h \<and>
   dh_ids (foldl hedger_on_fill h fs) = dh_ids h"
proof (induction fs arbitrary: h)
  case (Cons f fs)
  have "\<bar>dh_current_futures_position (hedger_on_fill h f)\<bar> \<le> \<bar>dh_current_futures_position h\<bar> + \<bar>fe_quantity f\<bar>"
    by (auto simp: hedger_on_fill_def signed_qty_def)
  with Cons [of "hedger_on_fill h f"] show ?case by (auto simp: hedger_on_fill_def)
qed simp

definition hedge_ready :: "int \<Rightarrow> Greeks list \<Rightarrow> HedgeBacktest \<Rightarrow> bool" where
  "hedge_ready B gs b \<longleftrightarrow>
     (let s = hb_session b; h = se_strategy s; f = se_feed s in
      client_ready (se_client s) \<and> pricing_ready (dh_pricing_client h) \<and> dh_options_book h = hedge_book \<and>
      list_all usable_reply gs \<and> pricing_stream (dh_pricing_client h) = concat (map rust_encode_response gs) \<and>
      hedger_inv h \<and> dh_ids h + int (length gs) \<le> 2 ^ 62 \<and>
      \<bar>dh_current_futures_position h\<bar> + fill_volume (pending_events (se_client s)) \<le> B \<and>
      (\<forall>k. sf_rng f k < 5) \<and> \<bar>sf_price f\<bar> + 2 * int (length gs) \<le> 2 ^ 62 \<and>
      (\<forall>q. hb_prev_price_ticks b = Some q \<longrightarrow> q = sf_price f))"

lemma hedge_tick_ok:
  assumes "hedge_ready B (g1 # g2 # gs) b" "B \<le> 2 ^ 31"
  shows "\<exists>b'. hedge_tick b = (Inr (), b') \<and> hedge_ready B gs b'"
proof -
  let ?h = "hb_hedger b" and ?f = "se_feed (hb_session b)"
  define st where "st = STEPS ! sf_rng ?f (sf_draws ?f)"
  define p where "p = sf_price ?f + st"
  define f' where "f' = ?f\<lparr>sf_price := p, sf_draws := sf_draws ?f + 1\<rparr>"
  have st: "\<bar>st\<bar> \<le> 2" using assms(1) STEPS_bound by (simp add: st_def hedge_ready_def Let_def)
  have np: "synthetic_next_price ?f = (Inr p, f')"
    by (simp add: synthetic_next_price_def Let_def p_def st_def f'_def)
  have p: "\<bar>p\<bar> + 2 * int (length gs) \<le> 2 ^ 62" "- (2 ^ 63) \<le> p" "p < 2 ^ 63"
    using assms(1) st by (auto simp: hedge_ready_def Let_def p_def)
  have pos: "\<bar>dh_current_futures_position ?h\<bar> + fill_volume (pending_events (se_client (hb_session b))) \<le> B"
    using assms(1) by (simp add: hedge_ready_def Let_def)
  have small: "\<bar>dh_current_futures_position ?h\<bar> \<le> 2 ^ 31"
    using pos assms(2) fill_volume_nonneg [of "pending_events (se_client (hb_session b))"] by linarith
  obtain cum where cum: "mark_futures p b = Inr cum"
  proof (cases "hb_prev_price_ticks b")
    case None
    then show ?thesis by (intro that) (simp add: mark_futures_def)
  next
    case (Some q)
    have "\<bar>p - q\<bar> \<le> 2" using Some st assms(1) by (simp add: p_def hedge_ready_def Let_def)
    then have "int_to_float (p - q) = Inr (Fin (of_int (p - q)))" by (intro int_to_float_exact) simp
    moreover have "int_to_float (dh_current_futures_position ?h) = Inr (Fin (of_int (dh_current_futures_position ?h)))"
      using small by (intro int_to_float_exact) simp
    ultimately show ?thesis using Some by (intro that) (simp add: mark_futures_def fmul_int_def)
  qed
  have pc: "pricing_ready (dh_pricing_client ?h)" "dh_options_book ?h = hedge_book"
    "usable_reply g1" "usable_reply g2" "list_all usable_reply gs"
    "pricing_stream (dh_pricing_client ?h) =
      rust_encode_response g1 @ rust_encode_response g2 @ concat (map rust_encode_response gs)"
    using assms(1) by (auto simp: hedge_ready_def Let_def)
  obtain v pc1 where v: "aggregate_value hedge_book p (dh_pricing_client ?h) = (Inr (PFlt v), pc1)"
    "pricing_ready pc1" "pricing_stream pc1 = rust_encode_response g2 @ concat (map rust_encode_response gs)"
    using book_value_ok [OF pc(1) p(2,3) _ pc(6)] pc(3) by (auto simp: usable_reply_def)
  let ?s1 = "priced f' pc1 (hb_session b)"
  let ?h1 = "?h\<lparr>dh_pricing_client := pc1\<rparr>"
  obtain t pc2 where t: "hedge_target ?h1 p = (Inr t, pc2)" "\<bar>t\<bar> \<le> 100" "pricing_ready pc2"
    "pricing_stream pc2 = concat (map rust_encode_response gs)"
    using hedge_target_ok [of ?h1 p g2] pc v p by auto
  obtain r h2 where hp: "hedger_on_price ?h1 p = (r, h2)" by (cases "hedger_on_price ?h1 p")
  then obtain acts where acts: "r = Inr acts" using hedger_price_cases [OF hp] t(1) by (auto simp: Let_def)
  have inv: "hedger_inv ?h1" "dh_ids ?h1 < 2 ^ 63" "client_ready (se_client ?s1)"
    using assms(1) by (simp_all add: hedge_ready_def Let_def)
  have "\<bar>dh_current_futures_position ?h1 - t\<bar> < 2 ^ 32" using small t(2) by simp
  note h2 = hedger_actions_ok [OF inv(1) hp [unfolded acts] t(1) this inv(2)]
  from do_actions_ok [of "?s1\<lparr>se_strategy := h2\<rparr>" acts] inv(3) h2
  obtain s2 where s2: "do_actions acts (?s1\<lparr>se_strategy := h2\<rparr>) = (Inr (), s2)" "client_ready (se_client s2)" by auto
  have s2': "se_strategy s2 = h2" "se_feed s2 = f'" "pending_events (se_client s2) = pending_events (se_client (hb_session b))"
    using do_actions_audit [OF s2(1)] by (auto simp: audit_def)
  from poll_and_drain_ok [OF s2(2) timeouts_ok(1)] obtain es s3 where
    s3: "poll_and_drain hedger_on_fill default_tick_poll_timeout s2 = (Inr es, s3)" "client_ready (se_client s3)" by blast
  have s3': "audit s2 [] es s3" "se_feed s3 = f'" "se_strategy s3 = foldl hedger_on_fill h2 (fills_of es)"
    using poll_and_drain_audit [OF s3(1), of hedger_on_price] s2' by (auto dest: drained_hedger)
  have trade: "hedge_trade p ?s1 = (Inr (), s3)"
    using hp acts s2(1) s3(1)
    by (simp add: hedge_trade_session_tick session_tick_def)
  define base where "base = (case hb_baseline_value b of None \<Rightarrow> v | Some v0 \<Rightarrow> v0)"
  define b' where "b' = b\<lparr>hb_cumulative_futures_pnl := cum, hb_session := s3,
      hb_baseline_value := Some base,
      hb_unhedged_pnl := hb_unhedged_pnl b @ [fsub v base],
      hb_hedged_pnl := hb_hedged_pnl b @ [fadd (fsub v base) cum], hb_prev_price_ticks := Some p\<rparr>"
  have "hedge_trade p ((hb_session b)\<lparr>se_feed := f', se_strategy := ?h\<lparr>dh_pricing_client := pc1\<rparr>\<rparr>) = (Inr (), s3)"
    using trade by (simp add: priced_def)
  then have tick: "hedge_tick b = (Inr (), b')"
    using np cum v(1) pc(2) by (simp add: hedge_tick_def mark_book_def Let_def b'_def base_def)
  have "pending_events (se_client (hb_session b)) = es @ pending_events (se_client s3)"
    using s3'(1) s2'(3) by (auto simp: audit_def)
  then have "\<bar>dh_current_futures_position (se_strategy s3)\<bar> + fill_volume (pending_events (se_client s3)) \<le> B"
    using pos fills_move_position [of h2 "fills_of es"] h2 s3'(3) by (simp add: fill_volume_def)
  moreover have "hedger_inv (se_strategy s3)"
  proof -
    have "hedger_inv h2" using hedger_inv_price [OF inv(1) hp] .
    then have "hedger_inv (foldl hedger_on_fill h2 fs)" for fs
      by (induction fs rule: rev_induct) (auto intro: hedger_inv_fill)
    then show ?thesis by (simp add: s3'(3))
  qed
  moreover have "dh_ids (se_strategy s3) + int (length gs) \<le> 2 ^ 62"
    using fills_move_position [of h2 "fills_of es"] h2 s3'(3) assms(1) by (simp add: hedge_ready_def Let_def)
  moreover have "sf_rng f' = sf_rng ?f" "sf_price f' = p" by (simp_all add: f'_def)
  ultimately have "hedge_ready B gs b'"
    using s3(2) s3' t(3,4) pc(2,5) p(1) assms(1) fills_move_position [of h2 "fills_of es"] h2
    by (simp add: hedge_ready_def Let_def b'_def)
  with tick show ?thesis by blast
qed

lemma hedge_loop_ok:
  "hedge_ready B gs b \<Longrightarrow> B \<le> 2 ^ 31 \<Longrightarrow> 2 * n \<le> length gs \<Longrightarrow>
   \<exists>b'. hedge_loop n b = (Inr (), b') \<and> hedge_ready B (drop (2 * n) gs) b'"
proof (induction n arbitrary: gs b)
  case (Suc n)
  then obtain g1 g2 gs' where gs: "gs = g1 # g2 # gs'" by (cases gs; cases "tl gs") auto
  from hedge_tick_ok [of B g1 g2 gs' b] Suc.prems gs obtain b1 where
    1: "hedge_tick b = (Inr (), b1)" "hedge_ready B gs' b1" by auto
  from Suc.IH [OF 1(2) Suc.prems(2)] Suc.prems(3) gs 1(1) show ?case by auto
qed auto

lemma hedge_ready_start:
  assumes "\<And>k. sf_rng feed k < 5" "\<bar>sf_price feed\<bar> + 2 * int (length gs) \<le> 2 ^ 62" "int (length gs) < 2 ^ 62"
    "pricing_ready pc" "list_all usable_reply gs" "pricing_stream pc = concat (map rust_encode_response gs)"
    "fill_volume (concat arrivals) \<le> B"
  shows "hedge_ready B gs (hedge_start feed pc band (client_init [] arrivals) clock)"
  using assms by (simp add: hedge_ready_def hedge_start_def hedger_init_def hedger_inv_def)

lemma hedge_ready_position: "hedge_ready B gs b \<Longrightarrow> \<bar>dh_current_futures_position (hb_hedger b)\<bar> \<le> B"
  using fill_volume_nonneg [of "pending_events (se_client (hb_session b))"]
  unfolding hedge_ready_def Let_def by linarith

text \<open>A server that answers four times, and a fill of the hedger's first order.\<close>

definition demo_server :: PricingClient where
  "demo_server = pricing_init [] (map (Data \<circ> rust_encode_response) (replicate 4 demo_greeks))"

definition demo_hedge_fill :: FillEvent where
  "demo_hedge_fill = \<lparr>fe_resting_order_id = 900, fe_incoming_order_id = 1, fe_resting_side = BUY,
     fe_price_ticks = 30001, fe_quantity = 50, fe_timestamp = 7\<rparr>"

definition demo_start :: HedgeBacktest where
  "demo_start = hedge_start (synthetic_init 30000 (\<lambda>k. 4)) demo_server 5
     (client_init [] [[Fill_Event demo_hedge_fill]]) (\<lambda>k. Fin 0)"

lemma demo_greeks_usable: "usable_reply demo_greeks"
  using demo_greeks_wf by (simp add: usable_reply_def) (simp add: demo_greeks_def)

lemma demo_server_ok:
  "pricing_ready demo_server" "pricing_stream demo_server = concat (map rust_encode_response (replicate 4 demo_greeks))"
  by (simp_all add: demo_server_def pricing_init_def pricing_ready_def numeral_eq_Suc)

lemma demo_start_ready: "hedge_ready 50 (replicate 4 demo_greeks) demo_start"
  unfolding demo_start_def
  by (rule hedge_ready_start)
    (simp_all add: demo_server_ok demo_greeks_usable synthetic_init_def list_all_length fill_volume_def demo_hedge_fill_def)

lemma demo_start_loop:
  "\<exists>b1 b2. hedge_loop 1 demo_start = (Inr (), b1) \<and> \<bar>dh_current_futures_position (hb_hedger b1)\<bar> \<le> 50 \<and>
     hedge_loop 2 demo_start = (Inr (), b2)"
proof -
  from hedge_loop_ok [OF demo_start_ready, of 1] obtain b1 where
    "hedge_loop 1 demo_start = (Inr (), b1)" "hedge_ready 50 (drop (2 * 1) (replicate 4 demo_greeks)) b1" by auto
  moreover from hedge_loop_ok [OF demo_start_ready, of 2] obtain b2 where
    "hedge_loop 2 demo_start = (Inr (), b2)" by auto
  ultimately show ?thesis using hedge_ready_position by blast
qed

section \<open>Properties\<close>

text \<open>However a hedge backtest that reached both servers ends, both connections are closed and
  the log agrees with the wire; when it returns reports, the rehedge count is the number of
  orders in the log, their ids are 1, 2, 3, ..., nothing was cancelled, there is one hedge
  error and one value in each profit series per tick, and \<^verbatim>\<open>main\<close> prints that count, the
  number of fills received and the reports' figures.\<close>

lemma hedge_backtest_accounts:
  assumes "run_hedge_backtest rng power_half clock (Inr pc) (Inr client) ticks seed band = (result, Some b)"
  shows "\<not> cl_open (se_client (hb_session b)) \<and> \<not> pc_open (dh_pricing_client (hb_hedger b)) \<and>
    (\<exists>acts evs. audit (hb_session (hedge_start (synthetic_init 30000 (rng seed)) pc band client clock)) acts evs
        (hb_session b) \<and>
      (\<forall>log backtest_report hedge_report. result = Inr (log, backtest_report, hedge_report) \<longrightarrow>
         log = se_log (hb_session b) \<and>
         order_ids acts = [1..int (hr_rehedge_count hedge_report)] \<and> cancel_ids acts = [] \<and>
         count_events ''order_sent'' (log_rows log) = Inr (hr_rehedge_count hedge_report) \<and>
         main_hedge_backtest rng power_half clock (Inr pc) (Inr client) ticks seed band =
           Inr (hr_rehedge_count hedge_report, length (fills_of evs),
             hr_mean_abs_hedge_error_contracts hedge_report, hr_hedged_pnl_variance hedge_report,
             hr_unhedged_pnl_variance hedge_report, hr_variance_reduction_pct hedge_report,
             br_sharpe_ratio backtest_report) \<and>
         length (dh_hedge_error_history (hb_hedger b)) = nat ticks \<and>
         length (hb_unhedged_pnl b) = nat ticks \<and> length (hb_hedged_pnl b) = nat ticks))"
proof -
  let ?b0 = "hedge_start (synthetic_init 30000 (rng seed)) pc band client clock"
  have log0: "log_rows (se_log (hb_session ?b0)) = []"
    by (simp add: hedge_start_def log_rows_def tradelog_init_def)
  obtain r b1 where 1: "hedge_loop (nat ticks) ?b0 = (r, b1)" by (cases "hedge_loop (nat ticks) ?b0")
  show ?thesis
  proof (cases r)
    case (Inl e)
    from hedge_loop_audit [OF 1] obtain acts evs where "audit (hb_session ?b0) acts evs (hb_session b1)" by blast
    moreover have "result = Inl e" "b = close_hedge b1" using assms 1 Inl by (simp_all add: run_hedge_backtest_def)
    ultimately show ?thesis by auto
  next
    case (Inr u)
    with 1 have "hedge_loop (nat ticks) ?b0 = (Inr (), b1)" by simp
    from hedge_loop_inv [OF this] obtain acts evs where a: "audit (hb_session ?b0) acts evs (hb_session b1)" and
      i: "hedge_inv (synthetic_init 30000 (rng seed)) (nat ticks) acts b1" by blast
    obtain r2 s where 2: "final_drain hedger_on_fill default_final_drain_timeout (hb_session b1) = (r2, s)"
      by (cases "final_drain hedger_on_fill default_final_drain_timeout (hb_session b1)")
    have "hedger_inv (hb_hedger b1)" using i by (simp add: hedge_inv_def)
    from hedge_final_drain [OF 2 this] obtain evs2 where
      d: "audit (hb_session b1) [] evs2 s" "hedger_inv (se_strategy s)"
      "dh_ids (se_strategy s) = dh_ids (hb_hedger b1)"
      "length (dh_hedge_error_history (se_strategy s)) = length (dh_hedge_error_history (hb_hedger b1))" by blast
    let ?final = "b1\<lparr>hb_session := s\<rparr>"
    have a2: "audit (hb_session ?b0) acts (evs @ evs2) s" using audit_trans [OF a d(1)] by simp
    have b: "b = close_hedge ?final"
      using assms 1 2 Inr by (auto simp: run_hedge_backtest_def Let_def split: sum.splits)
    have ids: "order_ids acts = [1..int (dh_rehedge_count (se_strategy s))]"
      using i d(2,3) by (simp add: hedge_inv_def hedger_inv_def)
    have "log = se_log s \<and> hr_rehedge_count hedge_report = dh_rehedge_count (se_strategy s)"
      if "result = Inr (log, backtest_report, hedge_report)" for log backtest_report hedge_report
      using assms 1 2 Inr that
      by (auto simp: run_hedge_backtest_def Let_def dest: build_hedge_report_count split: sum.splits)
    moreover have "count_events ''order_sent'' (log_rows (se_log s)) = Inr (dh_rehedge_count (se_strategy s))"
      using audit_counts(1) [OF a2 log0] ids by simp
    moreover have "audit (hb_session ?b0) acts (evs @ evs2) (hb_session b)" using a2 by (simp add: b)
    moreover have "\<not> cl_open (se_client (hb_session b))" "\<not> pc_open (dh_pricing_client (hb_hedger b))"
      "se_log (hb_session b) = se_log s" "cancel_ids acts = []"
      "length (dh_hedge_error_history (hb_hedger b)) = nat ticks"
      "length (hb_unhedged_pnl b) = nat ticks" "length (hb_hedged_pnl b) = nat ticks"
      using i d(4) by (simp_all add: b hedge_inv_def)
    moreover have "main_hedge_backtest rng power_half clock (Inr pc) (Inr client) ticks seed band =
        Inr (hr_rehedge_count hedge_report, length (fills_of (evs @ evs2)),
          hr_mean_abs_hedge_error_contracts hedge_report, hr_hedged_pnl_variance hedge_report,
          hr_unhedged_pnl_variance hedge_report, hr_variance_reduction_pct hedge_report,
          br_sharpe_ratio backtest_report)"
      if "result = Inr (log, backtest_report, hedge_report)" "log = se_log s" for log backtest_report hedge_report
      using assms that audit_counts(2) [OF a2 log0] by (simp add: main_hedge_backtest_def)
    ultimately show ?thesis using ids by metis
  qed
qed


lemma hedge_backtest_accounts_witness:
  "\<exists>result b. run_hedge_backtest (\<lambda>seed k. 4) (\<lambda>n. Inr (Fin 16)) (\<lambda>k. Fin 0) (Inr demo_server)
      (Inr (client_init [] [[Fill_Event demo_hedge_fill]])) 2 42 5 = (result, Some b) \<and>
    \<not> cl_open (se_client (hb_session b)) \<and> \<not> pc_open (dh_pricing_client (hb_hedger b))"
proof -
  obtain b2 where 2: "hedge_loop (nat 2) (hedge_start (synthetic_init 30000 (\<lambda>k. 4)) demo_server 5
      (client_init [] [[Fill_Event demo_hedge_fill]]) (\<lambda>k. Fin 0)) = (Inr (), b2)"
    using demo_start_loop by (auto simp: demo_start_def simp del: hedge_loop.simps)
  obtain r s where "final_drain hedger_on_fill default_final_drain_timeout (hb_session b2) = (r, s)"
    by (cases "final_drain hedger_on_fill default_final_drain_timeout (hb_session b2)")
  with 2 have "\<exists>result b. run_hedge_backtest (\<lambda>seed k. 4) (\<lambda>n. Inr (Fin 16)) (\<lambda>k. Fin 0) (Inr demo_server)
      (Inr (client_init [] [[Fill_Event demo_hedge_fill]])) 2 42 5 = (result, Some b)"
    unfolding run_hedge_backtest_def by (cases r) (simp_all add: Let_def del: hedge_loop.simps)
  then obtain result b where "run_hedge_backtest (\<lambda>seed k. 4) (\<lambda>n. Inr (Fin 16)) (\<lambda>k. Fin 0) (Inr demo_server)
      (Inr (client_init [] [[Fill_Event demo_hedge_fill]])) 2 42 5 = (result, Some b)" by blast
  with hedge_backtest_accounts [OF this] show ?thesis by blast
qed

text \<open>C30: the hedged profit of every tick is the unhedged one plus the futures profit so far, and
  that is exactly the sum, over the ticks so far, of the position held before the tick times
  the price move to it, a quarter point per tick, with no rounding while twice the number of
  ticks times the largest position stays within 2^52; the unhedged profit is measured from
  the first tick's book value.\<close>

theorem hedge_backtest_attribution:
  assumes "\<And>k. sf_rng feed k < 5"
    "hedge_loop n (hedge_start feed pc band client clock) = (Inr (), b)"
    "\<And>j. j < n \<Longrightarrow> \<bar>position_after j (hedge_start feed pc band client clock)\<bar> \<le> Q" "0 \<le> Q"
    "2 * int n * Q \<le> 2 ^ 52"
  defines "b0 \<equiv> hedge_start feed pc band client clock"
  shows "length (hb_unhedged_pnl b) = n \<and> length (hb_hedged_pnl b) = n \<and>
    (\<exists>values. length values = n \<and> (\<forall>i<n. hb_unhedged_pnl b ! i = fsub (values ! i) (values ! 0))) \<and>
    (\<forall>i<n. let futures = hb_cumulative_futures_pnl (after_ticks (Suc i) b0) in
       hb_hedged_pnl b ! i = fadd (hb_unhedged_pnl b ! i) futures \<and> is_finite futures \<and>
       fval futures = of_int (\<Sum>j\<in>{1..i}. position_after j b0 * (tick_price feed j - tick_price feed (j - 1))) / 4)"
proof -
  from hedge_attribution [OF assms(1-5), folded b0_def] obtain vs where
    v: "length vs = n" "\<And>i. i < n \<Longrightarrow> hb_unhedged_pnl b ! i = fsub (vs ! i) (vs ! 0) \<and>
        hb_hedged_pnl b ! i = fadd (hb_unhedged_pnl b ! i) (hb_cumulative_futures_pnl (after_ticks (Suc i) b0)) \<and>
        is_finite (hb_cumulative_futures_pnl (after_ticks (Suc i) b0)) \<and>
        fval (hb_cumulative_futures_pnl (after_ticks (Suc i) b0)) = of_int (futures_gain feed b0 i) * pow2 (- 2)"
    by blast
  from hedge_loop_inv [OF assms(2)] have "length (hb_unhedged_pnl b) = n" "length (hb_hedged_pnl b) = n"
    by (auto simp: hedge_inv_def)
  with v show ?thesis by (auto simp: Let_def futures_gain_def pow2_eval)
qed

theorem hedge_backtest_attribution_witness:
  "\<exists>b. hedge_loop 2 demo_start = (Inr (), b) \<and>
    (let futures = hb_cumulative_futures_pnl (after_ticks 2 demo_start) in
     hb_hedged_pnl b ! 1 = fadd (hb_unhedged_pnl b ! 1) futures \<and> is_finite futures \<and>
     fval futures = of_int (position_after 1 demo_start * 2) / 4)"
proof -
  obtain b1 b2 where 1: "hedge_loop 1 demo_start = (Inr (), b1)" "\<bar>dh_current_futures_position (hb_hedger b1)\<bar> \<le> 50"
    and 2: "hedge_loop 2 demo_start = (Inr (), b2)" using demo_start_loop by blast
  have pos: "\<bar>position_after j demo_start\<bar> \<le> 50" if "j < 2" for j
  proof (cases j)
    case 0
    then show ?thesis by (simp add: position_after_def after_ticks_def demo_start_def hedge_start_def hedger_init_def)
  next
    case (Suc i)
    with that have "j = 1" by simp
    with 1 show ?thesis by (simp add: position_after_def del: One_nat_def)
  qed
  let ?feed = "synthetic_init 30000 (\<lambda>k. 4)"
  have "let futures = hb_cumulative_futures_pnl (after_ticks (Suc 1) demo_start) in
       hb_hedged_pnl b2 ! 1 = fadd (hb_unhedged_pnl b2 ! 1) futures \<and> is_finite futures \<and>
       fval futures = of_int (\<Sum>j\<in>{1..1}. position_after j demo_start * (tick_price ?feed j - tick_price ?feed (j - 1))) / 4"
    using hedge_backtest_attribution [of ?feed 2 demo_server 5 "client_init [] [[Fill_Event demo_hedge_fill]]"
      "\<lambda>k. Fin 0" b2 50, folded demo_start_def, THEN conjunct2, THEN conjunct2, THEN conjunct2, rule_format, of 1] 2 pos
    by (simp add: synthetic_init_def del: hedge_loop.simps)
  moreover have "(\<Sum>j\<in>{1..1}. position_after j demo_start * (tick_price ?feed j - tick_price ?feed (j - 1))) =
      position_after 1 demo_start * 2"
    by (simp add: tick_price_def synthetic_next_price_def synthetic_init_def STEPS_def Let_def)
  ultimately have "let futures = hb_cumulative_futures_pnl (after_ticks (Suc 1) demo_start) in
       hb_hedged_pnl b2 ! 1 = fadd (hb_unhedged_pnl b2 ! 1) futures \<and> is_finite futures \<and>
       fval futures = of_int (position_after 1 demo_start * 2) / 4" by (simp only:)
  with 2 show ?thesis by (auto simp only: Suc_1)
qed

text \<open>A hedge backtest over a pricing server that answers every request with a usable delta, on
  an order connection that stays up and fills at most 2^31 contracts in all, runs every tick
  and ends with the reports' results: no tick raises, every reply is consumed, and nothing
  is left on either connection.\<close>

lemma hedge_backtest_completes:
  assumes "\<And>k. rng seed k < 5" "0 \<le> ticks" "ticks < 2 ^ 58" "pricing_ready pc" "list_all usable_reply gs"
    "length gs = 2 * nat ticks" "pricing_stream pc = concat (map rust_encode_response gs)"
    "fill_volume (concat arrivals) \<le> 2 ^ 31"
  shows "\<exists>b. run_hedge_backtest rng power_half clock (Inr pc) (Inr (client_init [] arrivals)) ticks seed band =
      (res_bind (build_report (log_rows (se_log (hb_session b))) (power_half 252)) (\<lambda>backtest_report.
       res_bind (build_hedge_report (dh_hedge_error_history (hb_hedger b)) (dh_rehedge_count (hb_hedger b))
          (hb_hedged_pnl b) (hb_unhedged_pnl b)) (\<lambda>hedge_report.
       Inr (se_log (hb_session b), backtest_report, hedge_report))), Some b) \<and>
    length (hb_hedged_pnl b) = nat ticks \<and> pricing_stream (dh_pricing_client (hb_hedger b)) = []"
proof -
  let ?start = "hedge_start (synthetic_init 30000 (rng seed)) pc band (client_init [] arrivals) clock"
  have "hedge_ready (2 ^ 31) gs ?start"
    using assms by (intro hedge_ready_start) (auto simp: synthetic_init_def)
  from hedge_loop_ok [OF this, of "nat ticks"] assms(6) obtain b1 where
    1: "hedge_loop (nat ticks) ?start = (Inr (), b1)" "hedge_ready (2 ^ 31) [] b1" by auto
  from 1(2) have "client_ready (se_client (hb_session b1))" by (simp add: hedge_ready_def Let_def)
  from final_drain_ok [OF this timeouts_ok(2)] obtain s where
    2: "final_drain hedger_on_fill default_final_drain_timeout (hb_session b1) = (Inr (), s)" by blast
  from final_drain_audit [OF 2, of hedger_on_price] have "\<exists>fs. se_strategy s = foldl hedger_on_fill (hb_hedger b1) fs"
    by (auto dest: drained_hedger)
  then have "dh_pricing_client (se_strategy s) = dh_pricing_client (hb_hedger b1)"
    using fills_move_position by auto
  with 1(2) have "pricing_stream (dh_pricing_client (se_strategy s)) = []" by (simp add: hedge_ready_def Let_def)
  moreover have "length (hb_hedged_pnl b1) = nat ticks"
    using hedge_loop_inv [OF 1(1)] by (auto simp: hedge_inv_def)
  ultimately show ?thesis
    using 1(1) 2 by (intro exI [of _ "close_hedge (b1\<lparr>hb_session := s\<rparr>)"])
      (auto simp: run_hedge_backtest_def Let_def close_hedge_def close_session_def pricing_close_def)
qed

lemma hedge_backtest_completes_witness:
  "\<exists>b result. run_hedge_backtest (\<lambda>seed k. 4) (\<lambda>n. Inr (Fin 16)) (\<lambda>k. Fin 0) (Inr demo_server)
      (Inr (client_init [] [[Fill_Event demo_hedge_fill]])) 2 42 5 = (result, Some b) \<and>
    length (hb_hedged_pnl b) = 2"
proof -
  have "fill_volume (concat [[Fill_Event demo_hedge_fill]]) \<le> 2 ^ 31"
    by (simp add: fill_volume_def demo_hedge_fill_def)
  moreover have "list_all usable_reply (replicate 4 demo_greeks)"
    using demo_greeks_usable by (simp add: list_all_length)
  ultimately show ?thesis
    using hedge_backtest_completes [of "\<lambda>seed k. 4" 42 2 demo_server "replicate 4 demo_greeks"
      "[[Fill_Event demo_hedge_fill]]" "\<lambda>n. Inr (Fin 16)" "\<lambda>k. Fin 0" 5] demo_server_ok by auto
qed

end
