(* ===== verification/CommandLine.thy ===== *)
theory CommandLine
  imports HedgeBacktest
begin

text \<open>
  The command lines of the four drivers \<^verbatim>\<open>strategy/run_*.py\<close>: \<^verbatim>\<open>argparse\<close> as they use it (options
  that store one value, no positional arguments) with the option tables of their \<^verbatim>\<open>main\<close>s,
  composed with the \<^verbatim>\<open>main\<close>s of \<open>Drivers\<close> and \<open>HedgeBacktest\<close>.  Whatever ends in the usage
  message or the help raises \<^verbatim>\<open>SystemExit\<close> before a driver does anything, and is \<open>None\<close>.  The
  rules are those of Python 3.11 to 3.13.
\<close>

section \<open>\<^verbatim>\<open>int()\<close> of a string\<close>

definition is_digit :: "char \<Rightarrow> bool" where
  "is_digit c \<longleftrightarrow> 48 \<le> (of_char c :: nat) \<and> (of_char c :: nat) \<le> 57"

definition is_space :: "char \<Rightarrow> bool" where
  "is_space c \<longleftrightarrow> (of_char c :: nat) \<in> {9, 10, 11, 12, 13, 32, 133, 160}"

definition py_strip :: "string \<Rightarrow> string" where
  "py_strip s = rev (dropWhile is_space (rev (dropWhile is_space s)))"

text \<open>Digits, of which any two may have one underscore between them.\<close>

function py_digits :: "string \<Rightarrow> string option" where
  "py_digits [] = None"
| "py_digits (c # cs) =
     (if \<not> is_digit c then None
      else if cs = [] then Some [c]
      else map_option ((#) c) (py_digits (if hd cs = CHR ''_'' then tl cs else cs)))"
  by pat_completeness auto
termination by (relation "measure length") (auto simp: less_Suc_eq_le)

definition py_int :: "string \<Rightarrow> int option" where
  "py_int s =
     (let t = py_strip s; body = (if t \<noteq> [] \<and> hd t \<in> {CHR ''+'', CHR ''-''} then tl t else t) in
      case py_digits body of
        None \<Rightarrow> None
      | Some ds \<Rightarrow>
          if 4300 < length ds then None
          else Some (if hd t = CHR ''-'' then - int (digits_value ds) else int (digits_value ds)))"

section \<open>The parser\<close>

text \<open>One \<^verbatim>\<open>add_argument\<close>: \<open>co_store\<close> converts the value and stores it, or fails.\<close>

record 'ns cli_option =
  co_name :: string
  co_required :: bool
  co_store :: "string \<Rightarrow> 'ns \<Rightarrow> 'ns option"

definition option_strings :: "'ns cli_option list \<Rightarrow> string list" where
  "option_strings t = [''-h'', ''--help''] @ map co_name t"

fun partition_eq :: "string \<Rightarrow> string \<times> string option" where
  "partition_eq [] = ([], None)"
| "partition_eq (c # cs) =
     (if c = CHR ''='' then ([], Some cs) else (case partition_eq cs of (p, v) \<Rightarrow> (c # p, v)))"

text \<open>The regular expression for negative numbers; its end also matches before a last newline.\<close>

definition negative_number_text :: "string \<Rightarrow> bool" where
  "negative_number_text s \<longleftrightarrow> s \<noteq> [] \<and> hd s = CHR ''-'' \<and>
     (let whole = takeWhile is_digit (tl s); rest = dropWhile is_digit (tl s) in
      (whole \<noteq> [] \<and> rest = []) \<or>
      (rest \<noteq> [] \<and> hd rest = CHR ''.'' \<and> tl rest \<noteq> [] \<and> list_all is_digit (tl rest)))"

definition negative_number :: "string \<Rightarrow> bool" where
  "negative_number s \<longleftrightarrow> negative_number_text s \<or>
     (s \<noteq> [] \<and> of_char (last s) = (10 :: nat) \<and> negative_number_text (butlast s))"

text \<open>All options an argument may abbreviate, with the value that follows in the same argument.\<close>

definition option_tuples :: "string list \<Rightarrow> string \<Rightarrow> (string \<times> string option) list" where
  "option_tuples opts a =
     (if a ! 1 = CHR ''-'' then
        (case partition_eq a of (p, v) \<Rightarrow> map (\<lambda>opt. (opt, v)) (filter (prefix p) opts))
      else concat (map (\<lambda>opt. if opt = take 2 a then [(opt, Some (drop 2 a))]
                              else if prefix a opt then [(opt, None)] else []) opts))"

datatype arg_kind =
    Arg_Value
  | Arg_Option string "string option"
  | Arg_Refused

text \<open>
  An argument by itself.  Refused are the separator \<^verbatim>\<open>--\<close>, behind which all is positional, an
  abbreviation of several options, and an unknown option: no parser here takes any of them.
\<close>

definition classify_arg :: "string list \<Rightarrow> string \<Rightarrow> arg_kind" where
  "classify_arg opts a =
     (if a = ''--'' then Arg_Refused
      else if a = [] \<or> hd a \<noteq> CHR ''-'' then Arg_Value
      else if a \<in> set opts then Arg_Option a None
      else if length a = 1 then Arg_Value
      else if snd (partition_eq a) \<noteq> None \<and> fst (partition_eq a) \<in> set opts
        then Arg_Option (fst (partition_eq a)) (snd (partition_eq a))
      else (case option_tuples opts a of
          [(opt, v)] \<Rightarrow> Arg_Option opt v
        | _ # _ # _ \<Rightarrow> Arg_Refused
        | [] \<Rightarrow> if negative_number a \<or> CHR '' '' \<in> set a then Arg_Value else Arg_Refused))"

definition store_option :: "'ns cli_option list \<Rightarrow> string \<Rightarrow> string \<Rightarrow> 'ns \<Rightarrow> 'ns option" where
  "store_option t opt v ns =
     (case List.find (\<lambda>c. co_name c = opt) t of None \<Rightarrow> None | Some c \<Rightarrow> co_store c v ns)"

text \<open>The options in order; \<open>seen\<close> are those that were given.  The two help options are in no table.\<close>

fun parse_from :: "'ns cli_option list \<Rightarrow> string list \<Rightarrow> 'ns \<Rightarrow> string list \<Rightarrow> ('ns \<times> string list) option" where
  "parse_from t [] ns seen = Some (ns, seen)"
| "parse_from t (a # rest) ns seen =
     (case classify_arg (option_strings t) a of
        Arg_Option opt (Some v) \<Rightarrow>
          Option.bind (store_option t opt v ns) (\<lambda>ns'. parse_from t rest ns' (opt # seen))
      | Arg_Option opt None \<Rightarrow>
          (case rest of
             [] \<Rightarrow> None
           | v # rest' \<Rightarrow>
               if classify_arg (option_strings t) v \<noteq> Arg_Value then None
               else Option.bind (store_option t opt v ns) (\<lambda>ns'. parse_from t rest' ns' (opt # seen)))
      | _ \<Rightarrow> None)"

definition parse_args :: "'ns cli_option list \<Rightarrow> 'ns \<Rightarrow> string list \<Rightarrow> 'ns option" where
  "parse_args t defaults argv =
     (case parse_from t argv defaults [] of
        None \<Rightarrow> None
      | Some (ns, seen) \<Rightarrow>
          if list_all (\<lambda>c. co_required c \<longrightarrow> co_name c \<in> set seen) t then Some ns else None)"

section \<open>The four option tables\<close>

definition str_option :: "string \<Rightarrow> bool \<Rightarrow> ((string \<Rightarrow> string) \<Rightarrow> 'ns \<Rightarrow> 'ns) \<Rightarrow> 'ns cli_option" where
  "str_option name required upd =
     \<lparr>co_name = name, co_required = required, co_store = (\<lambda>s ns. Some (upd (\<lambda>_. s) ns))\<rparr>"

definition int_option :: "string \<Rightarrow> ((int \<Rightarrow> int) \<Rightarrow> 'ns \<Rightarrow> 'ns) \<Rightarrow> 'ns cli_option" where
  "int_option name upd =
     \<lparr>co_name = name, co_required = False, co_store = (\<lambda>s ns. map_option (\<lambda>n. upd (\<lambda>_. n) ns) (py_int s))\<rparr>"

definition float_option ::
  "(string \<Rightarrow> pyfloat res) \<Rightarrow> string \<Rightarrow> ((pyfloat \<Rightarrow> pyfloat) \<Rightarrow> 'ns \<Rightarrow> 'ns) \<Rightarrow> 'ns cli_option" where
  "float_option float_of_str name upd =
     \<lparr>co_name = name, co_required = False,
      co_store = (\<lambda>s ns. case float_of_str s of Inl _ \<Rightarrow> None | Inr x \<Rightarrow> Some (upd (\<lambda>_. x) ns))\<rparr>"

text \<open>\<^verbatim>\<open>--csv\<close> is only tested for truth, so no path and the empty path are the same.\<close>

record synthetic_args =
  sa_host :: string
  sa_port :: int
  sa_ticks :: int
  sa_seed :: int
  sa_csv :: string

definition synthetic_options :: "synthetic_args cli_option list" where
  "synthetic_options =
     [str_option ''--host'' False sa_host_update, int_option ''--port'' sa_port_update,
      int_option ''--ticks'' sa_ticks_update, int_option ''--seed'' sa_seed_update,
      str_option ''--csv'' False sa_csv_update]"

definition synthetic_defaults :: synthetic_args where
  "synthetic_defaults = \<lparr>sa_host = ''127.0.0.1'', sa_port = 9999, sa_ticks = 200, sa_seed = 42, sa_csv = []\<rparr>"

text \<open>Required options have no default: \<^verbatim>\<open>None\<close> is never read.\<close>

record backtest_args =
  ba_host :: string
  ba_port :: int
  ba_ticker :: string
  ba_start :: string
  ba_end :: string
  ba_interval :: string
  ba_cache_dir :: string
  ba_csv :: string

definition backtest_options :: "backtest_args cli_option list" where
  "backtest_options =
     [str_option ''--host'' False ba_host_update, int_option ''--port'' ba_port_update,
      str_option ''--ticker'' False ba_ticker_update, str_option ''--start'' True ba_start_update,
      str_option ''--end'' True ba_end_update, str_option ''--interval'' False ba_interval_update,
      str_option ''--cache-dir'' False ba_cache_dir_update, str_option ''--csv'' False ba_csv_update]"

text \<open>\<open>script_dir\<close> is the directory of the script.\<close>

definition DEFAULT_CACHE_DIR :: "string \<Rightarrow> string" where
  "DEFAULT_CACHE_DIR script_dir = path_join script_dir ''data''"

definition backtest_defaults :: "string \<Rightarrow> backtest_args" where
  "backtest_defaults script_dir =
     \<lparr>ba_host = ''127.0.0.1'', ba_port = 9999, ba_ticker = ''ES=F'', ba_start = [], ba_end = [],
      ba_interval = ''1d'', ba_cache_dir = DEFAULT_CACHE_DIR script_dir, ba_csv = []\<rparr>"

record live_args =
  la_host :: string
  la_port :: int
  la_ib_host :: string
  la_ib_port :: int
  la_ib_client_id :: int
  la_expiry :: string
  la_duration :: pyfloat
  la_csv :: string

definition live_options :: "(string \<Rightarrow> pyfloat res) \<Rightarrow> live_args cli_option list" where
  "live_options float_of_str =
     [str_option ''--host'' False la_host_update, int_option ''--port'' la_port_update,
      str_option ''--ib-host'' False la_ib_host_update, int_option ''--ib-port'' la_ib_port_update,
      int_option ''--ib-client-id'' la_ib_client_id_update, str_option ''--expiry'' True la_expiry_update,
      float_option float_of_str ''--duration'' la_duration_update, str_option ''--csv'' False la_csv_update]"

definition live_defaults :: live_args where
  "live_defaults =
     \<lparr>la_host = ''127.0.0.1'', la_port = 9999, la_ib_host = ''127.0.0.1'', la_ib_port = 7497,
      la_ib_client_id = 1, la_expiry = [], la_duration = Fin 60, la_csv = []\<rparr>"

record hedge_args =
  ha_host :: string
  ha_port :: int
  ha_pricing_host :: string
  ha_pricing_port :: int
  ha_ticks :: int
  ha_seed :: int
  ha_hedge_band :: int

definition hedge_options :: "hedge_args cli_option list" where
  "hedge_options =
     [str_option ''--host'' False ha_host_update, int_option ''--port'' ha_port_update,
      str_option ''--pricing-host'' False ha_pricing_host_update,
      int_option ''--pricing-port'' ha_pricing_port_update, int_option ''--ticks'' ha_ticks_update,
      int_option ''--seed'' ha_seed_update, int_option ''--hedge-band'' ha_hedge_band_update]"

definition hedge_defaults :: hedge_args where
  "hedge_defaults =
     \<lparr>ha_host = ''127.0.0.1'', ha_port = 9999, ha_pricing_host = ''127.0.0.1'', ha_pricing_port = 9998,
      ha_ticks = 300, ha_seed = 42, ha_hedge_band = 5\<rparr>"

section \<open>The drivers from their command lines\<close>

datatype 'a cli = System_Exit | Ran 'a

definition cli_run :: "'ns option \<Rightarrow> ('ns \<Rightarrow> 'a) \<Rightarrow> 'a cli" where
  "cli_run parsed main = (case parsed of None \<Rightarrow> System_Exit | Some args \<Rightarrow> Ran (main args))"

definition cli_synthetic ::
  "(int \<Rightarrow> nat \<Rightarrow> nat) \<Rightarrow> (nat \<Rightarrow> pyfloat) \<Rightarrow> (string \<Rightarrow> int \<Rightarrow> OrderBookClient res) \<Rightarrow> nat \<Rightarrow> (pyfloat \<Rightarrow> string) \<Rightarrow>
   string list \<Rightarrow> file_system \<Rightarrow> ((nat \<times> nat \<times> nat) res \<times> file_system) option cli" where
  "cli_synthetic rng clock connect fuel repr argv fs =
     cli_run (parse_args synthetic_options synthetic_defaults argv) (\<lambda>args.
       main_synthetic rng clock (connect (sa_host args) (sa_port args)) fuel repr
         (sa_ticks args) (sa_seed args) (sa_csv args) fs)"

definition cli_backtest ::
  "string \<Rightarrow> (pyfloat \<Rightarrow> string) \<Rightarrow> (string \<Rightarrow> pyfloat res) \<Rightarrow> Download \<Rightarrow> (int \<Rightarrow> pyfloat res) \<Rightarrow>
   (nat \<Rightarrow> pyfloat) \<Rightarrow> (string \<Rightarrow> int \<Rightarrow> OrderBookClient res) \<Rightarrow> nat \<Rightarrow> string list \<Rightarrow> file_system \<Rightarrow>
   ((nat \<times> nat \<times> BacktestReport \<times> pyfloat) res \<times> file_system) option cli" where
  "cli_backtest script_dir repr float_of_str download power_half clock connect fuel argv fs =
     cli_run (parse_args backtest_options (backtest_defaults script_dir) argv) (\<lambda>args.
       main_backtest repr float_of_str (yfinance_downloader download) power_half clock (connect (ba_host args) (ba_port args)) fuel
         (ba_ticker args) (ba_start args) (ba_end args) (ba_interval args) (ba_cache_dir args) (ba_csv args) fs)"

text \<open>\<open>ib host port client_id contract\<close> is the client that the constructor gives and that the feed
  subscribes to the contract.\<close>

definition cli_live ::
  "(string \<Rightarrow> string \<Rightarrow> string \<Rightarrow> 'c) \<Rightarrow> (string \<Rightarrow> int \<Rightarrow> int \<Rightarrow> 'c \<Rightarrow> ('c, 'k) IBAsyncClient res) \<Rightarrow> pyfloat \<Rightarrow>
   live_env \<Rightarrow> (nat \<Rightarrow> pyfloat) \<Rightarrow> (string \<Rightarrow> int \<Rightarrow> OrderBookClient res) \<Rightarrow> nat \<Rightarrow>
   (pyfloat \<Rightarrow> string) \<Rightarrow> (string \<Rightarrow> pyfloat res) \<Rightarrow> string list \<Rightarrow> file_system \<Rightarrow>
   ((nat \<times> nat \<times> nat) res \<times> file_system) option cli" where
  "cli_live future ib now env clock connect fuel repr float_of_str argv fs =
     cli_run (parse_args (live_options float_of_str) live_defaults argv) (\<lambda>args.
       main_live (ib (la_ib_host args) (la_ib_port args) (la_ib_client_id args)
           (default_es_contract future (la_expiry args)))
         now env clock (connect (la_host args) (la_port args)) fuel repr (la_duration args) (la_csv args) fs)"

definition cli_hedge_backtest ::
  "(int \<Rightarrow> nat \<Rightarrow> nat) \<Rightarrow> (int \<Rightarrow> pyfloat res) \<Rightarrow> (nat \<Rightarrow> pyfloat) \<Rightarrow> (string \<Rightarrow> int \<Rightarrow> PricingClient res) \<Rightarrow>
   (string \<Rightarrow> int \<Rightarrow> OrderBookClient res) \<Rightarrow> string list \<Rightarrow>
   (nat \<times> nat \<times> mean_value \<times> pyfloat \<times> pyfloat \<times> pyfloat \<times> pyfloat) res cli" where
  "cli_hedge_backtest rng power_half clock pricing connect argv =
     cli_run (parse_args hedge_options hedge_defaults argv) (\<lambda>args.
       main_hedge_backtest rng power_half clock (pricing (ha_pricing_host args) (ha_pricing_port args))
         (connect (ha_host args) (ha_port args)) (ha_ticks args) (ha_seed args) (ha_hedge_band args))"

section \<open>Lemmas\<close>

subsection \<open>Integers\<close>

lemma dec_digits_digits: "list_all is_digit (dec_digits n)"
proof (induction n rule: dec_digits.induct)
  case (1 n)
  have d: "is_digit (char_of (48 + m))" if "m < 10" for m :: nat
    using that by (simp add: is_digit_def of_char_of)
  with 1 show ?case by (cases "n < 10") (simp_all add: dec_digits.simps [of n])
qed

lemma is_digit_facts:
  "is_digit c \<Longrightarrow> \<not> is_space c \<and> c \<noteq> CHR ''_'' \<and> c \<noteq> CHR ''-'' \<and> c \<noteq> CHR ''+'' \<and> c \<noteq> CHR ''=''"
  by (auto simp: is_digit_def is_space_def)

lemma py_digits_plain: "list_all is_digit s \<Longrightarrow> s \<noteq> [] \<Longrightarrow> py_digits s = Some s"
proof (induction s)
  case (Cons c cs)
  then show ?case using is_digit_facts by (cases cs) auto
qed simp

lemma dropWhile_hd: "s \<noteq> [] \<Longrightarrow> \<not> P (hd s) \<Longrightarrow> dropWhile P s = s"
  by (cases s) simp_all

lemma py_strip_id: "s \<noteq> [] \<Longrightarrow> \<not> is_space (hd s) \<Longrightarrow> \<not> is_space (last s) \<Longrightarrow> py_strip s = s"
  by (simp add: py_strip_def dropWhile_hd hd_rev)

lemma str_int_shape:
  "str_int n \<noteq> [] \<and> \<not> is_space (hd (str_int n)) \<and> \<not> is_space (last (str_int n)) \<and> CHR ''='' \<notin> set (str_int n)"
proof -
  have ds: "dec_digits m \<noteq> [] \<and> is_digit (hd (dec_digits m)) \<and> is_digit (last (dec_digits m)) \<and>
      CHR ''='' \<notin> set (dec_digits m)" for m
    using dec_digits_digits [of m] dec_digits_no_minus [of m] is_digit_facts
    by (auto simp: list_all_iff)
  then show ?thesis using is_digit_facts by (auto simp: str_int_def is_space_def)
qed

lemma py_int_str_int: "length (str_int n) \<le> 4300 \<Longrightarrow> py_int (str_int n) = Some n"
proof -
  assume "length (str_int n) \<le> 4300"
  moreover have "py_strip (str_int n) = str_int n" using str_int_shape py_strip_id by blast
  moreover have "py_digits (dec_digits m) = Some (dec_digits m)" for m
    using py_digits_plain dec_digits_digits dec_digits_no_minus by blast
  moreover have "hd (dec_digits m) \<noteq> CHR ''-'' \<and> hd (dec_digits m) \<noteq> CHR ''+''" for m
    using dec_digits_digits [of m] dec_digits_no_minus [of m] is_digit_facts [of "hd (dec_digits m)"]
    by (cases "dec_digits m") simp_all
  ultimately show ?thesis using dec_digits_no_minus
    by (cases "n < 0") (simp_all add: py_int_def str_int_def Let_def del: dec_digits.simps digits_value.simps)
qed

subsection \<open>One argument\<close>

lemma partition_eq_no: "CHR ''='' \<notin> set p \<Longrightarrow> partition_eq p = (p, None)"
  by (induction p) auto

lemma partition_eq_append: "CHR ''='' \<notin> set p \<Longrightarrow> partition_eq (p @ CHR ''='' # v) = (p, Some v)"
  by (induction p) auto

lemma partition_eq_cases:
  "partition_eq a = (p, v) \<Longrightarrow> CHR ''='' \<notin> set p \<and> a = (case v of None \<Rightarrow> p | Some w \<Rightarrow> p @ CHR ''='' # w)"
proof (induction a arbitrary: p v)
  case (Cons c cs)
  then show ?case by (cases "partition_eq cs") (auto split: if_splits option.splits)
qed simp

text \<open>The tables have long options of different names, apart from \<^verbatim>\<open>--help\<close>.\<close>

definition long_option :: "string \<Rightarrow> bool" where
  "long_option n \<longleftrightarrow> prefix ''--'' n \<and> 2 < length n \<and> CHR ''='' \<notin> set n \<and> n \<noteq> ''--help''"

definition table_ok :: "'ns cli_option list \<Rightarrow> bool" where
  "table_ok t \<longleftrightarrow> list_all long_option (map co_name t) \<and> distinct (map co_name t)"

lemma tables_ok:
  "table_ok synthetic_options" "table_ok backtest_options" "table_ok (live_options f)" "table_ok hedge_options"
  by (simp_all add: table_ok_def long_option_def synthetic_options_def backtest_options_def live_options_def
    hedge_options_def str_option_def int_option_def float_option_def)

text \<open>What an option may be written as: its name, or a start of it that no other option has.\<close>

definition option_text :: "string list \<Rightarrow> string \<Rightarrow> string \<Rightarrow> bool" where
  "option_text opts p opt \<longleftrightarrow> p = opt \<or> (prefix ''--'' p \<and> p \<notin> set opts \<and> filter (prefix p) opts = [opt])"


text \<open>A setting: how the option is written, the option, its value, and whether one argument holds both.\<close>

type_synonym setting = "string \<times> string \<times> string \<times> bool"

fun setting_args :: "setting \<Rightarrow> string list" where
  "setting_args (p, opt, v, joined) = (if joined then [p @ CHR ''='' # v] else [p, v])"

fun setting_ok :: "'ns cli_option list \<Rightarrow> setting \<Rightarrow> bool" where
  "setting_ok t (p, opt, v, joined) \<longleftrightarrow> opt \<in> set (map co_name t) \<and> option_text (option_strings t) p opt \<and>
     (joined \<or> classify_arg (option_strings t) v = Arg_Value)"

fun store_settings :: "'ns cli_option list \<Rightarrow> setting list \<Rightarrow> 'ns \<Rightarrow> 'ns option" where
  "store_settings t [] ns = Some ns"
| "store_settings t ((p, opt, v, joined) # ss) ns = Option.bind (store_option t opt v ns) (store_settings t ss)"

fun setting_name :: "setting \<Rightarrow> string" where
  "setting_name (p, opt, v, joined) = opt"

lemma option_name_facts:
  assumes "table_ok t" "opt \<in> set (map co_name t)"
  shows "long_option opt" "opt \<in> set (option_strings t)" "opt \<noteq> []" "hd opt = CHR ''-''" "opt \<noteq> ''--''"
  using assms by (auto simp: table_ok_def option_strings_def list_all_iff long_option_def prefix_def)

lemma options_without_eq: "table_ok t \<Longrightarrow> opt \<in> set (option_strings t) \<Longrightarrow> CHR ''='' \<notin> set opt"
  by (auto simp: table_ok_def option_strings_def list_all_iff long_option_def)

lemma option_text_facts:
  assumes "table_ok t" "opt \<in> set (map co_name t)" "option_text (option_strings t) p opt"
  shows "prefix ''--'' p" "CHR ''='' \<notin> set p" "p \<noteq> ''--''"
    "p \<noteq> opt \<Longrightarrow> p \<notin> set (option_strings t) \<and> filter (prefix p) (option_strings t) = [opt]"
proof -
  note o = option_name_facts [OF assms(1,2)]
  show "prefix ''--'' p" using assms(3) o(1) by (auto simp: option_text_def long_option_def)
  have "p = opt \<or> filter (prefix p) (option_strings t) = [opt]" using assms(3) by (auto simp: option_text_def)
  then have "p = opt \<or> opt \<in> set (filter (prefix p) (option_strings t))" by (metis list.set_intros(1))
  then have "prefix p opt" by auto
  then show "CHR ''='' \<notin> set p" using o(1) set_mono_prefix [of p opt] by (auto simp: long_option_def)
  show d: "p \<noteq> opt \<Longrightarrow> p \<notin> set (option_strings t) \<and> filter (prefix p) (option_strings t) = [opt]"
    using assms(3) by (auto simp: option_text_def)
  show "p \<noteq> ''--''"
  proof
    assume p: "p = ''--''"
    then have "filter (prefix p) (option_strings t) = [opt]" using d o(5) by simp
    moreover have "''--help'' \<in> set (filter (prefix p) (option_strings t))" using p by (simp add: option_strings_def)
    ultimately have "opt = ''--help''" by simp
    with o(1) show False by (simp add: long_option_def)
  qed
qed

lemma classify_setting:
  assumes "table_ok t" "opt \<in> set (map co_name t)" "option_text (option_strings t) p opt"
  shows "classify_arg (option_strings t) p = Arg_Option opt None"
    "classify_arg (option_strings t) (p @ CHR ''='' # v) = Arg_Option opt (Some v)"
proof -
  note f = option_text_facts [OF assms] and o = option_name_facts [OF assms(1,2)]
  obtain q where p: "p = CHR ''-'' # CHR ''-'' # q" using f(1) by (auto simp: prefix_def)
  have no: "p @ CHR ''='' # v \<notin> set (option_strings t)" using options_without_eq [OF assms(1)] by force
  show "classify_arg (option_strings t) p = Arg_Option opt None"
    using f(3,4) o(2) p partition_eq_no [OF f(2)]
    by (cases "p = opt") (auto simp: classify_arg_def option_tuples_def)
  have ne: "p @ CHR ''='' # v \<noteq> ''--''" using p by simp
  show "classify_arg (option_strings t) (p @ CHR ''='' # v) = Arg_Option opt (Some v)"
    using f(4) o(2) p no ne partition_eq_append [OF f(2), of v]
    by (cases "p = opt") (auto simp: classify_arg_def option_tuples_def)
qed

lemma classify_option:
  assumes "table_ok t" "classify_arg (option_strings t) a = Arg_Option opt v" "opt \<in> set (map co_name t)"
  shows "\<exists>p. option_text (option_strings t) p opt \<and> a = (case v of None \<Rightarrow> p | Some w \<Rightarrow> p @ CHR ''='' # w)"
proof -
  let ?opts = "option_strings t"
  obtain p v0 where pe: "partition_eq a = (p, v0)" by fastforce
  note a = partition_eq_cases [OF pe]
  have long: "long_option opt" by (rule option_name_facts [OF assms(1,3)])
  show ?thesis
  proof (cases "a \<in> set ?opts \<or> (v0 \<noteq> None \<and> p \<in> set ?opts)")
    case True
    then have "option_text ?opts opt opt \<and> a = (case v of None \<Rightarrow> opt | Some w \<Rightarrow> opt @ CHR ''='' # w)"
      using assms(2) pe a by (auto simp: classify_arg_def option_text_def split: if_splits)
    then show ?thesis by blast
  next
    case False
    then have "a \<noteq> []" "hd a = CHR ''-''" "length a \<noteq> 1" and tup: "option_tuples ?opts a = [(opt, v)]"
      using assms(2) pe by (auto simp: classify_arg_def split: if_splits list.splits prod.splits)
    then obtain c q where ac: "a = CHR ''-'' # c # q" by (cases a; cases "tl a") auto
    show ?thesis
    proof (cases "c = CHR ''-''")
      case True
      then have f: "filter (prefix p) ?opts = [opt]" "v = v0" using tup pe ac by (auto simp: option_tuples_def)
      have "prefix ''--'' p" using a ac True by (auto simp: Cons_eq_append_conv split: option.splits)
      moreover have "p \<notin> set ?opts" using False a by (cases v0) auto
      ultimately show ?thesis using f a by (auto simp: option_text_def)
    next
      case False
      then have "opt = take 2 a \<or> prefix a opt"
        using arg_cong [OF tup, of set] ac by (auto simp: option_tuples_def split: if_splits)
      then show ?thesis using long ac False by (auto simp: long_option_def prefix_def)
    qed
  qed
qed

lemma store_option_name: "store_option t opt v ns = Some ns' \<Longrightarrow> opt \<in> set (map co_name t)"
  by (auto simp: store_option_def find_Some_iff split: option.splits)

lemma parse_from_settings:
  assumes "table_ok t"
  shows "parse_from t argv ns seen = Some (ns', seen') \<longleftrightarrow>
    (\<exists>ss. argv = concat (map setting_args ss) \<and> list_all (setting_ok t) ss \<and> store_settings t ss ns = Some ns' \<and>
      seen' = rev (map setting_name ss) @ seen)"
  (is "?L = ?R")
proof
  assume ?L
  with assms show ?R
  proof (induction t argv ns seen rule: parse_from.induct)
    case (2 t a rest ns seen)
    note parsed = 2(4) and ok = 2(3)
    obtain opt v where k: "classify_arg (option_strings t) a = Arg_Option opt v"
      using parsed by (cases "classify_arg (option_strings t) a") auto
    show ?case
    proof (cases v)
      case (Some w)
      with parsed k obtain n1 where n1: "store_option t opt w ns = Some n1" "parse_from t rest n1 (opt # seen) = Some (ns', seen')"
        by (auto simp: bind_eq_Some_conv)
      from store_option_name [OF n1(1)] classify_option [OF ok k] Some obtain p where
        "opt \<in> set (map co_name t)" "option_text (option_strings t) p opt" "a = p @ CHR ''='' # w" by auto
      moreover from 2(2) [OF k Some n1(1) ok n1(2)] obtain ss where "rest = concat (map setting_args ss)" "list_all (setting_ok t) ss"
        "store_settings t ss n1 = Some ns'" "seen' = rev (map setting_name ss) @ opt # seen" by blast
      ultimately show ?thesis using n1(1) by (intro exI [of _ "(p, opt, w, True) # ss"]) simp
    next
      case None
      with parsed k obtain w rest' n1 where w: "rest = w # rest'" "classify_arg (option_strings t) w = Arg_Value"
        "store_option t opt w ns = Some n1" "parse_from t rest' n1 (opt # seen) = Some (ns', seen')"
        by (auto simp: bind_eq_Some_conv split: list.splits if_splits)
      from store_option_name [OF w(3)] classify_option [OF ok k] None obtain p where
        "opt \<in> set (map co_name t)" "option_text (option_strings t) p opt" "a = p" by auto
      moreover from 2(1) [OF k None w(1) _ w(3) ok w(4)] w(2) obtain ss where "rest' = concat (map setting_args ss)"
        "list_all (setting_ok t) ss" "store_settings t ss n1 = Some ns'" "seen' = rev (map setting_name ss) @ opt # seen" by auto
      ultimately show ?thesis using w by (intro exI [of _ "(p, opt, w, False) # ss"]) simp
    qed
  qed simp
next
  assume ?R
  then obtain ss where "argv = concat (map setting_args ss)" "list_all (setting_ok t) ss"
    "store_settings t ss ns = Some ns'" "seen' = rev (map setting_name ss) @ seen" by blast
  then show ?L
  proof (induction ss arbitrary: argv ns seen)
    case (Cons x ss)
    obtain p opt v joined where x: "x = (p, opt, v, joined)" by (cases x)
    with Cons.prems obtain n1 where n1: "store_option t opt v ns = Some n1" "store_settings t ss n1 = Some ns'"
      by (auto simp: bind_eq_Some_conv)
    have "opt \<in> set (map co_name t)" "option_text (option_strings t) p opt" using Cons.prems(2) x by simp_all
    note c = classify_setting [OF assms this]
    have "parse_from t (concat (map setting_args ss)) n1 (opt # seen) = Some (ns', seen')"
      using Cons.IH [of _ n1 "opt # seen"] Cons.prems x n1 by simp
    then show ?case using Cons.prems x c n1 by (cases joined) auto
  qed simp
qed


text \<open>A number is a value, with its sign or without.\<close>

lemma classify_str_int: "table_ok t \<Longrightarrow> classify_arg (option_strings t) (str_int n) = Arg_Value"
proof -
  assume t: "table_ok t"
  have ds: "list_all is_digit (dec_digits m)" "dec_digits m \<noteq> []" "hd (dec_digits m) \<noteq> CHR ''-''" for m
    using dec_digits_digits dec_digits_no_minus by auto
  show ?thesis
  proof (cases "n < 0")
    case False
    then show ?thesis using ds [of "nat n"] by (auto simp: classify_arg_def str_int_def)
  next
    case True
    let ?a = "CHR ''-'' # dec_digits (nat (- n))"
    obtain c q where d: "dec_digits (nat (- n)) = c # q" using ds(2) by (cases "dec_digits (nat (- n))") auto
    have c: "c \<noteq> CHR ''-''" "is_digit c" "c \<noteq> CHR ''h''"
      using ds(1,3) [of "nat (- n)"] d by (auto simp: is_digit_def)
    have out: "\<not> prefix ?a opt \<and> opt \<noteq> take 2 ?a" if "opt \<in> set (option_strings t)" for opt
    proof (cases "opt \<in> set (map co_name t)")
      case True
      then have "long_option opt" using t option_name_facts(1) by blast
      then show ?thesis using c d by (auto simp: long_option_def prefix_def)
    next
      case False
      then show ?thesis using that c d by (auto simp: option_strings_def prefix_def)
    qed
    have "CHR ''='' \<notin> set ?a" using ds(1) [of "nat (- n)"] is_digit_facts by (auto simp: list_all_iff)
    then have "partition_eq ?a = (?a, None)" by (rule partition_eq_no)
    moreover have "concat (map (\<lambda>opt. if opt = take 2 ?a then [(opt, Some (drop 2 ?a))]
        else if prefix ?a opt then [(opt, None)] else []) (option_strings t)) = ([] :: (string \<times> string option) list)"
      using out by auto
    then have "option_tuples (option_strings t) ?a = []" using c d by (simp add: option_tuples_def)
    moreover have "takeWhile is_digit (dec_digits (nat (- n))) = dec_digits (nat (- n))"
      using ds(1) [of "nat (- n)"] by (simp add: list_all_iff)
    then have "negative_number_text ?a" unfolding negative_number_text_def Let_def list.sel
      using ds(1,2) [of "nat (- n)"] by (metis dropWhile_eq_Nil_conv list.distinct(1) list_all_iff)
    moreover have "?a \<notin> set (option_strings t)" using out by blast
    ultimately show ?thesis using True c d by (auto simp: classify_arg_def str_int_def negative_number_def)
  qed
qed

text \<open>The usual command line of the synthetic session: both numbers may be negative.\<close>

lemma cli_synthetic_numbers:
  assumes "length (str_int ticks) \<le> 4300" "length (str_int seed) \<le> 4300"
  shows "cli_synthetic rng clock connect fuel repr [''--ticks'', str_int ticks, ''--seed='' @ str_int seed] fs =
    Ran (main_synthetic rng clock (connect ''127.0.0.1'' 9999) fuel repr ticks seed [] fs)"
proof -
  let ?t = synthetic_options
  have o: "''--ticks'' \<in> set (map co_name ?t)" "''--seed'' \<in> set (map co_name ?t)"
    by (simp_all add: synthetic_options_def str_option_def int_option_def)
  have self: "option_text (option_strings ?t) opt opt" for opt by (simp add: option_text_def)
  have "parse_args ?t synthetic_defaults [''--ticks'', str_int ticks, ''--seed='' @ str_int seed] =
      Some (synthetic_defaults\<lparr>sa_ticks := ticks, sa_seed := seed\<rparr>)"
    using classify_setting(1) [OF tables_ok(1) o(1) self] classify_setting(2) [OF tables_ok(1) o(2) self, of "str_int seed"]
      classify_str_int [OF tables_ok(1), of ticks] py_int_str_int assms
    by (simp add: parse_args_def store_option_def synthetic_options_def str_option_def int_option_def)
  then show ?thesis by (simp add: cli_synthetic_def cli_run_def synthetic_defaults_def)
qed

subsection \<open>What the settings give\<close>

definition command_line :: "'ns cli_option list \<Rightarrow> string list \<Rightarrow> setting list \<Rightarrow> bool" where
  "command_line t argv ss \<longleftrightarrow> argv = concat (map setting_args ss) \<and> list_all (setting_ok t) ss"

text \<open>The last value given for an option, as a string and converted.\<close>

definition given :: "setting list \<Rightarrow> string \<Rightarrow> string option" where
  "given ss opt = map_of (rev (map (\<lambda>(p, opt, v, joined). (opt, v)) ss)) opt"

definition given_str :: "setting list \<Rightarrow> string \<Rightarrow> string \<Rightarrow> string" where
  "given_str ss opt d = (case given ss opt of None \<Rightarrow> d | Some v \<Rightarrow> v)"

definition given_int :: "setting list \<Rightarrow> string \<Rightarrow> int \<Rightarrow> int" where
  "given_int ss opt d = (case given ss opt of None \<Rightarrow> d | Some v \<Rightarrow> the (py_int v))"

definition given_float :: "(string \<Rightarrow> pyfloat res) \<Rightarrow> setting list \<Rightarrow> string \<Rightarrow> pyfloat \<Rightarrow> pyfloat" where
  "given_float float_of_str ss opt d =
     (case given ss opt of None \<Rightarrow> d | Some v \<Rightarrow> (case float_of_str v of Inr x \<Rightarrow> x | Inl _ \<Rightarrow> d))"

text \<open>Every value of these options converts.\<close>

definition values_convert :: "(string \<Rightarrow> bool) \<Rightarrow> string list \<Rightarrow> setting list \<Rightarrow> bool" where
  "values_convert good opts ss \<longleftrightarrow> list_all (\<lambda>(p, opt, v, joined). opt \<in> set opts \<longrightarrow> good v) ss"

abbreviation ints_convert :: "string list \<Rightarrow> setting list \<Rightarrow> bool" where
  "ints_convert \<equiv> values_convert (\<lambda>v. py_int v \<noteq> None)"

lemma given_simps [simp]:
  "given [] opt = None"
  "given (ss @ [(p, o', v, joined)]) opt = (if opt = o' then Some v else given ss opt)"
  by (simp_all add: given_def)

lemma values_convert_simps [simp]:
  "values_convert good opts []"
  "values_convert good opts (ss @ [(p, opt, v, joined)]) \<longleftrightarrow> values_convert good opts ss \<and> (opt \<in> set opts \<longrightarrow> good v)"
  by (simp_all add: values_convert_def)

lemma store_settings_snoc:
  "store_settings t (ss @ [(p, opt, v, joined)]) ns = Option.bind (store_settings t ss ns) (store_option t opt v)"
proof (induction t ss ns rule: store_settings.induct)
  case (2 t p opt v joined ss ns)
  then show ?case by (cases "store_option t opt v ns") simp_all
next
  case (1 t ns)
  show ?case by (cases "store_option t opt v ns") simp_all
qed

lemma bind_if_Some: "Option.bind (if b then Some x else None) f = (if b then f x else None)"
  by simp

lemmas option_table_defs = synthetic_options_def backtest_options_def live_options_def hedge_options_def
  str_option_def int_option_def float_option_def

lemmas given_defs = given_str_def given_int_def given_float_def

text \<open>A list of settings of a table, from the last one.\<close>

lemma settings_rev_induct [consumes 1, case_names Nil snoc]:
  assumes "list_all (setting_ok t) ss" "P []"
    and "\<And>ss p opt v joined. opt \<in> set (map co_name t) \<Longrightarrow> P ss \<Longrightarrow> P (ss @ [(p, opt, v, joined)])"
  shows "P ss"
  using assms(1)
proof (induction ss rule: rev_induct)
  case (snoc x ss)
  then show ?case using assms(3) by (cases x) auto
qed (rule assms(2))

lemma store_synthetic:
  assumes "list_all (setting_ok synthetic_options) ss"
  shows "store_settings synthetic_options ss d =
    (if ints_convert [''--port'', ''--ticks'', ''--seed''] ss
     then Some \<lparr>sa_host = given_str ss ''--host'' (sa_host d), sa_port = given_int ss ''--port'' (sa_port d),
       sa_ticks = given_int ss ''--ticks'' (sa_ticks d), sa_seed = given_int ss ''--seed'' (sa_seed d),
       sa_csv = given_str ss ''--csv'' (sa_csv d)\<rparr> else None)"
  using assms
proof (induction rule: settings_rev_induct)
  case (snoc ss p opt v joined)
  then show ?case by (auto simp: store_settings_snoc store_option_def option_table_defs given_defs)
qed (simp add: given_defs)

lemma store_backtest:
  assumes "list_all (setting_ok backtest_options) ss"
  shows "store_settings backtest_options ss d =
    (if ints_convert [''--port''] ss
     then Some \<lparr>ba_host = given_str ss ''--host'' (ba_host d), ba_port = given_int ss ''--port'' (ba_port d),
       ba_ticker = given_str ss ''--ticker'' (ba_ticker d), ba_start = given_str ss ''--start'' (ba_start d),
       ba_end = given_str ss ''--end'' (ba_end d), ba_interval = given_str ss ''--interval'' (ba_interval d),
       ba_cache_dir = given_str ss ''--cache-dir'' (ba_cache_dir d), ba_csv = given_str ss ''--csv'' (ba_csv d)\<rparr> else None)"
  using assms
proof (induction rule: settings_rev_induct)
  case (snoc ss p opt v joined)
  then show ?case by (auto simp: store_settings_snoc store_option_def option_table_defs given_defs)
qed (simp add: given_defs)

lemma store_live:
  assumes "list_all (setting_ok (live_options f)) ss"
  shows "store_settings (live_options f) ss d =
    (if ints_convert [''--port'', ''--ib-port'', ''--ib-client-id''] ss \<and> values_convert (\<lambda>v. \<exists>x. f v = Inr x) [''--duration''] ss
     then Some \<lparr>la_host = given_str ss ''--host'' (la_host d), la_port = given_int ss ''--port'' (la_port d),
       la_ib_host = given_str ss ''--ib-host'' (la_ib_host d), la_ib_port = given_int ss ''--ib-port'' (la_ib_port d),
       la_ib_client_id = given_int ss ''--ib-client-id'' (la_ib_client_id d),
       la_expiry = given_str ss ''--expiry'' (la_expiry d), la_duration = given_float f ss ''--duration'' (la_duration d),
       la_csv = given_str ss ''--csv'' (la_csv d)\<rparr> else None)"
  using assms
proof (induction rule: settings_rev_induct)
  case (snoc ss p opt v joined)
  from snoc(1) have "opt = ''--host'' \<or> opt = ''--port'' \<or> opt = ''--ib-host'' \<or> opt = ''--ib-port'' \<or>
      opt = ''--ib-client-id'' \<or> opt = ''--expiry'' \<or> opt = ''--duration'' \<or> opt = ''--csv''"
    by (simp add: option_table_defs)
  then show ?case unfolding store_settings_snoc snoc(2) bind_if_Some
    by (cases "f v"; elim disjE; simp add: store_option_def option_table_defs given_defs)
qed (simp add: given_defs)

lemma store_hedge:
  assumes "list_all (setting_ok hedge_options) ss"
  shows "store_settings hedge_options ss d =
    (if ints_convert [''--port'', ''--pricing-port'', ''--ticks'', ''--seed'', ''--hedge-band''] ss
     then Some \<lparr>ha_host = given_str ss ''--host'' (ha_host d), ha_port = given_int ss ''--port'' (ha_port d),
       ha_pricing_host = given_str ss ''--pricing-host'' (ha_pricing_host d),
       ha_pricing_port = given_int ss ''--pricing-port'' (ha_pricing_port d),
       ha_ticks = given_int ss ''--ticks'' (ha_ticks d), ha_seed = given_int ss ''--seed'' (ha_seed d),
       ha_hedge_band = given_int ss ''--hedge-band'' (ha_hedge_band d)\<rparr> else None)"
  using assms
proof (induction rule: settings_rev_induct)
  case (snoc ss p opt v joined)
  then show ?case by (auto simp: store_settings_snoc store_option_def option_table_defs given_defs)
qed (simp add: given_defs)

lemma parse_args_settings:
  assumes "table_ok t"
  shows "parse_args t defaults argv = Some ns \<longleftrightarrow>
    (\<exists>ss. command_line t argv ss \<and> store_settings t ss defaults = Some ns \<and>
      list_all (\<lambda>c. co_required c \<longrightarrow> given ss (co_name c) \<noteq> None) t)"
proof -
  have given: "given ss opt \<noteq> None \<longleftrightarrow> opt \<in> setting_name ` set ss" for ss opt
    by (induction ss rule: rev_induct) (auto simp: image_iff)
  have "parse_args t defaults argv = Some ns \<longleftrightarrow> (\<exists>seen. parse_from t argv defaults [] = Some (ns, seen) \<and>
      list_all (\<lambda>c. co_required c \<longrightarrow> co_name c \<in> set seen) t)"
    by (auto simp: parse_args_def split: option.splits)
  then show ?thesis unfolding command_line_def given by (auto simp: parse_from_settings [OF assms])
qed

lemma parsed_synthetic:
  "parse_args synthetic_options synthetic_defaults argv = Some args \<longleftrightarrow>
    (\<exists>ss. command_line synthetic_options argv ss \<and> ints_convert [''--port'', ''--ticks'', ''--seed''] ss \<and>
      args = \<lparr>sa_host = given_str ss ''--host'' ''127.0.0.1'', sa_port = given_int ss ''--port'' 9999,
        sa_ticks = given_int ss ''--ticks'' 200, sa_seed = given_int ss ''--seed'' 42, sa_csv = given_str ss ''--csv'' []\<rparr>)"
proof -
  have req: "list_all (\<lambda>c. co_required c \<longrightarrow> P c) synthetic_options" for P by (simp add: option_table_defs)
  show ?thesis
    by (auto simp: parse_args_settings [OF tables_ok(1)] req command_line_def store_synthetic synthetic_defaults_def split: if_splits)
qed

lemma parsed_backtest:
  "parse_args backtest_options (backtest_defaults script_dir) argv = Some args \<longleftrightarrow>
    (\<exists>ss start end_d. command_line backtest_options argv ss \<and> ints_convert [''--port''] ss \<and>
      given ss ''--start'' = Some start \<and> given ss ''--end'' = Some end_d \<and>
      args = \<lparr>ba_host = given_str ss ''--host'' ''127.0.0.1'', ba_port = given_int ss ''--port'' 9999,
        ba_ticker = given_str ss ''--ticker'' ''ES=F'', ba_start = start, ba_end = end_d,
        ba_interval = given_str ss ''--interval'' ''1d'',
        ba_cache_dir = given_str ss ''--cache-dir'' (path_join script_dir ''data''), ba_csv = given_str ss ''--csv'' []\<rparr>)"
proof -
  have req: "list_all (\<lambda>c. co_required c \<longrightarrow> given ss (co_name c) \<noteq> None) backtest_options \<longleftrightarrow>
    given ss ''--start'' \<noteq> None \<and> given ss ''--end'' \<noteq> None" for ss by (simp add: option_table_defs)
  have out: "given_str ss opt d = v" if "given ss opt = Some v" for ss opt d v using that by (simp add: given_str_def)
  show ?thesis unfolding parse_args_settings [OF tables_ok(2)] req
    by (auto simp: command_line_def store_backtest backtest_defaults_def DEFAULT_CACHE_DIR_def out split: if_splits)
qed

lemma parsed_live:
  "parse_args (live_options f) live_defaults argv = Some args \<longleftrightarrow>
    (\<exists>ss expiry. command_line (live_options f) argv ss \<and> ints_convert [''--port'', ''--ib-port'', ''--ib-client-id''] ss \<and>
      values_convert (\<lambda>v. \<exists>x. f v = Inr x) [''--duration''] ss \<and> given ss ''--expiry'' = Some expiry \<and>
      args = \<lparr>la_host = given_str ss ''--host'' ''127.0.0.1'', la_port = given_int ss ''--port'' 9999,
        la_ib_host = given_str ss ''--ib-host'' ''127.0.0.1'', la_ib_port = given_int ss ''--ib-port'' 7497,
        la_ib_client_id = given_int ss ''--ib-client-id'' 1, la_expiry = expiry,
        la_duration = given_float f ss ''--duration'' (Fin 60), la_csv = given_str ss ''--csv'' []\<rparr>)"
proof -
  have req: "list_all (\<lambda>c. co_required c \<longrightarrow> given ss (co_name c) \<noteq> None) (live_options f) \<longleftrightarrow>
    given ss ''--expiry'' \<noteq> None" for ss by (simp add: option_table_defs)
  have out: "given_str ss opt d = v" if "given ss opt = Some v" for ss opt d v using that by (simp add: given_str_def)
  show ?thesis unfolding parse_args_settings [OF tables_ok(3)] req
    by (auto simp: command_line_def store_live live_defaults_def out split: if_splits)
qed

lemma parsed_hedge:
  "parse_args hedge_options hedge_defaults argv = Some args \<longleftrightarrow>
    (\<exists>ss. command_line hedge_options argv ss \<and>
      ints_convert [''--port'', ''--pricing-port'', ''--ticks'', ''--seed'', ''--hedge-band''] ss \<and>
      args = \<lparr>ha_host = given_str ss ''--host'' ''127.0.0.1'', ha_port = given_int ss ''--port'' 9999,
        ha_pricing_host = given_str ss ''--pricing-host'' ''127.0.0.1'', ha_pricing_port = given_int ss ''--pricing-port'' 9998,
        ha_ticks = given_int ss ''--ticks'' 300, ha_seed = given_int ss ''--seed'' 42,
        ha_hedge_band = given_int ss ''--hedge-band'' 5\<rparr>)"
proof -
  have req: "list_all (\<lambda>c. co_required c \<longrightarrow> P c) hedge_options" for P by (simp add: option_table_defs)
  show ?thesis
    by (auto simp: parse_args_settings [OF tables_ok(4)] req command_line_def store_hedge hedge_defaults_def split: if_splits)
qed

lemma cli_run_Ran: "cli_run parsed main = Ran r \<longleftrightarrow> (\<exists>args. parsed = Some args \<and> r = main args)"
  by (auto simp: cli_run_def split: option.splits)

text \<open>An abbreviation, a value behind an equals sign, and a port given twice, the second time negative.\<close>

lemma command_line_example:
  "parse_args backtest_options (backtest_defaults dir)
     [''--st'', ''2024-01-01'', ''--end=2024-06-01'', ''--port=7'', ''--port'', ''-5''] =
   Some ((backtest_defaults dir)\<lparr>ba_start := ''2024-01-01'', ba_end := ''2024-06-01'', ba_port := - 5\<rparr>)"
proof (rule parse_args_settings [OF tables_ok(2), THEN iffD2], intro exI conjI)
  let ?ss = "[(''--st'', ''--start'', ''2024-01-01'', False), (''--end'', ''--end'', ''2024-06-01'', True),
    (''--port'', ''--port'', ''7'', True), (''--port'', ''--port'', ''-5'', False)]"
  have n: "str_int 7 = ''7''" "str_int (- 5) = ''-5''" by code_simp+
  have v: "py_int ''7'' = Some 7" "py_int ''-5'' = Some (- 5)" "classify_arg (option_strings backtest_options) ''-5'' = Arg_Value"
    using py_int_str_int [of 7] py_int_str_int [of "- 5"] classify_str_int [OF tables_ok(2), of "- 5"] by (simp_all add: n)
  have "classify_arg (option_strings backtest_options) ''2024-01-01'' = Arg_Value" by (simp add: classify_arg_def)
  then show "command_line backtest_options
      [''--st'', ''2024-01-01'', ''--end=2024-06-01'', ''--port=7'', ''--port'', ''-5''] ?ss" using v(3)
    by (simp add: command_line_def option_text_def option_strings_def option_table_defs)
  show "store_settings backtest_options ?ss (backtest_defaults dir) =
      Some ((backtest_defaults dir)\<lparr>ba_start := ''2024-01-01'', ba_end := ''2024-06-01'', ba_port := - 5\<rparr>)"
    by (simp add: store_option_def option_table_defs v)
  show "list_all (\<lambda>c. co_required c \<longrightarrow> given ?ss (co_name c) \<noteq> None) backtest_options"
    by (simp add: option_table_defs given_def)
qed

section \<open>Properties\<close>

text \<open>C29: Each driver runs exactly on the command lines that are a sequence of settings: each an option of
  its table, written out or abbreviated so that no other option is meant, with its value in the same
  argument behind an equals sign or in the next one when that does not look like an option.  Numbers
  must convert, the backtest must get a start and an end, the live session an expiry.  What runs is
  the session with the last value given for each option and the documented default where there is
  none; every other command line ends the program before it connects to anything.\<close>

theorem drivers_accept_settings:
  "(cli_synthetic rng clock connect fuel repr argv fs = Ran r1 \<longleftrightarrow>
     (\<exists>ss. command_line synthetic_options argv ss \<and> ints_convert [''--port'', ''--ticks'', ''--seed''] ss \<and>
        r1 = main_synthetic rng clock (connect (given_str ss ''--host'' ''127.0.0.1'') (given_int ss ''--port'' 9999)) fuel repr
          (given_int ss ''--ticks'' 200) (given_int ss ''--seed'' 42) (given_str ss ''--csv'' []) fs)) \<and>
   (cli_backtest script_dir repr float_of_str download power_half clock connect fuel argv fs = Ran r2 \<longleftrightarrow>
     (\<exists>ss start end_d. command_line backtest_options argv ss \<and> ints_convert [''--port''] ss \<and>
        given ss ''--start'' = Some start \<and> given ss ''--end'' = Some end_d \<and>
        r2 = main_backtest repr float_of_str (yfinance_downloader download) power_half clock
          (connect (given_str ss ''--host'' ''127.0.0.1'') (given_int ss ''--port'' 9999)) fuel
          (given_str ss ''--ticker'' ''ES=F'') start end_d (given_str ss ''--interval'' ''1d'')
          (given_str ss ''--cache-dir'' (path_join script_dir ''data'')) (given_str ss ''--csv'' []) fs)) \<and>
   (cli_live future ib now env clock connect fuel repr float_of_str argv fs = Ran r3 \<longleftrightarrow>
     (\<exists>ss expiry. command_line (live_options float_of_str) argv ss \<and>
        ints_convert [''--port'', ''--ib-port'', ''--ib-client-id''] ss \<and>
        values_convert (\<lambda>v. \<exists>x. float_of_str v = Inr x) [''--duration''] ss \<and> given ss ''--expiry'' = Some expiry \<and>
        r3 = main_live (ib (given_str ss ''--ib-host'' ''127.0.0.1'') (given_int ss ''--ib-port'' 7497)
            (given_int ss ''--ib-client-id'' 1) (future ''ES'' expiry ''CME''))
          now env clock (connect (given_str ss ''--host'' ''127.0.0.1'') (given_int ss ''--port'' 9999)) fuel repr
          (given_float float_of_str ss ''--duration'' (Fin 60)) (given_str ss ''--csv'' []) fs)) \<and>
   (cli_hedge_backtest rng power_half clock pricing connect argv = Ran r4 \<longleftrightarrow>
     (\<exists>ss. command_line hedge_options argv ss \<and>
        ints_convert [''--port'', ''--pricing-port'', ''--ticks'', ''--seed'', ''--hedge-band''] ss \<and>
        r4 = main_hedge_backtest rng power_half clock
          (pricing (given_str ss ''--pricing-host'' ''127.0.0.1'') (given_int ss ''--pricing-port'' 9998))
          (connect (given_str ss ''--host'' ''127.0.0.1'') (given_int ss ''--port'' 9999))
          (given_int ss ''--ticks'' 300) (given_int ss ''--seed'' 42) (given_int ss ''--hedge-band'' 5)))"
  by (intro conjI; unfold cli_synthetic_def cli_backtest_def cli_live_def cli_hedge_backtest_def cli_run_Ran
    parsed_synthetic parsed_backtest parsed_live parsed_hedge; force simp: default_es_contract_def)

end
