(* ===== verification/BlackScholes.thy ===== *)
theory BlackScholes
  imports Statistics
begin

text \<open>
  \<^verbatim>\<open>risk/bench/naive_black_scholes.py\<close>: the Python baseline of the pricing benchmark, with
  every operation in binary64.  \<^verbatim>\<open>math.sqrt\<close> is correctly rounded, so it is defined here;
  \<^verbatim>\<open>math.erf\<close>, \<^verbatim>\<open>math.log\<close> and \<^verbatim>\<open>math.exp\<close> are the C library's and are parameters, of which
  \<open>libm_ok\<close> states what Python documents.  \<^verbatim>\<open>time.perf_counter\<close> is the function from the number
  of the call to its result.
\<close>

section \<open>Pricing\<close>

record libm =
  m_erf :: "pyfloat \<Rightarrow> pyfloat"
  m_log :: "pyfloat \<Rightarrow> pyfloat res"
  m_exp :: "pyfloat \<Rightarrow> pyfloat res"

fun math_sqrt :: "pyfloat \<Rightarrow> pyfloat res" where
  "math_sqrt (Fin r) =
     (if r < 0 then Inl ValueError else case quotient_of r of (n, m) \<Rightarrow> float_sqrt_of_frac n m)"
| "math_sqrt NegInf = Inl ValueError"
| "math_sqrt x = Inr x"

definition norm_cdf :: "libm \<Rightarrow> pyfloat \<Rightarrow> pyfloat res" where
  "norm_cdf L x =
     res_bind (math_sqrt (Fin 2)) (\<lambda>s.
     res_bind (fdiv x s) (\<lambda>y.
     Inr (fmul (Fin (1 / 2)) (fadd (Fin 1) (m_erf L y)))))"

definition bs_price :: "libm \<Rightarrow> pyfloat \<Rightarrow> pyfloat \<Rightarrow> pyfloat \<Rightarrow> pyfloat \<Rightarrow> pyfloat \<Rightarrow> bool \<Rightarrow> pyfloat res" where
  "bs_price L spot strike rate vol time_to_expiry is_call =
     (let phi = (if is_call then Fin 1 else Fin (- 1)) in
      res_bind (math_sqrt time_to_expiry) (\<lambda>sqrt_t.
      let vol_sqrt_t = fmul vol sqrt_t in
      res_bind (fdiv spot strike) (\<lambda>ratio.
      res_bind (m_log L ratio) (\<lambda>l.
      res_bind (fdiv (fadd l (fmul (fadd rate (fmul (fmul (Fin (1 / 2)) vol) vol)) time_to_expiry))
                  vol_sqrt_t) (\<lambda>d1.
      let d2 = fsub d1 vol_sqrt_t in
      res_bind (m_exp L (fmul (fneg rate) time_to_expiry)) (\<lambda>discount.
      res_bind (norm_cdf L (fmul phi d1)) (\<lambda>n1.
      res_bind (norm_cdf L (fmul phi d2)) (\<lambda>n2.
      Inr (fmul phi (fsub (fmul spot n1) (fmul (fmul strike discount) n2)))))))))))"

section \<open>The benchmark\<close>

type_synonym BS_Option = "pyfloat \<times> pyfloat \<times> pyfloat \<times> pyfloat \<times> pyfloat \<times> bool"

text \<open>\<^verbatim>\<open>80.0 + (i % 40)\<close> and \<^verbatim>\<open>0.25 + (i % 8) * 0.125\<close>.\<close>

definition batch_entry :: "int \<Rightarrow> BS_Option res" where
  "batch_entry i =
     res_bind (fadd_int (Fin 80) (i mod 40)) (\<lambda>spot.
     res_bind (fmul_int (Fin (1 / 8)) (i mod 8)) (\<lambda>t.
     Inr (spot, Fin 100, to_float False (3 / 100), to_float False (1 / 5), fadd (Fin (1 / 4)) t, i mod 2 = 0)))"

definition make_batch :: "int \<Rightarrow> BS_Option list res" where
  "make_batch count = map_res batch_entry [0..count - 1]"

fun price_batch :: "libm \<Rightarrow> BS_Option list \<Rightarrow> unit res" where
  "price_batch L [] = Inr ()"
| "price_batch L ((spot, strike, rate, vol, t, is_call) # batch) =
     res_bind (bs_price L spot strike rate vol t is_call) (\<lambda>_. price_batch L batch)"

fun warm_up :: "libm \<Rightarrow> BS_Option list \<Rightarrow> nat \<Rightarrow> unit res" where
  "warm_up L batch 0 = Inr ()"
| "warm_up L batch (Suc n) = res_bind (price_batch L batch) (\<lambda>_. warm_up L batch n)"

text \<open>\<^verbatim>\<open>min(best_elapsed, elapsed)\<close> keeps the first unless the second is less.\<close>

fun timed_runs :: "libm \<Rightarrow> BS_Option list \<Rightarrow> (nat \<Rightarrow> pyfloat) \<Rightarrow> nat \<Rightarrow> nat \<Rightarrow> pyfloat \<Rightarrow> pyfloat res" where
  "timed_runs L batch clock k 0 best_elapsed = Inr best_elapsed"
| "timed_runs L batch clock k (Suc n) best_elapsed =
     res_bind (price_batch L batch) (\<lambda>_.
     let elapsed = fsub (clock (k + 1)) (clock k) in
     timed_runs L batch clock (k + 2) n (if fless elapsed best_elapsed then elapsed else best_elapsed))"

text \<open>The count, the elapsed milliseconds, the options per second and the microseconds per option.\<close>

definition benchmark :: "libm \<Rightarrow> (nat \<Rightarrow> pyfloat) \<Rightarrow> int \<Rightarrow> (int \<times> pyfloat \<times> pyfloat \<times> pyfloat) res" where
  "benchmark L clock count =
     res_bind (make_batch count) (\<lambda>batch.
     res_bind (warm_up L batch 3) (\<lambda>_.
     res_bind (timed_runs L batch clock 0 10 PosInf) (\<lambda>best_elapsed.
     res_bind (int_to_float count) (\<lambda>c.
     res_bind (fdiv c best_elapsed) (\<lambda>options_per_sec.
     res_bind (fdiv_int (fmul best_elapsed (Fin 1000000)) count) (\<lambda>us_per_option.
     res_bind (fmul_int best_elapsed 1000) (\<lambda>ms.
     Inr (count, ms, options_per_sec, us_per_option))))))))"

section \<open>Lemmas\<close>

text \<open>
  What is assumed of the C library: \<^verbatim>\<open>erf\<close> is a number of [-1, 1], a NaN only for a NaN;
  \<^verbatim>\<open>log\<close> of a positive finite number and \<^verbatim>\<open>exp\<close> of a number that is not positive do not
  raise, and the latter is in [0, 1].
\<close>

definition unit_range :: "pyfloat \<Rightarrow> bool" where
  "unit_range x \<longleftrightarrow> is_finite x \<and> 0 \<le> fval x \<and> fval x \<le> 1"

definition libm_ok :: "libm \<Rightarrow> bool" where
  "libm_ok L \<longleftrightarrow>
     (\<forall>x. if x = NaN then m_erf L x = NaN else is_finite (m_erf L x) \<and> \<bar>fval (m_erf L x)\<bar> \<le> 1) \<and>
     (\<forall>x. is_finite x \<longrightarrow> 0 < fval x \<longrightarrow> (\<exists>y. m_log L x = Inr y)) \<and>
     (\<forall>x. x \<noteq> NaN \<longrightarrow> \<not> fless (Fin 0) x \<longrightarrow> (\<exists>y. m_exp L x = Inr y \<and> unit_range y))"

subsection \<open>Square roots\<close>

lemma rto_le: "0 \<le> n \<Longrightarrow> 0 < m \<Longrightarrow> integer_sqrt_of_frac_rto n m \<le> n + 1"
proof -
  assume n: "0 \<le> n" "0 < m"
  then have d: "0 \<le> n div m" "n div m \<le> n" using zdiv_mono2 [of n 1 m] by (simp_all add: pos_imp_zdiv_nonneg_iff)
  from isqrt_spec [OF d(1)] have s: "0 \<le> isqrt (n div m)" "isqrt (n div m) * isqrt (n div m) \<le> n div m" by auto
  have "isqrt (n div m) * 1 \<le> isqrt (n div m) * isqrt (n div m)" if "isqrt (n div m) \<noteq> 0"
    using s(1) that by (intro mult_left_mono) auto
  then have "isqrt (n div m) \<le> n" using s d n by (cases "isqrt (n div m) = 0") linarith+
  then show ?thesis by (simp add: integer_sqrt_of_frac_rto_def Let_def)
qed

lemma int_truediv_range:
  assumes "1 \<le> a" "a \<le> 2 ^ k" "k < 1024" "0 < b" "b \<le> 2 ^ j" "j \<le> 1000"
  shows "\<exists>z. int_truediv a b = Inr (Fin z) \<and> pow2 (- int j) \<le> z"
proof -
  have "pow2 (- int j) = 1 / of_int (2 ^ j)"
    using pow2_diff [of 0 "int j"] pow2_of_nat [of j] pow2_eval(1) by simp
  also have "\<dots> \<le> 1 / of_int b" using assms(4,5)
    by (intro divide_left_mono) (simp_all only: of_int_le_iff of_int_0_less_iff zero_less_mult_iff, auto)
  also have "\<dots> \<le> of_int a / of_int b"
    using assms(1,4) by (intro divide_right_mono) auto
  finally have "rnd (pow2 (- int j)) \<le> rnd (of_int a / of_int b)" by (rule rnd_mono)
  moreover have "rnd (pow2 (- int j)) = pow2 (- int j)" using assms(6) by (intro rnd_pow2) simp
  ultimately have low: "pow2 (- int j) \<le> rnd (of_int a / of_int b)" by simp
  have "of_int a / of_int b \<le> (of_int a / 1 :: rat)"
    using assms(1,4) by (intro divide_left_mono) auto
  moreover have "(of_int a :: rat) \<le> 2 ^ k" using assms(2) by (metis of_int_le_iff of_int_numeral of_int_power)
  moreover have "0 \<le> of_int a / (of_int b :: rat)" using assms(1,4) by simp
  ultimately have "\<bar>of_int a / of_int b :: rat\<bar> \<le> 2 ^ k" by linarith
  from rnd_bound_lt_max [OF this assms(3)] have "\<not> 2 ^ 1024 \<le> \<bar>rnd (of_int a / of_int b)\<bar>" by linarith
  moreover have "rnd (of_int a / of_int b) \<noteq> 0" using low pow2_pos [of "- int j"] by linarith
  ultimately have "int_truediv a b = Inr (Fin (rnd (of_int a / of_int b)))"
    unfolding int_truediv_def Let_def using assms(4) by simp
  with low show ?thesis by blast
qed

lemma wf_int_truediv: "int_truediv a b = Inr z \<Longrightarrow> wf_float z"
  by (auto simp: int_truediv_def Let_def not_le split: if_splits)

lemma float_sqrt_range:
  assumes n: "0 < n" "n < 2 ^ 106" and m: "0 < m" "m < 2 ^ 106"
  shows "\<exists>z. float_sqrt_of_frac n m = Inr (Fin z) \<and> pow2 (- 110) \<le> z"
proof -
  define q where "q = (bitlen n - bitlen m - 109) div 2"
  let ?a = "integer_sqrt_of_frac_rto (n * 2 ^ nat (- 2 * q)) m"
  have "bitlen n \<le> 106" "bitlen m \<le> 106" using n m by (simp_all add: bitlen_le_iff_power)
  moreover have "0 \<le> bitlen n" "0 \<le> bitlen m" by (rule bitlen_nonneg)+
  ultimately have q: "q < 0" "- q \<le> 110" by (simp_all add: q_def)
  then have f: "float_sqrt_of_frac n m = int_truediv ?a (2 ^ nat (- q))"
    by (simp add: float_sqrt_of_frac_def q_def [symmetric])
  have "n * 2 ^ nat (- 2 * q) \<le> 2 ^ 106 * 2 ^ 220"
    using n q by (intro mult_mono power_increasing) auto
  then have "?a \<le> 2 ^ 327"
    using rto_le [of "n * 2 ^ nat (- 2 * q)" m] n m by simp
  moreover have "0 \<le> ?a"
    using isqrt_spec [of "n * 2 ^ nat (- 2 * q) div m"] n m
    by (simp add: integer_sqrt_of_frac_rto_def Let_def pos_imp_zdiv_nonneg_iff)
  moreover have "?a \<noteq> 0"
    using float_sqrt_of_frac_pos [OF n(1) m] unfolding f by (auto simp: int_truediv_def zero_of_def)
  moreover have "(2 :: int) ^ nat (- q) \<le> 2 ^ 110" using q by (intro power_increasing) auto
  ultimately show ?thesis
    using int_truediv_range [of ?a 327 "2 ^ nat (- q)" 110] unfolding f by simp
qed

lemma math_sqrt_range:
  assumes "0 < r" "r \<le> 2 ^ 50" "8 * r = of_int k"
  shows "\<exists>z. math_sqrt (Fin r) = Inr (Fin z) \<and> pow2 (- 110) \<le> z"
proof -
  obtain n m where q: "quotient_of r = (n, m)" by (cases "quotient_of r")
  have m: "0 < m" "r = of_int n / of_int m" using q by (simp_all add: quotient_of_denom_pos quotient_of_div)
  have "m \<le> 8" using quotient_of_denom_le [OF q, of 8] assms(3) by (simp add: mult.commute)
  moreover have n: "0 < n" using assms(1) m by (simp add: zero_less_divide_iff)
  have "of_int n = r * of_int m" using m by simp
  also have "\<dots> \<le> 2 ^ 50 * 8" using assms(1,2) \<open>m \<le> 8\<close> m(1) by (intro mult_mono) auto
  finally have "n \<le> 2 ^ 53" by simp
  then have "n < 2 ^ 106" by simp
  moreover have "m < 2 ^ 106" using \<open>m \<le> 8\<close> by simp
  ultimately show ?thesis using float_sqrt_range [OF n _ m(1)] assms(1) q by simp
qed

lemma sqrt_2: "\<exists>z>0. math_sqrt (Fin 2) = Inr (Fin z)"
proof -
  obtain z where "math_sqrt (Fin 2) = Inr (Fin z)" "pow2 (- 110) \<le> z" using math_sqrt_range [of 2 16] by auto
  with pow2_pos [of "- 110"] show ?thesis by (meson less_le_trans)
qed

subsection \<open>Prices\<close>

lemma wf_float_rnd: "is_finite x \<Longrightarrow> wf_float x \<Longrightarrow> rnd (fval x) = fval x \<and> \<bar>fval x\<bar> < 2 ^ 1024"
  by (cases x) simp_all

lemma fmul_unit_range:
  assumes "is_finite x" "wf_float x" "0 \<le> fval x" "unit_range y"
  shows "is_finite (fmul x y) \<and> wf_float (fmul x y) \<and> 0 \<le> fval (fmul x y) \<and> fval (fmul x y) \<le> fval x"
proof -
  have r: "rnd (fval x) = fval x" "\<bar>fval x\<bar> < 2 ^ 1024" using wf_float_rnd [OF assms(1,2)] by blast+
  have y: "fval y \<le> 1" "0 \<le> fval y" using assms(4) by (simp_all add: unit_range_def)
  have le: "fval x * fval y \<le> fval x * 1" by (rule mult_left_mono [OF y(1) assms(3)])
  have ge: "0 \<le> fval x * fval y" by (rule mult_nonneg_nonneg [OF assms(3) y(2)])
  from rnd_mono [OF le] r(1) have "rnd (fval x * fval y) \<le> fval x" by simp
  moreover from rnd_nonneg [OF ge] have "0 \<le> rnd (fval x * fval y)" .
  ultimately show ?thesis
    using fmul_finite [OF assms(1), of y] assms(4) r(2) by (simp add: unit_range_def wf_fmul)
qed

lemma norm_cdf_unit:
  assumes "libm_ok L"
  shows "\<exists>y. norm_cdf L x = Inr y \<and> (y = NaN \<or> unit_range y)"
proof -
  obtain z where z: "0 < z" "math_sqrt (Fin 2) = Inr (Fin z)" using sqrt_2 by blast
  then obtain w where w: "fdiv x (Fin z) = Inr w" by (cases x) (simp_all add: fdiv_def Let_def)
  let ?e = "m_erf L w"
  have n: "norm_cdf L x = Inr (fmul (Fin (1 / 2)) (fadd (Fin 1) ?e))"
    using z w by (simp add: norm_cdf_def)
  show ?thesis
  proof (cases "w = NaN")
    case True
    with assms n show ?thesis by (simp add: libm_ok_def)
  next
    case False
    with assms have e: "is_finite ?e" "\<bar>fval ?e\<bar> \<le> 1" by (simp_all add: libm_ok_def)
    then have s: "0 \<le> 1 + fval ?e" "1 + fval ?e \<le> 2" by auto
    have 2: "rnd 2 = 2" "rnd 1 = 1" using rnd_of_int [of 2] rnd_of_int [of 1] by simp_all
    have "0 \<le> rnd (1 + fval ?e)" "rnd (1 + fval ?e) \<le> 2"
      using rnd_nonneg [OF s(1)] rnd_mono [OF s(2)] 2 by simp_all
    moreover from this have "is_finite (fadd (Fin 1) ?e)" "fval (fadd (Fin 1) ?e) = rnd (1 + fval ?e)"
      using fadd_finite [of "Fin 1" ?e] e by simp_all
    ultimately have f: "is_finite (fadd (Fin 1) ?e)" "0 \<le> fval (fadd (Fin 1) ?e) / 2"
      "fval (fadd (Fin 1) ?e) / 2 \<le> 1" by simp_all
    have "0 \<le> rnd (fval (fadd (Fin 1) ?e) / 2)" "rnd (fval (fadd (Fin 1) ?e) / 2) \<le> 1"
      using rnd_nonneg [OF f(2)] rnd_mono [OF f(3)] 2 by simp_all
    then have "unit_range (fmul (Fin (1 / 2)) (fadd (Fin 1) ?e))"
      using fmul_finite [of "Fin (1 / 2)" "fadd (Fin 1) ?e"] f(1) by (simp add: unit_range_def)
    with n show ?thesis by blast
  qed
qed

text \<open>A positive binary64 number.\<close>

definition pos_float :: "pyfloat \<Rightarrow> bool" where
  "pos_float x \<longleftrightarrow> is_finite x \<and> wf_float x \<and> 0 < fval x"

lemma fmul_unit_sign:
  assumes "is_finite x" "wf_float x" "s = 1 \<or> s = - 1"
  shows "is_finite (fmul (Fin s) x) \<and> fval (fmul (Fin s) x) = s * fval x"
proof -
  have "rnd (fval x) = fval x" "\<bar>fval x\<bar> < 2 ^ 1024" using wf_float_rnd [OF assms(1,2)] by blast+
  with assms(1,3) fmul_finite [of "Fin s" x] show ?thesis by auto
qed

lemma spread_bounds:
  assumes S: "pos_float S" and K: "pos_float K" and d: "unit_range d" "unit_range n1" "unit_range n2"
  defines "v \<equiv> fsub (fmul S n1) (fmul (fmul K d) n2)"
  shows "is_finite v \<and> wf_float v \<and> - fval K \<le> fval v \<and> fval v \<le> fval S"
proof -
  have r: "rnd (fval S) = fval S" "rnd (fval K) = fval K" "\<bar>fval S\<bar> < 2 ^ 1024" "\<bar>fval K\<bar> < 2 ^ 1024"
    using S K wf_float_rnd unfolding pos_float_def by blast+
  have a: "is_finite (fmul S n1)" "wf_float (fmul S n1)" "0 \<le> fval (fmul S n1)" "fval (fmul S n1) \<le> fval S"
    using fmul_unit_range [of S n1] S d by (simp_all add: pos_float_def)
  have k: "is_finite (fmul K d)" "wf_float (fmul K d)" "0 \<le> fval (fmul K d)" "fval (fmul K d) \<le> fval K"
    using fmul_unit_range [of K d] K d by (simp_all add: pos_float_def)
  have b: "is_finite (fmul (fmul K d) n2)" "wf_float (fmul (fmul K d) n2)"
    "0 \<le> fval (fmul (fmul K d) n2)" "fval (fmul (fmul K d) n2) \<le> fval K"
    using fmul_unit_range [OF k(1-3) d(3)] k(4) by auto
  have u: "fval (fmul S n1) - fval (fmul (fmul K d) n2) \<le> fval S"
    and l: "- fval K \<le> fval (fmul S n1) - fval (fmul (fmul K d) n2)" using a b by linarith+
  have ru: "rnd (fval (fmul S n1) - fval (fmul (fmul K d) n2)) \<le> fval S"
    and rl: "- fval K \<le> rnd (fval (fmul S n1) - fval (fmul (fmul K d) n2))"
    using rnd_mono [OF u] rnd_mono [OF l] r by simp_all
  then have "\<bar>rnd (fval (fmul S n1) - fval (fmul (fmul K d) n2))\<bar> < 2 ^ 1024" using r(3,4) by linarith
  from fsub_finite [OF a(1) b(1) this] ru rl a(2) b(2) show ?thesis by (simp add: v_def wf_fsub)
qed

lemma fmul_nonpos:
  assumes "is_finite x" "0 \<le> fval x" "is_finite y" "0 \<le> fval y"
  shows "fmul (fneg x) y \<noteq> NaN \<and> \<not> fless (Fin 0) (fmul (fneg x) y)"
proof -
  have "- fval x * fval y \<le> 0" using mult_nonneg_nonneg [OF assms(2,4)] by simp
  from rnd_mono [OF this] have "rnd (- fval x * fval y) \<le> 0" by simp
  then have "rnd (fval x * fval y) \<ge> 0" by simp
  then show ?thesis
    using assms(1,3) by (auto simp: fmul_def to_float_def Let_def zero_of_def inf_of_def fless_def is_finite_not_NaN)
qed

subsection \<open>The batch\<close>

lemma exact_eighth: "\<bar>n\<bar> \<le> 2 ^ 53 \<Longrightarrow> exact (of_int n / 8)"
proof -
  assume n: "\<bar>n\<bar> \<le> 2 ^ 53"
  have "rnd (of_int n / 8) = of_int n / 8"
    by (rule rnd_exact [OF _ n, of _ "- 3"]) (simp_all add: pow2_eval)
  moreover have "\<bar>of_int n / 8 :: rat\<bar> \<le> \<bar>of_int n\<bar>" by simp
  then have "\<bar>of_int n / 8 :: rat\<bar> < 2 ^ 1024" using exact_of_int [OF n] unfolding exact_def by linarith
  ultimately show ?thesis by (simp only: exact_def)
qed

lemma fadd_exact:
  assumes "is_finite x" "is_finite y" "exact (fval x + fval y)" "0 < fval x + fval y"
  shows "fadd x y = Fin (fval x + fval y)"
  using assms to_float_exact [OF assms(3)] by (auto simp: fadd_def Let_def)

lemma batch_entry_eq:
  "batch_entry i = Inr (Fin (of_int (80 + i mod 40)), Fin 100, to_float False (3 / 100), to_float False (1 / 5),
     Fin (of_int (2 + i mod 8) / 8), i mod 2 = 0)"
proof -
  let ?a = "i mod 40" and ?b = "i mod 8"
  have a: "0 \<le> ?a" "?a < 40" and b: "0 \<le> ?b" "?b < 8" by simp_all
  have "int_to_float ?a = Inr (Fin (of_int ?a))" "int_to_float ?b = Inr (Fin (of_int ?b))"
    by (rule int_to_float_exact; use a b in simp)+
  moreover have "exact (of_int (80 + ?a))" by (rule exact_of_int) (use a in simp)
  then have "fadd (Fin 80) (Fin (of_int ?a)) = Fin (of_int (80 + ?a))"
    using fadd_exact [of "Fin 80" "Fin (of_int ?a)"] a by simp
  moreover have "fmul (Fin (1 / 8)) (Fin (of_int ?b)) = Fin (of_int ?b / 8)"
    using to_float_exact [OF exact_eighth [of ?b], of False] b
    by (simp add: fmul_def zero_of_def linorder_not_less [THEN iffD2, OF b(1)])
  moreover have "exact (of_int (2 + ?b) / 8)" by (rule exact_eighth) (use b in simp)
  then have "fadd (Fin (1 / 4)) (Fin (of_int ?b / 8)) = Fin (of_int (2 + ?b) / 8)"
    using fadd_exact [of "Fin (1 / 4)" "Fin (of_int ?b / 8)"] b by (simp add: add_divide_distrib)
  ultimately show ?thesis by (simp add: batch_entry_def fadd_int_def fmul_int_def)
qed

lemma make_batch_eq: "make_batch count = Inr (map (\<lambda>i. (Fin (of_int (80 + i mod 40)), Fin 100,
    to_float False (3 / 100), to_float False (1 / 5), Fin (of_int (2 + i mod 8) / 8), i mod 2 = 0)) [0..count - 1])"
  unfolding make_batch_def by (rule map_res_Inr_map) (rule batch_entry_eq)

lemma literal_bounds: "pow2 (- 3) \<le> rnd (1 / 5)" "rnd (1 / 5) \<le> 1" "0 \<le> rnd (3 / 100)" "rnd (3 / 100) \<le> 1"
proof -
  have "rnd (pow2 (- 3)) \<le> rnd (1 / 5)" "rnd (1 / 5) \<le> rnd 1" "rnd (3 / 100) \<le> rnd 1"
    by (rule rnd_mono; simp add: pow2_eval)+
  moreover have "rnd 1 = 1" using rnd_of_int [of 1] by simp
  ultimately show "pow2 (- 3) \<le> rnd (1 / 5)" "rnd (1 / 5) \<le> 1" "rnd (3 / 100) \<le> 1"
    by (simp_all add: rnd_pow2)
  show "0 \<le> rnd (3 / 100)" by (rule rnd_nonneg) simp
qed

lemma literals_finite:
  "is_finite (to_float False (3 / 100))" "0 \<le> fval (to_float False (3 / 100))"
  "is_finite (to_float False (1 / 5))" "pow2 (- 3) \<le> fval (to_float False (1 / 5))"
    "fval (to_float False (1 / 5)) \<le> 1"
proof -
  have 1: "\<bar>rnd (3 / 100)\<bar> < 2 ^ 1024" "\<bar>rnd (1 / 5)\<bar> < 2 ^ 1024"
    by (rule rnd_bound_lt_max [of _ 0]; simp)+
  show "is_finite (to_float False (3 / 100))" "0 \<le> fval (to_float False (3 / 100))"
    "is_finite (to_float False (1 / 5))" "pow2 (- 3) \<le> fval (to_float False (1 / 5))"
    "fval (to_float False (1 / 5)) \<le> 1"
    using to_float_of_finite [OF 1(1), of False] to_float_of_finite [OF 1(2), of False] literal_bounds by simp_all
qed

text \<open>The volatility over the life of an option of the batch is not zero.\<close>

lemma vol_sqrt_positive:
  assumes "is_finite v" "pow2 (- 3) \<le> fval v" "fval v \<le> 1" "pow2 (- 110) \<le> z" "wf_float (Fin z)"
  shows "is_finite (fmul v (Fin z)) \<and> 0 < fval (fmul v (Fin z))"
proof -
  have "0 \<le> z" "0 \<le> fval v" using assms(2,4) pow2_pos [of "- 110"] pow2_pos [of "- 3"] by linarith+
  then have "fval v * z \<le> 1 * z" using assms(3) by (intro mult_right_mono)
  moreover have "pow2 (- 3) * pow2 (- 110) \<le> fval v * z"
    using assms(2,4) \<open>0 \<le> fval v\<close> by (intro mult_mono) simp_all
  ultimately have "fval v * z \<le> z" "pow2 (- 113) \<le> fval v * z" by (simp_all add: pow2_add [symmetric])
  from rnd_mono [OF this(1)] rnd_mono [OF this(2)] assms(5)
  have "rnd (fval v * z) \<le> z" "pow2 (- 113) \<le> rnd (fval v * z)" by (simp_all add: rnd_pow2)
  moreover have "z < 2 ^ 1024" using wf_float_rnd [of "Fin z"] assms(5) abs_ge_self [of z]
    unfolding fval.simps by (meson is_finite.simps(1) le_less_trans)
  moreover have "0 < rnd (fval v * z)"
    using \<open>pow2 (- 113) \<le> rnd (fval v * z)\<close> pow2_pos [of "- 113"] by linarith
  ultimately show ?thesis using fmul_finite [OF assms(1), of "Fin z"] by simp
qed

lemma bs_price_returns:
  assumes L: "libm_ok L" and ratio: "fdiv spot strike = Inr q" "is_finite q" "0 < fval q"
    and root: "math_sqrt t = Inr z" "is_finite (fmul vol z)" "0 < fval (fmul vol z)"
    and rt: "is_finite rate" "0 \<le> fval rate" "is_finite t" "0 \<le> fval t"
  shows "\<exists>v. bs_price L spot strike rate vol t c = Inr v"
proof -
  obtain l where l: "m_log L q = Inr l" using L ratio(2,3) by (auto simp: libm_ok_def)
  have "fmul (fneg rate) t \<noteq> NaN" "\<not> fless (Fin 0) (fmul (fneg rate) t)" using fmul_nonpos [OF rt] by blast+
  then obtain d where d: "m_exp L (fmul (fneg rate) t) = Inr d" using L by (auto simp: libm_ok_def)
  have "\<exists>w. fdiv x (fmul vol z) = Inr w" for x
    using root(2,3) by (auto simp: fdiv_def Let_def)
  then obtain w where w: "fdiv (fadd l (fmul (fadd rate (fmul (fmul (Fin (1 / 2)) vol) vol)) t)) (fmul vol z) = Inr w"
    by blast
  have "\<exists>n. norm_cdf L x = Inr n" for x using norm_cdf_unit [OF L] by blast
  then obtain n where n: "\<And>x. norm_cdf L x = Inr (n x)" by metis
  show ?thesis using l d w n ratio(1) root(1) by (simp add: bs_price_def Let_def)
qed

lemma moneyness:
  assumes "80 \<le> a" "a \<le> 120"
  shows "\<exists>q. fdiv (Fin (of_int a)) (Fin 100) = Inr q \<and> is_finite q \<and> 0 < fval q"
proof -
  from assms have "(of_int 80 :: rat) \<le> of_int a" "of_int a \<le> (of_int 120 :: rat)" by (simp_all only: of_int_le_iff)
  then have b: "pow2 (- 1) \<le> of_int a / (100 :: rat)" "\<bar>of_int a / 100 :: rat\<bar> \<le> 2 ^ 1"
    using pow2_eval(4) [of num.One] by simp_all
  from rnd_mono [OF b(1)] have "pow2 (- 1) \<le> rnd (of_int a / 100)" by (simp add: rnd_pow2)
  then have "0 < rnd (of_int a / 100)" using pow2_pos [of "- 1"] by linarith
  moreover from rnd_bound_lt_max [OF b(2)] have "\<bar>rnd (of_int a / 100)\<bar> < 2 ^ 1024" by simp
  ultimately show ?thesis using fdiv_finite [of "Fin (of_int a)" "Fin 100"] by force
qed

lemma batch_entry_priced:
  assumes "libm_ok L" "batch_entry i = Inr (spot, strike, rate, vol, t, c)"
  shows "\<exists>v. bs_price L spot strike rate vol t c = Inr v"
proof -
  let ?a = "80 + i mod 40" and ?b = "2 + i mod 8"
  have e: "spot = Fin (of_int ?a)" "strike = Fin 100" "rate = to_float False (3 / 100)"
    "vol = to_float False (1 / 5)" "t = Fin (of_int ?b / 8)"
    using assms(2) by (simp_all add: batch_entry_eq)
  have ib: "2 \<le> ?b" "?b < 10" by simp_all
  have "80 \<le> ?a" "?a \<le> 120" by simp_all
  then obtain q where "fdiv spot strike = Inr q" "is_finite q" "0 < fval q"
    using moneyness unfolding e(1,2) by blast
  moreover have b: "0 < (of_int ?b / 8 :: rat)" "of_int ?b / 8 \<le> (2 :: rat) ^ 50"
    using ib by (simp_all add: divide_le_eq)
  with math_sqrt_range [of "of_int ?b / 8" ?b] obtain z where
    z: "math_sqrt t = Inr (Fin z)" "pow2 (- 110) \<le> z" using e(5) by auto
  moreover have "wf_float (Fin z)"
    using z(1) e(5) b(1) by (auto simp: float_sqrt_of_frac_def Let_def split: prod.splits if_splits dest: wf_int_truediv)
  then have "is_finite (fmul vol (Fin z)) \<and> 0 < fval (fmul vol (Fin z))"
    unfolding e(4) by (rule vol_sqrt_positive [OF literals_finite(3-5) z(2)])
  ultimately show ?thesis
    using bs_price_returns [OF assms(1), of spot strike q t "Fin z" vol rate c] literals_finite(1,2) e b(1) by simp
qed

lemma price_batch_ok:
  "libm_ok L \<Longrightarrow> \<forall>b\<in>set batch. \<exists>i. batch_entry i = Inr b \<Longrightarrow> price_batch L batch = Inr ()"
proof (induction batch)
  case (Cons b batch)
  then obtain i where i: "batch_entry i = Inr b" by auto
  obtain spot strike rate vol t c where "b = (spot, strike, rate, vol, t, c)" by (cases b)
  with Cons i show ?case using batch_entry_priced [of L i] by fastforce
qed simp

lemma make_batch_priced:
  assumes "libm_ok L"
  shows "\<exists>batch. make_batch n = Inr batch \<and> price_batch L batch = Inr ()"
  unfolding make_batch_eq
proof (intro exI conjI)
  let ?entry = "\<lambda>i. (Fin (of_int (80 + i mod 40)), Fin 100, to_float False (3 / 100), to_float False (1 / 5),
      Fin (of_int (2 + i mod 8) / 8), i mod 2 = 0)"
  show "price_batch L (map ?entry [0..n - 1]) = Inr ()"
    by (rule price_batch_ok [OF assms]) (unfold set_map, use batch_entry_eq in blast)
qed (rule refl)

subsection \<open>The timed runs\<close>

definition elapsed_times :: "(nat \<Rightarrow> pyfloat) \<Rightarrow> nat \<Rightarrow> nat \<Rightarrow> pyfloat list" where
  "elapsed_times clock k n = map (\<lambda>i. fsub (clock (k + 2 * i + 1)) (clock (k + 2 * i))) [0..<n]"

definition least_time :: "pyfloat list \<Rightarrow> pyfloat \<Rightarrow> pyfloat" where
  "least_time ts best = foldl (\<lambda>b t. if fless t b then t else b) best ts"

lemma elapsed_times_Suc: "elapsed_times clock k (Suc n) = fsub (clock (k + 1)) (clock k) # elapsed_times clock (k + 2) n"
  unfolding elapsed_times_def map_upt_Suc by simp

lemma timed_runs_eq:
  "price_batch L batch = Inr () \<Longrightarrow>
   timed_runs L batch clock k n best = Inr (least_time (elapsed_times clock k n) best)"
proof (induction n arbitrary: k best)
  case 0
  then show ?case by (simp add: least_time_def elapsed_times_def)
next
  case (Suc n)
  then show ?case by (simp add: elapsed_times_Suc least_time_def Let_def)
qed

lemma warm_up_ok: "price_batch L batch = Inr () \<Longrightarrow> warm_up L batch n = Inr ()"
  by (induction n) simp_all

section \<open>Properties\<close>

text \<open>A price the baseline returns is a NaN or between the two prices of a trade that is certain:
  a call is worth at least minus the strike and at most the spot, a put at least minus the
  spot and at most the strike, rounding included, for positive spot and strike, a rate and
  an expiry that are not negative, and any volatility.\<close>

lemma naive_price_bounds:
  assumes "libm_ok L" "pos_float spot" "pos_float strike" "is_finite rate" "0 \<le> fval rate"
    "is_finite t" "0 \<le> fval t" "bs_price L spot strike rate vol t is_call = Inr v"
  shows "v = NaN \<or> is_finite v \<and>
    (if is_call then - fval strike \<le> fval v \<and> fval v \<le> fval spot
     else - fval spot \<le> fval v \<and> fval v \<le> fval strike)"
proof -
  let ?phi = "if is_call then 1 else - 1 :: rat"
  have "fmul (fneg rate) t \<noteq> NaN" "\<not> fless (Fin 0) (fmul (fneg rate) t)"
    using fmul_nonpos [OF assms(4-7)] by blast+
  then obtain d where d: "m_exp L (fmul (fneg rate) t) = Inr d" "unit_range d"
    using assms(1) by (auto simp: libm_ok_def)
  obtain x1 x2 n1 n2 where n: "norm_cdf L x1 = Inr n1" "norm_cdf L x2 = Inr n2" and
    v: "v = fmul (Fin ?phi) (fsub (fmul spot n1) (fmul (fmul strike d) n2))"
    using assms(8) d(1) by (cases is_call) (auto simp: bs_price_def Let_def)
  have "n1 = NaN \<or> unit_range n1" "n2 = NaN \<or> unit_range n2"
    using norm_cdf_unit [OF assms(1), of x1] norm_cdf_unit [OF assms(1), of x2] n by auto
  then consider "n1 = NaN \<or> n2 = NaN" | "unit_range n1" "unit_range n2" by blast
  then show ?thesis
  proof cases
    case 1
    then show ?thesis by (auto simp: v fsub_def)
  next
    case 2
    note b = spread_bounds [OF assms(2,3) d(2) 2]
    have "is_finite v \<and> fval v = ?phi * fval (fsub (fmul spot n1) (fmul (fmul strike d) n2))"
      unfolding v by (rule fmul_unit_sign) (use b in auto)
    with b show ?thesis by auto
  qed
qed

text \<open>A C library that satisfies the assumptions: constants.\<close>

definition demo_libm :: libm where
  "demo_libm = \<lparr>m_erf = (\<lambda>x. if x = NaN then NaN else Fin 0), m_log = (\<lambda>x. Inr (Fin 0)), m_exp = (\<lambda>x. Inr (Fin 1))\<rparr>"

lemma demo_libm_ok: "libm_ok demo_libm"
  by (simp add: libm_ok_def demo_libm_def unit_range_def)

lemma demo_entry: "\<exists>v. bs_price demo_libm (Fin 80) (Fin 100) (to_float False (3 / 100)) (to_float False (1 / 5))
    (Fin (1 / 4)) True = Inr v"
  by (rule batch_entry_priced [OF demo_libm_ok, of 0]) (simp add: batch_entry_eq)

lemma naive_price_bounds_witness:
  "\<exists>v. bs_price demo_libm (Fin 80) (Fin 100) (to_float False (3 / 100)) (to_float False (1 / 5))
      (Fin (1 / 4)) True = Inr v \<and> (v = NaN \<or> - 100 \<le> fval v \<and> fval v \<le> 80)"
proof -
  obtain v where v: "bs_price demo_libm (Fin 80) (Fin 100) (to_float False (3 / 100)) (to_float False (1 / 5))
    (Fin (1 / 4)) True = Inr v" using demo_entry by blast
  have "pos_float (Fin 80)" "pos_float (Fin 100)"
    using exact_of_int [of 80] exact_of_int [of 100] by (simp_all add: pos_float_def exact_def)
  from naive_price_bounds [OF demo_libm_ok this literals_finite(1,2) _ _ v] v show ?thesis by auto
qed

text \<open>The benchmark of a positive number of options prices every option of its batch without an
  exception and reports the least of its ten times; it raises only when that time is zero.
  For no options at all it always divides by zero.\<close>

lemma naive_benchmark_reports:
  fixes clock :: "nat \<Rightarrow> pyfloat"
  assumes "libm_ok L" "0 < count" "count \<le> 2 ^ 53"
  defines "best \<equiv> least_time (elapsed_times clock 0 10) PosInf"
  shows "(case benchmark L clock count of
      Inl e \<Rightarrow> e = ZeroDivisionError \<and> is_finite best \<and> fval best = 0
    | Inr (n, ms, options_per_sec, us_per_option) \<Rightarrow>
        n = count \<and> ms = fmul best (Fin 1000) \<and> fdiv (Fin (of_int count)) best = Inr options_per_sec \<and>
        fdiv (fmul best (Fin 1000000)) (Fin (of_int count)) = Inr us_per_option) \<and>
    benchmark L clock 0 = Inl ZeroDivisionError"
proof -
  have m: "\<exists>b. make_batch n = Inr b \<and> price_batch L b = Inr ()" for n
    by (rule make_batch_priced [OF assms(1)])
  have run: "benchmark L clock n =
      res_bind (int_to_float n) (\<lambda>c. res_bind (fdiv c best) (\<lambda>options_per_sec.
      res_bind (fdiv_int (fmul best (Fin 1000000)) n) (\<lambda>us_per_option.
      res_bind (fmul_int best 1000) (\<lambda>ms. Inr (n, ms, options_per_sec, us_per_option)))))" for n
    using m [of n] by (auto simp: benchmark_def warm_up_ok timed_runs_eq best_def)
  have c: "int_to_float count = Inr (Fin (of_int count))" using assms(2,3) by (intro int_to_float_exact) simp
  have ms: "fmul_int best 1000 = Inr (fmul best (Fin 1000))"
    using int_to_float_exact [of 1000] by (simp add: fmul_int_def)
  have "\<exists>us. fdiv (fmul best (Fin 1000000)) (Fin (of_int count)) = Inr us"
    using assms(2) by (simp add: fdiv_def Let_def)
  then obtain us where us: "fdiv (fmul best (Fin 1000000)) (Fin (of_int count)) = Inr us" by blast
  have "benchmark L clock 0 = Inl ZeroDivisionError"
    using int_to_float_exact [of 0] by (cases "fdiv (Fin 0) best") (auto simp: run fdiv_int_def fdiv_def Let_def split: if_splits)
  moreover have "fdiv (Fin (of_int count)) best = Inl e \<Longrightarrow> e = ZeroDivisionError \<and> is_finite best \<and> fval best = 0" for e
    by (auto simp: fdiv_def Let_def split: if_splits)
  ultimately show ?thesis
    using us by (cases "fdiv (Fin (of_int count)) best") (simp_all add: run c ms fdiv_int_def)
qed

lemma naive_benchmark_reports_witness:
  "benchmark demo_libm (\<lambda>k. Fin (of_nat k)) 0 = Inl ZeroDivisionError"
  using naive_benchmark_reports [of demo_libm 4096 "\<lambda>k. Fin (of_nat k)", OF demo_libm_ok] by simp

end
