(* ===== verification/OrderBook.thy ===== *)
theory OrderBook
  imports Protocol "HOL-Library.Multiset"
begin

text \<open>
  The C++ matching engine, \<^verbatim>\<open>engine/src/order_book.cpp\<close> with \<^verbatim>\<open>engine/include/orderbook/\<close>
  \<^verbatim>\<open>order.hpp\<close> and \<^verbatim>\<open>order_book.hpp\<close>.  The \<^verbatim>\<open>std::map\<close> of price levels of a side is the list
  of its levels, best price first, which is its iteration order; \<^verbatim>\<open>std::deque\<close> is a list,
  \<^verbatim>\<open>std::unordered_map\<close> a map.  Ids, quantities and timestamps have their C++ widths, so
  \<^verbatim>\<open>next_timestamp_++\<close> and the totals of a snapshot wrap; an \<^verbatim>\<open>int64_t\<close> price is only copied
  and compared and is an int.  \<^verbatim>\<open>matchBuy\<close> and \<^verbatim>\<open>matchSell\<close> are the same code on the two
  sides: here one definition with the resting side as an argument.
\<close>

section \<open>The data of the book\<close>

record Order =
  od_id :: "64 word"
  od_side :: Side
  od_type :: OrderType
  od_price_ticks :: int
  od_quantity :: "32 word"
  od_timestamp :: "64 word"

record Fill =
  fl_resting_order_id :: "64 word"
  fl_incoming_order_id :: "64 word"
  fl_resting_side :: Side
  fl_price_ticks :: int
  fl_quantity :: "32 word"
  fl_timestamp :: "64 word"

record PriceLevel =
  pl_price_ticks :: int
  pl_orders :: "Order list"

type_synonym Order_Index = "64 word \<Rightarrow> (int \<times> Side) option"

record OrderBook =
  bk_bids :: "PriceLevel list"
  bk_asks :: "PriceLevel list"
  bk_order_index :: Order_Index
  bk_next_timestamp :: "64 word"

definition book_init :: OrderBook where
  "book_init = \<lparr>bk_bids = [], bk_asks = [], bk_order_index = (\<lambda>_. None), bk_next_timestamp = 0\<rparr>"

text \<open>The order of a side's map: \<^verbatim>\<open>std::greater\<close> for the bids, \<^verbatim>\<open>std::less\<close> for the asks.\<close>

fun better :: "Side \<Rightarrow> int \<Rightarrow> int \<Rightarrow> bool" where
  "better BUY p q = (q < p)"
| "better SELL p q = (p < q)"

fun opposite :: "Side \<Rightarrow> Side" where
  "opposite BUY = SELL"
| "opposite SELL = BUY"

definition crosses :: "Side \<Rightarrow> Order \<Rightarrow> int \<Rightarrow> bool" where
  "crosses resting_side incoming level_price \<longleftrightarrow>
     od_type incoming = MARKET \<or>
     (case resting_side of SELL \<Rightarrow> level_price \<le> od_price_ticks incoming
      | BUY \<Rightarrow> od_price_ticks incoming \<le> level_price)"

section \<open>Matching\<close>

text \<open>
  The inner loop, over the orders of one level: the fills, the incoming order, the orders
  left, the index and the next timestamp.
\<close>

function match_orders ::
  "Side \<Rightarrow> int \<Rightarrow> Order \<Rightarrow> Order list \<Rightarrow> Order_Index \<Rightarrow> 64 word \<Rightarrow>
   Fill list \<times> Order \<times> Order list \<times> Order_Index \<times> 64 word" where
  "match_orders resting_side price incoming [] index ts = ([], incoming, [], index, ts)"
| "match_orders resting_side price incoming (resting # orders) index ts =
     (if od_quantity incoming = 0 then ([], incoming, resting # orders, index, ts)
      else
        let traded = min (od_quantity incoming) (od_quantity resting);
            fill = \<lparr>fl_resting_order_id = od_id resting, fl_incoming_order_id = od_id incoming,
                    fl_resting_side = resting_side, fl_price_ticks = price,
                    fl_quantity = traded, fl_timestamp = ts\<rparr>;
            incoming' = incoming\<lparr>od_quantity := od_quantity incoming - traded\<rparr>;
            resting' = resting\<lparr>od_quantity := od_quantity resting - traded\<rparr>;
            (fills, result) =
              (if od_quantity resting' = 0
               then match_orders resting_side price incoming' orders (index(od_id resting := None)) (ts + 1)
               else match_orders resting_side price incoming' (resting' # orders) index (ts + 1))
        in (fill # fills, result))"
  by pat_completeness auto
termination
proof (relation "measures [\<lambda>(_, _, _, orders, _, _). length orders, \<lambda>(_, _, incoming, _, _, _). unat (od_quantity incoming)]", goal_cases)
  case (3 resting_side price incoming resting orders index ts x xa xb xc)
  then show ?case
    by (auto simp: min_def unat_sub word_le_nat_alt unat_gt_0 split: if_splits)
qed auto

text \<open>
  The outer loop, over the levels.  When orders of a level are left the incoming quantity
  is zero (\<open>match_orders_stops\<close>), which ends it.
\<close>

fun match_levels ::
  "Side \<Rightarrow> Order \<Rightarrow> PriceLevel list \<Rightarrow> Order_Index \<Rightarrow> 64 word \<Rightarrow>
   Fill list \<times> Order \<times> PriceLevel list \<times> Order_Index \<times> 64 word" where
  "match_levels resting_side incoming [] index ts = ([], incoming, [], index, ts)"
| "match_levels resting_side incoming (level # levels) index ts =
     (if od_quantity incoming = 0 \<or> \<not> crosses resting_side incoming (pl_price_ticks level)
      then ([], incoming, level # levels, index, ts)
      else
        case match_orders resting_side (pl_price_ticks level) incoming (pl_orders level) index ts of
          (fills, incoming', orders, index', ts') \<Rightarrow>
            if orders = [] then
              (case match_levels resting_side incoming' levels index' ts' of
                 (fills', result) \<Rightarrow> (fills @ fills', result))
            else (fills, incoming', level\<lparr>pl_orders := orders\<rparr> # levels, index', ts'))"

section \<open>Submitting and cancelling\<close>

text \<open>\<^verbatim>\<open>try_emplace\<close> and \<^verbatim>\<open>push_back\<close>.\<close>

fun rest_order :: "Side \<Rightarrow> Order \<Rightarrow> PriceLevel list \<Rightarrow> PriceLevel list" where
  "rest_order sd order [] = [\<lparr>pl_price_ticks = od_price_ticks order, pl_orders = [order]\<rparr>]"
| "rest_order sd order (level # levels) =
     (if pl_price_ticks level = od_price_ticks order
      then level\<lparr>pl_orders := pl_orders level @ [order]\<rparr> # levels
      else if better sd (od_price_ticks order) (pl_price_ticks level)
      then \<lparr>pl_price_ticks = od_price_ticks order, pl_orders = [order]\<rparr> # level # levels
      else level # rest_order sd order levels)"

definition book_submit :: "OrderBook \<Rightarrow> Order \<Rightarrow> Fill list \<times> OrderBook" where
  "book_submit b order0 =
     (if bk_order_index b (od_id order0) \<noteq> None then ([], b)
      else
        let order = order0\<lparr>od_timestamp := bk_next_timestamp b\<rparr>;
            ts = bk_next_timestamp b + 1;
            (fills, order', b') =
              (case od_side order of
                 BUY \<Rightarrow> (case match_levels SELL order (bk_asks b) (bk_order_index b) ts of
                   (fills, order', asks, index, ts') \<Rightarrow>
                     (fills, order', b\<lparr>bk_asks := asks, bk_order_index := index, bk_next_timestamp := ts'\<rparr>))
               | SELL \<Rightarrow> (case match_levels BUY order (bk_bids b) (bk_order_index b) ts of
                   (fills, order', bids, index, ts') \<Rightarrow>
                     (fills, order', b\<lparr>bk_bids := bids, bk_order_index := index, bk_next_timestamp := ts'\<rparr>)))
        in
          if 0 < od_quantity order' \<and> od_type order' = LIMIT then
            (fills,
             (case od_side order' of
                BUY \<Rightarrow> b'\<lparr>bk_bids := rest_order BUY order' (bk_bids b')\<rparr>
              | SELL \<Rightarrow> b'\<lparr>bk_asks := rest_order SELL order' (bk_asks b')\<rparr>)
             \<lparr>bk_order_index := (bk_order_index b')(od_id order' \<mapsto> (od_price_ticks order', od_side order'))\<rparr>)
          else (fills, b'))"

text \<open>\<^verbatim>\<open>find_if\<close> and \<^verbatim>\<open>erase\<close> in the deque of one level: \<open>None\<close> when the order is not there.\<close>

fun erase_order :: "64 word \<Rightarrow> Order list \<Rightarrow> Order list option" where
  "erase_order order_id [] = None"
| "erase_order order_id (o1 # orders) =
     (if od_id o1 = order_id then Some orders
      else map_option (\<lambda>orders'. o1 # orders') (erase_order order_id orders))"

fun erase_in_level :: "int \<Rightarrow> 64 word \<Rightarrow> PriceLevel list \<Rightarrow> PriceLevel list option" where
  "erase_in_level price order_id [] = None"
| "erase_in_level price order_id (level # levels) =
     (if pl_price_ticks level = price then
        (case erase_order order_id (pl_orders level) of
           None \<Rightarrow> None
         | Some orders \<Rightarrow> Some (if orders = [] then levels else level\<lparr>pl_orders := orders\<rparr> # levels))
      else map_option (\<lambda>levels'. level # levels') (erase_in_level price order_id levels))"

definition book_cancel :: "OrderBook \<Rightarrow> 64 word \<Rightarrow> bool \<times> OrderBook" where
  "book_cancel b order_id =
     (case bk_order_index b order_id of
        None \<Rightarrow> (False, b)
      | Some (price, BUY) \<Rightarrow>
          (case erase_in_level price order_id (bk_bids b) of
             None \<Rightarrow> (False, b)
           | Some bids \<Rightarrow> (True, b\<lparr>bk_bids := bids, bk_order_index := (bk_order_index b)(order_id := None)\<rparr>))
      | Some (price, SELL) \<Rightarrow>
          (case erase_in_level price order_id (bk_asks b) of
             None \<Rightarrow> (False, b)
           | Some asks \<Rightarrow> (True, b\<lparr>bk_asks := asks, bk_order_index := (bk_order_index b)(order_id := None)\<rparr>)))"

definition book_contains :: "OrderBook \<Rightarrow> 64 word \<Rightarrow> bool" where
  "book_contains b order_id \<longleftrightarrow> bk_order_index b order_id \<noteq> None"

definition best_bid :: "OrderBook \<Rightarrow> int option" where
  "best_bid b = (case bk_bids b of [] \<Rightarrow> None | level # _ \<Rightarrow> Some (pl_price_ticks level))"

definition best_ask :: "OrderBook \<Rightarrow> int option" where
  "best_ask b = (case bk_asks b of [] \<Rightarrow> None | level # _ \<Rightarrow> Some (pl_price_ticks level))"

record BookLevelSnapshot =
  bs_price_ticks :: int
  bs_total_quantity :: "32 word"
  bs_order_count :: nat

definition level_snapshot :: "PriceLevel \<Rightarrow> BookLevelSnapshot" where
  "level_snapshot level =
     \<lparr>bs_price_ticks = pl_price_ticks level,
      bs_total_quantity = foldl (\<lambda>total o1. total + od_quantity o1) 0 (pl_orders level),
      bs_order_count = length (pl_orders level)\<rparr>"

definition book_snapshot :: "OrderBook \<Rightarrow> nat \<Rightarrow> BookLevelSnapshot list \<times> BookLevelSnapshot list" where
  "book_snapshot b depth =
     (map level_snapshot (take depth (bk_bids b)), map level_snapshot (take depth (bk_asks b)))"

section \<open>The abstract book: one queue a side\<close>

text \<open>
  The specification has no levels and no index: a side is the list of its resting orders in
  price-time priority.  An incoming order trades with the head of the opposite queue while
  it crosses it, and what is left of a limit order is queued behind every order that is not
  worse.
\<close>

record Flat_Book =
  fb_bids :: "Order list"
  fb_asks :: "Order list"
  fb_next_timestamp :: "64 word"

definition trade :: "Side \<Rightarrow> Order \<Rightarrow> Order \<Rightarrow> 64 word \<Rightarrow> Fill" where
  "trade resting_side incoming resting ts =
     \<lparr>fl_resting_order_id = od_id resting, fl_incoming_order_id = od_id incoming,
      fl_resting_side = resting_side, fl_price_ticks = od_price_ticks resting,
      fl_quantity = min (od_quantity incoming) (od_quantity resting), fl_timestamp = ts\<rparr>"

definition reduce :: "32 word \<Rightarrow> Order \<Rightarrow> Order" where
  "reduce n o1 = o1\<lparr>od_quantity := od_quantity o1 - n\<rparr>"

fun flat_match :: "Side \<Rightarrow> Order \<Rightarrow> Order list \<Rightarrow> 64 word \<Rightarrow> Fill list \<times> Order \<times> Order list \<times> 64 word" where
  "flat_match sd inc [] ts = ([], inc, [], ts)"
| "flat_match sd inc (r # queue) ts =
     (if od_quantity inc = 0 \<or> \<not> crosses sd inc (od_price_ticks r) then ([], inc, r # queue, ts)
      else if od_quantity inc < od_quantity r then
        ([trade sd inc r ts], reduce (od_quantity inc) inc, reduce (od_quantity inc) r # queue, ts + 1)
      else case flat_match sd (reduce (od_quantity r) inc) queue (ts + 1) of
             (fills, result) \<Rightarrow> (trade sd inc r ts # fills, result))"

fun flat_rest :: "Side \<Rightarrow> Order \<Rightarrow> Order list \<Rightarrow> Order list" where
  "flat_rest sd o1 [] = [o1]"
| "flat_rest sd o1 (r # queue) =
     (if better sd (od_price_ticks o1) (od_price_ticks r) then o1 # r # queue else r # flat_rest sd o1 queue)"

definition flat_ids :: "Flat_Book \<Rightarrow> 64 word set" where
  "flat_ids b = od_id ` set (fb_bids b) \<union> od_id ` set (fb_asks b)"

definition flat_submit :: "Flat_Book \<Rightarrow> Order \<Rightarrow> Fill list \<times> Flat_Book" where
  "flat_submit b order0 =
     (if od_id order0 \<in> flat_ids b then ([], b)
      else
        let order = order0\<lparr>od_timestamp := fb_next_timestamp b\<rparr>; ts = fb_next_timestamp b + 1 in
        case od_side order of
          BUY \<Rightarrow> (case flat_match SELL order (fb_asks b) ts of (fills, left, asks, ts') \<Rightarrow>
            (fills, \<lparr>fb_bids = (if od_quantity left \<noteq> 0 \<and> od_type left = LIMIT
                       then flat_rest BUY left (fb_bids b) else fb_bids b),
                     fb_asks = asks, fb_next_timestamp = ts'\<rparr>))
        | SELL \<Rightarrow> (case flat_match BUY order (fb_bids b) ts of (fills, left, bids, ts') \<Rightarrow>
            (fills, \<lparr>fb_bids = bids,
                     fb_asks = (if od_quantity left \<noteq> 0 \<and> od_type left = LIMIT
                       then flat_rest SELL left (fb_asks b) else fb_asks b),
                     fb_next_timestamp = ts'\<rparr>)))"

definition flat_cancel :: "Flat_Book \<Rightarrow> 64 word \<Rightarrow> bool \<times> Flat_Book" where
  "flat_cancel b order_id =
     (order_id \<in> flat_ids b,
      b\<lparr>fb_bids := filter (\<lambda>o1. od_id o1 \<noteq> order_id) (fb_bids b),
        fb_asks := filter (\<lambda>o1. od_id o1 \<noteq> order_id) (fb_asks b)\<rparr>)"

definition flat :: "PriceLevel list \<Rightarrow> Order list" where
  "flat levels = concat (map pl_orders levels)"

definition flat_book :: "OrderBook \<Rightarrow> Flat_Book" where
  "flat_book b = \<lparr>fb_bids = flat (bk_bids b), fb_asks = flat (bk_asks b),
     fb_next_timestamp = bk_next_timestamp b\<rparr>"

section \<open>The invariant of the levels and the index\<close>

definition resting_ok :: "Side \<Rightarrow> Order \<Rightarrow> bool" where
  "resting_ok sd o1 \<longleftrightarrow> od_side o1 = sd \<and> od_type o1 = LIMIT \<and> od_quantity o1 \<noteq> 0"

definition level_ok :: "Side \<Rightarrow> PriceLevel \<Rightarrow> bool" where
  "level_ok sd l \<longleftrightarrow> pl_orders l \<noteq> [] \<and>
     (\<forall>o1\<in>set (pl_orders l). od_price_ticks o1 = pl_price_ticks l \<and> resting_ok sd o1)"

definition levels_ok :: "Side \<Rightarrow> PriceLevel list \<Rightarrow> bool" where
  "levels_ok sd ls \<longleftrightarrow> (\<forall>l\<in>set ls. level_ok sd l) \<and>
     sorted_wrt (\<lambda>k l. better sd (pl_price_ticks k) (pl_price_ticks l)) ls"

definition entry :: "Order \<Rightarrow> 64 word \<times> int \<times> Side" where
  "entry o1 = (od_id o1, od_price_ticks o1, od_side o1)"

definition index_ok :: "Order_Index \<Rightarrow> Order list \<Rightarrow> bool" where
  "index_ok index os \<longleftrightarrow> distinct (map od_id os) \<and> (\<forall>k v. index k = Some v \<longleftrightarrow> (k, v) \<in> entry ` set os)"

definition uncrossed :: "Order list \<Rightarrow> Order list \<Rightarrow> bool" where
  "uncrossed bids asks \<longleftrightarrow> (\<forall>b\<in>set bids. \<forall>a\<in>set asks. od_price_ticks b < od_price_ticks a)"

definition book_inv :: "OrderBook \<Rightarrow> bool" where
  "book_inv b \<longleftrightarrow> levels_ok BUY (bk_bids b) \<and> levels_ok SELL (bk_asks b) \<and>
     index_ok (bk_order_index b) (flat (bk_bids b) @ flat (bk_asks b)) \<and>
     uncrossed (flat (bk_bids b)) (flat (bk_asks b))"

section \<open>Lemmas\<close>

lemma flat_simps [simp]: "flat [] = []" "flat (l # ls) = pl_orders l @ flat ls"
  by (simp_all add: flat_def)

lemma reduce_simps [simp]:
  "od_id (reduce n o1) = od_id o1" "od_side (reduce n o1) = od_side o1" "od_type (reduce n o1) = od_type o1"
  "od_price_ticks (reduce n o1) = od_price_ticks o1" "od_quantity (reduce n o1) = od_quantity o1 - n"
  "od_timestamp (reduce n o1) = od_timestamp o1"
  by (simp_all add: reduce_def)

lemma crosses_reduce [simp]: "crosses sd (reduce n o1) = crosses sd o1"
  by (cases sd) (simp_all add: crosses_def fun_eq_iff)

subsection \<open>One level\<close>

lemma match_orders_step:
  "match_orders sd px inc (r # os) index ts =
     (if od_quantity inc = 0 then ([], inc, r # os, index, ts)
      else if od_quantity inc < od_quantity r then
        ([(trade sd inc r ts)\<lparr>fl_price_ticks := px\<rparr>], reduce (od_quantity inc) inc,
         reduce (od_quantity inc) r # os, index, ts + 1)
      else case match_orders sd px (reduce (od_quantity r) inc) os (index(od_id r := None)) (ts + 1) of
             (fills, result) \<Rightarrow> ((trade sd inc r ts)\<lparr>fl_price_ticks := px\<rparr> # fills, result))"
proof (cases "od_quantity inc < od_quantity r")
  case True
  then have "od_quantity r - od_quantity inc \<noteq> 0" "min (od_quantity inc) (od_quantity r) = od_quantity inc" by auto
  with True show ?thesis by (simp add: Let_def trade_def reduce_def)
next
  case False
  then have "min (od_quantity inc) (od_quantity r) = od_quantity r" by (simp add: min_def)
  with False show ?thesis by (simp add: Let_def trade_def reduce_def split: prod.splits)
qed

declare match_orders.simps(2) [simp del]
declare match_orders_step [simp]

lemma match_orders_induct [case_names Nil Stop Partial Full]:
  assumes "\<And>inc index ts. P inc [] index ts"
    and "\<And>inc r os index ts. od_quantity inc = 0 \<Longrightarrow> P inc (r # os) index ts"
    and "\<And>inc r os index ts. od_quantity inc \<noteq> 0 \<Longrightarrow> od_quantity inc < od_quantity r \<Longrightarrow> P inc (r # os) index ts"
    and "\<And>inc r os index ts. od_quantity inc \<noteq> 0 \<Longrightarrow> \<not> od_quantity inc < od_quantity r \<Longrightarrow>
       P (reduce (od_quantity r) inc) os (index(od_id r := None)) (ts + 1) \<Longrightarrow> P inc (r # os) index ts"
  shows "P inc os index ts"
proof (induction os arbitrary: inc index ts)
  case (Cons r os)
  then show ?case using assms(2-4) by metis
qed (rule assms(1))

lemma match_orders_FullE:
  assumes "match_orders sd px inc (r # os) index ts = (fills, result)"
    "od_quantity inc \<noteq> 0" "\<not> od_quantity inc < od_quantity r"
  obtains fills2 where
    "match_orders sd px (reduce (od_quantity r) inc) os (index(od_id r := None)) (ts + 1) = (fills2, result)"
    "fills = (trade sd inc r ts)\<lparr>fl_price_ticks := px\<rparr> # fills2"
  using assms by (simp split: prod.splits)

lemma match_orders_stops:
  "match_orders sd px inc os index ts = (fills, inc', os', index', ts') \<Longrightarrow> os' \<noteq> [] \<Longrightarrow> od_quantity inc' = 0"
proof (induction inc os index ts arbitrary: fills rule: match_orders_induct)
  case (Full inc r os index ts)
  from Full.prems(1) Full.hyps show ?case
    by (rule match_orders_FullE) (rule Full.IH [OF _ Full.prems(2)])
qed auto

lemma match_orders_kept:
  "match_orders sd px inc os index ts = (fills, inc', os', index', ts') \<Longrightarrow>
   crosses sd inc' = crosses sd inc \<and> od_id inc' = od_id inc \<and> od_side inc' = od_side inc \<and>
   od_type inc' = od_type inc \<and> od_price_ticks inc' = od_price_ticks inc"
proof (induction inc os index ts arbitrary: fills rule: match_orders_induct)
  case (Full inc r os index ts)
  from Full.prems(1) Full.hyps show ?case
    by (rule match_orders_FullE) (drule Full.IH, simp)
qed auto

lemma match_orders_flat:
  assumes "match_orders sd px inc os index ts = (fills, inc', os', index', ts')"
    "\<forall>o1\<in>set os. od_price_ticks o1 = px" "crosses sd inc px"
  shows "flat_match sd inc (os @ rest) ts =
    (if os' = [] then (case flat_match sd inc' rest ts' of (fills', result) \<Rightarrow> (fills @ fills', result))
     else (fills, inc', os' @ rest, ts'))"
  using assms
proof (induction inc os index ts arbitrary: fills rule: match_orders_induct)
  case (Partial inc r os index ts)
  then show ?case by (auto simp: trade_def)
next
  case (Full inc r os index ts)
  from Full.prems(1) Full.hyps obtain fills2 where m:
    "match_orders sd px (reduce (od_quantity r) inc) os (index(od_id r := None)) (ts + 1) = (fills2, inc', os', index', ts')"
    "fills = (trade sd inc r ts)\<lparr>fl_price_ticks := px\<rparr> # fills2" by (rule match_orders_FullE)
  have "(trade sd inc r ts)\<lparr>fl_price_ticks := px\<rparr> = trade sd inc r ts"
    using Full.prems(2) by (simp add: trade_def)
  with Full.IH [OF m(1)] Full.prems Full.hyps m(2) show ?case by (auto split: prod.splits)
qed (auto split: prod.splits)

lemma match_orders_ok:
  assumes "match_orders sd px inc os index ts = (fills, inc', os', index', ts')"
    "\<forall>o1\<in>set os. od_price_ticks o1 = px \<and> resting_ok sd' o1"
  shows "\<forall>o1\<in>set os'. od_price_ticks o1 = px \<and> resting_ok sd' o1"
  using assms
proof (induction inc os index ts arbitrary: fills rule: match_orders_induct)
  case (Partial inc r os index ts)
  then have "od_quantity r - od_quantity inc \<noteq> 0" by auto
  with Partial show ?case by (auto simp: resting_ok_def)
next
  case (Full inc r os index ts)
  from Full.prems(1) Full.hyps show ?case
    by (rule match_orders_FullE) (drule Full.IH, use Full.prems(2) in auto)
qed auto

subsection \<open>The index\<close>

lemma entry_reduce [simp]: "entry (reduce n o1) = entry o1"
  by (simp add: entry_def)

lemma index_ok_entries:
  "map entry os = map entry os2 \<Longrightarrow> index_ok index os \<longleftrightarrow> index_ok index os2"
proof -
  assume e: "map entry os = map entry os2"
  have "map od_id os = map fst (map entry os)" for os by (simp add: entry_def)
  then have "map od_id os = map od_id os2" using e by metis
  moreover have "entry ` set os = entry ` set os2" using e by (metis list.set_map)
  ultimately show ?thesis by (simp add: index_ok_def)
qed

lemma index_ok_remove:
  assumes "index_ok index (r # os)"
  shows "index_ok (index(od_id r := None)) os"
proof -
  have d: "od_id r \<notin> od_id ` set os" "distinct (map od_id os)" using assms by (auto simp: index_ok_def)
  have "(index(od_id r := None)) k = Some v \<longleftrightarrow> (k, v) \<in> entry ` set os" for k v
  proof (cases "k = od_id r")
    case True
    with d(1) show ?thesis by (auto simp: entry_def)
  next
    case False
    then have "(index(od_id r := None)) k = Some v \<longleftrightarrow> (k, v) \<in> entry ` set (r # os)"
      using assms by (cases v) (simp add: index_ok_def)
    also have "\<dots> \<longleftrightarrow> (k, v) \<in> entry ` set os" using False by (auto simp: entry_def)
    finally show ?thesis .
  qed
  with d(2) show ?thesis by (simp add: index_ok_def)
qed

lemma index_ok_perm: "mset os = mset os2 \<Longrightarrow> index_ok index os \<longleftrightarrow> index_ok index os2"
  using mset_eq_setD [of os os2] mset_eq_imp_distinct_iff [of "map od_id os" "map od_id os2"]
  by (simp add: index_ok_def)

lemma match_orders_index:
  "match_orders sd px inc os index ts = (fills, inc', os', index', ts') \<Longrightarrow> index_ok index (os @ rest) \<Longrightarrow>
   index_ok index' (os' @ rest)"
proof (induction inc os index ts arbitrary: fills rule: match_orders_induct)
  case (Partial inc r os index ts)
  then have "index' = index" "os' = reduce (od_quantity inc) r # os" by auto
  with Partial.prems(2) index_ok_entries [of "r # os @ rest" "reduce (od_quantity inc) r # os @ rest" index]
  show ?case by simp
next
  case (Full inc r os index ts)
  from Full.prems(2) have "index_ok (index(od_id r := None)) (os @ rest)" by (intro index_ok_remove) simp
  note i = Full.IH [OF _ this]
  from Full.prems(1) Full.hyps show ?case by (rule match_orders_FullE) (rule i)
qed auto

subsection \<open>All levels\<close>

lemma match_levels_step:
  assumes "match_levels sd inc (l # ls) index ts = (fills, inc', ls', index', ts')"
  obtains (stop) "od_quantity inc = 0 \<or> \<not> crosses sd inc (pl_price_ticks l)"
      "fills = []" "inc' = inc" "ls' = l # ls" "index' = index" "ts' = ts"
  | (left) orders where "od_quantity inc \<noteq> 0" "crosses sd inc (pl_price_ticks l)"
      "match_orders sd (pl_price_ticks l) inc (pl_orders l) index ts = (fills, inc', orders, index', ts')"
      "orders \<noteq> []" "ls' = l\<lparr>pl_orders := orders\<rparr> # ls"
  | (emptied) fills1 inc1 index1 ts1 fills2 where "od_quantity inc \<noteq> 0" "crosses sd inc (pl_price_ticks l)"
      "match_orders sd (pl_price_ticks l) inc (pl_orders l) index ts = (fills1, inc1, [], index1, ts1)"
      "match_levels sd inc1 ls index1 ts1 = (fills2, inc', ls', index', ts')" "fills = fills1 @ fills2"
proof (cases "od_quantity inc = 0 \<or> \<not> crosses sd inc (pl_price_ticks l)")
  case True
  with assms show ?thesis by (intro stop) auto
next
  case False
  obtain fills1 inc1 orders index1 ts1 where
    m: "match_orders sd (pl_price_ticks l) inc (pl_orders l) index ts = (fills1, inc1, orders, index1, ts1)"
    by (cases "match_orders sd (pl_price_ticks l) inc (pl_orders l) index ts")
  show ?thesis
  proof (cases "orders = []")
    case True
    obtain fills2 rest where "match_levels sd inc1 ls index1 ts1 = (fills2, rest)"
      by (cases "match_levels sd inc1 ls index1 ts1")
    with True False m assms show ?thesis by (intro emptied) auto
  next
    case F: False
    with False m assms show ?thesis by (intro left) auto
  qed
qed

lemma levels_ok_Cons:
  "levels_ok sd (l # ls) \<longleftrightarrow> level_ok sd l \<and> levels_ok sd ls \<and>
     (\<forall>k\<in>set ls. better sd (pl_price_ticks l) (pl_price_ticks k))"
  by (auto simp: levels_ok_def)

lemma match_levels_flat:
  assumes "match_levels sd inc ls index ts = (fills, inc', ls', index', ts')" "levels_ok sd' ls"
  shows "flat_match sd inc (flat ls) ts = (fills, inc', flat ls', ts')"
  using assms
proof (induction ls arbitrary: inc index ts fills)
  case (Cons l ls)
  from Cons.prems(2) have l: "level_ok sd' l" "levels_ok sd' ls" by (simp_all add: levels_ok_Cons)
  then obtain r os where r: "pl_orders l = r # os" "od_price_ticks r = pl_price_ticks l"
    "\<forall>o1\<in>set (pl_orders l). od_price_ticks o1 = pl_price_ticks l"
    by (cases "pl_orders l") (auto simp: level_ok_def)
  from Cons.prems(1) show ?case
  proof (cases rule: match_levels_step)
    case stop
    with r show ?thesis by auto
  next
    case (left orders)
    with match_orders_flat [OF left(3) r(3) left(2), of "flat ls"] show ?thesis by simp
  next
    case (emptied fills1 inc1 index1 ts1 fills2)
    with match_orders_flat [OF emptied(3) r(3) emptied(2), of "flat ls"] Cons.IH [OF emptied(4) l(2)]
    show ?thesis by simp
  qed
qed simp

lemma match_levels_index:
  assumes "match_levels sd inc ls index ts = (fills, inc', ls', index', ts')" "index_ok index (flat ls @ rest)"
  shows "index_ok index' (flat ls' @ rest)"
  using assms
proof (induction ls arbitrary: inc index ts fills)
  case (Cons l ls)
  from Cons.prems(1) show ?case
  proof (cases rule: match_levels_step)
    case stop
    with Cons.prems(2) show ?thesis by simp
  next
    case (left orders)
    from match_orders_index [OF left(3), of "flat ls @ rest"] Cons.prems(2) left(5) show ?thesis by simp
  next
    case (emptied fills1 inc1 index1 ts1 fills2)
    from match_orders_index [OF emptied(3), of "flat ls @ rest"] Cons.prems(2)
    show ?thesis by (intro Cons.IH [OF emptied(4)]) simp
  qed
qed simp

lemma match_levels_ok:
  assumes "match_levels sd inc ls index ts = (fills, inc', ls', index', ts')" "levels_ok sd' ls"
  shows "levels_ok sd' ls'"
  using assms
proof (induction ls arbitrary: inc index ts fills)
  case (Cons l ls)
  from Cons.prems(2) have l: "level_ok sd' l" "levels_ok sd' ls" by (simp_all add: levels_ok_Cons)
  from Cons.prems(1) show ?case
  proof (cases rule: match_levels_step)
    case stop
    with Cons.prems(2) show ?thesis by simp
  next
    case (left orders)
    have "\<forall>o1\<in>set (pl_orders l). od_price_ticks o1 = pl_price_ticks l \<and> resting_ok sd' o1"
      using l(1) by (simp add: level_ok_def)
    note o1 = match_orders_ok [OF left(3) this]
    with left(4) have "level_ok sd' (l\<lparr>pl_orders := orders\<rparr>)" by (simp add: level_ok_def)
    with left(5) Cons.prems(2) show ?thesis by (simp add: levels_ok_Cons)
  next
    case (emptied fills1 inc1 index1 ts1 fills2)
    from Cons.IH [OF emptied(4) l(2)] show ?thesis .
  qed
qed simp

subsection \<open>Resting an order\<close>

lemma better_trans: "better sd p q \<Longrightarrow> better sd q r \<Longrightarrow> better sd p r"
  by (cases sd) auto

lemma better_irrefl [simp]: "\<not> better sd p p"
  by (cases sd) auto

lemma better_total: "p = q \<or> better sd p q \<or> better sd q p"
  by (cases sd) auto

lemma better_asym: "better sd p q \<Longrightarrow> \<not> better sd q p"
  by (cases sd) auto

lemma flat_rest_skip:
  "\<forall>r\<in>set os. \<not> better sd (od_price_ticks o1) (od_price_ticks r) \<Longrightarrow>
   flat_rest sd o1 (os @ queue) = os @ flat_rest sd o1 queue"
  by (induction os) auto

lemma flat_rest_worse:
  "\<forall>r\<in>set queue. better sd (od_price_ticks o1) (od_price_ticks r) \<Longrightarrow> flat_rest sd o1 queue = o1 # queue"
  by (cases queue) auto

lemma flat_rest_mset [simp]: "mset (flat_rest sd o1 queue) = add_mset o1 (mset queue)"
  by (induction queue) auto

lemma flat_rest_set [simp]: "set (flat_rest sd o1 queue) = insert o1 (set queue)"
  by (induction queue) auto

lemma flat_prices:
  "levels_ok sd ls \<Longrightarrow> r \<in> set (flat ls) \<Longrightarrow> \<exists>l\<in>set ls. od_price_ticks r = pl_price_ticks l \<and> resting_ok sd r"
  by (induction ls) (auto simp: levels_ok_Cons level_ok_def)

lemma rest_order_flat:
  "levels_ok sd ls \<Longrightarrow> flat (rest_order sd o1 ls) = flat_rest sd o1 (flat ls)"
proof (induction ls)
  case (Cons l ls)
  then have l: "level_ok sd l" "levels_ok sd ls" "\<forall>k\<in>set ls. better sd (pl_price_ticks l) (pl_price_ticks k)"
    by (simp_all add: levels_ok_Cons)
  have px: "\<forall>r\<in>set (pl_orders l). od_price_ticks r = pl_price_ticks l" "pl_orders l \<noteq> []"
    using l(1) by (simp_all add: level_ok_def)
  have worse: "\<forall>r\<in>set (flat ls). better sd (pl_price_ticks l) (od_price_ticks r)"
    using flat_prices [OF l(2)] l(3) by fastforce
  consider "pl_price_ticks l = od_price_ticks o1" | "better sd (od_price_ticks o1) (pl_price_ticks l)"
    | "better sd (pl_price_ticks l) (od_price_ticks o1)" using better_total by blast
  then show ?case
  proof cases
    case 1
    with px worse show ?thesis by (simp add: flat_rest_skip flat_rest_worse)
  next
    case 2
    with px worse have "\<forall>r\<in>set (pl_orders l @ flat ls). better sd (od_price_ticks o1) (od_price_ticks r)"
      by (auto intro: better_trans)
    with 2 show ?thesis by (simp add: flat_rest_worse [of "pl_orders l @ flat ls"]) (auto simp: flat_rest_worse)
  next
    case 3
    then have "\<not> better sd (od_price_ticks o1) (pl_price_ticks l)" "pl_price_ticks l \<noteq> od_price_ticks o1"
      by (auto dest: better_asym)
    with px Cons.IH l(2) show ?thesis by (simp add: flat_rest_skip)
  qed
qed simp

lemma rest_order_prices:
  "k \<in> set (rest_order sd o1 ls) \<Longrightarrow> pl_price_ticks k = od_price_ticks o1 \<or> (\<exists>l\<in>set ls. pl_price_ticks k = pl_price_ticks l)"
  by (induction ls) (auto split: if_splits)

lemma rest_order_ok:
  "levels_ok sd ls \<Longrightarrow> resting_ok sd o1 \<Longrightarrow> levels_ok sd (rest_order sd o1 ls)"
proof (induction ls)
  case Nil
  then show ?case by (simp add: levels_ok_def level_ok_def)
next
  case (Cons l ls)
  then have l: "level_ok sd l" "levels_ok sd ls" "\<forall>k\<in>set ls. better sd (pl_price_ticks l) (pl_price_ticks k)"
    by (simp_all add: levels_ok_Cons)
  consider "pl_price_ticks l = od_price_ticks o1" | "better sd (od_price_ticks o1) (pl_price_ticks l)"
    | "better sd (pl_price_ticks l) (od_price_ticks o1)" using better_total by blast
  then show ?case
  proof cases
    case 1
    with l Cons.prems(2) show ?thesis by (auto simp: levels_ok_Cons level_ok_def)
  next
    case 2
    with l Cons.prems(2) show ?thesis by (auto simp: levels_ok_Cons level_ok_def intro: better_trans)
  next
    case 3
    then have n: "\<not> better sd (od_price_ticks o1) (pl_price_ticks l)" "pl_price_ticks l \<noteq> od_price_ticks o1"
      by (auto dest: better_asym)
    have "\<forall>k\<in>set (rest_order sd o1 ls). better sd (pl_price_ticks l) (pl_price_ticks k)"
      using rest_order_prices 3 l(3) by fastforce
    with n l Cons.IH Cons.prems(2) show ?thesis by (simp add: levels_ok_Cons)
  qed
qed

subsection \<open>Erasing an order\<close>

lemma erase_order_spec:
  "distinct (map od_id os) \<Longrightarrow>
   erase_order k os = (if k \<in> od_id ` set os then Some (filter (\<lambda>o1. od_id o1 \<noteq> k) os) else None)"
proof (induction os)
  case (Cons o1 os)
  show ?case
  proof (cases "od_id o1 = k")
    case True
    with Cons.prems have "\<forall>x\<in>set os. od_id x \<noteq> k" by (auto simp: image_iff)
    then have "filter (\<lambda>o1. od_id o1 \<noteq> k) os = os" by (simp add: filter_True)
    with True show ?thesis by simp
  next
    case False
    with Cons show ?thesis by auto
  qed
qed simp

lemma erase_in_level_spec:
  assumes "levels_ok sd ls" "distinct (map od_id (flat ls))" "r \<in> set (flat ls)" "od_id r = k"
  shows "\<exists>ls'. erase_in_level (od_price_ticks r) k ls = Some ls' \<and> levels_ok sd ls' \<and>
    flat ls' = filter (\<lambda>o1. od_id o1 \<noteq> k) (flat ls) \<and>
    (\<forall>l'\<in>set ls'. \<exists>l\<in>set ls. pl_price_ticks l' = pl_price_ticks l)"
  using assms
proof (induction ls)
  case (Cons l ls)
  then have l: "level_ok sd l" "levels_ok sd ls" "\<forall>k\<in>set ls. better sd (pl_price_ticks l) (pl_price_ticks k)"
    by (simp_all add: levels_ok_Cons)
  have px: "\<forall>r\<in>set (pl_orders l). od_price_ticks r = pl_price_ticks l" using l(1) by (simp add: level_ok_def)
  have d: "distinct (map od_id (pl_orders l))" "distinct (map od_id (flat ls))"
    "od_id ` set (pl_orders l) \<inter> od_id ` set (flat ls) = {}" using Cons.prems(2) by auto
  show ?case
  proof (cases "r \<in> set (pl_orders l)")
    case True
    with d(3) Cons.prems(4) have "\<forall>o1\<in>set (flat ls). od_id o1 \<noteq> k" by auto
    then have keep: "filter (\<lambda>o1. od_id o1 \<noteq> k) (flat ls) = flat ls" by (simp add: filter_True)
    have "level_ok sd (l\<lparr>pl_orders := filter (\<lambda>o1. od_id o1 \<noteq> k) (pl_orders l)\<rparr>)"
      if "filter (\<lambda>o1. od_id o1 \<noteq> k) (pl_orders l) \<noteq> []"
      using l(1) that by (simp add: level_ok_def)
    with True px Cons.prems(4) erase_order_spec [OF d(1), of k] keep l show ?thesis
      by (auto simp: levels_ok_Cons)
  next
    case False
    with Cons.prems(3) have r: "r \<in> set (flat ls)" by simp
    from flat_prices [OF l(2) r] l(3) have "pl_price_ticks l \<noteq> od_price_ticks r" by auto
    moreover have "filter (\<lambda>o1. od_id o1 \<noteq> k) (pl_orders l) = pl_orders l"
      using d(3) r Cons.prems(4) by (intro filter_True) auto
    moreover from Cons.IH [OF l(2) d(2) r Cons.prems(4)] obtain ls' where
      "erase_in_level (od_price_ticks r) k ls = Some ls'" "levels_ok sd ls'"
      "flat ls' = filter (\<lambda>o1. od_id o1 \<noteq> k) (flat ls)"
      "\<forall>l'\<in>set ls'. \<exists>l\<in>set ls. pl_price_ticks l' = pl_price_ticks l" by blast
    ultimately show ?thesis using l(1,3) by (force simp: levels_ok_Cons)
  qed
qed simp

subsection \<open>The abstract queue\<close>

definition queue_sorted :: "Side \<Rightarrow> Order list \<Rightarrow> bool" where
  "queue_sorted sd = sorted_wrt (\<lambda>x y. \<not> better sd (od_price_ticks y) (od_price_ticks x))"

lemma sorted_wrt_all: "\<forall>x\<in>set xs. \<forall>y\<in>set xs. P x y \<Longrightarrow> sorted_wrt P xs"
  by (induction xs) auto

lemma flat_sorted: "levels_ok sd ls \<Longrightarrow> queue_sorted sd (flat ls)"
proof (induction ls)
  case (Cons l ls)
  then have l: "level_ok sd l" "levels_ok sd ls" "\<forall>k\<in>set ls. better sd (pl_price_ticks l) (pl_price_ticks k)"
    by (simp_all add: levels_ok_Cons)
  have px: "\<forall>r\<in>set (pl_orders l). od_price_ticks r = pl_price_ticks l" using l(1) by (simp add: level_ok_def)
  have "sorted_wrt (\<lambda>x y. \<not> better sd (od_price_ticks y) (od_price_ticks x)) (pl_orders l)"
    by (rule sorted_wrt_all) (use px in simp)
  moreover have "\<not> better sd (od_price_ticks y) (od_price_ticks x)" if "x \<in> set (pl_orders l)" "y \<in> set (flat ls)" for x y
  proof -
    note xy = that
    obtain k where "k \<in> set ls" "od_price_ticks y = pl_price_ticks k" using flat_prices [OF l(2) xy(2)] by blast
    with l(3) px xy(1) have "better sd (od_price_ticks x) (od_price_ticks y)" by simp
    then show ?thesis by (rule better_asym)
  qed
  ultimately show ?case using Cons.IH [OF l(2)] by (simp add: queue_sorted_def sorted_wrt_append)
qed (simp add: queue_sorted_def)

lemma crosses_better:
  "crosses sd inc q \<Longrightarrow> \<not> better sd q p \<Longrightarrow> crosses sd inc p"
  by (cases sd) (auto simp: crosses_def)

lemma flat_match_cases:
  assumes "flat_match sd inc (r # queue) ts = (fills, inc', queue', ts')"
  obtains (stop) "od_quantity inc = 0 \<or> \<not> crosses sd inc (od_price_ticks r)"
      "fills = []" "inc' = inc" "queue' = r # queue" "ts' = ts"
  | (partial) "od_quantity inc \<noteq> 0" "crosses sd inc (od_price_ticks r)" "od_quantity inc < od_quantity r"
      "fills = [trade sd inc r ts]" "inc' = reduce (od_quantity inc) inc"
      "queue' = reduce (od_quantity inc) r # queue" "ts' = ts + 1"
  | (full) fills2 where "od_quantity inc \<noteq> 0" "crosses sd inc (od_price_ticks r)" "\<not> od_quantity inc < od_quantity r"
      "flat_match sd (reduce (od_quantity r) inc) queue (ts + 1) = (fills2, inc', queue', ts')"
      "fills = trade sd inc r ts # fills2"
proof (cases "od_quantity inc = 0 \<or> \<not> crosses sd inc (od_price_ticks r)")
  case True
  with assms show ?thesis by (intro stop) auto
next
  case c: False
  show ?thesis
  proof (cases "od_quantity inc < od_quantity r")
    case True
    with c assms show ?thesis by (intro partial) auto
  next
    case False
    obtain fills2 result where "flat_match sd (reduce (od_quantity r) inc) queue (ts + 1) = (fills2, result)"
      by (cases "flat_match sd (reduce (od_quantity r) inc) queue (ts + 1)")
    with False c assms show ?thesis by (intro full) auto
  qed
qed

lemma flat_match_kept:
  "flat_match sd inc queue ts = (fills, inc', queue', ts') \<Longrightarrow>
   od_id inc' = od_id inc \<and> od_side inc' = od_side inc \<and> od_type inc' = od_type inc \<and>
   od_price_ticks inc' = od_price_ticks inc \<and> od_timestamp inc' = od_timestamp inc"
proof (induction queue arbitrary: inc ts fills)
  case (Cons r queue)
  from Cons.prems show ?case by (cases rule: flat_match_cases) (auto dest: Cons.IH)
qed simp

lemma flat_match_entries:
  "flat_match sd inc queue ts = (fills, inc', queue', ts') \<Longrightarrow>
   \<exists>gone. map entry queue = map entry (gone @ queue')"
proof (induction queue arbitrary: inc ts fills)
  case (Cons r queue)
  from Cons.prems show ?case
  proof (cases rule: flat_match_cases)
    case (full fills2)
    from Cons.IH [OF full(4)] obtain gone where "map entry queue = map entry (gone @ queue')" by blast
    then show ?thesis by (intro exI [of _ "r # gone"]) simp
  qed (auto intro: exI [of _ "[]"])
qed simp

lemma flat_match_blocked:
  "flat_match sd inc queue ts = (fills, inc', queue', ts') \<Longrightarrow> queue_sorted sd queue \<Longrightarrow>
   od_quantity inc' \<noteq> 0 \<Longrightarrow> \<forall>r\<in>set queue'. \<not> crosses sd inc (od_price_ticks r)"
proof (induction queue arbitrary: inc ts fills)
  case (Cons r queue)
  from Cons.prems(1) show ?case
  proof (cases rule: flat_match_cases)
    case stop
    with Cons.prems(2,3) show ?thesis by (auto simp: queue_sorted_def dest: crosses_better)
  next
    case partial
    with Cons.prems(3) show ?thesis by simp
  next
    case (full fills2)
    from Cons.IH [OF full(4)] Cons.prems(2,3) show ?thesis by (simp add: queue_sorted_def)
  qed
qed simp

lemma entries_prices:
  "map entry queue = map entry (gone @ queue') \<Longrightarrow> r \<in> set queue' \<Longrightarrow>
   \<exists>r0\<in>set queue. od_id r0 = od_id r \<and> od_price_ticks r0 = od_price_ticks r"
proof -
  assume "map entry queue = map entry (gone @ queue')" "r \<in> set queue'"
  then have "entry r \<in> entry ` set queue" by (metis Un_iff image_eqI list.set_map set_append)
  then show ?thesis by (auto simp: entry_def)
qed

subsection \<open>Submitting\<close>

lemma index_ok_insert:
  assumes "index_ok index os" "od_id o1 \<notin> od_id ` set os"
  shows "index_ok (index(od_id o1 \<mapsto> (od_price_ticks o1, od_side o1))) (o1 # os)"
proof -
  have "(index(od_id o1 \<mapsto> (od_price_ticks o1, od_side o1))) k = Some v \<longleftrightarrow> (k, v) \<in> entry ` set (o1 # os)" for k v
  proof (cases "k = od_id o1")
    case True
    moreover from assms(2) have "(od_id o1, v) \<notin> entry ` set os" by (auto simp: entry_def)
    ultimately show ?thesis by (auto simp: entry_def)
  next
    case False
    then have "(index(od_id o1 \<mapsto> (od_price_ticks o1, od_side o1))) k = Some v \<longleftrightarrow> (k, v) \<in> entry ` set os"
      using assms(1) by (cases v) (simp add: index_ok_def)
    with False show ?thesis by (auto simp: entry_def)
  qed
  with assms show ?thesis by (simp add: index_ok_def)
qed

lemma index_ok_dom: "index_ok index os \<Longrightarrow> index k \<noteq> None \<longleftrightarrow> k \<in> od_id ` set os"
  by (force simp: index_ok_def entry_def)

lemma match_side:
  assumes m: "match_levels sd inc ls index ts = (fills, inc', ls', index', ts')"
    and l: "levels_ok sd ls" and i: "index_ok index (flat ls @ rest)"
  shows "flat_match sd inc (flat ls) ts = (fills, inc', flat ls', ts')" "levels_ok sd ls'"
    "index_ok index' (flat ls' @ rest)"
    "\<forall>r\<in>set (flat ls'). \<exists>r0\<in>set (flat ls). od_id r0 = od_id r \<and> od_price_ticks r0 = od_price_ticks r"
    "od_quantity inc' \<noteq> 0 \<Longrightarrow> \<forall>r\<in>set (flat ls'). \<not> crosses sd inc (od_price_ticks r)"
    "od_id inc' = od_id inc" "od_side inc' = od_side inc" "od_type inc' = od_type inc"
    "od_price_ticks inc' = od_price_ticks inc" "od_id ` set (flat ls') \<subseteq> od_id ` set (flat ls)"
proof -
  show f: "flat_match sd inc (flat ls) ts = (fills, inc', flat ls', ts')" by (rule match_levels_flat [OF m l])
  show "levels_ok sd ls'" by (rule match_levels_ok [OF m l])
  show "index_ok index' (flat ls' @ rest)" by (rule match_levels_index [OF m i])
  show e: "\<forall>r\<in>set (flat ls'). \<exists>r0\<in>set (flat ls). od_id r0 = od_id r \<and> od_price_ticks r0 = od_price_ticks r"
    using flat_match_entries [OF f] entries_prices by blast
  show "od_id ` set (flat ls') \<subseteq> od_id ` set (flat ls)"
  proof
    fix k assume "k \<in> od_id ` set (flat ls')"
    then obtain r where "r \<in> set (flat ls')" "k = od_id r" by blast
    with e show "k \<in> od_id ` set (flat ls)" by (metis imageI)
  qed
  show "od_quantity inc' \<noteq> 0 \<Longrightarrow> \<forall>r\<in>set (flat ls'). \<not> crosses sd inc (od_price_ticks r)"
    by (rule flat_match_blocked [OF f flat_sorted [OF l]])
  show "od_id inc' = od_id inc" "od_side inc' = od_side inc" "od_type inc' = od_type inc"
    "od_price_ticks inc' = od_price_ticks inc" using flat_match_kept [OF f] by simp_all
qed

lemma index_ok_append_commute: "index_ok index (xs @ ys) \<longleftrightarrow> index_ok index (ys @ xs)"
  by (rule index_ok_perm) simp

lemma flat_ids_index: "book_inv b \<Longrightarrow> bk_order_index b k \<noteq> None \<longleftrightarrow> k \<in> flat_ids (flat_book b)"
  using index_ok_dom [of "bk_order_index b" "flat (bk_bids b) @ flat (bk_asks b)" k]
  by (simp add: book_inv_def flat_ids_def flat_book_def image_Un)

lemma no_cross_limit:
  "\<not> crosses sd o1 p \<longleftrightarrow> od_type o1 = LIMIT \<and>
     (case sd of SELL \<Rightarrow> od_price_ticks o1 < p | BUY \<Rightarrow> p < od_price_ticks o1)"
  by (cases sd; cases "od_type o1") (auto simp: crosses_def)

text \<open>What is left of a limit order is queued on its own side.\<close>

lemma rest_side:
  assumes l: "levels_ok sd ls" and i: "index_ok index (flat ls @ rest)"
    and o1: "resting_ok sd o1" "od_id o1 \<notin> od_id ` set (flat ls @ rest)"
  shows "levels_ok sd (rest_order sd o1 ls)" "flat (rest_order sd o1 ls) = flat_rest sd o1 (flat ls)"
    "index_ok (index(od_id o1 \<mapsto> (od_price_ticks o1, od_side o1))) (flat (rest_order sd o1 ls) @ rest)"
proof -
  show "levels_ok sd (rest_order sd o1 ls)" by (rule rest_order_ok [OF l o1(1)])
  show f: "flat (rest_order sd o1 ls) = flat_rest sd o1 (flat ls)" by (rule rest_order_flat [OF l])
  have "index_ok (index(od_id o1 \<mapsto> (od_price_ticks o1, od_side o1))) (o1 # flat ls @ rest)"
    by (rule index_ok_insert [OF i o1(2)])
  moreover have "mset (o1 # flat ls @ rest) = mset (flat (rest_order sd o1 ls) @ rest)" by (simp add: f)
  ultimately show "index_ok (index(od_id o1 \<mapsto> (od_price_ticks o1, od_side o1))) (flat (rest_order sd o1 ls) @ rest)"
    using index_ok_perm by blast
qed

definition stamped :: "OrderBook \<Rightarrow> Order \<Rightarrow> Order" where
  "stamped b order0 = order0\<lparr>od_timestamp := bk_next_timestamp b\<rparr>"

lemma stamped_simps [simp]:
  "od_id (stamped b o1) = od_id o1" "od_side (stamped b o1) = od_side o1"
  by (simp_all add: stamped_def)

abbreviation rests :: "Order \<Rightarrow> bool" where
  "rests left \<equiv> od_quantity left \<noteq> 0 \<and> od_type left = LIMIT"

lemma book_submit_buy:
  assumes "bk_order_index b (od_id o0) = None" "od_side o0 = BUY" "od_side left = BUY"
    "match_levels SELL (stamped b o0) (bk_asks b) (bk_order_index b) (bk_next_timestamp b + 1) = (fs, left, asks, index, ts')"
  shows "book_submit b o0 = (fs,
    \<lparr>bk_bids = (if rests left then rest_order BUY left (bk_bids b) else bk_bids b), bk_asks = asks,
     bk_order_index = (if rests left then index(od_id left \<mapsto> (od_price_ticks left, od_side left)) else index),
     bk_next_timestamp = ts'\<rparr>)"
  using assms by (simp add: book_submit_def Let_def stamped_def [symmetric] word_gt_0)

lemma book_submit_sell:
  assumes "bk_order_index b (od_id o0) = None" "od_side o0 = SELL" "od_side left = SELL"
    "match_levels BUY (stamped b o0) (bk_bids b) (bk_order_index b) (bk_next_timestamp b + 1) = (fs, left, bids, index, ts')"
  shows "book_submit b o0 = (fs,
    \<lparr>bk_bids = bids, bk_asks = (if rests left then rest_order SELL left (bk_asks b) else bk_asks b),
     bk_order_index = (if rests left then index(od_id left \<mapsto> (od_price_ticks left, od_side left)) else index),
     bk_next_timestamp = ts'\<rparr>)"
  using assms by (simp add: book_submit_def Let_def stamped_def [symmetric] word_gt_0)

lemma flat_submit_buy:
  assumes "od_id o0 \<notin> flat_ids (flat_book b)" "od_side o0 = BUY"
    "flat_match SELL (stamped b o0) (flat (bk_asks b)) (bk_next_timestamp b + 1) = (fs, left, asks, ts')"
  shows "flat_submit (flat_book b) o0 = (fs,
    \<lparr>fb_bids = (if rests left then flat_rest BUY left (flat (bk_bids b)) else flat (bk_bids b)),
     fb_asks = asks, fb_next_timestamp = ts'\<rparr>)"
  using assms by (simp add: flat_submit_def Let_def stamped_def flat_book_def)

lemma flat_submit_sell:
  assumes "od_id o0 \<notin> flat_ids (flat_book b)" "od_side o0 = SELL"
    "flat_match BUY (stamped b o0) (flat (bk_bids b)) (bk_next_timestamp b + 1) = (fs, left, bids, ts')"
  shows "flat_submit (flat_book b) o0 = (fs,
    \<lparr>fb_bids = bids, fb_asks = (if rests left then flat_rest SELL left (flat (bk_asks b)) else flat (bk_asks b)),
     fb_next_timestamp = ts'\<rparr>)"
  using assms by (simp add: flat_submit_def Let_def stamped_def flat_book_def)

lemma submit_refines:
  assumes b: "book_inv b" and s: "book_submit b o0 = (fills, b')"
  shows "flat_submit (flat_book b) o0 = (fills, flat_book b') \<and> book_inv b'"
proof (cases "bk_order_index b (od_id o0) = None")
  case False
  with flat_ids_index [OF b, of "od_id o0"] s show ?thesis
    using b by (simp add: book_submit_def flat_submit_def)
next
  case new: True
  let ?o = "stamped b o0" and ?ts = "bk_next_timestamp b + 1"
  have id0: "od_id o0 \<notin> flat_ids (flat_book b)" using new flat_ids_index [OF b] by blast
  then have fresh: "od_id ?o \<notin> od_id ` set (flat (bk_bids b))" "od_id ?o \<notin> od_id ` set (flat (bk_asks b))"
    by (simp_all add: flat_ids_def flat_book_def)
  have inv: "levels_ok BUY (bk_bids b)" "levels_ok SELL (bk_asks b)"
    "index_ok (bk_order_index b) (flat (bk_bids b) @ flat (bk_asks b))"
    "uncrossed (flat (bk_bids b)) (flat (bk_asks b))" using b by (simp_all add: book_inv_def)
  show ?thesis
  proof (cases "od_side o0")
    case BUY
    obtain fs left asks index ts' where
      m: "match_levels SELL ?o (bk_asks b) (bk_order_index b) ?ts = (fs, left, asks, index, ts')"
      by (cases "match_levels SELL ?o (bk_asks b) (bk_order_index b) ?ts")
    note ms = match_side [OF m inv(2) inv(3) [unfolded index_ok_append_commute [of _ "flat (bk_bids b)"]]]
    note i = ms(3) [unfolded index_ok_append_commute [of _ "flat asks"]]
    have side: "od_side left = BUY" using ms(7) BUY by simp
    have u: "uncrossed (flat (bk_bids b)) (flat asks)"
      using inv(4) ms(4) unfolding uncrossed_def by metis
    have f: "od_id left \<notin> od_id ` set (flat (bk_bids b) @ flat asks)"
      using fresh ms(6,10) by auto
    note sub = book_submit_buy [OF new BUY side m] flat_submit_buy [OF id0 BUY ms(1)]
    show ?thesis
    proof (cases "rests left")
      case True
      then have "resting_ok BUY left" using side by (simp add: resting_ok_def)
      note rs = rest_side [OF inv(1) i this f]
      have "\<forall>r\<in>set (flat asks). od_price_ticks left < od_price_ticks r"
        using ms(5,9) True by (simp add: no_cross_limit)
      with u have "uncrossed (flat_rest BUY left (flat (bk_bids b))) (flat asks)" by (auto simp: uncrossed_def)
      with True s sub rs ms(2) show ?thesis by (auto simp: book_inv_def flat_book_def)
    next
      case False
      with s sub inv(1) ms(2) i u show ?thesis by (auto simp: book_inv_def flat_book_def)
    qed
  next
    case SELL
    obtain fs left bids index ts' where
      m: "match_levels BUY ?o (bk_bids b) (bk_order_index b) ?ts = (fs, left, bids, index, ts')"
      by (cases "match_levels BUY ?o (bk_bids b) (bk_order_index b) ?ts")
    note ms = match_side [OF m inv(1,3)]
    note i = ms(3) [unfolded index_ok_append_commute [of _ "flat bids"]]
    have side: "od_side left = SELL" using ms(7) SELL by simp
    have u: "uncrossed (flat bids) (flat (bk_asks b))"
      using inv(4) ms(4) unfolding uncrossed_def by metis
    have f: "od_id left \<notin> od_id ` set (flat (bk_asks b) @ flat bids)"
      using fresh ms(6,10) by auto
    note sub = book_submit_sell [OF new SELL side m] flat_submit_sell [OF id0 SELL ms(1)]
    show ?thesis
    proof (cases "rests left")
      case True
      then have "resting_ok SELL left" using side by (simp add: resting_ok_def)
      note rs = rest_side [OF inv(2) i this f]
      have "\<forall>r\<in>set (flat bids). od_price_ticks r < od_price_ticks left"
        using ms(5,9) True by (simp add: no_cross_limit)
      with u have "uncrossed (flat bids) (flat_rest SELL left (flat (bk_asks b)))" by (auto simp: uncrossed_def)
      moreover note rs(3) [unfolded index_ok_append_commute [of _ _ "flat bids"]]
      ultimately show ?thesis using True s sub rs(1,2) ms(2) by (auto simp: book_inv_def flat_book_def)
    next
      case False
      with s sub inv(2) ms(2,3) u show ?thesis by (auto simp: book_inv_def flat_book_def)
    qed
  qed
qed

subsection \<open>Cancelling\<close>

lemma filter_set_index:
  assumes "index_ok index os"
  shows "index_ok (index(k := None)) (filter (\<lambda>o1. od_id o1 \<noteq> k) os)"
proof -
  have "(index(k := None)) j = Some v \<longleftrightarrow> (j, v) \<in> entry ` set (filter (\<lambda>o1. od_id o1 \<noteq> k) os)" for j v
  proof (cases "j = k")
    case True
    then show ?thesis by (auto simp: entry_def)
  next
    case False
    then have "(index(k := None)) j = Some v \<longleftrightarrow> (j, v) \<in> entry ` set os"
      using assms by (cases v) (simp add: index_ok_def)
    with False show ?thesis by (auto simp: entry_def)
  qed
  moreover have "distinct (map od_id (filter (\<lambda>o1. od_id o1 \<noteq> k) os))"
    using assms by (simp add: index_ok_def distinct_map_filter)
  ultimately show ?thesis by (simp add: index_ok_def)
qed

lemma other_side_kept:
  "distinct (map od_id (xs @ ys)) \<Longrightarrow> r \<in> set xs \<Longrightarrow> filter (\<lambda>o1. od_id o1 \<noteq> od_id r) ys = ys"
  by (auto simp: image_iff intro!: filter_True)

lemma uncrossed_filter: "uncrossed bids asks \<Longrightarrow> uncrossed (filter P bids) (filter Q asks)"
  by (simp add: uncrossed_def)

lemma cancel_refines:
  assumes b: "book_inv b" and c: "book_cancel b k = (ok, b')"
  shows "flat_cancel (flat_book b) k = (ok, flat_book b') \<and> book_inv b'"
proof (cases "bk_order_index b k")
  case None
  then have k: "k \<notin> flat_ids (flat_book b)" using flat_ids_index [OF b, of k] by simp
  then have "\<forall>o1\<in>set (flat (bk_bids b)) \<union> set (flat (bk_asks b)). od_id o1 \<noteq> k"
    by (auto simp: flat_ids_def flat_book_def)
  then have "filter (\<lambda>o1. od_id o1 \<noteq> k) (flat (bk_bids b)) = flat (bk_bids b)"
    "filter (\<lambda>o1. od_id o1 \<noteq> k) (flat (bk_asks b)) = flat (bk_asks b)" by (auto intro!: filter_True)
  with None k b c show ?thesis by (simp add: book_cancel_def flat_cancel_def flat_book_def)
next
  case (Some v)
  have inv: "levels_ok BUY (bk_bids b)" "levels_ok SELL (bk_asks b)"
    "index_ok (bk_order_index b) (flat (bk_bids b) @ flat (bk_asks b))"
    "uncrossed (flat (bk_bids b)) (flat (bk_asks b))" using b by (simp_all add: book_inv_def)
  have d: "distinct (map od_id (flat (bk_bids b) @ flat (bk_asks b)))" using inv(3) by (simp add: index_ok_def)
  have k: "k \<in> flat_ids (flat_book b)" using flat_ids_index [OF b, of k] Some by simp
  have idx: "index_ok ((bk_order_index b)(k := None)) (filter (\<lambda>o1. od_id o1 \<noteq> k) (flat (bk_bids b)) @
      filter (\<lambda>o1. od_id o1 \<noteq> k) (flat (bk_asks b)))"
    using filter_set_index [OF inv(3), of k] by simp
  note u = uncrossed_filter [OF inv(4), of "\<lambda>o1. od_id o1 \<noteq> k" "\<lambda>o1. od_id o1 \<noteq> k"]
  from Some inv(3) have "(k, v) \<in> entry ` set (flat (bk_bids b) @ flat (bk_asks b))"
    by (cases v) (simp add: index_ok_def)
  then obtain r where r: "r \<in> set (flat (bk_bids b) @ flat (bk_asks b))" "od_id r = k"
    "v = (od_price_ticks r, od_side r)" by (auto simp: entry_def)
  from r(1) consider "r \<in> set (flat (bk_bids b))" | "r \<in> set (flat (bk_asks b))" by auto
  then show ?thesis
  proof cases
    case 1
    with flat_prices [OF inv(1)] have side: "od_side r = BUY" by (auto simp: resting_ok_def)
    from erase_in_level_spec [OF inv(1) _ 1 r(2)] d obtain ls where
      e: "erase_in_level (od_price_ticks r) k (bk_bids b) = Some ls" "levels_ok BUY ls"
      "flat ls = filter (\<lambda>o1. od_id o1 \<noteq> k) (flat (bk_bids b))" by auto
    have "filter (\<lambda>o1. od_id o1 \<noteq> k) (flat (bk_asks b)) = flat (bk_asks b)"
      using other_side_kept [OF d 1] r(2) by simp
    with c Some side e k r(3) idx u inv(2) show ?thesis
      by (auto simp: book_cancel_def flat_cancel_def flat_book_def book_inv_def)
  next
    case 2
    with flat_prices [OF inv(2)] have side: "od_side r = SELL" by (auto simp: resting_ok_def)
    from erase_in_level_spec [OF inv(2) _ 2 r(2)] d obtain ls where
      e: "erase_in_level (od_price_ticks r) k (bk_asks b) = Some ls" "levels_ok SELL ls"
      "flat ls = filter (\<lambda>o1. od_id o1 \<noteq> k) (flat (bk_asks b))" by auto
    have "distinct (map od_id (flat (bk_asks b) @ flat (bk_bids b)))" using d by auto
    from other_side_kept [OF this 2] r(2)
    have "filter (\<lambda>o1. od_id o1 \<noteq> k) (flat (bk_bids b)) = flat (bk_bids b)" by simp
    with c Some side e k r(3) idx u inv(1) show ?thesis
      by (auto simp: book_cancel_def flat_cancel_def flat_book_def book_inv_def)
  qed
qed

lemma book_inv_init [simp]: "book_inv book_init"
  by (simp add: book_inv_def book_init_def levels_ok_def index_ok_def uncrossed_def)

section \<open>Runs of the book\<close>

datatype Book_Op = Submit_Op Order | Cancel_Op "64 word"

datatype Book_Result = Fills_Result "Fill list" | Cancel_Result bool

fun book_op :: "Book_Op \<Rightarrow> OrderBook \<Rightarrow> Book_Result \<times> OrderBook" where
  "book_op (Submit_Op o1) b = (case book_submit b o1 of (fills, b') \<Rightarrow> (Fills_Result fills, b'))"
| "book_op (Cancel_Op k) b = (case book_cancel b k of (ok, b') \<Rightarrow> (Cancel_Result ok, b'))"

fun flat_op :: "Book_Op \<Rightarrow> Flat_Book \<Rightarrow> Book_Result \<times> Flat_Book" where
  "flat_op (Submit_Op o1) b = (case flat_submit b o1 of (fills, b') \<Rightarrow> (Fills_Result fills, b'))"
| "flat_op (Cancel_Op k) b = (case flat_cancel b k of (ok, b') \<Rightarrow> (Cancel_Result ok, b'))"

fun run_ops :: "('a \<Rightarrow> 'b \<Rightarrow> 'r \<times> 'b) \<Rightarrow> 'a list \<Rightarrow> 'b \<Rightarrow> 'r list \<times> 'b" where
  "run_ops step [] b = ([], b)"
| "run_ops step (x # xs) b =
     (case step x b of (r, b') \<Rightarrow> case run_ops step xs b' of (rs, b'') \<Rightarrow> (r # rs, b''))"

lemma op_refines:
  assumes "book_inv b" "book_op x b = (r, b')"
  shows "flat_op x (flat_book b) = (r, flat_book b') \<and> book_inv b'"
proof (cases x)
  case (Submit_Op o1)
  obtain fills b2 where s: "book_submit b o1 = (fills, b2)" by (cases "book_submit b o1")
  from submit_refines [OF assms(1) s] s assms(2) Submit_Op show ?thesis by auto
next
  case (Cancel_Op k)
  obtain ok b2 where s: "book_cancel b k = (ok, b2)" by (cases "book_cancel b k")
  from cancel_refines [OF assms(1) s] s assms(2) Cancel_Op show ?thesis by auto
qed

lemma run_refines:
  "book_inv b \<Longrightarrow> run_ops book_op xs b = (rs, b') \<Longrightarrow>
   run_ops flat_op xs (flat_book b) = (rs, flat_book b') \<and> book_inv b'"
proof (induction xs arbitrary: b rs)
  case (Cons x xs)
  obtain r b1 where 1: "book_op x b = (r, b1)" by (cases "book_op x b")
  obtain rs1 where 2: "run_ops book_op xs b1 = (rs1, b')" "rs = r # rs1"
    using Cons.prems(2) 1 by (auto split: prod.splits)
  from op_refines [OF Cons.prems(1) 1] Cons.IH [OF _ 2(1)] 2(2) show ?case by simp
qed simp

lemma flat_book_init [simp]: "flat_book book_init = \<lparr>fb_bids = [], fb_asks = [], fb_next_timestamp = 0\<rparr>"
  by (simp add: flat_book_def book_init_def)

lemma contains_flat: "book_inv b \<Longrightarrow> book_contains b k \<longleftrightarrow> k \<in> flat_ids (flat_book b)"
  using flat_ids_index [of b k] by (simp add: book_contains_def)

definition queue_best :: "Order list \<Rightarrow> int option" where
  "queue_best queue = (case queue of [] \<Rightarrow> None | r # _ \<Rightarrow> Some (od_price_ticks r))"

lemma levels_best:
  "levels_ok sd ls \<Longrightarrow> (case ls of [] \<Rightarrow> None | l # _ \<Rightarrow> Some (pl_price_ticks l)) = queue_best (flat ls)"
proof (cases ls)
  case (Cons l ls2)
  moreover assume "levels_ok sd ls"
  ultimately show ?thesis by (cases "pl_orders l") (auto simp: levels_ok_Cons level_ok_def queue_best_def)
qed (simp add: queue_best_def)

lemma best_flat:
  "book_inv b \<Longrightarrow> best_bid b = queue_best (fb_bids (flat_book b)) \<and> best_ask b = queue_best (fb_asks (flat_book b))"
  using levels_best [of BUY "bk_bids b"] levels_best [of SELL "bk_asks b"]
  by (simp add: book_inv_def best_bid_def best_ask_def flat_book_def)

subsection \<open>What one submission does\<close>

definition volume :: "Fill list \<Rightarrow> nat" where
  "volume fills = sum_list (map (unat \<circ> fl_quantity) fills)"

lemma volume_simps [simp]: "volume [] = 0" "volume (f # fs) = unat (fl_quantity f) + volume fs"
  by (simp_all add: volume_def)

lemma flat_match_conserves:
  "flat_match sd inc queue ts = (fills, inc', queue', ts') \<Longrightarrow>
   volume fills + unat (od_quantity inc') = unat (od_quantity inc)"
proof (induction queue arbitrary: inc ts fills)
  case (Cons r queue)
  from Cons.prems show ?case
  proof (cases rule: flat_match_cases)
    case partial
    then show ?thesis by (auto simp: trade_def min_def)
  next
    case (full fills2)
    then have le: "od_quantity r \<le> od_quantity inc" by simp
    then have "unat (od_quantity inc - od_quantity r) = unat (od_quantity inc) - unat (od_quantity r)"
      "unat (od_quantity r) \<le> unat (od_quantity inc)" "min (od_quantity inc) (od_quantity r) = od_quantity r"
      by (simp_all add: unat_sub word_le_nat_alt [symmetric] min_absorb2)
    with Cons.IH [OF full(4)] full(5) show ?thesis by (simp add: trade_def)
  qed simp
qed simp

text \<open>The fills are those of the first orders of the queue, all but the last one complete.\<close>

definition priority_fills :: "Side \<Rightarrow> Order \<Rightarrow> Order list \<Rightarrow> 64 word \<Rightarrow> Fill list \<Rightarrow> bool" where
  "priority_fills sd inc queue ts fills \<longleftrightarrow> length fills \<le> length queue \<and>
     (\<forall>i<length fills. let f = fills ! i; r = queue ! i in
        fl_resting_order_id f = od_id r \<and> fl_incoming_order_id f = od_id inc \<and> fl_resting_side f = sd \<and>
        fl_price_ticks f = od_price_ticks r \<and> crosses sd inc (od_price_ticks r) \<and>
        fl_quantity f \<noteq> 0 \<and> fl_quantity f \<le> od_quantity r \<and>
        (Suc i < length fills \<longrightarrow> fl_quantity f = od_quantity r) \<and>
        fl_timestamp f = ts + of_nat i)"

lemma priority_fills_Cons:
  assumes "priority_fills sd (reduce n inc) queue (ts + 1) fills"
    "crosses sd inc (od_price_ticks r)" "od_quantity r \<noteq> 0" "od_quantity r \<le> od_quantity inc"
  shows "priority_fills sd inc (r # queue) ts (trade sd inc r ts # fills)"
  using assms unfolding priority_fills_def
  by (auto simp: Let_def trade_def min_def nth_Cons less_Suc_eq_0_disj algebra_simps split: nat.splits)

lemma flat_match_priority:
  "flat_match sd inc queue ts = (fills, inc', queue', ts') \<Longrightarrow> \<forall>r\<in>set queue. od_quantity r \<noteq> 0 \<Longrightarrow>
   priority_fills sd inc queue ts fills"
proof (induction queue arbitrary: inc ts fills)
  case (Cons r queue)
  from Cons.prems(1) show ?case
  proof (cases rule: flat_match_cases)
    case stop
    then show ?thesis by (simp add: priority_fills_def)
  next
    case partial
    then show ?thesis by (auto simp: priority_fills_def Let_def trade_def min_def)
  next
    case (full fills2)
    with Cons.IH [OF full(4)] Cons.prems(2) show ?thesis by (auto intro: priority_fills_Cons)
  qed
qed (simp add: priority_fills_def)

definition queue_of :: "Side \<Rightarrow> OrderBook \<Rightarrow> Order list" where
  "queue_of sd b = (case sd of BUY \<Rightarrow> flat (bk_bids b) | SELL \<Rightarrow> flat (bk_asks b))"

lemma queue_of_simps [simp]: "queue_of BUY b = flat (bk_bids b)" "queue_of SELL b = flat (bk_asks b)"
  by (simp_all add: queue_of_def)

lemma queue_of_ok: "book_inv b \<Longrightarrow> queue_sorted sd (queue_of sd b) \<and> (\<forall>r\<in>set (queue_of sd b). resting_ok sd r)"
  using flat_sorted [of sd] flat_prices [of sd] by (cases sd) (force simp: book_inv_def)+

lemma submit_queues:
  assumes b: "book_inv b" and new: "\<not> book_contains b (od_id o1)" and s: "book_submit b o1 = (fills, b')"
  obtains left where
    "flat_match (opposite (od_side o1)) (stamped b o1) (queue_of (opposite (od_side o1)) b) (bk_next_timestamp b + 1)
       = (fills, left, queue_of (opposite (od_side o1)) b', bk_next_timestamp b')"
    "queue_of (od_side o1) b' = (if rests left then flat_rest (od_side o1) left (queue_of (od_side o1) b)
       else queue_of (od_side o1) b)"
proof -
  have id0: "od_id o1 \<notin> flat_ids (flat_book b)" using new contains_flat [OF b] by simp
  have f: "flat_submit (flat_book b) o1 = (fills, flat_book b')" using submit_refines [OF b s] by blast
  show ?thesis
  proof (cases "od_side o1")
    case BUY
    obtain fs left asks ts' where
      m: "flat_match SELL (stamped b o1) (flat (bk_asks b)) (bk_next_timestamp b + 1) = (fs, left, asks, ts')"
      by (cases "flat_match SELL (stamped b o1) (flat (bk_asks b)) (bk_next_timestamp b + 1)")
    from flat_submit_buy [OF id0 BUY m] f m BUY show ?thesis
      by (intro that [of left]) (auto simp: flat_book_def)
  next
    case SELL
    obtain fs left bids ts' where
      m: "flat_match BUY (stamped b o1) (flat (bk_bids b)) (bk_next_timestamp b + 1) = (fs, left, bids, ts')"
      by (cases "flat_match BUY (stamped b o1) (flat (bk_bids b)) (bk_next_timestamp b + 1)")
    from flat_submit_sell [OF id0 SELL m] f m SELL show ?thesis
      by (intro that [of left]) (auto simp: flat_book_def)
  qed
qed

lemma crosses_stamped [simp]: "crosses sd (stamped b o1) = crosses sd o1"
  by (cases sd) (simp_all add: stamped_def crosses_def fun_eq_iff)

lemma priority_fills_stamped: "priority_fills sd (stamped b o1) queue ts fills = priority_fills sd o1 queue ts fills"
  by (simp add: priority_fills_def)

section \<open>Properties\<close>

text \<open>C3: any sequence of submissions and cancels gives the fills, the answers and the queues of the
  abstract book of one price-time queue a side: the levels and the index are a refinement of
  it, and the lookups agree with it.\<close>

theorem book_refines_queues:
  "case run_ops book_op ops book_init of (results, b) \<Rightarrow>
     run_ops flat_op ops \<lparr>fb_bids = [], fb_asks = [], fb_next_timestamp = 0\<rparr> = (results, flat_book b) \<and>
     (\<forall>k. book_contains b k = (k \<in> flat_ids (flat_book b))) \<and>
     best_bid b = queue_best (fb_bids (flat_book b)) \<and> best_ask b = queue_best (fb_asks (flat_book b))"
proof -
  obtain results b where r: "run_ops book_op ops book_init = (results, b)" by (cases "run_ops book_op ops book_init")
  from run_refines [OF book_inv_init r] r contains_flat best_flat show ?thesis by simp
qed

text \<open>C5: no sequence of submissions and cancels leaves the book crossed: the best bid is below the
  best ask, no level is empty, levels are in strict price order, every resting order is a
  limit order with a quantity left at the price of its level, no id rests twice, and the
  index holds exactly the resting orders.\<close>

theorem book_never_crossed:
  "case run_ops book_op ops book_init of (results, b) \<Rightarrow>
     book_inv b \<and> (case (best_bid b, best_ask b) of (Some bid, Some ask) \<Rightarrow> bid < ask | _ \<Rightarrow> True)"
proof -
  obtain results b where r: "run_ops book_op ops book_init = (results, b)" by (cases "run_ops book_op ops book_init")
  from run_refines [OF book_inv_init r] have b: "book_inv b" by blast
  then have "uncrossed (flat (bk_bids b)) (flat (bk_asks b))" by (simp add: book_inv_def)
  then have "case (best_bid b, best_ask b) of (Some bid, Some ask) \<Rightarrow> bid < ask | _ \<Rightarrow> True"
    using best_flat [OF b]
    by (cases "flat (bk_bids b)"; cases "flat (bk_asks b)") (simp_all add: queue_best_def flat_book_def uncrossed_def)
  with r b show ?thesis by simp
qed

text \<open>C6: a submitted order trades with the opposite queue in price-time priority: its fills are
  against the first orders of the queue, in their order, at their prices, each no worse than
  its limit, complete for all but the last, with consecutive timestamps; the volume filled
  and the quantity left make up the quantity submitted; what is left of a limit order is
  queued behind all orders that are not worse, a market order's is dropped; and while a
  quantity is left nothing on the other side crosses it.\<close>

theorem submit_price_time_priority:
  assumes "run_ops book_op ops book_init = (results, b)" "\<not> book_contains b (od_id o1)"
  shows "\<exists>fills n b'. book_submit b o1 = (fills, b') \<and>
    priority_fills (opposite (od_side o1)) o1 (queue_of (opposite (od_side o1)) b) (bk_next_timestamp b + 1) fills \<and>
    volume fills + unat n = unat (od_quantity o1) \<and>
    queue_of (od_side o1) b' =
      (if n \<noteq> 0 \<and> od_type o1 = LIMIT
       then flat_rest (od_side o1) (o1\<lparr>od_quantity := n, od_timestamp := bk_next_timestamp b\<rparr>) (queue_of (od_side o1) b)
       else queue_of (od_side o1) b) \<and>
    (n = 0 \<or>
       (\<forall>r\<in>set (queue_of (opposite (od_side o1)) b'). \<not> crosses (opposite (od_side o1)) o1 (od_price_ticks r)))"
proof -
  have b: "book_inv b" using run_refines [OF book_inv_init assms(1)] by blast
  obtain fills b' where s: "book_submit b o1 = (fills, b')" by (cases "book_submit b o1")
  obtain left where
    m: "flat_match (opposite (od_side o1)) (stamped b o1) (queue_of (opposite (od_side o1)) b) (bk_next_timestamp b + 1)
       = (fills, left, queue_of (opposite (od_side o1)) b', bk_next_timestamp b')" and
    q: "queue_of (od_side o1) b' = (if rests left then flat_rest (od_side o1) left (queue_of (od_side o1) b)
       else queue_of (od_side o1) b)"
    by (rule submit_queues [OF b assms(2) s])
  have ok: "queue_sorted (opposite (od_side o1)) (queue_of (opposite (od_side o1)) b)"
    "\<forall>r\<in>set (queue_of (opposite (od_side o1)) b). od_quantity r \<noteq> 0"
    using queue_of_ok [OF b] by (auto simp: resting_ok_def)
  have left: "left = o1\<lparr>od_quantity := od_quantity left, od_timestamp := bk_next_timestamp b\<rparr>"
    using flat_match_kept [OF m] by (simp add: stamped_def)
  have ty: "od_type left = od_type o1" using flat_match_kept [OF m] by (simp add: stamped_def)
  have cons: "volume fills + unat (od_quantity left) = unat (od_quantity o1)"
    using flat_match_conserves [OF m] by (simp add: stamped_def)
  have prio: "priority_fills (opposite (od_side o1)) o1 (queue_of (opposite (od_side o1)) b) (bk_next_timestamp b + 1) fills"
    using flat_match_priority [OF m ok(2)] by (simp only: priority_fills_stamped)
  have block: "od_quantity left = 0 \<or>
     (\<forall>r\<in>set (queue_of (opposite (od_side o1)) b'). \<not> crosses (opposite (od_side o1)) o1 (od_price_ticks r))"
    using flat_match_blocked [OF m ok(1)] unfolding crosses_stamped by blast
  have rest: "queue_of (od_side o1) b' =
      (if od_quantity left \<noteq> 0 \<and> od_type o1 = LIMIT
       then flat_rest (od_side o1) (o1\<lparr>od_quantity := od_quantity left, od_timestamp := bk_next_timestamp b\<rparr>)
         (queue_of (od_side o1) b)
       else queue_of (od_side o1) b)"
    unfolding left [symmetric] using q by (simp only: ty)
  show ?thesis
    by (intro exI [of _ fills] exI [of _ "od_quantity left"] exI [of _ b'] conjI s prio cons rest block)
qed

definition demo_order :: "64 word \<Rightarrow> Side \<Rightarrow> int \<Rightarrow> 32 word \<Rightarrow> Order" where
  "demo_order k sd price qty = \<lparr>od_id = k, od_side = sd, od_type = LIMIT, od_price_ticks = price,
     od_quantity = qty, od_timestamp = 0\<rparr>"

theorem submit_price_time_priority_witness:
  "\<exists>fills n b'. book_submit (snd (run_ops book_op [Submit_Op (demo_order 1 SELL 101 5)] book_init))
       (demo_order 2 BUY 102 8) = (fills, b') \<and> volume fills + unat (n :: 32 word) = unat (8 :: 32 word)"
proof -
  let ?b = "snd (run_ops book_op [Submit_Op (demo_order 1 SELL 101 5)] book_init)"
  have "\<not> book_contains ?b (od_id (demo_order 2 BUY 102 8))"
    by (simp add: book_contains_def book_submit_def book_init_def demo_order_def)
  from submit_price_time_priority [OF prod.collapse [symmetric] this] obtain fills and n :: "32 word" and b' where
    "book_submit ?b (demo_order 2 BUY 102 8) = (fills, b')"
    "volume fills + unat n = unat (od_quantity (demo_order 2 BUY 102 8))" by blast
  moreover have "od_quantity (demo_order 2 BUY 102 8) = 8" by (simp add: demo_order_def)
  ultimately show ?thesis by metis
qed

text \<open>The total of a level in a snapshot is the sum of its orders' quantities modulo 2^32, so two
  orders can make a level look empty.\<close>

lemma snapshot_total_wraps:
  "unat (bs_total_quantity (level_snapshot l)) = sum_list (map (unat \<circ> od_quantity) (pl_orders l)) mod 2 ^ 32 \<and>
   (case run_ops book_op [Submit_Op (demo_order 1 BUY 100 (2 ^ 31)), Submit_Op (demo_order 2 BUY 100 (2 ^ 31))] book_init of
      (_, b) \<Rightarrow> map bs_total_quantity (fst (book_snapshot b 1)) = [0] \<and> map bs_order_count (fst (book_snapshot b 1)) = [2])"
proof
  have "unat (foldl (\<lambda>total o1. total + od_quantity o1) t os) =
      (unat t + sum_list (map (unat \<circ> od_quantity) os)) mod 2 ^ 32" for t os
  proof (induction os arbitrary: t)
    case Nil
    have "unat t < 2 ^ LENGTH(32)" by (rule unsigned_less)
    then show ?case by simp
  next
    case (Cons o1 os)
    then show ?case by (simp add: unat_word_ariths mod_simps add.assoc)
  qed
  from this [of 0 "pl_orders l"]
  show "unat (bs_total_quantity (level_snapshot l)) = sum_list (map (unat \<circ> od_quantity) (pl_orders l)) mod 2 ^ 32"
    by (simp add: level_snapshot_def)
  show "case run_ops book_op [Submit_Op (demo_order 1 BUY 100 (2 ^ 31)), Submit_Op (demo_order 2 BUY 100 (2 ^ 31))] book_init of
      (_, b) \<Rightarrow> map bs_total_quantity (fst (book_snapshot b 1)) = [0] \<and> map bs_order_count (fst (book_snapshot b 1)) = [2]"
    by (simp add: book_submit_def book_init_def demo_order_def book_snapshot_def level_snapshot_def Let_def)
qed

end
