(* ===== verification/EngineProtocol.thy ===== *)
theory EngineProtocol
  imports OrderBook
begin

text \<open>
  The engine's side of the wire, \<^verbatim>\<open>engine/src/protocol.cpp\<close> with
  \<^verbatim>\<open>engine/include/orderbook/protocol.hpp\<close>: the big-endian packing by shifts and masks, the
  message structs, their encoders and decoders.  A pointer into a buffer is the list of the
  bytes from there on; a \<^verbatim>\<open>put\<close> gives the bytes it writes, a \<^verbatim>\<open>get\<close> the value and the rest.
  An \<^verbatim>\<open>int64_t\<close> is an int, cast to and from \<^verbatim>\<open>uint64_t\<close> where the code casts it.  The lemmas
  relate each layout to the Python client's \<^verbatim>\<open>struct\<close> formats.
\<close>

unbundle bit_operations_syntax

section \<open>Packing\<close>

definition put_u8 :: "byte \<Rightarrow> bytes" where
  "put_u8 v = [v]"

definition get_u8 :: "bytes \<Rightarrow> byte \<times> bytes" where
  "get_u8 p = (hd p, tl p)"

definition put_u32 :: "32 word \<Rightarrow> bytes" where
  "put_u32 v = map (\<lambda>shift. ucast (drop_bit shift v AND 0xFF)) [24, 16, 8, 0]"

definition get_u32 :: "bytes \<Rightarrow> 32 word \<times> bytes" where
  "get_u32 p = (foldl (\<lambda>v b. push_bit 8 v OR ucast b) 0 (take 4 p), drop 4 p)"

definition put_u64 :: "64 word \<Rightarrow> bytes" where
  "put_u64 v = map (\<lambda>shift. ucast (drop_bit shift v AND 0xFF)) [56, 48, 40, 32, 24, 16, 8, 0]"

definition get_u64 :: "bytes \<Rightarrow> 64 word \<times> bytes" where
  "get_u64 p = (foldl (\<lambda>v b. push_bit 8 v OR ucast b) 0 (take 8 p), drop 8 p)"

text \<open>\<^verbatim>\<open>static_cast\<close> between \<^verbatim>\<open>int64_t\<close> and \<^verbatim>\<open>uint64_t\<close>.\<close>

definition to_uint64 :: "int \<Rightarrow> 64 word" where
  "to_uint64 n = word_of_int n"

definition to_int64 :: "64 word \<Rightarrow> int" where
  "to_int64 w = sint w"

section \<open>Messages\<close>

definition engine_payload_size :: "byte \<Rightarrow> nat option" where
  "engine_payload_size tag =
     (if tag = 0x01 then Some (8 + 1 + 1 + 8 + 4)
      else if tag = 0x02 then Some 8
      else if tag = 0x03 then Some 0
      else if tag = 0x10 then Some (8 + 8 + 1 + 8 + 4 + 8)
      else if tag = 0x11 then Some (8 + 1 + 1)
      else None)"

record Wire_Order =
  wo_client_order_id :: "64 word"
  wo_side :: byte
  wo_order_type :: byte
  wo_price_ticks :: int
  wo_quantity :: "32 word"

record Wire_Fill =
  wf_resting_order_id :: "64 word"
  wf_incoming_order_id :: "64 word"
  wf_resting_side :: byte
  wf_price_ticks :: int
  wf_quantity :: "32 word"
  wf_timestamp :: "64 word"

record Wire_Ack =
  wa_client_order_id :: "64 word"
  wa_request_type :: byte
  wa_status :: byte

definition engine_encode_order :: "Wire_Order \<Rightarrow> bytes" where
  "engine_encode_order msg =
     put_u64 (wo_client_order_id msg) @ put_u8 (wo_side msg) @ put_u8 (wo_order_type msg) @
     put_u64 (to_uint64 (wo_price_ticks msg)) @ put_u32 (wo_quantity msg)"

definition engine_decode_order :: "bytes \<Rightarrow> Wire_Order" where
  "engine_decode_order p0 =
     (let (client_order_id, p1) = get_u64 p0;
          (side, p2) = get_u8 p1;
          (order_type, p3) = get_u8 p2;
          (price, p4) = get_u64 p3;
          (quantity, p5) = get_u32 p4
      in \<lparr>wo_client_order_id = client_order_id, wo_side = side, wo_order_type = order_type,
          wo_price_ticks = to_int64 price, wo_quantity = quantity\<rparr>)"

definition engine_encode_cancel :: "64 word \<Rightarrow> bytes" where
  "engine_encode_cancel client_order_id = put_u64 client_order_id"

definition engine_decode_cancel :: "bytes \<Rightarrow> 64 word" where
  "engine_decode_cancel p = fst (get_u64 p)"

definition engine_encode_fill :: "Wire_Fill \<Rightarrow> bytes" where
  "engine_encode_fill msg =
     put_u64 (wf_resting_order_id msg) @ put_u64 (wf_incoming_order_id msg) @ put_u8 (wf_resting_side msg) @
     put_u64 (to_uint64 (wf_price_ticks msg)) @ put_u32 (wf_quantity msg) @ put_u64 (wf_timestamp msg)"

definition engine_decode_fill :: "bytes \<Rightarrow> Wire_Fill" where
  "engine_decode_fill p0 =
     (let (resting_order_id, p1) = get_u64 p0;
          (incoming_order_id, p2) = get_u64 p1;
          (resting_side, p3) = get_u8 p2;
          (price, p4) = get_u64 p3;
          (quantity, p5) = get_u32 p4;
          (timestamp, p6) = get_u64 p5
      in \<lparr>wf_resting_order_id = resting_order_id, wf_incoming_order_id = incoming_order_id,
          wf_resting_side = resting_side, wf_price_ticks = to_int64 price, wf_quantity = quantity,
          wf_timestamp = timestamp\<rparr>)"

definition engine_encode_ack :: "Wire_Ack \<Rightarrow> bytes" where
  "engine_encode_ack msg =
     put_u64 (wa_client_order_id msg) @ put_u8 (wa_request_type msg) @ put_u8 (wa_status msg)"

definition engine_decode_ack :: "bytes \<Rightarrow> Wire_Ack" where
  "engine_decode_ack p0 =
     (let (client_order_id, p1) = get_u64 p0;
          (request_type, p2) = get_u8 p1;
          (status, p3) = get_u8 p2
      in \<lparr>wa_client_order_id = client_order_id, wa_request_type = request_type, wa_status = status\<rparr>)"

section \<open>Lemmas\<close>

subsection \<open>Shifts and masks are base 256\<close>

lemma shift_in_byte:
  fixes v :: "'a::len word"
  assumes "8 \<le> LENGTH('a)"
  shows "push_bit 8 v OR ucast (b :: byte) = v * 256 + of_nat (unat b)"
proof -
  have "push_bit 8 v OR ucast b = push_bit 8 v + ucast b"
  proof (rule disjunctive_add [symmetric])
    fix n
    show "\<not> bit (push_bit 8 v) n \<or> \<not> bit (ucast b :: 'a word) n"
      by (cases "n < 8") (auto simp: bit_push_bit_iff bit_unsigned_iff dest: bit_imp_le_length)
  qed
  also have "\<dots> = v * 256 + of_nat (unat b)" by (simp add: push_bit_eq_mult)
  finally show ?thesis .
qed

lemma shift_in_bytes:
  fixes v :: "'a::len word"
  assumes "8 \<le> LENGTH('a)"
  shows "foldl (\<lambda>v b. push_bit 8 v OR ucast b) (of_nat a :: 'a word) (bs :: bytes) =
     of_nat (foldl (\<lambda>a b. a * 256 + unat b) a bs)"
proof (induction bs arbitrary: a)
  case (Cons b bs)
  have step: "push_bit 8 (of_nat a :: 'a word) OR ucast b = of_nat (a * 256 + unat b)"
    by (simp only: shift_in_byte [OF assms] of_nat_add of_nat_mult of_nat_numeral)
  show ?case unfolding foldl_Cons step by (rule Cons)
qed simp

lemma get_u64_eq: "get_u64 p = (of_nat (be_value (take 8 p)), drop 8 p)"
  using shift_in_bytes [where 'a = 64, of 0 "take 8 p"] by (simp add: get_u64_def be_value_def)

lemma get_u32_eq: "get_u32 p = (of_nat (be_value (take 4 p)), drop 4 p)"
  using shift_in_bytes [where 'a = 32, of 0 "take 4 p"] by (simp add: get_u32_def be_value_def)

lemma mask_byte:
  fixes v :: "'a::len word"
  assumes "8 \<le> LENGTH('a)"
  shows "(ucast (drop_bit k v AND 0xFF) :: byte) = of_nat (unat v div 2 ^ k mod 256)"
proof -
  have "drop_bit k v AND 0xFF = take_bit 8 (drop_bit k v)"
    by (simp add: take_bit_eq_mask mask_eq_exp_minus_1)
  then have "unat (drop_bit k v AND 0xFF) = take_bit 8 (drop_bit k (take_bit LENGTH('a) (unat v)))"
    by (simp only: unsigned_take_bit_eq unsigned_drop_bit_eq)
  also have "\<dots> = unat v mod 2 ^ LENGTH('a) div 2 ^ k mod 2 ^ 8"
    by (simp only: take_bit_eq_mod drop_bit_eq_div)
  finally have "unat (drop_bit k v AND 0xFF) = unat v mod 2 ^ LENGTH('a) div 2 ^ k mod 2 ^ 8" .
  moreover have "unat v < 2 ^ LENGTH('a)" by (rule unsigned_less)
  ultimately have "unat (drop_bit k v AND 0xFF) = unat v div 2 ^ k mod 256" by simp
  moreover have "(ucast (drop_bit k v AND 0xFF) :: byte) = of_nat (unat (drop_bit k v AND 0xFF))" by simp
  ultimately show ?thesis by (simp only:)
qed

lemma be_bytes_map: "be_bytes k n = map (\<lambda>i. of_nat (n div 256 ^ (k - 1 - i) mod 256)) [0..<k]"
proof (induction k arbitrary: n)
  case (Suc k)
  have "n div 256 div 256 ^ (k - 1 - i) = n div 256 ^ (k - i)" if "i < k" for i
  proof -
    have "k - i = Suc (k - 1 - i)" using that by simp
    then show ?thesis by (simp add: div_mult2_eq [symmetric])
  qed
  then show ?case by (simp add: Suc [of "n div 256"])
qed simp

lemma put_u64_eq: "put_u64 v = be_bytes 8 (unat v)"
proof -
  have "put_u64 v = map (\<lambda>i. ucast (drop_bit (8 * (8 - 1 - i)) v AND 0xFF)) [0..<8]"
    by (simp add: put_u64_def upt_rec)
  also have "\<dots> = map (\<lambda>i. of_nat (unat v div 256 ^ (8 - 1 - i) mod 256)) [0..<8]"
    by (rule map_cong [OF refl]) (simp add: mask_byte power_mult)
  finally show ?thesis by (simp only: be_bytes_map)
qed

lemma put_u32_eq: "put_u32 v = be_bytes 4 (unat v)"
proof -
  have "put_u32 v = map (\<lambda>i. ucast (drop_bit (8 * (4 - 1 - i)) v AND 0xFF)) [0..<4]"
    by (simp add: put_u32_def upt_rec)
  also have "\<dots> = map (\<lambda>i. of_nat (unat v div 256 ^ (4 - 1 - i) mod 256)) [0..<4]"
    by (rule map_cong [OF refl]) (simp add: mask_byte power_mult)
  finally show ?thesis by (simp only: be_bytes_map)
qed

subsection \<open>Round trips\<close>

lemma unat_less_256: "unat (v :: 64 word) < 256 ^ 8" "unat (w :: 32 word) < 256 ^ 4"
proof -
  have "unat v < 2 ^ LENGTH(64)" "unat w < 2 ^ LENGTH(32)" by (rule unsigned_less)+
  then show "unat v < 256 ^ 8" "unat w < 256 ^ 4" by simp_all
qed

lemma put_lengths [simp]: "length (put_u64 v) = 8" "length (put_u32 w) = 4" "length (put_u8 b) = 1"
  by (simp_all add: put_u64_eq put_u32_eq put_u8_def)

lemma get_put [simp]:
  "get_u64 (put_u64 v @ rest) = (v, rest)" "get_u32 (put_u32 w @ rest) = (w, rest)" "get_u8 (put_u8 b @ rest) = (b, rest)"
  using unat_less_256 by (simp_all add: put_u64_eq get_u64_eq put_u32_eq get_u32_eq put_u8_def get_u8_def)

lemma get_put_last [simp]:
  "get_u64 (put_u64 v) = (v, [])" "get_u32 (put_u32 w) = (w, [])" "get_u8 (put_u8 b) = (b, [])"
  using get_put(1) [of v "[]"] get_put(2) [of w "[]"] get_put(3) [of b "[]"] by simp_all

definition int64_ok :: "int \<Rightarrow> bool" where
  "int64_ok n \<longleftrightarrow> - (2 ^ 63) \<le> n \<and> n < 2 ^ 63"

lemma to_int64_ok [simp]: "int64_ok (to_int64 w)"
  using sint_greater_eq [of w] sint_less [of w] by (simp add: int64_ok_def to_int64_def)

lemma int64_round [simp]: "int64_ok n \<Longrightarrow> to_int64 (to_uint64 n) = n" "to_uint64 (to_int64 w) = w"
  by (simp_all add: int64_ok_def to_int64_def to_uint64_def signed_of_int signed_take_bit_int_eq_self)

lemma engine_order_round: "int64_ok (wo_price_ticks m) \<Longrightarrow> engine_decode_order (engine_encode_order m) = m"
  by (simp add: engine_decode_order_def engine_encode_order_def)

lemma engine_fill_round: "int64_ok (wf_price_ticks m) \<Longrightarrow> engine_decode_fill (engine_encode_fill m) = m"
  by (simp add: engine_decode_fill_def engine_encode_fill_def)

lemma engine_ack_round: "engine_decode_ack (engine_encode_ack m) = m"
  by (simp add: engine_decode_ack_def engine_encode_ack_def)

lemma engine_lengths [simp]:
  "length (engine_encode_order m) = 22" "length (engine_encode_fill f) = 37" "length (engine_encode_ack a) = 10"
  "length (engine_encode_cancel k) = 8"
  by (simp_all add: engine_encode_order_def engine_encode_fill_def engine_encode_ack_def engine_encode_cancel_def)

interpretation engine_order_codec: tagged_codec "\<lambda>m. Inr (tag_byte NEW_ORDER # engine_encode_order m)"
    "\<lambda>body. Inr (engine_decode_order body)" "\<lambda>m. int64_ok (wo_price_ticks m)" "tag_byte NEW_ORDER" 22
  by unfold_locales (simp add: engine_order_round)

interpretation engine_fill_codec: tagged_codec "\<lambda>m. Inr (tag_byte FILL # engine_encode_fill m)"
    "\<lambda>body. Inr (engine_decode_fill body)" "\<lambda>m. int64_ok (wf_price_ticks m)" "tag_byte FILL" 37
  by unfold_locales (simp add: engine_fill_round)

interpretation engine_ack_codec: tagged_codec "\<lambda>m. Inr (tag_byte ACK # engine_encode_ack m)"
    "\<lambda>body. Inr (engine_decode_ack body)" "\<lambda>m. True" "tag_byte ACK" 10
  by unfold_locales (simp add: engine_ack_round)

subsection \<open>The two languages agree\<close>

lemma unat_word_of_int64: "0 \<le> v \<Longrightarrow> v < 2 ^ 64 \<Longrightarrow> unat (word_of_int v :: 64 word) = nat v"
  by (simp add: unsigned_of_int take_bit_int_eq_self)

lemma unat_word_of_int32: "0 \<le> v \<Longrightarrow> v < 2 ^ 32 \<Longrightarrow> unat (word_of_int v :: 32 word) = nat v"
  by (simp add: unsigned_of_int take_bit_int_eq_self)

lemma unat_to_uint64: "unat (to_uint64 n) = nat (n mod 2 ^ 64)"
  by (simp add: to_uint64_def unsigned_of_int take_bit_eq_mod)

definition wire_of_order :: "ClientOrderMsg \<Rightarrow> Wire_Order" where
  "wire_of_order m = \<lparr>wo_client_order_id = word_of_int (com_client_order_id m),
     wo_side = word_of_int (Side_value (com_side m)), wo_order_type = word_of_int (OrderType_value (com_order_type m)),
     wo_price_ticks = com_price_ticks m, wo_quantity = word_of_int (com_quantity m)\<rparr>"

lemma be_bytes_1: "be_bytes (Suc 0) n = [of_nat n]"
proof -
  have "(of_nat (n mod 256) :: byte) = of_nat n" by (simp add: word_of_nat_eq_iff take_bit_eq_mod)
  then show ?thesis by simp
qed

lemma encode_new_order_engine:
  assumes "order_in_range m"
  shows "encode_new_order m = Inr (tag_byte NEW_ORDER # engine_encode_order (wire_of_order m))"
proof -
  have "0 \<le> Side_value (com_side m)" "Side_value (com_side m) < 256"
    "0 \<le> OrderType_value (com_order_type m)" "OrderType_value (com_order_type m) < 256"
    by (cases "com_side m"; cases "com_order_type m"; simp)+
  with assms show ?thesis
    by (simp add: encode_new_order_def NEW_ORDER_FMT_def order_in_range_def pack_unsigned_def engine_encode_order_def
        wire_of_order_def put_u64_eq put_u32_eq put_u8_def unat_word_of_int64 unat_word_of_int32 unat_to_uint64 be_bytes_1
        del: be_bytes.simps)
qed

lemma encode_cancel_engine:
  assumes "cancel_in_range m"
  shows "encode_cancel m = Inr (tag_byte CANCEL # engine_encode_cancel (word_of_int (cm_client_order_id m)))"
  using assms by (simp add: encode_cancel_def CANCEL_FMT_def cancel_in_range_def pack_unsigned_def
      engine_encode_cancel_def put_u64_eq unat_word_of_int64 del: be_bytes.simps)

lemma payload_sizes_agree: "engine_payload_size tag = payload_size (uint tag)"
proof -
  have "tag = word_of_int n \<longleftrightarrow> uint tag = n" if "0 \<le> n" "n < 256" for n
    using that by (auto simp: word_eq_iff_unsigned unsigned_of_int take_bit_int_eq_self)
  from this [of 1] this [of 2] this [of 3] this [of 16] this [of 17] show ?thesis
    by (simp add: engine_payload_size_def payload_size_def MsgType_of_def)
qed

lemma be_value_u64 [simp]: "be_value (put_u64 v) = unat v" "be_value (put_u32 w) = unat w" "be_value (put_u8 b) = unat b"
  using unat_less_256 be_value_snoc [of "[]" b] by (simp_all add: put_u64_eq put_u32_eq put_u8_def)

lemma signed_price:
  "(let n = int (unat (to_uint64 (to_int64 w))) in if n < 2 ^ 63 then n else n - 2 ^ 64) = to_int64 w"
proof -
  have "unat w < 2 ^ LENGTH(64)" by (rule unsigned_less)
  then have "unat w < 2 ^ 64" by simp
  from sint_of_nat_be [OF this]
  have "sint w = (if unat w < 2 ^ 63 then int (unat w) else int (unat w) - 2 ^ 64)" by simp
  moreover have "int (unat w) < 2 ^ 63 \<longleftrightarrow> unat w < 2 ^ 63" by (metis of_nat_less_iff of_nat_numeral of_nat_power)
  ultimately show ?thesis by (simp only: int64_round(2) Let_def) (simp only: to_int64_def)
qed

lemma decode_fill_engine:
  "decode_fill (engine_encode_fill (m\<lparr>wf_price_ticks := to_int64 price\<rparr>)) =
     (if unat (wf_resting_side m) \<le> 1 then
        Inr \<lparr>fe_resting_order_id = uint (wf_resting_order_id m), fe_incoming_order_id = uint (wf_incoming_order_id m),
          fe_resting_side = (if wf_resting_side m = 0 then BUY else SELL), fe_price_ticks = to_int64 price,
          fe_quantity = uint (wf_quantity m), fe_timestamp = uint (wf_timestamp m)\<rparr>
      else Inl ValueError)"
proof -
  let ?p = "engine_encode_fill (m\<lparr>wf_price_ticks := to_int64 price\<rparr>)"
  have f: "take 8 ?p = put_u64 (wf_resting_order_id m)" "take 8 (drop 8 ?p) = put_u64 (wf_incoming_order_id m)"
    "?p ! 16 = wf_resting_side m" "take 8 (drop 17 ?p) = put_u64 (to_uint64 (to_int64 price))"
    "take 4 (drop 25 ?p) = put_u32 (wf_quantity m)" "take 8 (drop 29 ?p) = put_u64 (wf_timestamp m)"
    by (simp_all add: engine_encode_fill_def nth_append put_u8_def)
  have "length ?p = 37" by simp
  note decode_fill_eq [OF this, unfolded f be_value_u64 signed_price]
  then show ?thesis by (simp only: uint_nat)
qed

lemma decode_ack_engine:
  "decode_ack (engine_encode_ack a) =
     Inr \<lparr>ae_client_order_id = uint (wa_client_order_id a), ae_request_type = uint (wa_request_type a),
       ae_status = uint (wa_status a)\<rparr>"
proof -
  let ?p = "engine_encode_ack a"
  have f: "take 8 ?p = put_u64 (wa_client_order_id a)" "take 1 (drop 8 ?p) = put_u8 (wa_request_type a)"
    "take 1 (drop 9 ?p) = put_u8 (wa_status a)"
    by (simp_all add: engine_encode_ack_def put_u8_def)
  have "length ?p = 10" by simp
  note decode_ack_eq [OF this, unfolded f be_value_u64]
  then show ?thesis by (simp only: uint_nat)
qed

section \<open>Properties\<close>

text \<open>What the Python client encodes the engine decodes to the same order: same tag and payload
  size, same id, side, type, signed price and quantity, for every order whose encoding
  succeeds; the same for cancels.\<close>

lemma python_orders_reach_engine:
  "(case encode_new_order m of
      Inl e \<Rightarrow> \<not> order_in_range m
    | Inr bs \<Rightarrow> engine_payload_size (hd bs) = Some (length (tl bs)) \<and> hd bs = 1 \<and>
        (let w = engine_decode_order (tl bs) in
           uint (wo_client_order_id w) = com_client_order_id m \<and> uint (wo_side w) = Side_value (com_side m) \<and>
           uint (wo_order_type w) = OrderType_value (com_order_type m) \<and>
           wo_price_ticks w = com_price_ticks m \<and> uint (wo_quantity w) = com_quantity m)) \<and>
   (case encode_cancel c of
      Inl e \<Rightarrow> \<not> cancel_in_range c
    | Inr bs \<Rightarrow> engine_payload_size (hd bs) = Some (length (tl bs)) \<and> hd bs = 2 \<and>
        uint (engine_decode_cancel (tl bs)) = cm_client_order_id c)"
proof (intro conjI)
  have t: "tag_byte NEW_ORDER = 1" "tag_byte CANCEL = 2" by (simp_all add: tag_byte_def)
  show "case encode_new_order m of
      Inl e \<Rightarrow> \<not> order_in_range m
    | Inr bs \<Rightarrow> engine_payload_size (hd bs) = Some (length (tl bs)) \<and> hd bs = 1 \<and>
        (let w = engine_decode_order (tl bs) in
           uint (wo_client_order_id w) = com_client_order_id m \<and> uint (wo_side w) = Side_value (com_side m) \<and>
           uint (wo_order_type w) = OrderType_value (com_order_type m) \<and>
           wo_price_ticks w = com_price_ticks m \<and> uint (wo_quantity w) = com_quantity m)"
  proof (cases "order_in_range m")
    case True
    then have "int64_ok (wo_price_ticks (wire_of_order m))"
      by (simp add: order_in_range_def int64_ok_def wire_of_order_def)
    with True encode_new_order_engine [OF True] engine_order_round [of "wire_of_order m"] t show ?thesis
      by (cases "com_side m"; cases "com_order_type m")
        (simp_all add: wire_of_order_def order_in_range_def engine_payload_size_def unsigned_of_int take_bit_int_eq_self)
  qed (simp add: encode_new_order_out_of_range)
  show "case encode_cancel c of
      Inl e \<Rightarrow> \<not> cancel_in_range c
    | Inr bs \<Rightarrow> engine_payload_size (hd bs) = Some (length (tl bs)) \<and> hd bs = 2 \<and>
        uint (engine_decode_cancel (tl bs)) = cm_client_order_id c"
  proof (cases "cancel_in_range c")
    case True
    with encode_cancel_engine [OF True] t show ?thesis
      by (simp add: engine_payload_size_def engine_decode_cancel_def engine_encode_cancel_def cancel_in_range_def
          unsigned_of_int take_bit_int_eq_self)
  next
    case False
    then have "encode_cancel c = Inl StructError"
      by (simp add: encode_cancel_def CANCEL_FMT_def cancel_in_range_def pack_unsigned_def)
    with False show ?thesis by simp
  qed
qed

text \<open>Every fill and acknowledgement the engine encodes the Python client decodes to the same
  fields, for every 64-bit price, and the two payload tables agree on every tag byte; a side
  byte above 1, which the engine never sends, raises \<^verbatim>\<open>ValueError\<close>.\<close>

lemma engine_events_reach_python:
  "decode_event 16 (engine_encode_fill (m\<lparr>wf_price_ticks := to_int64 price\<rparr>)) =
     (if unat (wf_resting_side m) \<le> 1 then
        Inr (Fill_Event \<lparr>fe_resting_order_id = uint (wf_resting_order_id m),
          fe_incoming_order_id = uint (wf_incoming_order_id m),
          fe_resting_side = (if wf_resting_side m = 0 then BUY else SELL), fe_price_ticks = to_int64 price,
          fe_quantity = uint (wf_quantity m), fe_timestamp = uint (wf_timestamp m)\<rparr>)
      else Inl ValueError) \<and>
   decode_event 17 (engine_encode_ack a) =
     Inr (Ack_Event \<lparr>ae_client_order_id = uint (wa_client_order_id a),
       ae_request_type = uint (wa_request_type a), ae_status = uint (wa_status a)\<rparr>) \<and>
   engine_payload_size tag = payload_size (uint tag)"
  by (simp add: decode_event_def decode_fill_engine decode_ack_engine payload_sizes_agree)

end
