(* ===== verification/Server.thy ===== *)
theory Server
  imports EngineProtocol Client
begin

text \<open>
  The C++ server, \<^verbatim>\<open>engine/src/server.cpp\<close>: the connections with their read buffers, the
  dispatch of requests to the order book, the acknowledgements and fills it sends, and the
  passes of its \<^verbatim>\<open>poll\<close> loop.  \<open>sv_sent\<close> is the log of the messages given to \<^verbatim>\<open>send_all\<close>,
  each with the descriptor it was sent to; what the kernel makes of them, and whether the
  process survives the calls, is in \<open>ServerProcess\<close>.  The results of \<^verbatim>\<open>accept\<close>, \<^verbatim>\<open>poll\<close> and \<^verbatim>\<open>recv\<close> are
  arguments of a pass.  The locale \<open>order_venue\<close> is what the server relies on in its book.
\<close>

section \<open>State\<close>

record Connection =
  cn_fd :: nat
  cn_read_buf :: bytes
  cn_subscribed_to_fills :: bool

record Server =
  sv_book :: OrderBook
  sv_connections :: "Connection list"
  sv_order_owner_fd :: "64 word \<Rightarrow> nat option"
  sv_sent :: "(nat \<times> bytes) list"

definition server_init :: Server where
  "server_init = \<lparr>sv_book = book_init, sv_connections = [], sv_order_owner_fd = (\<lambda>_. None), sv_sent = []\<rparr>"

section \<open>Sending\<close>

text \<open>
  What one \<^verbatim>\<open>send\<close> gave: a count, \<^verbatim>\<open>EAGAIN\<close>, another error, or \<^verbatim>\<open>EPIPE\<close> with its signal, which
  nothing in the program handles.  The loop may also still be running when the script ends.
\<close>

datatype Send_Result = Send_Count nat | Send_Again | Send_Error | Send_Pipe

datatype Send_End = Send_Complete | Send_Dropped | Send_Killed | Send_Running

text \<open>The bytes the kernel took, and how the loop ended.\<close>

function send_loop :: "bytes \<Rightarrow> nat \<Rightarrow> Send_Result list \<Rightarrow> bytes \<times> Send_End" where
  "send_loop data sent outcomes =
     (if length data \<le> sent then ([], Send_Complete)
      else case outcomes of
          [] \<Rightarrow> ([], Send_Running)
        | Send_Count n # rest \<Rightarrow>
            if 0 < n then (case send_loop data (sent + n) rest of (w, e) \<Rightarrow> (take n (drop sent data) @ w, e))
            else ([], Send_Dropped)
        | Send_Again # rest \<Rightarrow> send_loop data sent rest
        | Send_Error # _ \<Rightarrow> ([], Send_Dropped)
        | Send_Pipe # _ \<Rightarrow> ([], Send_Killed))"
  by pat_completeness auto
termination
  by (relation "measure (\<lambda>(data, sent, outcomes). length outcomes)") auto

definition send_all :: "bytes \<Rightarrow> Send_Result list \<Rightarrow> bytes \<times> Send_End" where
  "send_all data outcomes = send_loop data 0 outcomes"

text \<open>
  The requests only issue the calls: the server's state does not depend on how a call ends,
  unless the process does not survive it.  \<open>ServerProcess\<close> runs \<open>send_all\<close> on the calls issued,
  in order.
\<close>

definition issue_send :: "nat \<Rightarrow> bytes \<Rightarrow> Server \<Rightarrow> Server" where
  "issue_send fd msg s = s\<lparr>sv_sent := sv_sent s @ [(fd, msg)]\<rparr>"

definition ack_msg :: "64 word \<Rightarrow> byte \<Rightarrow> byte \<Rightarrow> bytes" where
  "ack_msg order_id request_type status =
     0x11 # engine_encode_ack \<lparr>wa_client_order_id = order_id, wa_request_type = request_type, wa_status = status\<rparr>"

definition send_ack :: "nat \<Rightarrow> 64 word \<Rightarrow> byte \<Rightarrow> byte \<Rightarrow> Server \<Rightarrow> Server" where
  "send_ack fd order_id request_type status s = issue_send fd (ack_msg order_id request_type status) s"

definition fill_msg :: "Fill \<Rightarrow> bytes" where
  "fill_msg fill =
     0x10 # engine_encode_fill
       \<lparr>wf_resting_order_id = fl_resting_order_id fill, wf_incoming_order_id = fl_incoming_order_id fill,
        wf_resting_side = (case fl_resting_side fill of BUY \<Rightarrow> 0 | SELL \<Rightarrow> 1),
        wf_price_ticks = fl_price_ticks fill, wf_quantity = fl_quantity fill, wf_timestamp = fl_timestamp fill\<rparr>"

definition send_fill :: "nat \<Rightarrow> Fill \<Rightarrow> Server \<Rightarrow> Server" where
  "send_fill fd fill s = issue_send fd (fill_msg fill) s"

definition broadcast_fill_to_subscribers :: "Fill \<Rightarrow> nat list \<Rightarrow> Server \<Rightarrow> Server" where
  "broadcast_fill_to_subscribers fill already_sent_to s =
     fold (\<lambda>c s. if \<not> cn_subscribed_to_fills c \<or> cn_fd c \<in> set already_sent_to then s else send_fill (cn_fd c) fill s)
       (sv_connections s) s"

section \<open>Requests\<close>

definition order_of_msg :: "Wire_Order \<Rightarrow> Order" where
  "order_of_msg msg =
     \<lparr>od_id = wo_client_order_id msg,
      od_side = (if wo_side msg = 0 then BUY else SELL),
      od_type = (if wo_order_type msg = 0 then LIMIT else MARKET),
      od_price_ticks = wo_price_ticks msg,
      od_quantity = wo_quantity msg,
      od_timestamp = 0\<rparr>"

definition dispatch_fill :: "nat \<Rightarrow> Fill \<Rightarrow> Server \<Rightarrow> Server" where
  "dispatch_fill fd f s =
     (let s1 = send_fill fd f s;
          (s2, already_sent_to) =
            (case sv_order_owner_fd s1 (fl_resting_order_id f) of
               Some owner \<Rightarrow> if owner \<noteq> fd then (send_fill owner f s1, [fd, owner]) else (s1, [fd])
             | None \<Rightarrow> (s1, [fd]));
          s3 = broadcast_fill_to_subscribers f already_sent_to s2
      in if \<not> book_contains (sv_book s3) (fl_resting_order_id f)
         then s3\<lparr>sv_order_owner_fd := (sv_order_owner_fd s3)(fl_resting_order_id f := None)\<rparr> else s3)"

definition dispatch_new_order :: "nat \<Rightarrow> Wire_Order \<Rightarrow> Server \<Rightarrow> Server" where
  "dispatch_new_order fd msg s =
     (if book_contains (sv_book s) (wo_client_order_id msg) then send_ack fd (wo_client_order_id msg) 0x01 1 s
      else
        case book_submit (sv_book s) (order_of_msg msg) of
          (fills, book) \<Rightarrow>
            let s1 = send_ack fd (wo_client_order_id msg) 0x01 0 (s\<lparr>sv_book := book\<rparr>);
                s2 = (if book_contains (sv_book s1) (wo_client_order_id msg)
                      then s1\<lparr>sv_order_owner_fd := (sv_order_owner_fd s1)(wo_client_order_id msg \<mapsto> fd)\<rparr> else s1)
            in fold (dispatch_fill fd) fills s2)"

definition dispatch_cancel :: "nat \<Rightarrow> 64 word \<Rightarrow> Server \<Rightarrow> Server" where
  "dispatch_cancel fd order_id s =
     (case book_cancel (sv_book s) order_id of
        (ok, book) \<Rightarrow>
          let s1 = s\<lparr>sv_book := book\<rparr>;
              s2 = (if ok then s1\<lparr>sv_order_owner_fd := (sv_order_owner_fd s1)(order_id := None)\<rparr> else s1)
          in send_ack fd order_id 0x02 (if ok then 0 else 1) s2)"

section \<open>Connections\<close>

definition update_connection :: "nat \<Rightarrow> (Connection \<Rightarrow> Connection) \<Rightarrow> Server \<Rightarrow> Server" where
  "update_connection fd upd s =
     s\<lparr>sv_connections := map (\<lambda>c. if cn_fd c = fd then upd c else c) (sv_connections s)\<rparr>"

definition set_read_buf :: "nat \<Rightarrow> bytes \<Rightarrow> Server \<Rightarrow> Server" where
  "set_read_buf fd buf = update_connection fd (\<lambda>c. c\<lparr>cn_read_buf := buf\<rparr>)"

definition subscribe :: "nat \<Rightarrow> Server \<Rightarrow> Server" where
  "subscribe fd = update_connection fd (\<lambda>c. c\<lparr>cn_subscribed_to_fills := True\<rparr>)"

definition remove_connection :: "nat \<Rightarrow> Server \<Rightarrow> Server" where
  "remove_connection fd s = s\<lparr>sv_connections := filter (\<lambda>c. cn_fd c \<noteq> fd) (sv_connections s)\<rparr>"

definition find_connection :: "nat \<Rightarrow> Server \<Rightarrow> Connection option" where
  "find_connection fd s = find (\<lambda>c. cn_fd c = fd) (sv_connections s)"

text \<open>
  The loop over the buffered messages.  The buffer is an argument and is stored back when the
  loop waits for more bytes: no dispatch reads it.
\<close>

function process_buffer :: "nat \<Rightarrow> bytes \<Rightarrow> Server \<Rightarrow> Server" where
  "process_buffer fd [] s = set_read_buf fd [] s"
| "process_buffer fd (tag # body) s =
     (case engine_payload_size tag of
        None \<Rightarrow> remove_connection fd s
      | Some payload \<Rightarrow>
          if length (tag # body) < 1 + payload then set_read_buf fd (tag # body) s
          else if tag = 0x01 then
            process_buffer fd (drop payload body) (dispatch_new_order fd (engine_decode_order body) s)
          else if tag = 0x02 then
            process_buffer fd (drop payload body) (dispatch_cancel fd (engine_decode_cancel body) s)
          else if tag = 0x03 then process_buffer fd (drop payload body) (subscribe fd s)
          else remove_connection fd s)"
  by pat_completeness auto
termination
  by (relation "measure (\<lambda>(fd, buf, s). length buf)") auto

text \<open>What \<^verbatim>\<open>recv\<close> gave: bytes, the end of the stream, \<^verbatim>\<open>EAGAIN\<close>, or another error.\<close>

datatype Recv_Result = Recv_Bytes bytes | Recv_Eof | Recv_Again | Recv_Failed

fun handle_readable :: "Connection \<Rightarrow> Recv_Result \<Rightarrow> Server \<Rightarrow> Server" where
  "handle_readable conn Recv_Eof s = remove_connection (cn_fd conn) s"
| "handle_readable conn Recv_Failed s = remove_connection (cn_fd conn) s"
| "handle_readable conn Recv_Again s = process_buffer (cn_fd conn) (cn_read_buf conn) s"
| "handle_readable conn (Recv_Bytes chunk) s = process_buffer (cn_fd conn) (cn_read_buf conn @ chunk) s"

section \<open>The poll loop\<close>

definition accept_new_connections :: "nat list \<Rightarrow> Server \<Rightarrow> Server" where
  "accept_new_connections fds s =
     s\<lparr>sv_connections := sv_connections s @
        map (\<lambda>fd. \<lparr>cn_fd = fd, cn_read_buf = [], cn_subscribed_to_fills = False\<rparr>) fds\<rparr>"

definition service :: "nat \<times> Recv_Result \<Rightarrow> Server \<Rightarrow> Server" where
  "service ready s =
     (case find_connection (fst ready) s of
        None \<Rightarrow> s
      | Some conn \<Rightarrow> handle_readable conn (snd ready) s)"

text \<open>One pass: the descriptors accepted, then the readable ones with what \<^verbatim>\<open>recv\<close> gives for each.\<close>

definition poll_pass :: "nat list \<Rightarrow> (nat \<times> Recv_Result) list \<Rightarrow> Server \<Rightarrow> Server" where
  "poll_pass accepted ready s = fold service ready (accept_new_connections accepted s)"

text \<open>
  The states the loop can reach.  The kernel gives an accepted connection a descriptor that
  is not open, and \<^verbatim>\<open>poll\<close> reports the descriptors it was asked for, in their order; a
  \<^verbatim>\<open>recv\<close> gives at most the 4096 bytes of the chunk.
\<close>

fun recv_ok :: "Recv_Result \<Rightarrow> bool" where
  "recv_ok (Recv_Bytes chunk) = (chunk \<noteq> [] \<and> length chunk \<le> 4096)"
| "recv_ok _ = True"

definition open_fds :: "Server \<Rightarrow> nat list" where
  "open_fds s = map cn_fd (sv_connections s)"

inductive serving :: "Server \<Rightarrow> bool" where
  listening: "serving server_init"
| pass: "serving s \<Longrightarrow> distinct accepted \<Longrightarrow> set accepted \<inter> set (open_fds s) = {} \<Longrightarrow>
    subseq (map fst ready) (open_fds s) \<Longrightarrow> (\<forall>r\<in>set ready. recv_ok (snd r)) \<Longrightarrow>
    serving (poll_pass accepted ready s)"

section \<open>What the kernel takes of a message\<close>

text \<open>The kernel takes at most what it is offered.\<close>

fun counts_ok :: "nat \<Rightarrow> Send_Result list \<Rightarrow> bool" where
  "counts_ok len [] = True"
| "counts_ok len (Send_Count n # rest) = (n \<le> len \<and> counts_ok (len - n) rest)"
| "counts_ok len (_ # rest) = counts_ok len rest"

declare send_loop.simps [simp del]

lemma send_loop_prefix:
  "send_loop data sent outcomes = (w, e) \<Longrightarrow> counts_ok (length data - sent) outcomes \<Longrightarrow>
   prefix w (drop sent data) \<and> (w = drop sent data \<longleftrightarrow> e = Send_Complete)"
proof (induction data sent outcomes arbitrary: w rule: send_loop.induct)
  case (1 data sent outcomes)
  show ?case
  proof (cases "length data \<le> sent")
    case True
    with 1(3) show ?thesis by (simp add: send_loop.simps)
  next
    case False
    show ?thesis
    proof (cases outcomes)
      case (Cons r rest)
      then show ?thesis
      proof (cases r)
        case (Send_Count n)
        show ?thesis
        proof (cases "0 < n")
          case True
          obtain w1 where s: "send_loop data (sent + n) rest = (w1, e)" "w = take n (drop sent data) @ w1"
            using 1(3) False Cons Send_Count True by (auto simp: send_loop.simps [of data sent] split: prod.splits)
          have ok: "counts_ok (length data - (sent + n)) rest" using 1(4) Cons Send_Count by simp
          have d: "drop sent data = take n (drop sent data) @ drop (sent + n) data"
            by (metis append_take_drop_id drop_drop add.commute)
          have "prefix w1 (drop (sent + n) data) \<and> (w1 = drop (sent + n) data \<longleftrightarrow> e = Send_Complete)"
            using 1(1) [OF False Cons Send_Count True s(1) ok] .
          then show ?thesis using s(2) d by (metis same_append_eq same_prefix_prefix)
        next
          case n0: False
          then show ?thesis using 1(3) False Cons Send_Count by (auto simp: send_loop.simps [of data sent])
        qed
      next
        case Send_Again
        then have "send_loop data sent rest = (w, e)" using 1(3) False Cons by (simp add: send_loop.simps [of data sent])
        moreover have "counts_ok (length data - sent) rest" using 1(4) Cons Send_Again by simp
        ultimately show ?thesis using 1(2) False Cons Send_Again by blast
      qed (use 1(3) False Cons in \<open>auto simp: send_loop.simps [of data sent]\<close>)
    qed (use 1(3) False in \<open>auto simp: send_loop.simps [of data sent]\<close>)
  qed
qed

section \<open>What the server relies on in its book\<close>

definition entry_of_fill :: "Fill \<Rightarrow> 64 word \<times> int \<times> Side" where
  "entry_of_fill f = (fl_resting_order_id f, fl_price_ticks f, fl_resting_side f)"

lemma ids_after: "R' \<subseteq> insert k R \<Longrightarrow> R - R' \<subseteq> F \<Longrightarrow> (if k \<in> R' then insert k R else R) - (F - R') = R'"
  by auto

text \<open>
  A book holds entries (id, price, side).  Submitting a new id adds at most the entry of the
  order; what disappears was filled, and every fill is against an entry that was resting,
  at most one fill an entry.
\<close>

locale order_venue =
  fixes venue_inv :: "'b \<Rightarrow> bool"
    and resting :: "'b \<Rightarrow> (64 word \<times> int \<times> Side) set"
    and submit :: "'b \<Rightarrow> Order \<Rightarrow> Fill list \<times> 'b"
    and cancel :: "'b \<Rightarrow> 64 word \<Rightarrow> bool \<times> 'b"
  assumes submit_inv: "venue_inv b \<Longrightarrow> submit b o1 = (fills, b') \<Longrightarrow> venue_inv b'"
    and submit_resting: "venue_inv b \<Longrightarrow> od_id o1 \<notin> fst ` resting b \<Longrightarrow> submit b o1 = (fills, b') \<Longrightarrow>
      resting b' \<subseteq> insert (entry o1) (resting b)"
    and submit_gone: "venue_inv b \<Longrightarrow> od_id o1 \<notin> fst ` resting b \<Longrightarrow> submit b o1 = (fills, b') \<Longrightarrow>
      resting b - resting b' \<subseteq> entry_of_fill ` set fills"
    and submit_fills: "venue_inv b \<Longrightarrow> od_id o1 \<notin> fst ` resting b \<Longrightarrow> submit b o1 = (fills, b') \<Longrightarrow>
      entry_of_fill ` set fills \<subseteq> resting b \<and> distinct (map fl_resting_order_id fills)"
    and cancel_inv: "venue_inv b \<Longrightarrow> cancel b k = (ok, b') \<Longrightarrow> venue_inv b'"
    and cancel_resting: "venue_inv b \<Longrightarrow> cancel b k = (ok, b') \<Longrightarrow>
      ok = (k \<in> fst ` resting b) \<and> resting b' = {e \<in> resting b. fst e \<noteq> k}"
begin

text \<open>Forgetting the owner of every filled order that is gone keeps the owner map in step with the book.\<close>

lemma owners_forget:
  "dom (fold (\<lambda>f m. if fl_resting_order_id f \<in> ids then m else m(fl_resting_order_id f := None)) fills owner) =
     dom owner - (fl_resting_order_id ` set fills - ids)"
  by (induction fills arbitrary: owner) auto

lemma owners_submit:
  assumes "venue_inv b" "od_id o1 \<notin> fst ` resting b" "submit b o1 = (fills, b')" "dom owner = fst ` resting b"
  shows "dom (fold (\<lambda>f m. if fl_resting_order_id f \<in> fst ` resting b' then m else m(fl_resting_order_id f := None)) fills
       (if od_id o1 \<in> fst ` resting b' then owner(od_id o1 \<mapsto> c) else owner)) = fst ` resting b'" (is "?l = ?r")
proof -
  note laws = submit_resting [OF assms(1-3)] submit_gone [OF assms(1-3)]
  have 1: "?r \<subseteq> insert (od_id o1) (fst ` resting b)" using laws(1) by (auto simp: entry_def)
  have "fst e \<in> fl_resting_order_id ` set fills" if e: "e \<in> resting b" and "fst e \<notin> ?r" for e
  proof -
    from that have "e \<in> entry_of_fill ` set fills" using laws(2) by (auto simp: image_iff)
    then show ?thesis by (auto simp: entry_of_fill_def)
  qed
  then have 2: "fst ` resting b - ?r \<subseteq> fl_resting_order_id ` set fills" by blast
  have "dom (if od_id o1 \<in> ?r then owner(od_id o1 \<mapsto> c) else owner) =
      (if od_id o1 \<in> ?r then insert (od_id o1) (fst ` resting b) else fst ` resting b)"
    using assms(4) by simp
  then show ?thesis unfolding owners_forget by (simp only: ids_after [OF 1 2])
qed

lemma owners_cancel:
  assumes "venue_inv b" "cancel b k = (ok, b')" "dom owner = fst ` resting b"
  shows "dom (if ok then owner(k := None) else owner) = fst ` resting b'"
  using cancel_resting [OF assms(1,2)] assms(3) by (cases ok) force+

lemma prices_submit:
  assumes "venue_inv b" "od_id o1 \<notin> fst ` resting b" "submit b o1 = (fills, b')"
    "\<And>k p sd. (k, p, sd) \<in> resting b \<Longrightarrow> P p" "P (od_price_ticks o1)"
  shows "\<And>k p sd. (k, p, sd) \<in> resting b' \<Longrightarrow> P p" "\<And>f. f \<in> set fills \<Longrightarrow> P (fl_price_ticks f)"
proof -
  show "P p" if "(k, p, sd) \<in> resting b'" for k p sd
    using that submit_resting [OF assms(1-3)] assms(4,5) by (auto simp: entry_def)
  show "P (fl_price_ticks f)" if "f \<in> set fills" for f
  proof -
    from that have "entry_of_fill f \<in> resting b" using submit_fills [OF assms(1-3)] by blast
    then show ?thesis using assms(4) by (simp add: entry_of_fill_def)
  qed
qed

end

subsection \<open>The order book is such a venue\<close>

definition book_entries :: "OrderBook \<Rightarrow> (64 word \<times> int \<times> Side) set" where
  "book_entries b = {(k, v). bk_order_index b k = Some v}"

lemma book_entries_ids: "fst ` book_entries b = {k. book_contains b k}"
  by (force simp: book_entries_def book_contains_def)

lemma book_entries_queues: "book_inv b \<Longrightarrow> book_entries b = entry ` set (queue_of sd b) \<union> entry ` set (queue_of (opposite sd) b)"
  by (cases sd) (auto simp: book_entries_def book_inv_def index_ok_def image_Un)

lemma flat_match_trades:
  "flat_match sd inc queue ts = (fills, inc', queue', ts') \<Longrightarrow> \<forall>r\<in>set queue. od_side r = sd \<Longrightarrow>
   \<exists>gone. map entry queue = map entry gone @ map entry queue' \<and>
     prefix (map entry gone) (map entry_of_fill fills) \<and> prefix (map entry_of_fill fills) (map entry queue)"
proof (induction queue arbitrary: inc ts fills)
  case (Cons r queue)
  have e: "entry_of_fill (trade sd inc r ts) = entry r"
    using Cons.prems(2) by (simp add: entry_of_fill_def trade_def entry_def)
  from Cons.prems(1) show ?case
  proof (cases rule: flat_match_cases)
    case (full fills2)
    from Cons.IH [OF full(4)] Cons.prems(2) obtain gone where
      "map entry queue = map entry gone @ map entry queue'" "prefix (map entry gone) (map entry_of_fill fills2)"
      "prefix (map entry_of_fill fills2) (map entry queue)" by auto
    with full(5) e show ?thesis by (intro exI [of _ "r # gone"]) simp
  qed (auto simp: e intro: exI [of _ "[]"])
qed simp

lemma queue_of_sides: "book_inv b \<Longrightarrow> r \<in> set (queue_of sd b) \<Longrightarrow> od_side r = sd"
  using queue_of_ok [of b sd] by (auto simp: resting_ok_def)

lemma queue_of_distinct: "book_inv b \<Longrightarrow> distinct (map od_id (queue_of sd b))"
  by (cases sd) (simp_all add: book_inv_def index_ok_def)

lemma book_submit_trades:
  assumes b: "book_inv b" and new: "\<not> book_contains b (od_id o1)" and s: "book_submit b o1 = (fills, b')"
  obtains gone own where
    "map entry (queue_of (opposite (od_side o1)) b) = map entry gone @ map entry (queue_of (opposite (od_side o1)) b')"
    "prefix (map entry gone) (map entry_of_fill fills)"
    "prefix (map entry_of_fill fills) (map entry (queue_of (opposite (od_side o1)) b))"
    "own \<subseteq> {entry o1}" "entry ` set (queue_of (od_side o1) b') = own \<union> entry ` set (queue_of (od_side o1) b)"
proof -
  obtain left where
    m: "flat_match (opposite (od_side o1)) (stamped b o1) (queue_of (opposite (od_side o1)) b) (bk_next_timestamp b + 1)
       = (fills, left, queue_of (opposite (od_side o1)) b', bk_next_timestamp b')" and
    q: "queue_of (od_side o1) b' = (if rests left then flat_rest (od_side o1) left (queue_of (od_side o1) b)
       else queue_of (od_side o1) b)"
    by (rule submit_queues [OF b new s])
  have "entry left = entry o1" using flat_match_kept [OF m] by (simp add: entry_def stamped_def)
  with q have own: "entry ` set (queue_of (od_side o1) b') =
      (if rests left then {entry o1} else {}) \<union> entry ` set (queue_of (od_side o1) b)" by simp
  from flat_match_trades [OF m] queue_of_sides [OF b] obtain gone where
    "map entry (queue_of (opposite (od_side o1)) b) = map entry gone @ map entry (queue_of (opposite (od_side o1)) b')"
    "prefix (map entry gone) (map entry_of_fill fills)"
    "prefix (map entry_of_fill fills) (map entry (queue_of (opposite (od_side o1)) b))" by blast
  then show ?thesis using own by (intro that [of gone "if rests left then {entry o1} else {}"]) simp_all
qed

lemma map_entry_set: "map entry xs = map entry ys @ map entry zs \<Longrightarrow> entry ` set xs = entry ` set ys \<union> entry ` set zs"
  by (metis set_append set_map)

lemma entries_after:
  "B = O1 \<union> A \<Longrightarrow> B' = O2 \<union> A' \<Longrightarrow> A = G \<union> A' \<Longrightarrow> O2 = own \<union> O1 \<Longrightarrow> own \<subseteq> {x} \<Longrightarrow> G \<subseteq> F \<Longrightarrow>
   B' \<subseteq> insert x B \<and> B - B' \<subseteq> F"
  by blast

lemma book_submit_entries:
  assumes b: "book_inv b" and new: "\<not> book_contains b (od_id o1)" and s: "book_submit b o1 = (fills, b')"
  shows "book_entries b' \<subseteq> insert (entry o1) (book_entries b)"
    "book_entries b - book_entries b' \<subseteq> entry_of_fill ` set fills"
    "entry_of_fill ` set fills \<subseteq> book_entries b" "distinct (map fl_resting_order_id fills)"
proof -
  let ?sd = "od_side o1"
  obtain gone own where t:
    "map entry (queue_of (opposite ?sd) b) = map entry gone @ map entry (queue_of (opposite ?sd) b')"
    "prefix (map entry gone) (map entry_of_fill fills)"
    "prefix (map entry_of_fill fills) (map entry (queue_of (opposite ?sd) b))"
    "own \<subseteq> {entry o1}" "entry ` set (queue_of ?sd b') = own \<union> entry ` set (queue_of ?sd b)"
    by (rule book_submit_trades [OF b new s])
  have b': "book_inv b'" using submit_refines [OF b s] by blast
  note e = book_entries_queues [OF b, of ?sd] book_entries_queues [OF b', of ?sd]
  note g = map_entry_set [OF t(1)]
  have "entry ` set gone \<subseteq> entry_of_fill ` set fills" using set_mono_prefix [OF t(2)] by simp
  from entries_after [OF e g t(5,4) this]
  show "book_entries b' \<subseteq> insert (entry o1) (book_entries b)"
    "book_entries b - book_entries b' \<subseteq> entry_of_fill ` set fills" by simp_all
  have "entry_of_fill ` set fills \<subseteq> entry ` set (queue_of (opposite ?sd) b)" using set_mono_prefix [OF t(3)] by simp
  then show "entry_of_fill ` set fills \<subseteq> book_entries b" unfolding e by blast
  have "prefix (map fst (map entry_of_fill fills)) (map fst (map entry (queue_of (opposite ?sd) b)))"
    by (rule map_mono_prefix [OF t(3)])
  then have "prefix (map fl_resting_order_id fills) (map od_id (queue_of (opposite ?sd) b))"
    by (simp add: comp_def entry_of_fill_def entry_def)
  then show "distinct (map fl_resting_order_id fills)"
    using queue_of_distinct [OF b, of "opposite ?sd"] by (auto simp: prefix_def)
qed

lemma book_cancel_entries:
  assumes b: "book_inv b" and c: "book_cancel b k = (ok, b')"
  shows "ok = book_contains b k \<and> book_entries b' = {e \<in> book_entries b. fst e \<noteq> k}"
proof -
  note r = cancel_refines [OF b c]
  then have b': "book_inv b'" by blast
  have ok: "ok = book_contains b k" using r contains_flat [OF b] by (simp add: flat_cancel_def)
  have "queue_of sd b' = filter (\<lambda>o1. od_id o1 \<noteq> k) (queue_of sd b)" for sd
    using r by (cases sd) (simp_all add: flat_cancel_def flat_book_def)
  with ok show ?thesis unfolding book_entries_queues [OF b, of BUY] book_entries_queues [OF b', of BUY]
    by (auto simp: entry_def)
qed

interpretation level_book: order_venue book_inv book_entries book_submit book_cancel
proof (unfold_locales, goal_cases)
  case (1 b o1 fills b')
  then show ?case using submit_refines by blast
next
  case (2 b o1 fills b')
  then show ?case using book_submit_entries(1) by (simp add: book_entries_ids)
next
  case (3 b o1 fills b')
  then show ?case using book_submit_entries(2) by (simp add: book_entries_ids)
next
  case (4 b o1 fills b')
  then show ?case using book_submit_entries(3,4) by (simp add: book_entries_ids)
next
  case (5 b k ok b')
  then show ?case using cancel_refines by blast
next
  case (6 b k ok b')
  then show ?case using book_cancel_entries by (simp add: book_entries_ids)
qed

section \<open>What one request does\<close>

text \<open>
  Who is sent a fill: the connection of the incoming order, the owner of the resting order
  when it is another one, and the subscribers that are neither.
\<close>

definition addressees :: "nat \<Rightarrow> nat option \<Rightarrow> nat list" where
  "addressees fd owner = (case owner of Some owner_fd \<Rightarrow> if owner_fd \<noteq> fd then [fd, owner_fd] else [fd] | None \<Rightarrow> [fd])"

definition recipients :: "nat \<Rightarrow> nat option \<Rightarrow> Connection list \<Rightarrow> nat list" where
  "recipients fd owner cs = addressees fd owner @
     map cn_fd (filter (\<lambda>c. cn_subscribed_to_fills c \<and> cn_fd c \<notin> set (addressees fd owner)) cs)"

definition deliveries :: "nat \<Rightarrow> nat option \<Rightarrow> Connection list \<Rightarrow> Fill \<Rightarrow> (nat \<times> bytes) list" where
  "deliveries fd owner cs f = map (\<lambda>d. (d, fill_msg f)) (recipients fd owner cs)"

definition forget_filled :: "OrderBook \<Rightarrow> Fill list \<Rightarrow> (64 word \<Rightarrow> nat option) \<Rightarrow> (64 word \<Rightarrow> nat option)" where
  "forget_filled b = fold (\<lambda>f m. if book_contains b (fl_resting_order_id f) then m else m(fl_resting_order_id f := None))"

lemma broadcast_eq:
  "broadcast_fill_to_subscribers f already s = s\<lparr>sv_sent := sv_sent s @
     map (\<lambda>c. (cn_fd c, fill_msg f)) (filter (\<lambda>c. cn_subscribed_to_fills c \<and> cn_fd c \<notin> set already) (sv_connections s))\<rparr>"
proof -
  have "fold (\<lambda>c s. if \<not> cn_subscribed_to_fills c \<or> cn_fd c \<in> set already then s else send_fill (cn_fd c) f s) cs s =
      s\<lparr>sv_sent := sv_sent s @ map (\<lambda>c. (cn_fd c, fill_msg f))
          (filter (\<lambda>c. cn_subscribed_to_fills c \<and> cn_fd c \<notin> set already) cs)\<rparr>" for cs
    by (induction cs arbitrary: s) (auto simp: send_fill_def issue_send_def)
  then show ?thesis by (simp add: broadcast_fill_to_subscribers_def)
qed

lemma dispatch_fill_eq:
  "dispatch_fill fd f s = s\<lparr>sv_sent := sv_sent s @
       deliveries fd (sv_order_owner_fd s (fl_resting_order_id f)) (sv_connections s) f,
     sv_order_owner_fd := (if book_contains (sv_book s) (fl_resting_order_id f) then sv_order_owner_fd s
       else (sv_order_owner_fd s)(fl_resting_order_id f := None))\<rparr>"
  by (cases "sv_order_owner_fd s (fl_resting_order_id f)")
    (simp_all add: dispatch_fill_def Let_def broadcast_eq send_fill_def issue_send_def deliveries_def recipients_def
      addressees_def comp_def)

lemma dispatch_fills_eq:
  "distinct (map fl_resting_order_id fills) \<Longrightarrow>
   fold (dispatch_fill fd) fills s = s\<lparr>sv_sent := sv_sent s @
       concat (map (\<lambda>f. deliveries fd (sv_order_owner_fd s (fl_resting_order_id f)) (sv_connections s) f) fills),
     sv_order_owner_fd := forget_filled (sv_book s) fills (sv_order_owner_fd s)\<rparr>"
proof (induction fills arbitrary: s)
  case (Cons f fills)
  have "sv_order_owner_fd (dispatch_fill fd f s) (fl_resting_order_id g) = sv_order_owner_fd s (fl_resting_order_id g)"
    if "g \<in> set fills" for g
    using imageI [OF that, of fl_resting_order_id] Cons.prems by (auto simp: dispatch_fill_eq)
  then have same: "map (\<lambda>g. deliveries fd (sv_order_owner_fd (dispatch_fill fd f s) (fl_resting_order_id g)) (sv_connections s) g) fills =
      map (\<lambda>g. deliveries fd (sv_order_owner_fd s (fl_resting_order_id g)) (sv_connections s) g) fills" by simp
  have kept: "sv_connections (dispatch_fill fd f s) = sv_connections s" "sv_book (dispatch_fill fd f s) = sv_book s"
    by (simp_all add: dispatch_fill_eq)
  have "fold (dispatch_fill fd) (f # fills) s = fold (dispatch_fill fd) fills (dispatch_fill fd f s)" by simp
  also have "\<dots> = (dispatch_fill fd f s)\<lparr>sv_sent := sv_sent (dispatch_fill fd f s) @
       concat (map (\<lambda>g. deliveries fd (sv_order_owner_fd s (fl_resting_order_id g)) (sv_connections s) g) fills),
     sv_order_owner_fd := forget_filled (sv_book s) fills (sv_order_owner_fd (dispatch_fill fd f s))\<rparr>"
    using Cons.IH [of "dispatch_fill fd f s"] Cons.prems by (simp add: kept same)
  finally have e: "fold (dispatch_fill fd) (f # fills) s = \<dots>" .
  show ?case unfolding e by (simp add: dispatch_fill_eq [of fd f] forget_filled_def)
qed (simp add: forget_filled_def)

lemma dispatch_new_order_dup:
  "book_contains (sv_book s) (wo_client_order_id m) \<Longrightarrow>
   dispatch_new_order fd m s = issue_send fd (ack_msg (wo_client_order_id m) 1 1) s"
  by (simp add: dispatch_new_order_def send_ack_def)

definition owners_after :: "nat \<Rightarrow> 64 word \<Rightarrow> Fill list \<Rightarrow> OrderBook \<Rightarrow> (64 word \<Rightarrow> nat option) \<Rightarrow> (64 word \<Rightarrow> nat option)" where
  "owners_after fd k fills b owner = forget_filled b fills (if book_contains b k then owner(k \<mapsto> fd) else owner)"

lemma dispatch_new_order_eq:
  assumes b: "book_inv (sv_book s)" and new: "\<not> book_contains (sv_book s) (wo_client_order_id m)"
    and sub: "book_submit (sv_book s) (order_of_msg m) = (fills, b')"
  shows "dispatch_new_order fd m s = s\<lparr>sv_book := b',
     sv_sent := sv_sent s @ (fd, ack_msg (wo_client_order_id m) 1 0) #
       concat (map (\<lambda>f. deliveries fd (sv_order_owner_fd s (fl_resting_order_id f)) (sv_connections s) f) fills),
     sv_order_owner_fd := owners_after fd (wo_client_order_id m) fills b' (sv_order_owner_fd s)\<rparr>"
proof -
  have id: "od_id (order_of_msg m) = wo_client_order_id m" by (simp add: order_of_msg_def)
  note e = book_submit_entries [OF b, of "order_of_msg m", unfolded id, OF new sub]
  have fresh: "fl_resting_order_id f \<noteq> wo_client_order_id m" if "f \<in> set fills" for f
  proof -
    have "entry_of_fill f \<in> book_entries (sv_book s)" using e(3) that by blast
    with new show ?thesis by (auto simp: entry_of_fill_def book_entries_def book_contains_def)
  qed
  define s2 where "s2 = s\<lparr>sv_book := b', sv_sent := sv_sent s @ [(fd, ack_msg (wo_client_order_id m) 1 0)],
      sv_order_owner_fd := (if book_contains b' (wo_client_order_id m)
        then (sv_order_owner_fd s)(wo_client_order_id m \<mapsto> fd) else sv_order_owner_fd s)\<rparr>"
  have "dispatch_new_order fd m s = fold (dispatch_fill fd) fills s2"
    using new sub by (simp add: dispatch_new_order_def send_ack_def issue_send_def s2_def Let_def)
  also have "\<dots> = s2\<lparr>sv_sent := sv_sent s2 @
       concat (map (\<lambda>f. deliveries fd (sv_order_owner_fd s2 (fl_resting_order_id f)) (sv_connections s2) f) fills),
     sv_order_owner_fd := forget_filled (sv_book s2) fills (sv_order_owner_fd s2)\<rparr>"
    by (rule dispatch_fills_eq [OF e(4)])
  also have "map (\<lambda>f. deliveries fd (sv_order_owner_fd s2 (fl_resting_order_id f)) (sv_connections s2) f) fills =
      map (\<lambda>f. deliveries fd (sv_order_owner_fd s (fl_resting_order_id f)) (sv_connections s) f) fills"
    using fresh by (auto simp: s2_def)
  finally show ?thesis by (simp add: s2_def owners_after_def)
qed

lemma dispatch_cancel_eq:
  assumes "book_cancel (sv_book s) k = (ok, b')"
  shows "dispatch_cancel fd k s = s\<lparr>sv_book := b',
     sv_sent := sv_sent s @ [(fd, ack_msg k 2 (if ok then 0 else 1))],
     sv_order_owner_fd := (if ok then (sv_order_owner_fd s)(k := None) else sv_order_owner_fd s)\<rparr>"
  using assms by (simp add: dispatch_cancel_def send_ack_def issue_send_def Let_def)

section \<open>The invariant of the server\<close>

definition server_msg :: "bytes \<Rightarrow> bool" where
  "server_msg msg \<longleftrightarrow> (\<exists>k ty st. msg = ack_msg k ty st) \<or> (\<exists>f. msg = fill_msg f \<and> int64_ok (fl_price_ticks f))"

definition desk_inv :: "Server \<Rightarrow> bool" where
  "desk_inv s \<longleftrightarrow> book_inv (sv_book s) \<and> dom (sv_order_owner_fd s) = {k. book_contains (sv_book s) k} \<and>
     (\<forall>(k, p, sd)\<in>book_entries (sv_book s). int64_ok p) \<and> (\<forall>(fd, msg)\<in>set (sv_sent s). server_msg msg)"

lemma desk_inv_connections [simp]: "desk_inv (s\<lparr>sv_connections := cs\<rparr>) = desk_inv s"
  by (simp add: desk_inv_def)

lemma desk_inv_connection_ops [simp]:
  "desk_inv (update_connection fd g s) = desk_inv s" "desk_inv (remove_connection fd s) = desk_inv s"
  "desk_inv (set_read_buf fd buf s) = desk_inv s" "desk_inv (subscribe fd s) = desk_inv s"
  "desk_inv (accept_new_connections fds s) = desk_inv s"
  by (simp_all add: update_connection_def remove_connection_def set_read_buf_def subscribe_def accept_new_connections_def)

lemma desk_inv_new_order:
  assumes s: "desk_inv s" and m: "int64_ok (wo_price_ticks m)"
  shows "desk_inv (dispatch_new_order fd m s)"
proof (cases "book_contains (sv_book s) (wo_client_order_id m)")
  case True
  with s show ?thesis by (auto simp: dispatch_new_order_dup desk_inv_def issue_send_def server_msg_def)
next
  case new: False
  obtain fills b' where sub: "book_submit (sv_book s) (order_of_msg m) = (fills, b')"
    by (cases "book_submit (sv_book s) (order_of_msg m)")
  have b: "book_inv (sv_book s)" using s by (simp add: desk_inv_def)
  have id: "od_id (order_of_msg m) = wo_client_order_id m" "od_price_ticks (order_of_msg m) = wo_price_ticks m"
    by (simp_all add: order_of_msg_def)
  have new': "od_id (order_of_msg m) \<notin> fst ` book_entries (sv_book s)" using new by (simp add: id book_entries_ids)
  have d: "dom (sv_order_owner_fd s) = fst ` book_entries (sv_book s)" using s by (simp add: desk_inv_def book_entries_ids)
  have o: "dom (owners_after fd (wo_client_order_id m) fills b' (sv_order_owner_fd s)) = {k. book_contains b' k}"
    using level_book.owners_submit [OF b new' sub d, of fd]
    unfolding owners_after_def forget_filled_def book_entries_ids mem_Collect_eq id .
  have pr: "int64_ok p" if "(k, p, sd) \<in> book_entries (sv_book s)" for k p sd
    using s that by (auto simp: desk_inv_def)
  note p = level_book.prices_submit [OF b new' sub, of int64_ok, unfolded id, OF pr m]
  have "server_msg msg" if "(c, msg) \<in> set (deliveries fd owner cs f)" "f \<in> set fills" for c msg owner cs f
    using that p(2) by (auto simp: deliveries_def server_msg_def)
  moreover have "server_msg (ack_msg k ty st)" for k ty st by (auto simp: server_msg_def)
  moreover have "book_inv b'" using submit_refines [OF b sub] by blast
  ultimately show ?thesis using s o p(1) by (auto simp: dispatch_new_order_eq [OF b new sub] desk_inv_def)
qed

lemma desk_inv_cancel:
  assumes s: "desk_inv s"
  shows "desk_inv (dispatch_cancel fd k s)"
proof -
  obtain ok b' where c: "book_cancel (sv_book s) k = (ok, b')" by (cases "book_cancel (sv_book s) k")
  have b: "book_inv (sv_book s)" using s by (simp add: desk_inv_def)
  have d: "dom (sv_order_owner_fd s) = fst ` book_entries (sv_book s)" using s by (simp add: desk_inv_def book_entries_ids)
  have "dom (if ok then (sv_order_owner_fd s)(k := None) else sv_order_owner_fd s) = {k. book_contains b' k}"
    using level_book.owners_cancel [OF b c d] by (simp add: book_entries_ids)
  moreover have "book_inv b'" using cancel_refines [OF b c] by blast
  moreover have "book_entries b' \<subseteq> book_entries (sv_book s)" using book_cancel_entries [OF b c] by blast
  moreover have "server_msg (ack_msg k ty st)" for ty st by (auto simp: server_msg_def)
  ultimately show ?thesis using s unfolding dispatch_cancel_eq [OF c] desk_inv_def by auto
qed

lemma decoded_price_ok [simp]: "int64_ok (wo_price_ticks (engine_decode_order body))"
  by (simp add: engine_decode_order_def split: prod.splits)

lemma desk_inv_process: "desk_inv s \<Longrightarrow> desk_inv (process_buffer fd buf s)"
  by (induction fd buf s rule: process_buffer.induct)
    (auto simp: desk_inv_new_order desk_inv_cancel split: option.splits)

subsection \<open>Connections\<close>

definition starved :: "bytes \<Rightarrow> bool" where
  "starved buf \<longleftrightarrow> (case buf of [] \<Rightarrow> True
     | tag # body \<Rightarrow> (case engine_payload_size tag of None \<Rightarrow> False | Some n \<Rightarrow> length body < n))"

definition waiting :: "nat \<Rightarrow> bytes \<Rightarrow> Connection list \<Rightarrow> Connection list \<Rightarrow> bool" where
  "waiting fd left cs cs' \<longleftrightarrow> starved left \<and>
     (\<exists>sub. cs' = map (\<lambda>c. if cn_fd c = fd then c\<lparr>cn_read_buf := left, cn_subscribed_to_fills := cn_subscribed_to_fills c \<or> sub\<rparr> else c) cs)"

lemma dispatch_connections [simp]:
  "sv_connections (dispatch_new_order fd m s) = sv_connections s" "sv_connections (dispatch_cancel fd k s) = sv_connections s"
proof -
  have "sv_connections (fold (dispatch_fill fd) fills t) = sv_connections t" for fills t
    by (induction fills arbitrary: t) (simp_all add: dispatch_fill_eq)
  then show "sv_connections (dispatch_new_order fd m s) = sv_connections s"
    by (simp add: dispatch_new_order_def send_ack_def issue_send_def Let_def split: prod.splits)
  show "sv_connections (dispatch_cancel fd k s) = sv_connections s"
    by (simp add: dispatch_cancel_def send_ack_def issue_send_def Let_def split: prod.splits)
qed

lemma waiting_set_read_buf: "starved left \<Longrightarrow> waiting fd left (sv_connections s) (sv_connections (set_read_buf fd left s))"
  unfolding waiting_def set_read_buf_def update_connection_def by (intro conjI exI [of _ False]) auto

lemma waiting_subscribe:
  assumes "waiting fd left (sv_connections (subscribe fd s)) cs'"
  shows "waiting fd left (sv_connections s) cs'"
proof -
  from assms obtain sub where "starved left" "cs' = map (\<lambda>c. if cn_fd c = fd
      then c\<lparr>cn_read_buf := left, cn_subscribed_to_fills := cn_subscribed_to_fills c \<or> sub\<rparr> else c) (sv_connections (subscribe fd s))"
    by (auto simp: waiting_def)
  then show ?thesis unfolding waiting_def by (intro conjI exI [of _ True]) (auto simp: subscribe_def update_connection_def)
qed

lemma process_buffer_connections:
  "sv_connections (process_buffer fd buf s) = filter (\<lambda>c. cn_fd c \<noteq> fd) (sv_connections s) \<or>
   (\<exists>left. waiting fd left (sv_connections s) (sv_connections (process_buffer fd buf s)))"
proof (induction fd buf s rule: process_buffer.induct)
  case (1 fd s)
  have "starved []" by (simp add: starved_def)
  from waiting_set_read_buf [OF this] show ?case by auto
next
  case (2 fd tag body s)
  show ?case
  proof (cases "engine_payload_size tag")
    case None
    then show ?thesis by (simp add: remove_connection_def)
  next
    case (Some payload)
    show ?thesis
    proof (cases "length (tag # body) < 1 + payload")
      case True
      with Some have "starved (tag # body)" by (simp add: starved_def)
      from waiting_set_read_buf [OF this] True Some show ?thesis by auto
    next
      case False
      have f: "sv_connections (subscribe fd s) = map (\<lambda>c. if cn_fd c = fd then c\<lparr>cn_subscribed_to_fills := True\<rparr> else c) (sv_connections s)"
        by (simp add: subscribe_def update_connection_def)
      have f': "filter (\<lambda>c. cn_fd c \<noteq> fd) (sv_connections (subscribe fd s)) = filter (\<lambda>c. cn_fd c \<noteq> fd) (sv_connections s)"
        unfolding f by (simp add: filter_map comp_def cong: if_cong) (rule map_idI, simp)
      consider "tag = 1" | "tag = 2" | "tag = 3" | "tag \<noteq> 1" "tag \<noteq> 2" "tag \<noteq> 3" by blast
      then show ?thesis
      proof cases
        case 1
        with "2.IH"(1) [OF Some False] False Some show ?thesis by simp
      next
        case 2
        with "2.IH"(2) [OF Some False] False Some show ?thesis by simp
      next
        case 3
        have "process_buffer fd (tag # body) s = process_buffer fd (drop payload body) (subscribe fd s)"
          using 3 Some False by simp
        with "2.IH"(3) [OF Some False _ _ 3] 3 f' waiting_subscribe show ?thesis by fastforce
      next
        case 4
        with False Some show ?thesis by (simp add: remove_connection_def)
      qed
    qed
  qed
qed

definition server_inv :: "Server \<Rightarrow> bool" where
  "server_inv s \<longleftrightarrow> desk_inv s \<and> distinct (open_fds s) \<and> (\<forall>c\<in>set (sv_connections s). starved (cn_read_buf c))"

lemma find_connection_Some:
  "find_connection fd s = Some c \<Longrightarrow> cn_fd c = fd \<and> c \<in> set (sv_connections s)"
  by (auto simp: find_connection_def find_Some_iff)

lemma handle_readable_cases:
  assumes "cn_fd c = fd"
  shows "sv_connections (handle_readable c r s) = filter (\<lambda>c. cn_fd c \<noteq> fd) (sv_connections s) \<or>
    (\<exists>left. waiting fd left (sv_connections s) (sv_connections (handle_readable c r s)))"
  using assms process_buffer_connections [of fd] by (cases r) (simp_all add: remove_connection_def)

lemma handle_readable_desk: "desk_inv s \<Longrightarrow> desk_inv (handle_readable c r s)"
  by (cases r) (simp_all add: desk_inv_process)

lemma connections_inv:
  assumes "cs' = filter (\<lambda>c. cn_fd c \<noteq> fd) cs \<or> (\<exists>left. waiting fd left cs cs')"
    "distinct (map cn_fd cs)" "\<forall>c\<in>set cs. starved (cn_read_buf c)"
  shows "distinct (map cn_fd cs') \<and> (\<forall>c\<in>set cs'. starved (cn_read_buf c)) \<and> set (map cn_fd cs') \<subseteq> set (map cn_fd cs)"
  using assms(1)
proof
  assume "cs' = filter (\<lambda>c. cn_fd c \<noteq> fd) cs"
  with assms(2,3) show ?thesis by (auto simp: distinct_map_filter)
next
  assume "\<exists>left. waiting fd left cs cs'"
  then obtain left sub where w: "starved left" "cs' = map (\<lambda>c. if cn_fd c = fd
      then c\<lparr>cn_read_buf := left, cn_subscribed_to_fills := cn_subscribed_to_fills c \<or> sub\<rparr> else c) cs"
    by (auto simp: waiting_def)
  have "map cn_fd cs' = map cn_fd cs" unfolding w(2) by simp
  moreover have "\<forall>c\<in>set cs'. starved (cn_read_buf c)" unfolding w(2) using w(1) assms(3) by auto
  ultimately show ?thesis using assms(2) by simp
qed

lemma service_inv: "server_inv s \<Longrightarrow> server_inv (service r s)"
proof (cases "find_connection (fst r) s")
  case (Some c)
  assume s: "server_inv s"
  note c = find_connection_Some [OF Some]
  from s show ?thesis
    using connections_inv [OF handle_readable_cases, OF conjunct1 [OF c], of s "snd r"] handle_readable_desk [of s c "snd r"]
    by (simp add: service_def Some server_inv_def open_fds_def)
qed (simp add: service_def)

lemma serving_inv: "serving s \<Longrightarrow> server_inv s"
proof (induction rule: serving.induct)
  case listening
  show ?case by (simp add: server_inv_def desk_inv_def server_init_def open_fds_def book_entries_def book_contains_def)
      (simp add: book_init_def)
next
  case (pass s accepted ready)
  have "distinct (open_fds (accept_new_connections accepted s))"
    using pass.IH pass.hyps(2,3) by (auto simp: server_inv_def open_fds_def accept_new_connections_def comp_def)
  moreover have "\<forall>c\<in>set (sv_connections (accept_new_connections accepted s)). starved (cn_read_buf c)"
    using pass.IH by (auto simp: server_inv_def accept_new_connections_def starved_def)
  ultimately have "server_inv (accept_new_connections accepted s)" using pass.IH by (simp add: server_inv_def)
  then have "server_inv (fold service rs (accept_new_connections accepted s))" for rs
    by (induction rs rule: rev_induct) (simp_all add: service_inv)
  then show ?case by (simp add: poll_pass_def)
qed

section \<open>The requests in a stream\<close>

datatype Request = New_Order_Request Wire_Order | Cancel_Request "64 word" | Subscribe_Request

fun handle_request :: "nat \<Rightarrow> Request \<Rightarrow> Server \<Rightarrow> Server" where
  "handle_request fd (New_Order_Request m) s = dispatch_new_order fd m s"
| "handle_request fd (Cancel_Request k) s = dispatch_cancel fd k s"
| "handle_request fd Subscribe_Request s = subscribe fd s"

text \<open>The messages of a stream: those before a tag that is not a request, and the incomplete rest
  when there is no such tag.\<close>

function parse_requests :: "bytes \<Rightarrow> Request list \<times> bytes option" where
  "parse_requests [] = ([], Some [])"
| "parse_requests (tag # body) =
     (case engine_payload_size tag of
        None \<Rightarrow> ([], None)
      | Some n \<Rightarrow>
          if length body < n then ([], Some (tag # body))
          else if tag = 1 \<or> tag = 2 \<or> tag = 3 then
            (case parse_requests (drop n body) of (rs, rest) \<Rightarrow>
               ((if tag = 1 then New_Order_Request (engine_decode_order (take n body))
                 else if tag = 2 then Cancel_Request (engine_decode_cancel (take n body)) else Subscribe_Request) # rs, rest))
          else ([], None))"
  by pat_completeness auto
termination
  by (relation "measure length") auto

fun answer_stream :: "nat \<Rightarrow> Request list \<times> bytes option \<Rightarrow> Server \<Rightarrow> Server" where
  "answer_stream fd (rs, Some left) s = set_read_buf fd left (fold (handle_request fd) rs s)"
| "answer_stream fd (rs, None) s = remove_connection fd (fold (handle_request fd) rs s)"

text \<open>The decoders read no further than their payload.\<close>

lemma engine_decode_order_take: "engine_decode_order (take 22 body) = engine_decode_order body" if "22 \<le> length body"
proof -
  have "get_u64 (take 22 body) = (fst (get_u64 body), take 14 (drop 8 body))"
    "get_u8 (take 14 (drop 8 body)) = (fst (get_u8 (drop 8 body)), take 13 (drop 9 body))"
    "get_u8 (take 13 (drop 9 body)) = (fst (get_u8 (drop 9 body)), take 12 (drop 10 body))"
    "get_u64 (take 12 (drop 10 body)) = (fst (get_u64 (drop 10 body)), take 4 (drop 18 body))"
    "get_u32 (take 4 (drop 18 body)) = (fst (get_u32 (drop 18 body)), take 0 (drop 22 body))"
    using that by (simp_all add: get_u64_def get_u8_def get_u32_def min_def drop_take hd_take tl_take tl_drop drop_Suc [symmetric] take_take)
  moreover have "snd (get_u64 body) = drop 8 body" "snd (get_u8 (drop 8 body)) = drop 9 body"
    "snd (get_u8 (drop 9 body)) = drop 10 body" "snd (get_u64 (drop 10 body)) = drop 18 body"
    by (simp_all add: get_u64_def get_u8_def tl_drop drop_Suc [symmetric])
  ultimately show ?thesis by (simp add: engine_decode_order_def Let_def split_def)
qed

lemma engine_decode_cancel_take: "engine_decode_cancel (take 8 body) = engine_decode_cancel body"
  by (simp add: engine_decode_cancel_def get_u64_def)

lemma process_buffer_parse: "process_buffer fd buf s = answer_stream fd (parse_requests buf) s"
proof (induction fd buf s rule: process_buffer.induct)
  case (2 fd tag body s)
  show ?case
  proof (cases "engine_payload_size tag")
    case (Some payload)
    show ?thesis
    proof (cases "length body < payload")
      case False
      obtain rs rest where p: "parse_requests (drop payload body) = (rs, rest)" by (cases "parse_requests (drop payload body)")
      have step: "answer_stream fd (r # rs, rest) s = answer_stream fd (rs, rest) (handle_request fd r s)" for r
        by (cases rest) simp_all
      have not: "\<not> length (tag # body) < 1 + payload" using False by simp
      consider "tag = 1" | "tag = 2" | "tag = 3" | "tag \<noteq> 1" "tag \<noteq> 2" "tag \<noteq> 3" by blast
      then show ?thesis
      proof cases
        case 1
        with Some have "payload = 22" by (simp add: engine_payload_size_def)
        with "2.IH"(1) [OF Some not] 1 False Some p show ?thesis
          by (simp add: step engine_decode_order_take)
      next
        case 2
        with Some have "payload = 8" by (simp add: engine_payload_size_def)
        with "2.IH"(2) [OF Some not] 2 False Some p show ?thesis
          by (simp add: step engine_decode_cancel_take)
      next
        case 3
        with "2.IH"(3) [OF Some not] False Some p show ?thesis by (simp add: step)
      next
        case 4
        with False Some show ?thesis by simp
      qed
    qed (simp add: Some)
  qed simp
qed simp

subsection \<open>The server sees a stream\<close>

lemma parse_requests_append:
  "parse_requests (buf @ buf2) =
     (case parse_requests buf of
        (rs, None) \<Rightarrow> (rs, None)
      | (rs, Some left) \<Rightarrow> (case parse_requests (left @ buf2) of (rs', rest) \<Rightarrow> (rs @ rs', rest)))"
proof (induction buf rule: parse_requests.induct)
  case (2 tag body)
  show ?case
  proof (cases "engine_payload_size tag")
    case (Some n)
    show ?thesis
    proof (cases "length body < n")
      case False
      with "2.IH" [OF Some False] Some show ?thesis by (auto split: prod.splits option.splits)
    qed (simp add: Some)
  qed simp
qed simp

text \<open>Requests do not depend on the read buffers.\<close>

lemma dispatch_other_buffers:
  assumes g: "\<And>c. cn_fd (g c) = cn_fd c \<and> cn_subscribed_to_fills (g c) = cn_subscribed_to_fills c"
  shows "dispatch_new_order fd m (s\<lparr>sv_connections := map g cs\<rparr>) = (dispatch_new_order fd m (s\<lparr>sv_connections := cs\<rparr>))\<lparr>sv_connections := map g cs\<rparr>"
    "dispatch_cancel fd k (s\<lparr>sv_connections := cs'\<rparr>) = (dispatch_cancel fd k s)\<lparr>sv_connections := cs'\<rparr>"
proof -
  have d: "deliveries fd owner (map g cs) f = deliveries fd owner cs f" for owner f
    by (simp add: deliveries_def recipients_def filter_map comp_def g)
  have f: "fold (dispatch_fill fd) fills t1 = (fold (dispatch_fill fd) fills t2)\<lparr>sv_connections := map g cs\<rparr>"
    if "t1 = t2\<lparr>sv_connections := map g cs\<rparr>" "sv_connections t2 = cs" for fills t1 t2
    using that
  proof (induction fills arbitrary: t1 t2)
    case (Cons f fills)
    have "dispatch_fill fd f t1 = (dispatch_fill fd f t2)\<lparr>sv_connections := map g cs\<rparr>"
      using Cons.prems by (simp add: dispatch_fill_eq d)
    moreover have "sv_connections (dispatch_fill fd f t2) = cs" using Cons.prems by (simp add: dispatch_fill_eq)
    ultimately show ?case using Cons.IH by simp
  qed simp
  obtain fills b where sub: "book_submit (sv_book s) (order_of_msg m) = (fills, b)"
    by (cases "book_submit (sv_book s) (order_of_msg m)")
  show "dispatch_new_order fd m (s\<lparr>sv_connections := map g cs\<rparr>) = (dispatch_new_order fd m (s\<lparr>sv_connections := cs\<rparr>))\<lparr>sv_connections := map g cs\<rparr>"
    using sub by (auto simp: dispatch_new_order_def send_ack_def issue_send_def Let_def intro!: f)
  show "dispatch_cancel fd k (s\<lparr>sv_connections := cs'\<rparr>) = (dispatch_cancel fd k s)\<lparr>sv_connections := cs'\<rparr>"
    by (simp add: dispatch_cancel_def send_ack_def issue_send_def Let_def split: prod.splits)
qed

lemma handle_request_set_read_buf:
  "handle_request fd r (set_read_buf fd x s) = set_read_buf fd x (handle_request fd r s)"
proof (cases r)
  case (New_Order_Request m)
  have "cn_fd (if cn_fd c = fd then c\<lparr>cn_read_buf := x\<rparr> else c) = cn_fd c \<and>
      cn_subscribed_to_fills (if cn_fd c = fd then c\<lparr>cn_read_buf := x\<rparr> else c) = cn_subscribed_to_fills c" for c by simp
  from dispatch_other_buffers(1) [OF this, where s = s and cs = "sv_connections s"] New_Order_Request show ?thesis
    by (simp add: set_read_buf_def update_connection_def)
next
  case (Cancel_Request k)
  then show ?thesis
    using dispatch_other_buffers(2) [of "\<lambda>c. c"] by (simp add: set_read_buf_def update_connection_def)
next
  case Subscribe_Request
  then show ?thesis by (auto simp: set_read_buf_def update_connection_def subscribe_def)
qed

lemma fold_requests_set_read_buf:
  "fold (handle_request fd) rs (set_read_buf fd x s) = set_read_buf fd x (fold (handle_request fd) rs s)"
  by (induction rs arbitrary: s) (simp_all add: handle_request_set_read_buf)

lemma set_read_buf_twice [simp]:
  "set_read_buf fd y (set_read_buf fd x s) = set_read_buf fd y s" "remove_connection fd (set_read_buf fd x s) = remove_connection fd s"
proof -
  show "set_read_buf fd y (set_read_buf fd x s) = set_read_buf fd y s" by (simp add: set_read_buf_def update_connection_def)
  have "filter (\<lambda>c. cn_fd c \<noteq> fd) (map (\<lambda>c. if cn_fd c = fd then c\<lparr>cn_read_buf := x\<rparr> else c) cs) = filter (\<lambda>c. cn_fd c \<noteq> fd) cs" for cs :: "Connection list"
    by (induction cs) simp_all
  then show "remove_connection fd (set_read_buf fd x s) = remove_connection fd s"
    by (simp add: set_read_buf_def update_connection_def remove_connection_def)
qed

lemma answer_stream_set_read_buf: "answer_stream fd p (set_read_buf fd x s) = answer_stream fd p s"
  by (cases "(fd, p, s)" rule: answer_stream.cases) (simp_all add: fold_requests_set_read_buf)

lemma handle_request_fds: "open_fds (handle_request fd r s) = open_fds s"
  by (cases r) (simp_all add: open_fds_def subscribe_def update_connection_def comp_def if_distrib cong: if_cong)

lemma fold_requests_fds: "open_fds (fold (handle_request fd) rs s) = open_fds s"
  by (induction rs arbitrary: s) (simp_all add: handle_request_fds)

lemma find_connection_None: "find_connection fd s = None \<longleftrightarrow> fd \<notin> set (open_fds s)"
  by (auto simp: find_connection_def find_None_iff open_fds_def)

lemma service_bytes:
  "find_connection fd s = Some c \<Longrightarrow> service (fd, Recv_Bytes b) s = answer_stream fd (parse_requests (cn_read_buf c @ b)) s"
  using find_connection_Some [of fd s c] by (simp add: service_def process_buffer_parse)

lemma find_set_read_buf: "fd \<in> set (open_fds s) \<Longrightarrow> \<exists>c. find_connection fd (set_read_buf fd x s) = Some c \<and> cn_read_buf c = x"
proof -
  assume "fd \<in> set (open_fds s)"
  moreover have "open_fds (set_read_buf fd x s) = open_fds s"
    by (simp add: open_fds_def set_read_buf_def update_connection_def)
  ultimately have "fd \<in> set (open_fds (set_read_buf fd x s))" by simp
  then obtain c where c: "find_connection fd (set_read_buf fd x s) = Some c" using find_connection_None by blast
  have "c \<in> (\<lambda>c. c\<lparr>cn_read_buf := x\<rparr>) ` (set (sv_connections s) \<inter> {c. cn_fd c = fd})"
    using find_connection_Some [OF c] by (simp add: set_read_buf_def update_connection_def) blast
  then have "cn_read_buf c = x" by auto
  with c show ?thesis by blast
qed

lemma service_closed: "fd \<notin> set (open_fds s) \<Longrightarrow> fold service (map (\<lambda>b. (fd, Recv_Bytes b)) chunks) s = s"
  by (induction chunks) (simp_all add: service_def find_connection_None [THEN iffD2])

lemma service_chunks:
  "chunks \<noteq> [] \<Longrightarrow> find_connection fd s = Some c \<Longrightarrow>
   fold service (map (\<lambda>b. (fd, Recv_Bytes b)) chunks) s = answer_stream fd (parse_requests (cn_read_buf c @ concat chunks)) s"
proof (induction chunks arbitrary: s c rule: list_nonempty_induct)
  case (single b)
  then show ?case by (simp add: service_bytes)
next
  case (cons b chunks)
  obtain rs rest where p: "parse_requests (cn_read_buf c @ b) = (rs, rest)" by (cases "parse_requests (cn_read_buf c @ b)")
  have fd: "fd \<in> set (open_fds (fold (handle_request fd) rs s))"
    using cons.prems find_connection_None [of fd s] by (simp add: fold_requests_fds)
  note pa = parse_requests_append [of "cn_read_buf c @ b" "concat chunks", unfolded p]
  show ?case
  proof (cases rest)
    case None
    have "fd \<notin> set (open_fds (remove_connection fd t))" for t by (auto simp: open_fds_def remove_connection_def)
    with None p pa cons.prems show ?thesis by (simp add: service_bytes service_closed)
  next
    case (Some left)
    obtain rs' rest' where p': "parse_requests (left @ concat chunks) = (rs', rest')" by (cases "parse_requests (left @ concat chunks)")
    from find_set_read_buf [OF fd] obtain c' where
      c': "find_connection fd (set_read_buf fd left (fold (handle_request fd) rs s)) = Some c'" "cn_read_buf c' = left" by blast
    have "fold service (map (\<lambda>b. (fd, Recv_Bytes b)) (b # chunks)) s =
        fold service (map (\<lambda>b. (fd, Recv_Bytes b)) chunks) (set_read_buf fd left (fold (handle_request fd) rs s))"
      using p Some cons.prems by (simp add: service_bytes)
    also have "\<dots> = answer_stream fd (rs', rest') (fold (handle_request fd) rs s)"
      using cons.IH [OF c'(1)] c'(2) p' by (simp add: answer_stream_set_read_buf)
    also have "\<dots> = answer_stream fd (rs @ rs', rest') s" by (cases rest') simp_all
    finally show ?thesis using pa Some p' by simp
  qed
qed

subsection \<open>Acknowledgements\<close>

definition is_ack :: "nat \<times> bytes \<Rightarrow> bool" where
  "is_ack m \<longleftrightarrow> hd (snd m) = 0x11"

text \<open>The acknowledgements a sequence of requests should get, with their status.\<close>

fun answer_of :: "nat \<Rightarrow> Request \<Rightarrow> OrderBook \<Rightarrow> (nat \<times> bytes) list" where
  "answer_of fd (New_Order_Request m) b =
     [(fd, ack_msg (wo_client_order_id m) 1 (if book_contains b (wo_client_order_id m) then 1 else 0))]"
| "answer_of fd (Cancel_Request k) b = [(fd, ack_msg k 2 (if book_contains b k then 0 else 1))]"
| "answer_of fd Subscribe_Request b = []"

fun answers :: "nat \<Rightarrow> Request list \<Rightarrow> Server \<Rightarrow> (nat \<times> bytes) list" where
  "answers fd [] s = []"
| "answers fd (r # rs) s = answer_of fd r (sv_book s) @ answers fd rs (handle_request fd r s)"

fun request_ok :: "Request \<Rightarrow> bool" where
  "request_ok (New_Order_Request m) = int64_ok (wo_price_ticks m)"
| "request_ok _ = True"

lemma handle_request_desk: "desk_inv s \<Longrightarrow> request_ok r \<Longrightarrow> desk_inv (handle_request fd r s)"
  by (cases r) (simp_all add: desk_inv_new_order desk_inv_cancel)

lemma parse_requests_ok: "r \<in> set (fst (parse_requests buf)) \<Longrightarrow> request_ok r"
  by (induction buf rule: parse_requests.induct) (auto split: option.splits if_splits prod.splits)

lemma is_ack_simps [simp]: "is_ack (d, ack_msg k ty st)" "filter is_ack (deliveries fd owner cs f) = []"
  "filter is_ack (concat (map (\<lambda>f. deliveries fd (owners f) cs f) fills)) = []"
  by (auto simp: is_ack_def ack_msg_def deliveries_def fill_msg_def filter_empty_conv)

lemma handle_request_answer:
  assumes "desk_inv s"
  shows "\<exists>new. sv_sent (handle_request fd r s) = sv_sent s @ new \<and> filter is_ack new = answer_of fd r (sv_book s)"
proof (cases r)
  case (New_Order_Request m)
  have b: "book_inv (sv_book s)" using assms by (simp add: desk_inv_def)
  show ?thesis
  proof (cases "book_contains (sv_book s) (wo_client_order_id m)")
    case True
    with New_Order_Request show ?thesis by (simp add: dispatch_new_order_dup issue_send_def)
  next
    case False
    obtain fills b' where sub: "book_submit (sv_book s) (order_of_msg m) = (fills, b')"
      by (cases "book_submit (sv_book s) (order_of_msg m)")
    from New_Order_Request False show ?thesis by (simp add: dispatch_new_order_eq [OF b False sub])
  qed
next
  case (Cancel_Request k)
  obtain ok b' where c: "book_cancel (sv_book s) k = (ok, b')" by (cases "book_cancel (sv_book s) k")
  have "ok = book_contains (sv_book s) k" using assms book_cancel_entries [OF _ c] by (simp add: desk_inv_def)
  with Cancel_Request show ?thesis by (simp add: dispatch_cancel_eq [OF c])
qed (simp add: subscribe_def update_connection_def)

lemma requests_answers:
  "desk_inv s \<Longrightarrow> \<forall>r\<in>set rs. request_ok r \<Longrightarrow>
   \<exists>new. sv_sent (fold (handle_request fd) rs s) = sv_sent s @ new \<and> filter is_ack new = answers fd rs s"
proof (induction rs arbitrary: s)
  case (Cons r rs)
  obtain new where 1: "sv_sent (handle_request fd r s) = sv_sent s @ new" "filter is_ack new = answer_of fd r (sv_book s)"
    using handle_request_answer [OF Cons.prems(1)] by blast
  have "desk_inv (handle_request fd r s)" using handle_request_desk Cons.prems by simp
  from Cons.IH [OF this] Cons.prems(2) obtain new2 where
    "sv_sent (fold (handle_request fd) rs (handle_request fd r s)) = sv_sent (handle_request fd r s) @ new2"
    "filter is_ack new2 = answers fd rs (handle_request fd r s)" by auto
  with 1 show ?case by (intro exI [of _ "new @ new2"]) simp
qed simp

subsection \<open>Which connection sent an order\<close>

text \<open>
  The server names a connection by its descriptor, which the kernel uses again.  To speak of
  connections, \<open>identified s ids sender n\<close> follows a run through its single requests and numbers
  the connections as they are accepted: \<open>ids\<close> gives the number of the connection that has, or
  had last, a descriptor, \<open>sender\<close> that of the connection that sent the order with an id.
\<close>

fun submitted_by :: "nat \<Rightarrow> Request \<Rightarrow> Server \<Rightarrow> (64 word \<Rightarrow> nat) \<Rightarrow> (64 word \<Rightarrow> nat)" where
  "submitted_by c (New_Order_Request m) s sender =
     (if book_contains (sv_book s) (wo_client_order_id m) then sender else sender(wo_client_order_id m := c))"
| "submitted_by c _ s sender = sender"

inductive identified :: "Server \<Rightarrow> (nat \<Rightarrow> nat) \<Rightarrow> (64 word \<Rightarrow> nat) \<Rightarrow> nat \<Rightarrow> bool" where
  id_start: "identified server_init ids sender n"
| id_accept: "identified s ids sender n \<Longrightarrow> fd \<notin> set (open_fds s) \<Longrightarrow>
    identified (accept_new_connections [fd] s) (ids(fd := n)) sender (n + 1)"
| id_request: "identified s ids sender n \<Longrightarrow> fd \<in> set (open_fds s) \<Longrightarrow> request_ok r \<Longrightarrow>
    identified (handle_request fd r s) ids (submitted_by (ids fd) r s sender) n"
| id_buffer: "identified s ids sender n \<Longrightarrow> identified (set_read_buf fd buf s) ids sender n"
| id_remove: "identified s ids sender n \<Longrightarrow> identified (remove_connection fd s) ids sender n"

definition owners_inv :: "Server \<Rightarrow> (nat \<Rightarrow> nat) \<Rightarrow> (64 word \<Rightarrow> nat) \<Rightarrow> nat \<Rightarrow> bool" where
  "owners_inv s ids sender n \<longleftrightarrow> inj_on ids (set (open_fds s)) \<and> (\<forall>fd\<in>set (open_fds s). ids fd < n) \<and>
     (\<forall>k a. sv_order_owner_fd s k = Some a \<longrightarrow>
        sender k < n \<and> (\<forall>fd\<in>set (open_fds s). ids fd = sender k \<longrightarrow> fd = a))"

lemma forget_filled_Some: "forget_filled b fills owner k = Some a \<Longrightarrow> owner k = Some a"
proof (induction fills arbitrary: owner)
  case (Cons f fills)
  show ?case
  proof (cases "book_contains b (fl_resting_order_id f)")
    case True
    with Cons.prems have "forget_filled b fills owner k = Some a" by (simp add: forget_filled_def)
    then show ?thesis by (rule Cons.IH)
  next
    case False
    with Cons.prems have "forget_filled b fills (owner(fl_resting_order_id f := None)) k = Some a"
      by (simp add: forget_filled_def)
    from Cons.IH [OF this] show ?thesis by (simp split: if_splits)
  qed
qed (simp add: forget_filled_def)

lemma new_order_owner:
  assumes "desk_inv s" "sv_order_owner_fd (dispatch_new_order fd m s) k = Some a"
  shows "sv_order_owner_fd s k = Some a \<and>
      (k = wo_client_order_id m \<longrightarrow> book_contains (sv_book s) (wo_client_order_id m)) \<or>
    k = wo_client_order_id m \<and> \<not> book_contains (sv_book s) (wo_client_order_id m) \<and> a = fd"
proof (cases "book_contains (sv_book s) (wo_client_order_id m)")
  case True
  with assms(2) show ?thesis by (simp add: dispatch_new_order_dup issue_send_def)
next
  case new: False
  obtain fills b' where sub: "book_submit (sv_book s) (order_of_msg m) = (fills, b')"
    by (cases "book_submit (sv_book s) (order_of_msg m)")
  have b: "book_inv (sv_book s)" using assms(1) by (simp add: desk_inv_def)
  have "sv_order_owner_fd s (wo_client_order_id m) = None"
    using assms(1) new by (auto simp: desk_inv_def)
  with assms(2) new show ?thesis
    by (auto simp: dispatch_new_order_eq [OF b new sub] owners_after_def dest!: forget_filled_Some split: if_splits)
qed

lemma handle_request_owner:
  assumes "desk_inv s" "sv_order_owner_fd (handle_request fd r s) k = Some a"
  shows "sv_order_owner_fd s k = Some a \<and> submitted_by c r s sender k = sender k \<or> a = fd \<and> submitted_by c r s sender k = c"
proof (cases r)
  case (New_Order_Request m)
  from new_order_owner [OF assms(1), of fd m k a] assms(2) New_Order_Request show ?thesis by auto
next
  case (Cancel_Request j)
  obtain ok b' where c: "book_cancel (sv_book s) j = (ok, b')" by (cases "book_cancel (sv_book s) j")
  from assms(2) Cancel_Request show ?thesis by (auto simp: dispatch_cancel_eq [OF c] split: if_splits)
next
  case Subscribe_Request
  with assms(2) show ?thesis by (simp add: subscribe_def update_connection_def)
qed

lemma identified_inv: "identified s ids sender n \<Longrightarrow> desk_inv s \<and> distinct (open_fds s) \<and> owners_inv s ids sender n"
proof (induction rule: identified.induct)
  case (id_start ids sender n)
  have "desk_inv server_init \<and> distinct (open_fds server_init)"
    using serving_inv [OF serving.listening] by (simp add: server_inv_def)
  then show ?case by (simp add: owners_inv_def) (simp add: server_init_def open_fds_def)
next
  case (id_accept s ids sender n fd)
  have "open_fds (accept_new_connections [fd] s) = open_fds s @ [fd]"
    "sv_order_owner_fd (accept_new_connections [fd] s) = sv_order_owner_fd s"
    by (simp_all add: open_fds_def accept_new_connections_def)
  with id_accept show ?case by (fastforce simp: owners_inv_def inj_on_def)
next
  case (id_request s ids sender n fd r)
  have "sender' k < n \<and> (\<forall>d\<in>set (open_fds s). ids d = sender' k \<longrightarrow> d = a)"
    if "sv_order_owner_fd (handle_request fd r s) k = Some a" "sender' = submitted_by (ids fd) r s sender" for k a sender'
    using handle_request_owner [OF _ that(1), of "ids fd" sender] id_request that(2)
    by (auto simp: owners_inv_def dest: inj_onD)
  with id_request show ?case by (simp add: owners_inv_def handle_request_fds handle_request_desk)
next
  case (id_buffer s ids sender n fd buf)
  have "open_fds (set_read_buf fd buf s) = open_fds s" "sv_order_owner_fd (set_read_buf fd buf s) = sv_order_owner_fd s"
    by (simp_all add: open_fds_def set_read_buf_def update_connection_def)
  with id_buffer show ?case by (simp add: owners_inv_def)
next
  case (id_remove s ids sender n fd)
  have "set (open_fds (remove_connection fd s)) \<subseteq> set (open_fds s)" "distinct (open_fds (remove_connection fd s))"
    "sv_order_owner_fd (remove_connection fd s) = sv_order_owner_fd s"
    using id_remove.IH by (auto simp: open_fds_def remove_connection_def distinct_map_filter)
  with id_remove.IH show ?case
    unfolding owners_inv_def by (auto intro: inj_on_subset)
qed

text \<open>Every state of the loop has such a numbering.\<close>

definition numbered :: "Server \<Rightarrow> bool" where
  "numbered s \<longleftrightarrow> (\<exists>ids sender n. identified s ids sender n)"

lemma numbered_requests:
  "numbered s \<Longrightarrow> fd \<in> set (open_fds s) \<Longrightarrow> \<forall>r\<in>set rs. request_ok r \<Longrightarrow> numbered (fold (handle_request fd) rs s)"
proof (induction rs arbitrary: s)
  case (Cons r rs)
  then have "numbered (handle_request fd r s)" unfolding numbered_def using id_request by fastforce
  with Cons show ?case by (simp add: handle_request_fds)
qed simp

lemma numbered_process:
  assumes "numbered s" "fd \<in> set (open_fds s)"
  shows "numbered (process_buffer fd buf s)"
proof -
  obtain rs rest where p: "parse_requests buf = (rs, rest)" by (cases "parse_requests buf")
  have "\<forall>r\<in>set rs. request_ok r" using parse_requests_ok [of _ buf] by (simp add: p)
  then have t: "numbered (fold (handle_request fd) rs s)" by (rule numbered_requests [OF assms])
  show ?thesis
  proof (cases rest)
    case None
    with t show ?thesis unfolding process_buffer_parse p numbered_def using id_remove by fastforce
  next
    case (Some left)
    with t show ?thesis unfolding process_buffer_parse p numbered_def using id_buffer by fastforce
  qed
qed

lemma numbered_service: "numbered s \<Longrightarrow> numbered (service r s)"
proof (cases "find_connection (fst r) s")
  case (Some c)
  assume s: "numbered s"
  have fd: "fst r \<in> set (open_fds s)" "cn_fd c = fst r"
    using find_connection_Some [OF Some] by (auto simp: open_fds_def intro: rev_image_eqI)
  have "numbered (remove_connection (fst r) s)" using s id_remove unfolding numbered_def by blast
  then show ?thesis
    using numbered_process [OF s fd(1)] fd(2) Some by (cases "snd r") (simp_all add: service_def)
qed (simp add: service_def)

lemma numbered_accept:
  "numbered s \<Longrightarrow> distinct fds \<Longrightarrow> set fds \<inter> set (open_fds s) = {} \<Longrightarrow> numbered (accept_new_connections fds s)"
proof (induction fds arbitrary: s)
  case Nil
  then show ?case by (simp add: accept_new_connections_def)
next
  case (Cons fd fds)
  let ?t = "accept_new_connections [fd] s"
  have "numbered ?t" using Cons.prems id_accept unfolding numbered_def by fastforce
  moreover have "set fds \<inter> set (open_fds ?t) = {}"
    using Cons.prems by (auto simp: open_fds_def accept_new_connections_def)
  ultimately have "numbered (accept_new_connections fds ?t)" using Cons by simp
  then show ?case by (simp add: accept_new_connections_def)
qed

lemma serving_numbered: "serving s \<Longrightarrow> numbered s"
proof (induction rule: serving.induct)
  case listening
  show ?case unfolding numbered_def using id_start by blast
next
  case (pass s accepted ready)
  then have "numbered (accept_new_connections accepted s)" by (intro numbered_accept)
  then have "numbered (fold service rs (accept_new_connections accepted s))" for rs
    by (induction rs rule: rev_induct) (simp_all add: numbered_service)
  then show ?case by (simp add: poll_pass_def)
qed

subsection \<open>The Python client reads what the server sends\<close>

definition decode_msg :: "bytes \<Rightarrow> Event res" where
  "decode_msg msg = decode_event (uint (hd msg)) (tl msg)"

definition sent_to :: "nat \<Rightarrow> Server \<Rightarrow> bytes list" where
  "sent_to fd s = map snd (filter (\<lambda>m. fst m = fd) (sv_sent s))"

lemma event_payload_sizes: "payload_size 16 = Some 37" "payload_size 17 = Some 10"
  by (simp_all add: payload_size_def MsgType_of_def)

lemma server_msg_decodes:
  assumes "server_msg msg"
  obtains t p ev where "msg = t # p" "payload_size (uint t) = Some (length p)" "decode_event (uint t) p = Inr ev"
proof -
  from assms consider k ty st where "msg = ack_msg k ty st" | f where "msg = fill_msg f" "int64_ok (fl_price_ticks f)"
    by (auto simp: server_msg_def)
  then show ?thesis
  proof cases
    case 1
    then show ?thesis
      by (intro that [of 17 "tl msg"])
        (simp_all add: ack_msg_def decode_event_def decode_ack_engine event_payload_sizes)
  next
    case 2
    let ?m = "\<lparr>wf_resting_order_id = fl_resting_order_id f, wf_incoming_order_id = fl_incoming_order_id f,
        wf_resting_side = (case fl_resting_side f of BUY \<Rightarrow> 0 | SELL \<Rightarrow> 1),
        wf_price_ticks = fl_price_ticks f, wf_quantity = fl_quantity f, wf_timestamp = fl_timestamp f\<rparr>"
    have m: "?m = ?m\<lparr>wf_price_ticks := to_int64 (to_uint64 (fl_price_ticks f))\<rparr>" using 2(2) by simp
    have "unat (wf_resting_side ?m) \<le> 1" by (cases "fl_resting_side f") simp_all
    with decode_fill_engine [where m = ?m and price = "to_uint64 (fl_price_ticks f)", folded m]
    obtain ev where "decode_fill (engine_encode_fill ?m) = Inr ev" by auto
    with 2(1) show ?thesis
      by (intro that [of 16 "tl msg"])
        (simp_all add: fill_msg_def decode_event_def event_payload_sizes)
  qed
qed

lemma parse_server_msgs:
  "\<forall>m\<in>set msgs. server_msg m \<Longrightarrow> prefix bs (concat msgs) \<Longrightarrow>
   \<exists>evs k. map Inr evs = map decode_msg msgs \<and> parse_events bs = (take k evs, Reader_Returned) \<and>
     (bs = concat msgs \<longrightarrow> k = length evs)"
proof (induction msgs arbitrary: bs)
  case (Cons m msgs)
  obtain t p ev where m: "m = t # p" "payload_size (uint t) = Some (length p)" "decode_event (uint t) p = Inr ev"
    by (rule server_msg_decodes [of m]) (use Cons.prems(1) in auto)
  have d: "decode_msg m = Inr ev" using m by (simp add: decode_msg_def)
  show ?case
  proof (cases "length bs < length m")
    case True
    from Cons.IH [of "[]"] Cons.prems(1) obtain evs where evs: "map Inr evs = map decode_msg msgs" by auto
    have "parse_events bs = ([], Reader_Returned)"
      using True Cons.prems(2) m by (cases bs) auto
    moreover have "bs \<noteq> concat (m # msgs)" using True by auto
    ultimately show ?thesis using evs d by (intro exI [of _ "ev # evs"] exI [of _ 0]) simp
  next
    case False
    with Cons.prems(2) have "prefix m bs" by (intro prefix_length_prefix [of m "concat (m # msgs)" bs]) simp_all
    then obtain bs2 where bs: "bs = m @ bs2" by (rule prefixE)
    with Cons.prems(2) have bs2: "prefix bs2 (concat msgs)" by simp
    from Cons.IH [OF _ bs2] Cons.prems(1) obtain evs k where
      "map Inr evs = map decode_msg msgs" "parse_events bs2 = (take k evs, Reader_Returned)"
      "bs2 = concat msgs \<longrightarrow> k = length evs" by auto
    with bs m d show ?thesis by (intro exI [of _ "ev # evs"] exI [of _ "Suc k"]) simp
  qed
qed simp

section \<open>Properties\<close>

text \<open>The examples: connections 4 and 5, and an order of connection 4 that rests.\<close>

definition demo_msg :: "64 word \<Rightarrow> byte \<Rightarrow> Wire_Order" where
  "demo_msg k sd = \<lparr>wo_client_order_id = k, wo_side = sd, wo_order_type = 0, wo_price_ticks = 100, wo_quantity = 5\<rparr>"

definition demo_server :: Server where
  "demo_server = poll_pass [] [(4, Recv_Bytes (1 # engine_encode_order (demo_msg 7 1)))] (poll_pass [4, 5] [] server_init)"

lemma demo_serving: "serving demo_server"
proof -
  have 1: "serving (poll_pass [4, 5] [] server_init)"
    by (rule serving.pass [OF serving.listening]) (simp_all add: open_fds_def server_init_def)
  show ?thesis unfolding demo_server_def
    by (rule serving.pass [OF 1])
      (simp_all add: open_fds_def server_init_def poll_pass_def accept_new_connections_def)
qed

lemma demo_server_eq:
  "demo_server = \<lparr>sv_book = snd (book_submit book_init (order_of_msg (demo_msg 7 1))),
     sv_connections = [\<lparr>cn_fd = 4, cn_read_buf = [], cn_subscribed_to_fills = False\<rparr>,
       \<lparr>cn_fd = 5, cn_read_buf = [], cn_subscribed_to_fills = False\<rparr>],
     sv_order_owner_fd = [7 \<mapsto> 4], sv_sent = [(4, ack_msg 7 1 0)]\<rparr>"
proof -
  have "engine_decode_order (engine_encode_order (demo_msg 7 1)) = demo_msg 7 1"
    by (rule engine_order_round) (simp add: demo_msg_def int64_ok_def)
  then show ?thesis
    by (simp add: demo_server_def poll_pass_def accept_new_connections_def server_init_def service_def find_connection_def
        engine_payload_size_def dispatch_new_order_def book_submit_def book_init_def order_of_msg_def Let_def
        send_ack_def issue_send_def set_read_buf_def update_connection_def)
      (simp add: demo_msg_def book_contains_def)
qed

text \<open>In every state the server can reach the book satisfies its invariant, the owner map has
  exactly the resting orders, descriptors are distinct, and no read buffer holds a whole
  message or starts with a tag the protocol does not have.\<close>

lemma server_invariant:
  assumes "serving s"
  shows "book_inv (sv_book s) \<and> dom (sv_order_owner_fd s) = {k. book_contains (sv_book s) k} \<and>
    distinct (open_fds s) \<and> (\<forall>c\<in>set (sv_connections s). starved (cn_read_buf c))"
  using serving_inv [OF assms] by (simp add: server_inv_def desk_inv_def)

lemma server_invariant_witness:
  "sv_order_owner_fd demo_server 7 = Some 4 \<and> book_contains (sv_book demo_server) 7 \<and> distinct (open_fds demo_server)"
proof -
  have o: "sv_order_owner_fd demo_server 7 = Some 4" by (simp add: demo_server_eq)
  note i = server_invariant [OF demo_serving]
  from o have "7 \<in> dom (sv_order_owner_fd demo_server)" by blast
  with i o show ?thesis by blast
qed

text \<open>C8: an order with a new id is acknowledged first; then each of its fills goes out in order, once
  to each of the descriptor of the connection that sent the order, the descriptor recorded as
  the owner of the resting order and the subscribers', and to no other descriptor.  With the
  connections numbered as they are accepted, as every run of the server can be
  (\<open>serving_numbered\<close>): while the connection that sent the resting order is open, the recorded
  descriptor is its own.  When that connection has gone the fill is written to the descriptor
  it had, even when another client has it by then (\<open>departed_owner_descriptor_reused\<close>).\<close>

theorem fills_delivered_once:
  assumes "identified s ids sender n" "\<not> book_contains (sv_book s) (wo_client_order_id m)"
    and "book_submit (sv_book s) (order_of_msg m) = (fills, b')"
  shows "sv_sent (dispatch_new_order fd m s) = sv_sent s @ (fd, ack_msg (wo_client_order_id m) 1 0) #
      concat (map (\<lambda>f. map (\<lambda>d. (d, fill_msg f))
        (recipients fd (sv_order_owner_fd s (fl_resting_order_id f)) (sv_connections s))) fills) \<and>
    (\<forall>f\<in>set fills. \<exists>owner. sv_order_owner_fd s (fl_resting_order_id f) = Some owner \<and>
       distinct (recipients fd (Some owner) (sv_connections s)) \<and>
       set (recipients fd (Some owner) (sv_connections s)) =
         {fd, owner} \<union> {cn_fd c | c. c \<in> set (sv_connections s) \<and> cn_subscribed_to_fills c} \<and>
       (\<forall>d\<in>set (open_fds s). ids d = sender (fl_resting_order_id f) \<longrightarrow> d = owner))"
proof -
  have s: "desk_inv s" "distinct (map cn_fd (sv_connections s))" "owners_inv s ids sender n"
    using identified_inv [OF assms(1)] by (simp_all add: open_fds_def)
  then have b: "book_inv (sv_book s)" by (simp add: desk_inv_def)
  have id: "od_id (order_of_msg m) = wo_client_order_id m" by (simp add: order_of_msg_def)
  note e = book_submit_entries [OF b, of "order_of_msg m", unfolded id, OF assms(2,3)]
  have sent: "sv_sent (dispatch_new_order fd m s) = sv_sent s @ (fd, ack_msg (wo_client_order_id m) 1 0) #
      concat (map (\<lambda>f. map (\<lambda>d. (d, fill_msg f))
        (recipients fd (sv_order_owner_fd s (fl_resting_order_id f)) (sv_connections s))) fills)"
    by (simp add: dispatch_new_order_eq [OF b assms(2,3)] deliveries_def)
  have owned: "\<exists>owner. sv_order_owner_fd s (fl_resting_order_id f) = Some owner" if "f \<in> set fills" for f
  proof -
    have "entry_of_fill f \<in> book_entries (sv_book s)" using e(3) that by blast
    then have "fl_resting_order_id f \<in> dom (sv_order_owner_fd s)"
      using s(1) by (auto simp: desk_inv_def entry_of_fill_def book_entries_def book_contains_def)
    then show ?thesis by blast
  qed
  have own: "\<forall>d\<in>set (open_fds s). ids d = sender k \<longrightarrow> d = owner"
    if "sv_order_owner_fd s k = Some owner" for k owner
    using s(3) that by (simp add: owners_inv_def)
  have once: "distinct (recipients fd (Some owner) (sv_connections s))" for owner
    using s(2) by (auto simp: recipients_def addressees_def distinct_map_filter)
  have to: "set (recipients fd (Some owner) (sv_connections s)) =
      {fd, owner} \<union> {cn_fd c | c. c \<in> set (sv_connections s) \<and> cn_subscribed_to_fills c}" for owner
    by (auto simp: recipients_def addressees_def)
  show ?thesis
  proof (intro conjI ballI)
    fix f
    assume "f \<in> set fills"
    with owned obtain owner where "sv_order_owner_fd s (fl_resting_order_id f) = Some owner" by blast
    with own once to show "\<exists>owner. sv_order_owner_fd s (fl_resting_order_id f) = Some owner \<and>
       distinct (recipients fd (Some owner) (sv_connections s)) \<and>
       set (recipients fd (Some owner) (sv_connections s)) =
         {fd, owner} \<union> {cn_fd c | c. c \<in> set (sv_connections s) \<and> cn_subscribed_to_fills c} \<and>
       (\<forall>d\<in>set (open_fds s). ids d = sender (fl_resting_order_id f) \<longrightarrow> d = owner)"
      by (intro exI [of _ owner] conjI)
  qed (rule sent)
qed

text \<open>The first client's order 7 rests; the second client's order trades with it.\<close>

theorem fills_delivered_once_witness:
  "\<exists>f ids sender n. identified demo_server ids sender n \<and>
     sv_sent (dispatch_new_order 5 (demo_msg 8 0) demo_server) =
       [(4, ack_msg 7 1 0), (5, ack_msg 8 1 0), (5, fill_msg f), (4, fill_msg f)] \<and>
     (\<forall>d\<in>set (open_fds demo_server). ids d = sender 7 \<longrightarrow> d = 4)"
proof -
  have new: "\<not> book_contains (sv_book demo_server) (wo_client_order_id (demo_msg 8 0))"
    by (simp add: demo_server_eq demo_msg_def book_contains_def book_submit_def book_init_def order_of_msg_def)
  obtain f b' where sub: "book_submit (sv_book demo_server) (order_of_msg (demo_msg 8 0)) = ([f], b')" "fl_resting_order_id f = 7"
    by (simp add: demo_server_eq demo_msg_def book_submit_def book_init_def order_of_msg_def crosses_def trade_def)
  from serving_numbered [OF demo_serving] obtain ids sender n where i: "identified demo_server ids sender n"
    by (auto simp: numbered_def)
  have o: "sv_order_owner_fd demo_server 7 = Some 4" by (simp add: demo_server_eq)
  have "sv_sent (dispatch_new_order 5 (demo_msg 8 0) demo_server) =
       [(4, ack_msg 7 1 0), (5, ack_msg 8 1 0), (5, fill_msg f), (4, fill_msg f)]"
    using fills_delivered_once [OF i new sub(1), of 5] sub(2)
    by (simp add: demo_server_eq recipients_def addressees_def demo_msg_def)
  moreover have "\<forall>d\<in>set (open_fds demo_server). ids d = sender 7 \<longrightarrow> d = 4"
    using fills_delivered_once [OF i new sub(1), of 5] sub(2) o by simp
  ultimately show ?thesis using i by blast
qed

text \<open>C12: what the server does with the bytes of a client depends only on the bytes and not on how the
  network cuts them: it answers the requests a parser finds in the stream, in order, keeps an
  incomplete message for later, and drops the connection at the first tag that is not a
  request.\<close>

theorem server_independent_of_segmentation:
  assumes "find_connection fd s = Some c" "chunks \<noteq> []"
  shows "fold service (map (\<lambda>chunk. (fd, Recv_Bytes chunk)) chunks) s =
      answer_stream fd (parse_requests (cn_read_buf c @ concat chunks)) s \<and>
    fold service (map (\<lambda>chunk. (fd, Recv_Bytes chunk)) chunks) s = service (fd, Recv_Bytes (concat chunks)) s"
  using service_chunks [OF assms(2,1)] service_bytes [OF assms(1)] by simp

theorem server_independent_of_segmentation_witness:
  "fold service (map (\<lambda>chunk. (4, Recv_Bytes chunk)) [[2, 0, 0, 0], [0, 0, 0, 0, 7, 3]]) demo_server =
     service (4, Recv_Bytes [2, 0, 0, 0, 0, 0, 0, 0, 7, 3]) demo_server"
proof -
  have "find_connection 4 demo_server = Some \<lparr>cn_fd = 4, cn_read_buf = [], cn_subscribed_to_fills = False\<rparr>"
    by (simp add: find_connection_def demo_server_eq)
  from server_independent_of_segmentation [OF this, of "[[2, 0, 0, 0], [0, 0, 0, 0, 7, 3]]"]
  have "fold service (map (\<lambda>chunk. (4, Recv_Bytes chunk)) [[2, 0, 0, 0], [0, 0, 0, 0, 7, 3]]) demo_server =
      service (4, Recv_Bytes (concat [[2, 0, 0, 0], [0, 0, 0, 0, 7, 3]])) demo_server" by blast
  then show ?thesis by (simp only: concat.simps append.simps)
qed

text \<open>C17: every new order and every cancel a client sends is answered by exactly one acknowledgement,
  sent to that client and to nobody else, in the order of its requests, up to the first tag
  that is not a request; it rejects exactly an id that is resting already, and a cancel of an
  id that is not.\<close>

theorem every_request_acknowledged:
  assumes "serving s" "find_connection fd s = Some c"
  shows "\<exists>new. sv_sent (service (fd, Recv_Bytes chunk) s) = sv_sent s @ new \<and>
    filter is_ack new = answers fd (fst (parse_requests (cn_read_buf c @ chunk))) s"
proof -
  obtain rs rest where p: "parse_requests (cn_read_buf c @ chunk) = (rs, rest)"
    by (cases "parse_requests (cn_read_buf c @ chunk)")
  have "\<forall>r\<in>set rs. request_ok r" using parse_requests_ok [of _ "cn_read_buf c @ chunk"] by (simp add: p)
  moreover have "desk_inv s" using serving_inv [OF assms(1)] by (simp add: server_inv_def)
  ultimately obtain new where "sv_sent (fold (handle_request fd) rs s) = sv_sent s @ new"
    "filter is_ack new = answers fd rs s" using requests_answers by blast
  moreover have "sv_sent (answer_stream fd (rs, rest) s) = sv_sent (fold (handle_request fd) rs s)"
    by (cases rest) (simp_all add: set_read_buf_def update_connection_def remove_connection_def)
  ultimately show ?thesis by (simp add: service_bytes [OF assms(2)] p)
qed

theorem every_request_acknowledged_witness:
  "\<exists>new. sv_sent (service (5, Recv_Bytes (1 # engine_encode_order (demo_msg 7 0))) demo_server) = sv_sent demo_server @ new \<and>
     filter is_ack new = [(5, ack_msg 7 1 1)]"
proof -
  have f: "find_connection 5 demo_server = Some \<lparr>cn_fd = 5, cn_read_buf = [], cn_subscribed_to_fills = False\<rparr>"
    by (simp add: find_connection_def demo_server_eq)
  have "engine_decode_order (engine_encode_order (demo_msg 7 0)) = demo_msg 7 0"
    by (rule engine_order_round) (simp add: demo_msg_def int64_ok_def)
  then have p: "fst (parse_requests (1 # engine_encode_order (demo_msg 7 0))) = [New_Order_Request (demo_msg 7 0)]"
    by (simp add: engine_payload_size_def)
  have "book_contains (sv_book demo_server) 7"
    by (simp add: demo_server_eq demo_msg_def book_contains_def book_submit_def book_init_def order_of_msg_def)
  with every_request_acknowledged [OF demo_serving f, of "1 # engine_encode_order (demo_msg 7 0)"] p show ?thesis
    by (simp add: demo_msg_def)
qed

text \<open>C23: whatever part of the bytes the server sends to a connection has arrived, however it is cut,
  the reader thread of the Python client has queued the first of the messages sent there, in
  order and none twice, and it is not killed; when everything has arrived, all of them.\<close>

theorem python_client_reads_server:
  assumes "serving s" "prefix (stream_of inp) (concat (sent_to fd s))"
  shows "\<exists>evs. map Inr evs = map decode_msg (sent_to fd s) \<and> prefix (fst (read_loop inp)) evs \<and>
    snd (read_loop inp) = Reader_Returned \<and> (stream_of inp = concat (sent_to fd s) \<longrightarrow> fst (read_loop inp) = evs)"
proof -
  have "\<forall>m\<in>set (sent_to fd s). server_msg m"
    using serving_inv [OF assms(1)] by (auto simp: server_inv_def desk_inv_def sent_to_def)
  from parse_server_msgs [OF this assms(2)] obtain evs k where
    "map Inr evs = map decode_msg (sent_to fd s)" "parse_events (stream_of inp) = (take k evs, Reader_Returned)"
    "stream_of inp = concat (sent_to fd s) \<longrightarrow> k = length evs" by blast
  then show ?thesis by (intro exI [of _ evs]) (auto simp: read_loop_parse take_is_prefix)
qed

theorem python_client_reads_server_witness:
  "fst (read_loop [Data [17, 0, 0, 0, 0, 0, 0, 0], Data [7, 1, 0]]) =
     [Ack_Event \<lparr>ae_client_order_id = 7, ae_request_type = 1, ae_status = 0\<rparr>]"
proof -
  have s: "sent_to 4 demo_server = [ack_msg 7 1 0]" by (simp add: sent_to_def demo_server_eq)
  have a: "ack_msg 7 1 0 = [17, 0, 0, 0, 0, 0, 0, 0, 7, 1, 0]"
    by (simp add: ack_msg_def engine_encode_ack_def put_u64_def put_u8_def)
  have d: "decode_msg (ack_msg 7 1 0) = Inr (Ack_Event \<lparr>ae_client_order_id = 7, ae_request_type = 1, ae_status = 0\<rparr>)"
    by (simp add: ack_msg_def decode_msg_def decode_event_def decode_ack_engine)
  have st: "stream_of [Data [17, 0, 0, 0, 0, 0, 0, 0], Data [7, 1, 0]] = concat (sent_to 4 demo_server)" by (simp add: s a)
  have pre: "prefix (stream_of [Data [17, 0, 0, 0, 0, 0, 0, 0], Data [7, 1, 0]]) (concat (sent_to 4 demo_server))"
    unfolding st by simp
  obtain evs where evs: "map Inr evs = map decode_msg (sent_to 4 demo_server)"
    "stream_of [Data [17, 0, 0, 0, 0, 0, 0, 0], Data [7, 1, 0]] = concat (sent_to 4 demo_server) \<longrightarrow>
      fst (read_loop [Data [17, 0, 0, 0, 0, 0, 0, 0], Data [7, 1, 0]]) = evs"
    using python_client_reads_server [OF demo_serving pre] by blast
  from evs(1) have "evs = [Ack_Event \<lparr>ae_client_order_id = 7, ae_request_type = 1, ae_status = 0\<rparr>]"
    by (auto simp only: s d list.map map_eq_Cons_conv sum.inject map_is_Nil_conv)
  with evs(2) st show ?thesis by (simp only:)
qed

text \<open>A client that goes away leaves its orders in the book and its descriptor in the owner map;
  when the kernel gives that descriptor to the next client, the fills of the old client's
  orders are sent to the new one, which sent no order and did not subscribe.\<close>

lemma departed_owner_descriptor_reused:
  assumes "serving s" "sv_order_owner_fd s k = Some a" "a \<in> set (open_fds s)" "d \<noteq> a"
    and "s2 = poll_pass [a] [] (poll_pass [] [(a, Recv_Eof)] s)"
    and "\<not> book_contains (sv_book s) (wo_client_order_id m)"
    and "book_submit (sv_book s) (order_of_msg m) = (fills, b')" "f \<in> set fills" "fl_resting_order_id f = k"
  shows "serving s2 \<and> find_connection a s2 = Some \<lparr>cn_fd = a, cn_read_buf = [], cn_subscribed_to_fills = False\<rparr> \<and>
    book_contains (sv_book s2) k \<and> sv_sent s2 = sv_sent s \<and>
    (a, fill_msg f) \<in> set (drop (length (sv_sent s2)) (sv_sent (dispatch_new_order d m s2)))"
proof -
  let ?s1 = "poll_pass [] [(a, Recv_Eof)] s"
  obtain c where c: "find_connection a s = Some c" using assms(3) find_connection_None [of a s] by blast
  have s1: "?s1 = remove_connection a s"
    using c find_connection_Some [OF c] by (simp add: poll_pass_def accept_new_connections_def service_def)
  have "serving ?s1"
    by (rule serving.pass [OF assms(1)]) (use assms(3) in \<open>simp_all add: subseq_singleton_left\<close>)
  then have serv: "serving s2" unfolding assms(5)
    by (rule serving.pass) (auto simp: s1 open_fds_def remove_connection_def)
  have s2: "s2 = s\<lparr>sv_connections := filter (\<lambda>c. cn_fd c \<noteq> a) (sv_connections s) @
      [\<lparr>cn_fd = a, cn_read_buf = [], cn_subscribed_to_fills = False\<rparr>]\<rparr>"
    unfolding assms(5) s1 by (simp add: poll_pass_def accept_new_connections_def remove_connection_def)
  have "find (\<lambda>c. cn_fd c = a) (filter (\<lambda>c. cn_fd c \<noteq> a) cs @ [c']) = find (\<lambda>c. cn_fd c = a) [c']" for cs and c' :: Connection
    by (induction cs) simp_all
  then have find: "find_connection a s2 = Some \<lparr>cn_fd = a, cn_read_buf = [], cn_subscribed_to_fills = False\<rparr>"
    by (simp add: find_connection_def s2)
  have desk: "desk_inv s" "desk_inv s2" using serving_inv assms(1) serv by (simp_all add: server_inv_def)
  have k: "book_contains (sv_book s2) k" using desk(1) assms(2) by (auto simp: desk_inv_def s2)
  have b: "book_inv (sv_book s2)" using desk(2) by (simp add: desk_inv_def)
  have new: "\<not> book_contains (sv_book s2) (wo_client_order_id m)"
    "book_submit (sv_book s2) (order_of_msg m) = (fills, b')" using assms(6,7) by (simp_all add: s2)
  have "a \<in> set (recipients d (sv_order_owner_fd s2 (fl_resting_order_id f)) (sv_connections s2))"
    using assms(2,4,9) by (simp add: s2 recipients_def addressees_def)
  then have "(a, fill_msg f) \<in> set (deliveries d (sv_order_owner_fd s2 (fl_resting_order_id f)) (sv_connections s2) f)"
    by (simp add: deliveries_def)
  then have "(a, fill_msg f) \<in> set (drop (length (sv_sent s2)) (sv_sent (dispatch_new_order d m s2)))"
    using assms(8) by (auto simp: dispatch_new_order_eq [OF b new])
  with serv find k show ?thesis by (simp add: s2)
qed

lemma departed_owner_descriptor_reused_witness:
  "\<exists>f s2. serving s2 \<and> find_connection 4 s2 = Some \<lparr>cn_fd = 4, cn_read_buf = [], cn_subscribed_to_fills = False\<rparr> \<and>
     (4, fill_msg f) \<in> set (drop (length (sv_sent s2)) (sv_sent (dispatch_new_order 5 (demo_msg 8 0) s2)))"
proof -
  have new: "\<not> book_contains (sv_book demo_server) (wo_client_order_id (demo_msg 8 0))"
    by (simp add: demo_server_eq demo_msg_def book_contains_def book_submit_def book_init_def order_of_msg_def)
  obtain f b' where sub: "book_submit (sv_book demo_server) (order_of_msg (demo_msg 8 0)) = ([f], b')" "fl_resting_order_id f = 7"
    by (simp add: demo_server_eq demo_msg_def book_submit_def book_init_def order_of_msg_def crosses_def trade_def)
  have o: "sv_order_owner_fd demo_server 7 = Some 4" "4 \<in> set (open_fds demo_server)" "(5 :: nat) \<noteq> 4"
    by (simp_all add: demo_server_eq open_fds_def)
  from departed_owner_descriptor_reused [OF demo_serving o refl new sub(1) _ sub(2)] show ?thesis by auto
qed

end
