(* ===== verification/Venue.thy ===== *)
theory Venue
  imports Server SessionRunner
begin

text \<open>
  The closed loop of the quoter of \<^verbatim>\<open>strategy.py\<close> and the engine: the bytes of the actions it
  returns on a price travel to the server of \<^verbatim>\<open>server.cpp\<close> in chunks of any size and at any
  time, and the messages the server sends back reach \<^verbatim>\<open>on_fill\<close> at any later time.  The
  theory has no code of its own: it composes the models of the two sides, and states what
  the quoter, which is the only participant of a synthetic session or a backtest, does to
  the book it trades in.
\<close>

section \<open>The book with nothing but the two quotes\<close>

definition quote_key :: "Order \<Rightarrow> 64 word \<times> int \<times> 32 word" where
  "quote_key r = (od_id r, od_price_ticks r, od_quantity r)"

definition quotes :: "Side \<Rightarrow> OrderBook \<Rightarrow> (64 word \<times> int \<times> 32 word) list" where
  "quotes sd b = map quote_key (queue_of sd b)"

definition fill_key :: "Fill \<Rightarrow> 64 word \<times> 64 word \<times> Side \<times> int \<times> 32 word" where
  "fill_key f = (fl_resting_order_id f, fl_incoming_order_id f, fl_resting_side f, fl_price_ticks f, fl_quantity f)"

definition quote_order :: "64 word \<Rightarrow> Side \<Rightarrow> int \<Rightarrow> 32 word \<Rightarrow> Order" where
  "quote_order k sd price qty =
     \<lparr>od_id = k, od_side = sd, od_type = LIMIT, od_price_ticks = price, od_quantity = qty, od_timestamp = 0\<rparr>"

lemma quote_order_simps [simp]:
  "od_id (quote_order k sd price qty) = k" "od_side (quote_order k sd price qty) = sd"
  "od_type (quote_order k sd price qty) = LIMIT" "od_price_ticks (quote_order k sd price qty) = price"
  "od_quantity (quote_order k sd price qty) = qty"
  by (simp_all add: quote_order_def)

lemma stamped_more [simp]:
  "od_type (stamped b o1) = od_type o1" "od_price_ticks (stamped b o1) = od_price_ticks o1"
  "od_quantity (stamped b o1) = od_quantity o1" "quote_key (stamped b o1) = quote_key o1"
  by (simp_all add: stamped_def quote_key_def)

lemma opposite_opposite [simp]: "opposite (opposite sd) = sd"
  by (cases sd) simp_all

lemma contains_quotes:
  "book_inv b \<Longrightarrow> book_contains b k \<longleftrightarrow> k \<in> fst ` set (quotes sd b) \<union> fst ` set (quotes (opposite sd) b)"
  using book_entries_queues [of b sd] book_entries_ids [of b]
  by (auto simp: quotes_def quote_key_def entry_def image_Un image_image)

text \<open>An order that crosses nothing rests.\<close>

lemma submit_rests:
  assumes b: "book_inv b" "\<not> book_contains b (od_id o1)" "od_type o1 = LIMIT" "od_quantity o1 \<noteq> 0"
    and no: "\<forall>q\<in>set (quotes (opposite (od_side o1)) b). \<not> crosses (opposite (od_side o1)) o1 (fst (snd q))"
  obtains b' where "book_submit b o1 = ([], b')" "book_inv b'"
    "queue_of (opposite (od_side o1)) b' = queue_of (opposite (od_side o1)) b"
    "queue_of (od_side o1) b' = flat_rest (od_side o1) (stamped b o1) (queue_of (od_side o1) b)"
proof -
  obtain fills b' where s: "book_submit b o1 = (fills, b')" by (cases "book_submit b o1")
  obtain left where
    m: "flat_match (opposite (od_side o1)) (stamped b o1) (queue_of (opposite (od_side o1)) b) (bk_next_timestamp b + 1)
       = (fills, left, queue_of (opposite (od_side o1)) b', bk_next_timestamp b')" and
    q: "queue_of (od_side o1) b' = (if rests left then flat_rest (od_side o1) left (queue_of (od_side o1) b)
       else queue_of (od_side o1) b)"
    by (rule submit_queues [OF b(1,2) s])
  have "flat_match (opposite (od_side o1)) (stamped b o1) (queue_of (opposite (od_side o1)) b) (bk_next_timestamp b + 1)
       = ([], stamped b o1, queue_of (opposite (od_side o1)) b, bk_next_timestamp b + 1)"
    using no by (cases "queue_of (opposite (od_side o1)) b") (auto simp: quotes_def quote_key_def)
  with m have r: "fills = []" "left = stamped b o1"
    "queue_of (opposite (od_side o1)) b' = queue_of (opposite (od_side o1)) b" by simp_all
  have "book_inv b'" using submit_refines [OF b(1) s] by blast
  then show ?thesis using r s q b(3,4) by (intro that [of b']) simp_all
qed

text \<open>An order that crosses a single resting order of its own size takes it and is gone.\<close>

lemma submit_takes:
  assumes b: "book_inv b" "\<not> book_contains b (od_id o1)" "od_quantity o1 \<noteq> 0"
    and q: "queue_of (opposite (od_side o1)) b = r # rest" "od_quantity r = od_quantity o1"
      "crosses (opposite (od_side o1)) o1 (od_price_ticks r)"
  obtains f b' where "book_submit b o1 = ([f], b')" "book_inv b'"
    "queue_of (opposite (od_side o1)) b' = rest" "queue_of (od_side o1) b' = queue_of (od_side o1) b"
    "fill_key f = (od_id r, od_id o1, opposite (od_side o1), od_price_ticks r, od_quantity o1)"
proof -
  obtain fills b' where s: "book_submit b o1 = (fills, b')" by (cases "book_submit b o1")
  obtain left where
    m: "flat_match (opposite (od_side o1)) (stamped b o1) (queue_of (opposite (od_side o1)) b) (bk_next_timestamp b + 1)
       = (fills, left, queue_of (opposite (od_side o1)) b', bk_next_timestamp b')" and
    qq: "queue_of (od_side o1) b' = (if rests left then flat_rest (od_side o1) left (queue_of (od_side o1) b)
       else queue_of (od_side o1) b)"
    by (rule submit_queues [OF b(1,2) s])
  have "flat_match sd inc queue ts = ([], inc, queue, ts)" if "od_quantity inc = 0" for sd inc queue ts
    using that by (cases queue) simp_all
  with q b(3) have
    "flat_match (opposite (od_side o1)) (stamped b o1) (queue_of (opposite (od_side o1)) b) (bk_next_timestamp b + 1)
       = ([trade (opposite (od_side o1)) (stamped b o1) r (bk_next_timestamp b + 1)], reduce (od_quantity r) (stamped b o1), rest,
          bk_next_timestamp b + 1 + 1)" by simp
  with m q(2) have r: "fills = [trade (opposite (od_side o1)) (stamped b o1) r (bk_next_timestamp b + 1)]"
    "od_quantity left = 0" "queue_of (opposite (od_side o1)) b' = rest" by auto
  have "book_inv b'" using submit_refines [OF b(1) s] by blast
  then show ?thesis using r s qq q(2)
    by (intro that [of "trade (opposite (od_side o1)) (stamped b o1) r (bk_next_timestamp b + 1)" b'])
      (simp_all add: fill_key_def trade_def)
qed

lemma cancel_quotes:
  assumes b: "book_inv b" and c: "book_cancel b k = (ok, b')"
  shows "book_inv b'" "quotes sd b' = filter (\<lambda>q. fst q \<noteq> k) (quotes sd b)"
proof -
  note r = cancel_refines [OF b c]
  then show "book_inv b'" by blast
  have "queue_of sd b' = filter (\<lambda>o1. od_id o1 \<noteq> k) (queue_of sd b)"
    using r by (cases sd) (simp_all add: flat_cancel_def flat_book_def)
  then show "quotes sd b' = filter (\<lambda>q. fst q \<noteq> k) (quotes sd b)"
    by (simp add: quotes_def filter_map comp_def quote_key_def)
qed

subsection \<open>One requote\<close>

text \<open>
  The book holds at most one order a side, at the same distance from a price \<open>p0\<close>; the
  quoter submits a buy and a sell around \<open>p\<close> and then cancels the two old ones.
\<close>

definition one_quote :: "bool \<Rightarrow> 64 word \<Rightarrow> int \<Rightarrow> 32 word \<Rightarrow> (64 word \<times> int \<times> 32 word) list" where
  "one_quote live k price qty = (if live then [(k, price, qty)] else [])"

lemma flat_rest_quotes:
  assumes "map quote_key queue = one_quote live k price qty" "\<not> live \<or> price \<noteq> od_price_ticks o1"
  shows "map quote_key (flat_rest sd o1 queue) =
    (if better sd (od_price_ticks o1) price then quote_key o1 # one_quote live k price qty
     else one_quote live k price qty @ [quote_key o1])"
proof (cases live)
  case True
  with assms obtain r where "queue = [r]" "quote_key r = (k, price, qty)" by (auto simp: one_quote_def)
  then show ?thesis using True by (auto simp: one_quote_def quote_key_def)
next
  case False
  with assms show ?thesis by (simp add: one_quote_def)
qed

lemma requote_side_book:
  assumes b: "book_inv b" and sz: "sz \<noteq> 0"
    and own: "quotes sd b = one_quote live k0 price0 sz" "price \<noteq> price0"
    and opp: "quotes (opposite sd) b = xs" "k \<notin> fst ` set xs" "k \<noteq> k0"
    and top: "\<And>x. x \<in> set xs \<Longrightarrow> crosses (opposite sd) (quote_order k sd price sz) (fst (snd x)) \<Longrightarrow> x = hd xs \<and> snd (snd x) = sz"
    and hit: "hit = (\<exists>x\<in>set xs. crosses (opposite sd) (quote_order k sd price sz) (fst (snd x)))"
  obtains fills b' where "book_submit b (quote_order k sd price sz) = (fills, b')" "book_inv b'"
    "map fill_key fills = (if hit then [(fst (hd xs), k, opposite sd, fst (snd (hd xs)), sz)] else [])"
    "quotes (opposite sd) b' = (if hit then tl xs else xs)"
    "quotes sd b' = (if hit then one_quote live k0 price0 sz
       else if better sd price price0 then (k, price, sz) # one_quote live k0 price0 sz
       else one_quote live k0 price0 sz @ [(k, price, sz)])"
proof -
  let ?o = "quote_order k sd price sz"
  have new: "\<not> book_contains b (od_id ?o)"
    using contains_quotes [OF b, of k sd] opp by (auto simp: own one_quote_def)
  show ?thesis
  proof (cases hit)
    case True
    then obtain x where x: "x \<in> set xs" "crosses (opposite sd) ?o (fst (snd x))" by (auto simp: hit)
    with top have hd: "x = hd xs" "snd (snd x) = sz" by simp_all
    with x(1) opp(1) obtain r rest where r: "queue_of (opposite sd) b = r # rest" "quote_key r = x" "map quote_key rest = tl xs"
      by (cases "queue_of (opposite sd) b") (auto simp: quotes_def)
    then have "od_quantity r = od_quantity ?o" "crosses (opposite sd) ?o (od_price_ticks r)"
      using x(2) hd(2) by (auto simp: quote_key_def)
    with submit_takes [OF b new, of r rest] r(1) sz obtain f b' where
      "book_submit b ?o = ([f], b')" "book_inv b'" "queue_of (opposite sd) b' = rest" "queue_of sd b' = queue_of sd b"
      "fill_key f = (od_id r, k, opposite sd, od_price_ticks r, sz)" by auto
    moreover have "hd xs = (od_id r, od_price_ticks r, od_quantity r)" using r(2) hd(1) by (simp add: quote_key_def)
    ultimately show ?thesis using True own(1) r(3)
      by (intro that [of "[f]" b']) (simp_all add: quotes_def)
  next
    case False
    then have "\<forall>q\<in>set (quotes (opposite (od_side ?o)) b). \<not> crosses (opposite (od_side ?o)) ?o (fst (snd q))"
      by (simp add: opp(1) hit)
    with submit_rests [OF b new _ _ this] sz obtain b' where s: "book_submit b ?o = ([], b')" "book_inv b'"
      "queue_of (opposite sd) b' = queue_of (opposite sd) b" "queue_of sd b' = flat_rest sd (stamped b ?o) (queue_of sd b)" by auto
    have "quotes sd b' = (if better sd price price0 then (k, price, sz) # one_quote live k0 price0 sz
       else one_quote live k0 price0 sz @ [(k, price, sz)])"
      using flat_rest_quotes [OF own(1) [unfolded quotes_def], of "stamped b ?o" sd] own(2)
      by (simp add: quotes_def s(4)) (simp add: quote_key_def)
    with False s opp(1) show ?thesis by (intro that [of "[]" b']) (simp_all add: quotes_def)
  qed
qed

text \<open>What a requote does: the new buy takes the old sell when the price rose by twice the offset, and
  the new sell the old buy when it fell as far; then the old orders that are left are cancelled.\<close>

lemma requote_book:
  assumes b: "book_inv b" and q: "quotes BUY b = one_quote bid kb (p0 - d) sz" "quotes SELL b = one_quote ask ka (p0 + d) sz"
    and ids: "distinct [kb, ka, k1, k2]" and p: "p \<noteq> p0" "0 < d" and sz: "sz \<noteq> 0"
    and up: "up = (ask \<and> 2 * d \<le> p - p0)" and down: "down = (bid \<and> 2 * d \<le> p0 - p)"
  obtains fills1 b1 fills2 b2 b3 b4 where
    "book_submit b (quote_order k1 BUY (p - d) sz) = (fills1, b1)" "book_submit b1 (quote_order k2 SELL (p + d) sz) = (fills2, b2)"
    "book_cancel b2 kb = (bid \<and> \<not> down, b3)" "book_cancel b3 ka = (ask \<and> \<not> up, b4)"
    "book_inv b1" "book_inv b2" "book_inv b3" "book_inv b4"
    "map fill_key fills1 = (if up then [(ka, k1, SELL, p0 + d, sz)] else [])"
    "map fill_key fills2 = (if down then [(kb, k2, BUY, p0 - d, sz)] else [])"
    "quotes BUY b4 = one_quote (\<not> up) k1 (p - d) sz" "quotes SELL b4 = one_quote (\<not> down) k2 (p + d) sz"
    "\<not> book_contains b k1" "\<not> book_contains b1 k2"
proof -
  have h1: "up = (\<exists>x\<in>set (one_quote ask ka (p0 + d) sz). crosses (opposite BUY) (quote_order k1 BUY (p - d) sz) (fst (snd x)))"
    using up by (auto simp: one_quote_def crosses_def)
  have pre1: "p - d \<noteq> p0 - d" "quotes (opposite BUY) b = one_quote ask ka (p0 + d) sz"
    "k1 \<notin> fst ` set (one_quote ask ka (p0 + d) sz)" "k1 \<noteq> kb"
    "\<And>x. x \<in> set (one_quote ask ka (p0 + d) sz) \<Longrightarrow> crosses (opposite BUY) (quote_order k1 BUY (p - d) sz) (fst (snd x)) \<Longrightarrow>
      x = hd (one_quote ask ka (p0 + d) sz) \<and> snd (snd x) = sz"
    using q(2) ids p by (auto simp: one_quote_def split: if_splits)
  obtain fills1 b1 where 1: "book_submit b (quote_order k1 BUY (p - d) sz) = (fills1, b1)" "book_inv b1"
    "map fill_key fills1 = (if up then [(fst (hd (one_quote ask ka (p0 + d) sz)), k1, SELL, fst (snd (hd (one_quote ask ka (p0 + d) sz))), sz)] else [])"
    "quotes SELL b1 = (if up then tl (one_quote ask ka (p0 + d) sz) else one_quote ask ka (p0 + d) sz)"
    "quotes BUY b1 = (if up then one_quote bid kb (p0 - d) sz
       else if p0 - d < p - d then (k1, p - d, sz) # one_quote bid kb (p0 - d) sz
       else one_quote bid kb (p0 - d) sz @ [(k1, p - d, sz)])"
    by (rule requote_side_book [OF b sz q(1) pre1 h1, unfolded opposite.simps better.simps])
  have fills1: "map fill_key fills1 = (if up then [(ka, k1, SELL, p0 + d, sz)] else [])"
    using 1(3) up by (simp add: one_quote_def)
  have s1: "quotes SELL b1 = one_quote (ask \<and> \<not> up) ka (p0 + d) sz" using 1(4) up by (simp add: one_quote_def)
  let ?xs = "quotes BUY b1"
  have not_new: "\<not> crosses BUY (quote_order k2 SELL (p + d) sz) (p - d)" using p by (simp add: crosses_def)
  have old: "crosses BUY (quote_order k2 SELL (p + d) sz) (p0 - d) \<longleftrightarrow> 2 * d \<le> p0 - p" by (auto simp: crosses_def)
  have h2: "down = (\<exists>x\<in>set ?xs. crosses (opposite SELL) (quote_order k2 SELL (p + d) sz) (fst (snd x)))"
    using not_new old down by (auto simp: 1(5) one_quote_def)
  have dn: "\<not> up \<and> \<not> p0 < p" if down using that down up p by auto
  have xs_down: "?xs = [(kb, p0 - d, sz), (k1, p - d, sz)]" if down
    using that dn down by (auto simp: 1(5) one_quote_def)
  have pre2: "p + d \<noteq> p0 + d" "quotes (opposite SELL) b1 = ?xs" "k2 \<notin> fst ` set ?xs" "k2 \<noteq> ka"
    using ids p by (auto simp: 1(5) one_quote_def split: if_splits)
  have top: "x = hd ?xs \<and> snd (snd x) = sz"
    if x: "x \<in> set ?xs" "crosses (opposite SELL) (quote_order k2 SELL (p + d) sz) (fst (snd x))" for x
  proof -
    from x h2 have "?xs = [(kb, p0 - d, sz), (k1, p - d, sz)]" using xs_down by blast
    with x not_new show ?thesis by auto
  qed
  obtain fills2 b2 where 2: "book_submit b1 (quote_order k2 SELL (p + d) sz) = (fills2, b2)" "book_inv b2"
    "map fill_key fills2 = (if down then [(fst (hd ?xs), k2, BUY, fst (snd (hd ?xs)), sz)] else [])"
    "quotes BUY b2 = (if down then tl ?xs else ?xs)"
    "quotes SELL b2 = (if down then one_quote (ask \<and> \<not> up) ka (p0 + d) sz
       else if p + d < p0 + d then (k2, p + d, sz) # one_quote (ask \<and> \<not> up) ka (p0 + d) sz
       else one_quote (ask \<and> \<not> up) ka (p0 + d) sz @ [(k2, p + d, sz)])"
    by (rule requote_side_book [OF 1(2) sz s1 pre2 top h2, unfolded opposite.simps better.simps])
  have fills2: "map fill_key fills2 = (if down then [(kb, k2, BUY, p0 - d, sz)] else [])"
    using 2(3) xs_down by simp
  obtain ok3 b3 where 3: "book_cancel b2 kb = (ok3, b3)" by (cases "book_cancel b2 kb")
  obtain ok4 b4 where 4: "book_cancel b3 ka = (ok4, b4)" by (cases "book_cancel b3 ka")
  note c3 = cancel_quotes [OF 2(2) 3]
  note c4 = cancel_quotes [OF c3(1) 4]
  have b1_ids: "set ?xs \<subseteq> {(k1, p - d, sz), (kb, p0 - d, sz)}" by (auto simp: 1(5) one_quote_def)
  have bq: "quotes BUY b2 = (if down then [(k1, p - d, sz)] else ?xs)" using 2(4) xs_down by simp
  have "ok3 = book_contains b2 kb" using book_cancel_entries [OF 2(2) 3] by blast
  also have "\<dots> = (bid \<and> \<not> down)"
    using ids by (auto simp: contains_quotes [OF 2(2), of _ BUY] bq 2(5) 1(5) one_quote_def)
  finally have ok3: "ok3 = (bid \<and> \<not> down)" .
  have "ok4 = book_contains b3 ka" using book_cancel_entries [OF c3(1) 4] by blast
  also have "\<dots> = (ask \<and> \<not> up)"
    using ids by (auto simp: contains_quotes [OF c3(1), of _ BUY] c3(2) bq 2(5) 1(5) one_quote_def image_iff)
  finally have ok4: "ok4 = (ask \<and> \<not> up)" .
  have "quotes BUY b4 = one_quote (\<not> up) k1 (p - d) sz" "quotes SELL b4 = one_quote (\<not> down) k2 (p + d) sz"
    using ids dn by (auto simp: c4(2) c3(2) bq 2(5) 1(5) one_quote_def)
  moreover have "\<not> book_contains b k1" "\<not> book_contains b1 k2"
    using ids b1_ids by (auto simp: contains_quotes [OF b, of _ BUY] contains_quotes [OF 1(2), of _ BUY] q s1 one_quote_def)
  ultimately show ?thesis using 1(1,2) 2(1,2) 3 4 c3(1) c4(1) ok3 ok4 fills1 fills2
    by (intro that [of fills1 b1 fills2 b2 b3 b4]) simp_all
qed

section \<open>The quoter's requests at the server\<close>

fun request_of :: "StrategyAction \<Rightarrow> Request" where
  "request_of (Order_Action r) = New_Order_Request (wire_of_order
     \<lparr>com_client_order_id = or_order_id r, com_side = or_side r, com_order_type = or_order_type r,
      com_price_ticks = (if or_order_type r = MARKET then 0 else or_price_ticks r), com_quantity = or_quantity r\<rparr>)"
| "request_of (Cancel_Action c) = Cancel_Request (word_of_int (cr_order_id c))"

lemma encode_new_order_Inr: "encode_new_order m = Inr bs \<Longrightarrow> order_in_range m"
  using encode_new_order_out_of_range [of m] by (cases "order_in_range m") auto

lemma encode_cancel_Inr: "encode_cancel m = Inr bs \<Longrightarrow> cancel_in_range m"
  by (cases "cancel_in_range m") (auto simp: encode_cancel_def CANCEL_FMT_def cancel_in_range_def pack_unsigned_def)

lemma int64_ok_in_range: "order_in_range m \<Longrightarrow> int64_ok (wo_price_ticks (wire_of_order m))"
  by (simp add: order_in_range_def int64_ok_def wire_of_order_def)

text \<open>The engine parses the bytes of an action to its request.\<close>

lemma parse_action:
  assumes "action_msg a = Inr bs"
  shows "parse_requests (bs @ rest) = (case parse_requests rest of (rs, left) \<Rightarrow> (request_of a # rs, left))"
proof (cases a)
  case (Order_Action r)
  let ?m = "\<lparr>com_client_order_id = or_order_id r, com_side = or_side r, com_order_type = or_order_type r,
      com_price_ticks = (if or_order_type r = MARKET then 0 else or_price_ticks r), com_quantity = or_quantity r\<rparr>"
  from assms Order_Action have e: "encode_new_order ?m = Inr bs" by simp
  note r = encode_new_order_Inr [OF e]
  from e encode_new_order_engine [OF r] have bs: "bs = tag_byte NEW_ORDER # engine_encode_order (wire_of_order ?m)" by simp
  have "tag_byte NEW_ORDER = 1" by (simp add: tag_byte_def)
  with bs Order_Action engine_order_round [OF int64_ok_in_range [OF r]] show ?thesis
    by (simp add: engine_payload_size_def split: prod.splits)
next
  case (Cancel_Action c)
  from assms Cancel_Action have e: "encode_cancel \<lparr>cm_client_order_id = cr_order_id c\<rparr> = Inr bs" by simp
  from e encode_cancel_engine [OF encode_cancel_Inr [OF e]]
  have bs: "bs = tag_byte CANCEL # engine_encode_cancel (word_of_int (cr_order_id c))" by simp
  have "tag_byte CANCEL = 2" by (simp add: tag_byte_def)
  moreover have "engine_decode_cancel (engine_encode_cancel k) = k" for k
    by (simp add: engine_decode_cancel_def engine_encode_cancel_def)
  ultimately show ?thesis using bs Cancel_Action
    by (simp add: engine_payload_size_def split: prod.splits)
qed

lemma parse_actions:
  "map action_msg acts = map Inr msgs \<Longrightarrow> parse_requests (concat msgs @ rest) =
     (case parse_requests rest of (rs, left) \<Rightarrow> (map request_of acts @ rs, left))"
proof (induction acts arbitrary: msgs)
  case (Cons a acts)
  then obtain m ms where m: "msgs = m # ms" "action_msg a = Inr m" "map action_msg acts = map Inr ms" by auto
  from parse_action [OF m(2), of "concat ms @ rest"] Cons.IH [OF m(3)] m(1) show ?case
    by (simp split: prod.splits)
qed simp

subsection \<open>A connection that is alone\<close>

definition lone :: "nat \<Rightarrow> Server \<Rightarrow> bool" where
  "lone fd s \<longleftrightarrow> book_inv (sv_book s) \<and> map (\<lambda>c. (cn_fd c, cn_subscribed_to_fills c)) (sv_connections s) = [(fd, False)] \<and>
     ran (sv_order_owner_fd s) \<subseteq> {fd}"

lemma lone_deliveries:
  assumes "lone fd s"
  shows "deliveries fd (sv_order_owner_fd s k) (sv_connections s) f = [(fd, fill_msg f)]"
proof -
  have "sv_order_owner_fd s k = None \<or> sv_order_owner_fd s k = Some fd"
    using assms by (cases "sv_order_owner_fd s k") (auto simp: lone_def ran_def)
  with assms show ?thesis by (auto simp: deliveries_def recipients_def addressees_def lone_def)
qed

lemma ran_forget: "ran (forget_filled b fills m) \<subseteq> ran m"
proof (induction fills arbitrary: m)
  case (Cons f fills)
  let ?m = "if book_contains b (fl_resting_order_id f) then m else m(fl_resting_order_id f := None)"
  have "forget_filled b (f # fills) m = forget_filled b fills ?m" by (simp add: forget_filled_def)
  moreover have "ran ?m \<subseteq> ran m" by (auto simp: ran_def)
  ultimately show ?case using Cons [of ?m] by (simp only:)
qed (simp add: forget_filled_def)

lemma lone_new_order:
  assumes l: "lone fd s" and new: "\<not> book_contains (sv_book s) (wo_client_order_id m)"
    and sub: "book_submit (sv_book s) (order_of_msg m) = (fills, b')"
  shows "lone fd (dispatch_new_order fd m s)" "sv_book (dispatch_new_order fd m s) = b'"
    "filter (Not \<circ> is_ack) (sv_sent (dispatch_new_order fd m s)) =
       filter (Not \<circ> is_ack) (sv_sent s) @ map (\<lambda>f. (fd, fill_msg f)) fills"
proof -
  have b: "book_inv (sv_book s)" using l by (simp add: lone_def)
  note e = dispatch_new_order_eq [OF b new sub, of fd, unfolded lone_deliveries [OF l]]
  show "sv_book (dispatch_new_order fd m s) = b'" by (simp add: e)
  have c: "concat (map (\<lambda>f. [(fd, fill_msg f)]) fills) = map (\<lambda>f. (fd, fill_msg f)) fills" by (induction fills) simp_all
  have "filter (Not \<circ> is_ack) (map (\<lambda>f. (fd, fill_msg f)) fills) = map (\<lambda>f. (fd, fill_msg f)) fills"
    by (auto simp: is_ack_def fill_msg_def intro!: filter_True)
  then show "filter (Not \<circ> is_ack) (sv_sent (dispatch_new_order fd m s)) =
       filter (Not \<circ> is_ack) (sv_sent s) @ map (\<lambda>f. (fd, fill_msg f)) fills"
    by (simp add: e c)
  have "ran (if book_contains b' k then (sv_order_owner_fd s)(k \<mapsto> fd) else sv_order_owner_fd s) \<subseteq> {fd}" for k
    using l by (auto simp: lone_def ran_def)
  then have "ran (owners_after fd (wo_client_order_id m) fills b' (sv_order_owner_fd s)) \<subseteq> {fd}"
    unfolding owners_after_def using ran_forget by (meson order_trans)
  moreover have "book_inv b'" using submit_refines [OF b sub] by blast
  ultimately show "lone fd (dispatch_new_order fd m s)" using l by (simp add: lone_def e)
qed

lemma lone_cancel:
  assumes l: "lone fd s" and c: "book_cancel (sv_book s) k = (ok, b')"
  shows "lone fd (dispatch_cancel fd k s)" "sv_book (dispatch_cancel fd k s) = b'"
    "filter (Not \<circ> is_ack) (sv_sent (dispatch_cancel fd k s)) = filter (Not \<circ> is_ack) (sv_sent s)"
proof -
  have "book_inv b'" using cancel_refines [OF _ c] l by (auto simp: lone_def)
  moreover have "ran ((sv_order_owner_fd s)(k := None)) \<subseteq> {fd}" using l by (auto simp: lone_def ran_def)
  ultimately show "lone fd (dispatch_cancel fd k s)" using l by (simp add: lone_def dispatch_cancel_eq [OF c])
  show "sv_book (dispatch_cancel fd k s) = b'"
    "filter (Not \<circ> is_ack) (sv_sent (dispatch_cancel fd k s)) = filter (Not \<circ> is_ack) (sv_sent s)"
    by (simp_all add: dispatch_cancel_eq [OF c])
qed

section \<open>The quoter alone\<close>

text \<open>
  What the two quotes of a lone quoter do on a price, with no book: the last price and
  whether each quote rests, and the trades, each the side and the price of the quote that
  was taken.
\<close>

type_synonym Lone = "(int \<times> bool \<times> bool) option"

fun lone_tick :: "int \<Rightarrow> Lone \<Rightarrow> int \<Rightarrow> Lone \<times> (Side \<times> int) list" where
  "lone_tick off None p = (Some (p, True, True), [])"
| "lone_tick off (Some (p0, bid, ask)) p =
     (if p = p0 then (Some (p0, bid, ask), [])
      else let up = (ask \<and> 2 * off \<le> p - p0); down = (bid \<and> 2 * off \<le> p0 - p)
           in (Some (p, \<not> up, \<not> down),
               (if up then [(SELL, p0 + off)] else []) @ (if down then [(BUY, p0 - off)] else [])))"

definition lone_run :: "int \<Rightarrow> int list \<Rightarrow> Lone \<times> (Side \<times> int) list" where
  "lone_run off ps = fold (\<lambda>p (st, traded). case lone_tick off st p of (st', t) \<Rightarrow> (st', traded @ t)) ps (None, [])"

lemma lone_run_snoc:
  "lone_run off (ps @ [p]) =
     (case lone_run off ps of (st, traded) \<Rightarrow> case lone_tick off st p of (st', t) \<Rightarrow> (st', traded @ t))"
  by (simp add: lone_run_def)

text \<open>The quoter, the server and that automaton in step.\<close>

definition tracked :: "FixedOffsetQuoter \<Rightarrow> OrderBook \<Rightarrow> Lone \<Rightarrow> (int \<Rightarrow> bool) \<Rightarrow> bool" where
  "tracked q b st older \<longleftrightarrow> (case st of
     None \<Rightarrow> fq_resting_buy q = None \<and> fq_resting_sell q = None \<and> fq_ids q = 1 \<and> quotes BUY b = [] \<and> quotes SELL b = []
   | Some (p, bid, ask) \<Rightarrow> \<exists>kb ka. fq_resting_buy q = Some (kb, p - fq_offset q) \<and> fq_resting_sell q = Some (ka, p + fq_offset q) \<and>
       1 \<le> kb \<and> kb < fq_ids q \<and> 1 \<le> ka \<and> ka < fq_ids q \<and> kb \<noteq> ka \<and> fq_ids q \<le> 2 ^ 64 \<and>
       quotes BUY b = one_quote bid (word_of_int kb) (p - fq_offset q) (word_of_int (fq_size q)) \<and>
       quotes SELL b = one_quote ask (word_of_int ka) (p + fq_offset q) (word_of_int (fq_size q)) \<and>
       (\<forall>k. older k \<longrightarrow> k < kb \<and> k < ka))"

definition trade_view :: "Fill \<Rightarrow> Side \<times> int \<times> 32 word" where
  "trade_view f = (fl_resting_side f, fl_price_ticks f, fl_quantity f)"

definition own_fill :: "int \<Rightarrow> Fill \<Rightarrow> bool" where
  "own_fill n f \<longleftrightarrow> uint (fl_resting_order_id f) \<in> {1..<n} \<and> uint (fl_incoming_order_id f) \<in> {1..<n}"

definition quoting :: "nat \<Rightarrow> FixedOffsetQuoter \<Rightarrow> Server \<Rightarrow> Lone \<Rightarrow> (Side \<times> int) list \<Rightarrow> bool" where
  "quoting fd q s st traded \<longleftrightarrow> lone fd s \<and> (\<exists>fs.
     filter (Not \<circ> is_ack) (sv_sent s) = map (\<lambda>f. (fd, fill_msg f)) fs \<and>
     map trade_view fs = map (\<lambda>(sd, p). (sd, p, word_of_int (fq_size q))) traded \<and>
     (\<forall>f\<in>set fs. own_fill (fq_ids q) f) \<and>
     tracked q (sv_book s) st (\<lambda>k. k \<in> (uint \<circ> fl_resting_order_id) ` set fs))"

lemma word_ids_distinct:
  "0 \<le> j \<Longrightarrow> j < 2 ^ 64 \<Longrightarrow> 0 \<le> k \<Longrightarrow> k < 2 ^ 64 \<Longrightarrow> (word_of_int j :: 64 word) = word_of_int k \<longleftrightarrow> j = k"
  by (simp add: word_of_int_eq_iff take_bit_int_eq_self)

lemma uint_word_id: "0 \<le> j \<Longrightarrow> j < 2 ^ 64 \<Longrightarrow> uint (word_of_int j :: 64 word) = j"
  by (simp add: unsigned_of_int take_bit_int_eq_self)

lemma requote_order_msg:
  "order_of_msg (wire_of_order \<lparr>com_client_order_id = k, com_side = sd, com_order_type = LIMIT, com_price_ticks = p,
     com_quantity = n\<rparr>) = quote_order (word_of_int k) sd p (word_of_int n)"
  "wo_client_order_id (wire_of_order \<lparr>com_client_order_id = k, com_side = sd, com_order_type = LIMIT, com_price_ticks = p,
     com_quantity = n\<rparr>) = word_of_int k"
  by (cases sd; simp add: order_of_msg_def wire_of_order_def quote_order_def)+

text \<open>Two new orders at the server.\<close>

lemma two_orders:
  assumes l: "lone fd s" and f: "filter (Not \<circ> is_ack) (sv_sent s) = map (\<lambda>f. (fd, fill_msg f)) fs"
    and sub: "book_submit (sv_book s) (quote_order (word_of_int n) BUY pb (word_of_int sz)) = (fills1, b1)"
      "book_submit b1 (quote_order (word_of_int n2) SELL pa (word_of_int sz)) = (fills2, b2)"
    and new: "\<not> book_contains (sv_book s) (word_of_int n)" "\<not> book_contains b1 (word_of_int n2)"
  defines "r1 \<equiv> request_of (Order_Action \<lparr>or_order_id = n, or_side = BUY, or_order_type = LIMIT, or_price_ticks = pb, or_quantity = sz\<rparr>)"
    and "r2 \<equiv> request_of (Order_Action \<lparr>or_order_id = n2, or_side = SELL, or_order_type = LIMIT, or_price_ticks = pa, or_quantity = sz\<rparr>)"
  shows "lone fd (handle_request fd r2 (handle_request fd r1 s))" "sv_book (handle_request fd r2 (handle_request fd r1 s)) = b2"
    "filter (Not \<circ> is_ack) (sv_sent (handle_request fd r2 (handle_request fd r1 s))) =
       map (\<lambda>f. (fd, fill_msg f)) (fs @ fills1 @ fills2)"
proof -
  let ?m1 = "wire_of_order \<lparr>com_client_order_id = n, com_side = BUY, com_order_type = LIMIT, com_price_ticks = pb, com_quantity = sz\<rparr>"
  let ?m2 = "wire_of_order \<lparr>com_client_order_id = n2, com_side = SELL, com_order_type = LIMIT, com_price_ticks = pa, com_quantity = sz\<rparr>"
  note 1 = lone_new_order [OF l, of ?m1, unfolded requote_order_msg, OF new(1) sub(1)]
  note 2 = lone_new_order [OF 1(1), of ?m2, unfolded requote_order_msg 1(2), OF new(2) sub(2)]
  have r: "handle_request fd r1 s = dispatch_new_order fd ?m1 s" "handle_request fd r2 t = dispatch_new_order fd ?m2 t" for t
    by (simp_all add: r1_def r2_def)
  show "lone fd (handle_request fd r2 (handle_request fd r1 s))" "sv_book (handle_request fd r2 (handle_request fd r1 s)) = b2"
    "filter (Not \<circ> is_ack) (sv_sent (handle_request fd r2 (handle_request fd r1 s))) =
       map (\<lambda>f. (fd, fill_msg f)) (fs @ fills1 @ fills2)"
    unfolding r using 2 1(3) f by simp_all
qed

lemma cancel_absent: "\<not> book_contains b k \<Longrightarrow> book_cancel b k = (False, b)"
  by (cases "bk_order_index b k") (simp_all add: book_contains_def book_cancel_def)

lemma fill_key_if:
  assumes "map fill_key fills = (if c then [(k, i, sd, price, qty)] else [])"
  shows "map trade_view fills = (if c then [(sd, price, qty)] else [])"
    "f \<in> set fills \<Longrightarrow> fl_resting_order_id f = k \<and> fl_incoming_order_id f = i"
  using assms by (auto simp: fill_key_def trade_view_def split: if_splits)

lemma action_in_range:
  assumes "action_msg (Order_Action \<lparr>or_order_id = n, or_side = sd, or_order_type = LIMIT, or_price_ticks = pr, or_quantity = sz\<rparr>) = Inr m"
  shows "0 \<le> n \<and> n < 2 ^ 64 \<and> 0 \<le> sz \<and> sz < 2 ^ 32"
  using encode_new_order_Inr assms by (fastforce simp: order_in_range_def)

lemma word_size_nonzero: "0 < sz \<Longrightarrow> sz < 2 ^ 32 \<Longrightarrow> (word_of_int sz :: 32 word) \<noteq> 0"
proof -
  assume "0 < sz" "sz < 2 ^ 32"
  then have "uint (word_of_int sz :: 32 word) = sz" by (simp add: unsigned_of_int take_bit_int_eq_self)
  with \<open>0 < sz\<close> show ?thesis by auto
qed

lemma quoting_first_tick:
  assumes Q: "quoting fd q s None traded" and pos: "0 < fq_offset q" "0 < fq_size q"
    and tick: "quoter_on_price q p = (acts, q')" and ok: "\<forall>a\<in>set acts. \<exists>m. action_msg a = Inr m"
  shows "quoting fd q' (fold (handle_request fd) (map request_of acts) s) (Some (p, True, True)) traded"
proof -
  from Q obtain fs where l: "lone fd s" and f: "filter (Not \<circ> is_ack) (sv_sent s) = map (\<lambda>f. (fd, fill_msg f)) fs"
    and tv: "map trade_view fs = map (\<lambda>(sd, p). (sd, p, word_of_int (fq_size q))) traded"
    and own: "\<forall>f\<in>set fs. own_fill (fq_ids q) f"
    and q: "fq_resting_buy q = None" "fq_resting_sell q = None" "fq_ids q = 1" "quotes BUY (sv_book s) = []" "quotes SELL (sv_book s) = []"
    by (auto simp: quoting_def tracked_def)
  let ?d = "fq_offset q" and ?sz = "fq_size q"
  let ?a1 = "Order_Action \<lparr>or_order_id = 1, or_side = BUY, or_order_type = LIMIT, or_price_ticks = p - ?d, or_quantity = ?sz\<rparr>"
  let ?a2 = "Order_Action \<lparr>or_order_id = 2, or_side = SELL, or_order_type = LIMIT, or_price_ticks = p + ?d, or_quantity = ?sz\<rparr>"
  have acts: "acts = [?a1, ?a2]" "q' = q\<lparr>fq_ids := 3, fq_resting_buy := Some (1, p - ?d), fq_resting_sell := Some (2, p + ?d)\<rparr>"
  proof -
    have "quoter_on_price q p = ([?a1, ?a2], q\<lparr>fq_ids := 3, fq_resting_buy := Some (1, p - ?d), fq_resting_sell := Some (2, p + ?d)\<rparr>)"
      unfolding quoter_on_price_eq Let_def q by simp
    with tick show "acts = [?a1, ?a2]" "q' = q\<lparr>fq_ids := 3, fq_resting_buy := Some (1, p - ?d), fq_resting_sell := Some (2, p + ?d)\<rparr>"
      by (simp_all only: prod.inject)
  qed
  have fs: "fs = []" using own q(3) by (cases fs) (auto simp: own_fill_def)
  from ok acts(1) obtain m where "action_msg ?a1 = Inr m" by auto
  from word_size_nonzero [OF pos(2)] action_in_range [OF this] have sz: "(word_of_int ?sz :: 32 word) \<noteq> 0" by blast
  have b: "book_inv (sv_book s)" using l by (simp add: lone_def)
  have e: "quotes BUY (sv_book s) = one_quote False 3 (p + 1 - ?d) (word_of_int ?sz)"
    "quotes SELL (sv_book s) = one_quote False 4 (p + 1 + ?d) (word_of_int ?sz)" using q by (simp_all add: one_quote_def)
  obtain fills1 b1 fills2 b2 b3 b4 where r:
    "book_submit (sv_book s) (quote_order (word_of_int 1) BUY (p - ?d) (word_of_int ?sz)) = (fills1, b1)"
    "book_submit b1 (quote_order (word_of_int 2) SELL (p + ?d) (word_of_int ?sz)) = (fills2, b2)"
    "book_cancel b2 3 = (False, b3)" "book_cancel b3 4 = (False, b4)"
    "book_inv b1" "book_inv b2" "book_inv b3" "map fill_key fills1 = []" "map fill_key fills2 = []"
    "quotes BUY b4 = one_quote True (word_of_int 1) (p - ?d) (word_of_int ?sz)"
    "quotes SELL b4 = one_quote True (word_of_int 2) (p + ?d) (word_of_int ?sz)"
    "\<not> book_contains (sv_book s) (word_of_int 1)" "\<not> book_contains b1 (word_of_int 2)"
    by (rule requote_book [OF b e, of "word_of_int 1" "word_of_int 2" p False False]) (use pos(1) sz in simp_all)
  have "\<not> book_contains b2 3" using book_cancel_entries [OF r(6,3)] by blast
  from cancel_absent [OF this] r(3) have b3: "b3 = b2" by simp
  have "\<not> book_contains b3 4" using book_cancel_entries [OF r(7,4)] by blast
  from cancel_absent [OF this] r(4) have b4: "b4 = b2" using b3 by simp
  note t = two_orders [OF l f r(1,2,12,13)]
  have "own_fill 3 f" if "f \<in> set fs" for f using that fs by simp
  with t r(8-11) fs tv show ?thesis unfolding acts
    by (auto simp: quoting_def tracked_def b4 intro!: exI [of _ "[]"])
qed

lemma quoting_next_tick:
  assumes Q: "quoting fd q s (Some (p0, bid, ask)) traded" and pos: "0 < fq_offset q" "0 < fq_size q" and p: "p \<noteq> p0"
    and tick: "quoter_on_price q p = (acts, q')" and ok: "\<forall>a\<in>set acts. \<exists>m. action_msg a = Inr m"
    and up: "up = (ask \<and> 2 * fq_offset q \<le> p - p0)" and down: "down = (bid \<and> 2 * fq_offset q \<le> p0 - p)"
  shows "quoting fd q' (fold (handle_request fd) (map request_of acts) s) (Some (p, \<not> up, \<not> down))
    (traded @ (if up then [(SELL, p0 + fq_offset q)] else []) @ (if down then [(BUY, p0 - fq_offset q)] else []))"
proof -
  let ?d = "fq_offset q" and ?sz = "fq_size q" and ?n = "fq_ids q"
  let ?z = "word_of_int ?sz :: 32 word"
  from Q obtain fs kb ka where l: "lone fd s" and f: "filter (Not \<circ> is_ack) (sv_sent s) = map (\<lambda>f. (fd, fill_msg f)) fs"
    and tv: "map trade_view fs = map (\<lambda>(sd, p). (sd, p, ?z)) traded"
    and own: "\<forall>f\<in>set fs. own_fill ?n f"
    and q: "fq_resting_buy q = Some (kb, p0 - ?d)" "fq_resting_sell q = Some (ka, p0 + ?d)"
    and k: "1 \<le> kb" "kb < ?n" "1 \<le> ka" "ka < ?n" "kb \<noteq> ka" "?n \<le> 2 ^ 64"
    and bq: "quotes BUY (sv_book s) = one_quote bid (word_of_int kb) (p0 - ?d) ?z"
      "quotes SELL (sv_book s) = one_quote ask (word_of_int ka) (p0 + ?d) ?z"
    by (auto simp: quoting_def tracked_def)
  let ?a1 = "Order_Action \<lparr>or_order_id = ?n, or_side = BUY, or_order_type = LIMIT, or_price_ticks = p - ?d, or_quantity = ?sz\<rparr>"
  let ?a2 = "Order_Action \<lparr>or_order_id = ?n + 1, or_side = SELL, or_order_type = LIMIT, or_price_ticks = p + ?d, or_quantity = ?sz\<rparr>"
  have acts: "acts = [?a1, ?a2, Cancel_Action \<lparr>cr_order_id = kb\<rparr>, Cancel_Action \<lparr>cr_order_id = ka\<rparr>]"
    "q' = q\<lparr>fq_ids := ?n + 2, fq_resting_buy := Some (?n, p - ?d), fq_resting_sell := Some (?n + 1, p + ?d)\<rparr>"
  proof -
    have "quoter_on_price q p = ([?a1, ?a2, Cancel_Action \<lparr>cr_order_id = kb\<rparr>, Cancel_Action \<lparr>cr_order_id = ka\<rparr>],
        q\<lparr>fq_ids := ?n + 2, fq_resting_buy := Some (?n, p - ?d), fq_resting_sell := Some (?n + 1, p + ?d)\<rparr>)"
      unfolding quoter_on_price_eq Let_def q using p by simp
    with tick show "acts = [?a1, ?a2, Cancel_Action \<lparr>cr_order_id = kb\<rparr>, Cancel_Action \<lparr>cr_order_id = ka\<rparr>]"
      "q' = q\<lparr>fq_ids := ?n + 2, fq_resting_buy := Some (?n, p - ?d), fq_resting_sell := Some (?n + 1, p + ?d)\<rparr>"
      by (simp_all only: prod.inject)
  qed
  from ok acts(1) obtain m1 m2 where "action_msg ?a1 = Inr m1" "action_msg ?a2 = Inr m2" by auto
  note rng = action_in_range [OF this(1)] action_in_range [OF this(2)]
  have sz: "?z \<noteq> 0" using word_size_nonzero [OF pos(2)] rng(1) by blast
  have b: "book_inv (sv_book s)" using l by (simp add: lone_def)
  have ids: "distinct [word_of_int kb :: 64 word, word_of_int ka, word_of_int ?n, word_of_int (?n + 1)]"
    using k rng word_ids_distinct [of kb ka] word_ids_distinct [of kb ?n] word_ids_distinct [of ka ?n]
      word_ids_distinct [of kb "?n + 1"] word_ids_distinct [of ka "?n + 1"] word_ids_distinct [of ?n "?n + 1"] by simp
  obtain fills1 b1 fills2 b2 b3 b4 where r:
    "book_submit (sv_book s) (quote_order (word_of_int ?n) BUY (p - ?d) ?z) = (fills1, b1)"
    "book_submit b1 (quote_order (word_of_int (?n + 1)) SELL (p + ?d) ?z) = (fills2, b2)"
    "book_cancel b2 (word_of_int kb) = (bid \<and> \<not> down, b3)" "book_cancel b3 (word_of_int ka) = (ask \<and> \<not> up, b4)"
    "map fill_key fills1 = (if up then [(word_of_int ka, word_of_int ?n, SELL, p0 + ?d, ?z)] else [])"
    "map fill_key fills2 = (if down then [(word_of_int kb, word_of_int (?n + 1), BUY, p0 - ?d, ?z)] else [])"
    "quotes BUY b4 = one_quote (\<not> up) (word_of_int ?n) (p - ?d) ?z"
    "quotes SELL b4 = one_quote (\<not> down) (word_of_int (?n + 1)) (p + ?d) ?z"
    "\<not> book_contains (sv_book s) (word_of_int ?n)" "\<not> book_contains b1 (word_of_int (?n + 1))"
    by (rule requote_book [OF b bq ids p pos(1) sz up down])
  note t = two_orders [OF l f r(1,2,9,10)]
  note c3 = lone_cancel [OF t(1) r(3) [folded t(2)]]
  note c4 = lone_cancel [OF c3(1) r(4) [folded c3(2)]]
  let ?s = "fold (handle_request fd) (map request_of acts) s"
  have s: "lone fd ?s" "sv_book ?s = b4" "filter (Not \<circ> is_ack) (sv_sent ?s) = map (\<lambda>f. (fd, fill_msg f)) (fs @ fills1 @ fills2)"
    unfolding acts(1) using c4 c3(3) t(3) by simp_all
  note v1 = fill_key_if [OF r(5)] and v2 = fill_key_if [OF r(6)]
  have uint: "uint (word_of_int kb :: 64 word) = kb" "uint (word_of_int ka :: 64 word) = ka"
    "uint (word_of_int ?n :: 64 word) = ?n" "uint (word_of_int (?n + 1) :: 64 word) = ?n + 1"
    using k rng by (intro uint_word_id; simp)+
  have older: "1 \<le> uint (fl_resting_order_id f) \<and> uint (fl_resting_order_id f) < ?n" if "f \<in> set (fs @ fills1 @ fills2)" for f
    using that own v1(2) v2(2) k uint by (auto simp: own_fill_def)
  have inc: "1 \<le> uint (fl_incoming_order_id f) \<and> uint (fl_incoming_order_id f) < ?n + 2" if "f \<in> set (fs @ fills1 @ fills2)" for f
  proof -
    from that consider "f \<in> set fs" | "f \<in> set fills1" | "f \<in> set fills2" by auto
    then show ?thesis using own v1(2) v2(2) k uint by cases (auto simp: own_fill_def)
  qed
  have "map trade_view (fs @ fills1 @ fills2) = map (\<lambda>(sd, p). (sd, p, ?z))
      (traded @ (if up then [(SELL, p0 + ?d)] else []) @ (if down then [(BUY, p0 - ?d)] else []))"
    using tv v1(1) v2(1) by simp
  moreover have "\<forall>f\<in>set (fs @ fills1 @ fills2). own_fill (?n + 2) f" using older inc by (force simp: own_fill_def)
  moreover have "tracked q' b4 (Some (p, \<not> up, \<not> down)) (\<lambda>k. k \<in> (uint \<circ> fl_resting_order_id) ` set (fs @ fills1 @ fills2))"
  proof -
    have "\<forall>k. k \<in> (uint \<circ> fl_resting_order_id) ` set (fs @ fills1 @ fills2) \<longrightarrow> k < ?n \<and> k < ?n + 1"
      using older by force
    then show ?thesis using r(7,8) k rng by (simp add: tracked_def acts(2))
  qed
  ultimately show ?thesis unfolding quoting_def using s acts(2) by (intro conjI exI [of _ "fs @ fills1 @ fills2"]) simp_all
qed

lemma quoting_tick:
  assumes Q: "quoting fd q s st traded" and pos: "0 < fq_offset q" "0 < fq_size q"
    and tick: "quoter_on_price q p = (acts, q')" and ok: "\<forall>a\<in>set acts. \<exists>m. action_msg a = Inr m"
    and lt: "lone_tick (fq_offset q) st p = (st', t)"
  shows "quoting fd q' (fold (handle_request fd) (map request_of acts) s) st' (traded @ t)"
proof (cases st)
  case None
  with quoting_first_tick [OF Q [unfolded None] pos tick ok] lt show ?thesis by simp
next
  case (Some x)
  obtain p0 bid ask where x: "x = (p0, bid, ask)" by (cases x)
  show ?thesis
  proof (cases "p = p0")
    case True
    from Q Some x obtain kb ka where "fq_resting_buy q = Some (kb, p0 - fq_offset q)" "fq_resting_sell q = Some (ka, p0 + fq_offset q)"
      by (auto simp: quoting_def tracked_def)
    then have "quoter_on_price q p = ([], q)" unfolding quoter_on_price_eq Let_def True by simp
    with tick have "acts = []" "q' = q" by (simp_all only: prod.inject)
    with Q Some x True lt show ?thesis by simp
  next
    case False
    with quoting_next_tick [OF Q [unfolded Some x] pos False tick ok refl refl] lt Some x show ?thesis
      by (simp add: Let_def)
  qed
qed

section \<open>The closed loop\<close>

text \<open>
  The quoter on connection \<open>fd\<close> of a server with no other connection.  \<open>vn_in_flight\<close> are
  the bytes it has sent that the server has not received, \<open>vn_taken\<close> how many of the
  messages sent to it the quoter's side has taken.
\<close>

record Venue =
  vn_quoter :: FixedOffsetQuoter
  vn_in_flight :: bytes
  vn_server :: Server
  vn_taken :: nat

definition lone_server :: "nat \<Rightarrow> Server" where
  "lone_server fd = poll_pass [fd] [] server_init"

inductive venue_run :: "nat \<Rightarrow> int \<Rightarrow> int \<Rightarrow> int list \<Rightarrow> Venue \<Rightarrow> bool" for fd offset_ticks sz where
  connected: "venue_run fd offset_ticks sz []
    \<lparr>vn_quoter = quoter_init offset_ticks sz, vn_in_flight = [], vn_server = lone_server fd, vn_taken = 0\<rparr>"
| price: "venue_run fd offset_ticks sz ps v \<Longrightarrow> quoter_on_price (vn_quoter v) p = (acts, q) \<Longrightarrow>
    map action_msg acts = map Inr msgs \<Longrightarrow>
    venue_run fd offset_ticks sz (ps @ [p]) (v\<lparr>vn_quoter := q, vn_in_flight := vn_in_flight v @ concat msgs\<rparr>)"
| arrive: "venue_run fd offset_ticks sz ps v \<Longrightarrow> vn_in_flight v = chunk @ rest \<Longrightarrow>
    venue_run fd offset_ticks sz ps (v\<lparr>vn_in_flight := rest, vn_server := service (fd, Recv_Bytes chunk) (vn_server v)\<rparr>)"
| take_ack: "venue_run fd offset_ticks sz ps v \<Longrightarrow> vn_taken v < length (sent_to fd (vn_server v)) \<Longrightarrow>
    decode_msg (sent_to fd (vn_server v) ! vn_taken v) = Inr (Ack_Event a) \<Longrightarrow>
    venue_run fd offset_ticks sz ps (v\<lparr>vn_taken := vn_taken v + 1\<rparr>)"
| take_fill: "venue_run fd offset_ticks sz ps v \<Longrightarrow> vn_taken v < length (sent_to fd (vn_server v)) \<Longrightarrow>
    decode_msg (sent_to fd (vn_server v) ! vn_taken v) = Inr (Fill_Event f) \<Longrightarrow>
    venue_run fd offset_ticks sz ps (v\<lparr>vn_quoter := quoter_on_fill (vn_quoter v) f, vn_taken := vn_taken v + 1\<rparr>)"

subsection \<open>Its invariant\<close>

text \<open>
  What has been sent is a stream of requests; the server has answered a prefix of its bytes,
  and answering all of it would leave it in step with the automaton of the lone quoter.
\<close>

definition venue_inv :: "nat \<Rightarrow> int \<Rightarrow> int \<Rightarrow> int list \<Rightarrow> Venue \<Rightarrow> bool" where
  "venue_inv fd offset_ticks sz ps v \<longleftrightarrow> fq_offset (vn_quoter v) = offset_ticks \<and> fq_size (vn_quoter v) = sz \<and>
     (\<exists>seen rs. parse_requests (seen @ vn_in_flight v) = (rs, Some []) \<and>
       vn_server v = answer_stream fd (parse_requests seen) (lone_server fd) \<and>
       quoting fd (vn_quoter v) (fold (handle_request fd) rs (lone_server fd))
         (fst (lone_run offset_ticks ps)) (snd (lone_run offset_ticks ps)))"

lemma lone_server_eq:
  "lone_server fd = \<lparr>sv_book = book_init, sv_connections = [\<lparr>cn_fd = fd, cn_read_buf = [], cn_subscribed_to_fills = False\<rparr>],
     sv_order_owner_fd = (\<lambda>_. None), sv_sent = []\<rparr>"
  by (simp add: lone_server_def poll_pass_def server_init_def accept_new_connections_def)

lemma lone_server_start: "quoting fd (quoter_init offset_ticks sz) (lone_server fd) None []"
proof -
  have "quotes sd book_init = []" for sd by (cases sd) (simp_all add: quotes_def book_init_def)
  then show ?thesis by (simp add: quoting_def lone_def lone_server_eq tracked_def quoter_init_def)
qed

lemma quoter_on_price_params:
  "quoter_on_price q p = (acts, q') \<Longrightarrow> fq_offset q' = fq_offset q \<and> fq_size q' = fq_size q"
  unfolding quoter_on_price_eq Let_def by auto

text \<open>The server side: receiving one more chunk of the stream.\<close>

lemma stream_open:
  assumes "parse_requests (seen @ more_bytes) = (rs, Some left)"
  obtains rs1 left1 rs2 where "parse_requests seen = (rs1, Some left1)" "rs = rs1 @ rs2"
proof -
  obtain rs1 rest where p: "parse_requests seen = (rs1, rest)" by (cases "parse_requests seen")
  with assms parse_requests_append [of seen more_bytes] obtain left1 where l: "rest = Some left1" by (cases rest) auto
  obtain rs2 rest2 where "parse_requests (left1 @ more_bytes) = (rs2, rest2)" by (cases "parse_requests (left1 @ more_bytes)")
  with assms parse_requests_append [of seen more_bytes] p l have "rs = rs1 @ rs2" by simp
  with p l show ?thesis by (intro that) simp_all
qed

lemma answer_stream_more:
  assumes p: "parse_requests seen = (rs1, Some left1)" and fd: "fd \<in> set (open_fds s)"
  shows "service (fd, Recv_Bytes chunk) (answer_stream fd (parse_requests seen) s) =
    answer_stream fd (parse_requests (seen @ chunk)) s"
proof -
  let ?t = "fold (handle_request fd) rs1 s"
  have "fd \<in> set (open_fds ?t)" using fd by (simp add: fold_requests_fds)
  from find_set_read_buf [OF this] obtain c where
    c: "find_connection fd (set_read_buf fd left1 ?t) = Some c" "cn_read_buf c = left1" by blast
  obtain rs2 rest where p2: "parse_requests (left1 @ chunk) = (rs2, rest)" by (cases "parse_requests (left1 @ chunk)")
  have "service (fd, Recv_Bytes chunk) (answer_stream fd (parse_requests seen) s) = answer_stream fd (rs2, rest) ?t"
    using service_bytes [OF c(1)] by (simp add: p c(2) p2 answer_stream_set_read_buf)
  also have "\<dots> = answer_stream fd (rs1 @ rs2, rest) s" by (cases rest) simp_all
  finally show ?thesis by (simp add: parse_requests_append [of seen] p p2)
qed

lemma requests_log_grows: "desk_inv s \<Longrightarrow> \<forall>r\<in>set rs. request_ok r \<Longrightarrow> prefix (sv_sent s) (sv_sent (fold (handle_request fd) rs s))"
  using requests_answers [of s rs fd] by (auto simp: prefix_def)

lemma requests_desk: "desk_inv s \<Longrightarrow> \<forall>r\<in>set rs. request_ok r \<Longrightarrow> desk_inv (fold (handle_request fd) rs s)"
  by (induction rs arbitrary: s) (simp_all add: handle_request_desk)

lemma lone_server_desk: "desk_inv (lone_server fd)"
proof -
  have "serving (lone_server fd)" unfolding lone_server_def
    by (rule serving.pass [OF serving.listening]) (simp_all add: open_fds_def server_init_def)
  from serving_inv [OF this] show ?thesis by (simp add: server_inv_def)
qed

lemma decode_fill_msg:
  "decode_msg (fill_msg f) = Inr (Fill_Event \<lparr>fe_resting_order_id = uint (fl_resting_order_id f),
     fe_incoming_order_id = uint (fl_incoming_order_id f), fe_resting_side = fl_resting_side f,
     fe_price_ticks = to_int64 (to_uint64 (fl_price_ticks f)), fe_quantity = uint (fl_quantity f),
     fe_timestamp = uint (fl_timestamp f)\<rparr>)"
proof -
  let ?m = "\<lparr>wf_resting_order_id = fl_resting_order_id f, wf_incoming_order_id = fl_incoming_order_id f,
        wf_resting_side = (case fl_resting_side f of BUY \<Rightarrow> 0 | SELL \<Rightarrow> 1),
        wf_price_ticks = fl_price_ticks f, wf_quantity = fl_quantity f, wf_timestamp = fl_timestamp f\<rparr>"
  have "engine_encode_fill ?m = engine_encode_fill (?m\<lparr>wf_price_ticks := to_int64 (to_uint64 (fl_price_ticks f))\<rparr>)"
    by (simp add: engine_encode_fill_def)
  with decode_fill_engine [where m = ?m and price = "to_uint64 (fl_price_ticks f)"] show ?thesis
    by (cases "fl_resting_side f") (simp_all add: decode_msg_def fill_msg_def decode_event_def)
qed

lemma decode_ack_msg: "is_ack (d, msg) \<Longrightarrow> decode_msg msg \<noteq> Inr (Fill_Event fe)"
  by (auto simp: is_ack_def decode_msg_def decode_event_def)

text \<open>A fill the server has sent never names an order the quoter still tracks.\<close>

lemma quoting_fill_ignored:
  assumes Q: "quoting fd q s st traded" and m: "msg \<in> set (sent_to fd s)" "decode_msg msg = Inr (Fill_Event fe)"
  shows "quoter_on_fill q fe = q \<and> fe_resting_order_id fe \<in> {1..<fq_ids q} \<and> fe_incoming_order_id fe \<in> {1..<fq_ids q}"
proof -
  from Q obtain fs where f: "filter (Not \<circ> is_ack) (sv_sent s) = map (\<lambda>f. (fd, fill_msg f)) fs"
    and own: "\<forall>f\<in>set fs. own_fill (fq_ids q) f"
    and t: "tracked q (sv_book s) st (\<lambda>k. k \<in> (uint \<circ> fl_resting_order_id) ` set fs)"
    by (auto simp: quoting_def)
  from m(1) have mem: "(fd, msg) \<in> set (sv_sent s)" by (auto simp: sent_to_def)
  have "\<not> is_ack (fd, msg)" using m(2) decode_ack_msg by blast
  with mem have "(fd, msg) \<in> set (filter (Not \<circ> is_ack) (sv_sent s))" by simp
  then obtain g where g: "g \<in> set fs" "msg = fill_msg g" unfolding f by auto
  have ids: "fe_resting_order_id fe = uint (fl_resting_order_id g)" "fe_incoming_order_id fe = uint (fl_incoming_order_id g)"
    using m(2) unfolding g(2) decode_fill_msg by auto
  have "quoter_on_fill q fe = q"
  proof (cases st)
    case None
    with t show ?thesis by (simp add: tracked_def quoter_on_fill_def)
  next
    case (Some x)
    obtain p bid ask where x: "x = (p, bid, ask)" by (cases x)
    from t obtain kb ka where k: "fq_resting_buy q = Some (kb, p - fq_offset q)" "fq_resting_sell q = Some (ka, p + fq_offset q)"
      "\<forall>k. k \<in> (uint \<circ> fl_resting_order_id) ` set fs \<longrightarrow> k < kb \<and> k < ka"
      unfolding Some x tracked_def option.case prod.case by blast
    have "uint (fl_resting_order_id g) \<in> (uint \<circ> fl_resting_order_id) ` set fs" using g(1) by auto
    with k(3) have "uint (fl_resting_order_id g) < kb \<and> uint (fl_resting_order_id g) < ka" by blast
    with k(1,2) show ?thesis by (simp add: quoter_on_fill_def ids(1))
  qed
  with own g(1) ids show ?thesis by (simp add: own_fill_def)
qed

lemma venue_fill_ignored:
  assumes inv: "venue_inv fd offset_ticks sz ps v" and m: "msg \<in> set (sent_to fd (vn_server v))"
    and d: "decode_msg msg = Inr (Fill_Event fe)"
  shows "quoter_on_fill (vn_quoter v) fe = vn_quoter v \<and> fe_resting_order_id fe \<in> {1..<fq_ids (vn_quoter v)} \<and>
    fe_incoming_order_id fe \<in> {1..<fq_ids (vn_quoter v)}"
proof -
  from inv obtain seen rs where i: "parse_requests (seen @ vn_in_flight v) = (rs, Some [])"
    "vn_server v = answer_stream fd (parse_requests seen) (lone_server fd)"
    "quoting fd (vn_quoter v) (fold (handle_request fd) rs (lone_server fd))
       (fst (lone_run offset_ticks ps)) (snd (lone_run offset_ticks ps))"
    by (auto simp: venue_inv_def)
  obtain rs1 left1 rs2 where p: "parse_requests seen = (rs1, Some left1)" "rs = rs1 @ rs2"
    by (rule stream_open [OF i(1)])
  have ok: "\<forall>r\<in>set rs. request_ok r" using parse_requests_ok [of _ "seen @ vn_in_flight v"] by (simp add: i(1))
  let ?t = "fold (handle_request fd) rs1 (lone_server fd)"
  have "prefix (sv_sent ?t) (sv_sent (fold (handle_request fd) rs2 ?t))"
    using requests_log_grows requests_desk [OF lone_server_desk] ok p(2) by simp
  then have "set (sv_sent ?t) \<subseteq> set (sv_sent (fold (handle_request fd) rs (lone_server fd)))"
    using p(2) by (simp add: set_mono_prefix)
  moreover have "sv_sent (vn_server v) = sv_sent ?t"
    by (simp add: i(2) p(1) set_read_buf_def update_connection_def)
  ultimately have "msg \<in> set (sent_to fd (fold (handle_request fd) rs (lone_server fd)))"
    using m by (auto simp: sent_to_def)
  from quoting_fill_ignored [OF i(3) this d] show ?thesis .
qed

lemma venue_run_inv:
  "venue_run fd offset_ticks sz ps v \<Longrightarrow> 0 < offset_ticks \<Longrightarrow> 0 < sz \<Longrightarrow> venue_inv fd offset_ticks sz ps v"
proof (induction rule: venue_run.induct)
  case connected
  have "answer_stream fd (parse_requests []) (lone_server fd) = lone_server fd"
    by (simp add: lone_server_eq set_read_buf_def update_connection_def)
  with lone_server_start [of fd offset_ticks sz] show ?case unfolding venue_inv_def
    by (intro conjI exI [of _ "[]"]) (simp_all add: quoter_init_def lone_run_def)
next
  case (price ps v p acts q msgs)
  then have pos: "fq_offset (vn_quoter v) = offset_ticks" "fq_size (vn_quoter v) = sz" by (simp_all add: venue_inv_def)
  from price obtain seen rs where i: "parse_requests (seen @ vn_in_flight v) = (rs, Some [])"
    "vn_server v = answer_stream fd (parse_requests seen) (lone_server fd)"
    "quoting fd (vn_quoter v) (fold (handle_request fd) rs (lone_server fd))
       (fst (lone_run offset_ticks ps)) (snd (lone_run offset_ticks ps))"
    by (auto simp: venue_inv_def)
  obtain st' t where lt: "lone_tick offset_ticks (fst (lone_run offset_ticks ps)) p = (st', t)"
    by (cases "lone_tick offset_ticks (fst (lone_run offset_ticks ps)) p")
  have ok: "\<forall>a\<in>set acts. \<exists>m. action_msg a = Inr m"
  proof
    fix a assume "a \<in> set acts"
    then have "action_msg a \<in> set (map action_msg acts)" by simp
    then show "\<exists>m. action_msg a = Inr m" unfolding price.hyps(3) by auto
  qed
  have "parse_requests ((seen @ vn_in_flight v) @ concat msgs) = (rs @ map request_of acts, Some [])"
    using parse_actions [OF price.hyps(3), of "[]"] by (subst parse_requests_append) (simp add: i(1))
  moreover have "quoting fd q (fold (handle_request fd) (map request_of acts) (fold (handle_request fd) rs (lone_server fd)))
      st' (snd (lone_run offset_ticks ps) @ t)"
    using quoting_tick [OF i(3) _ _ price.hyps(2) ok] pos price.prems lt by simp
  moreover have "lone_run offset_ticks (ps @ [p]) = (st', snd (lone_run offset_ticks ps) @ t)"
    using lt by (simp add: lone_run_snoc split_def)
  ultimately show ?case unfolding venue_inv_def using i(2) pos quoter_on_price_params [OF price.hyps(2)]
    by (intro conjI exI [of _ seen] exI [of _ "rs @ map request_of acts"]) simp_all
next
  case (arrive ps v chunk rest)
  then obtain seen rs where i: "parse_requests (seen @ chunk @ rest) = (rs, Some [])"
    "vn_server v = answer_stream fd (parse_requests seen) (lone_server fd)"
    "quoting fd (vn_quoter v) (fold (handle_request fd) rs (lone_server fd))
       (fst (lone_run offset_ticks ps)) (snd (lone_run offset_ticks ps))"
    "fq_offset (vn_quoter v) = offset_ticks" "fq_size (vn_quoter v) = sz"
    by (auto simp: venue_inv_def)
  obtain rs1 left1 rs2 where p: "parse_requests seen = (rs1, Some left1)" "rs = rs1 @ rs2"
    by (rule stream_open [OF i(1)])
  have "fd \<in> set (open_fds (lone_server fd))" by (simp add: lone_server_eq open_fds_def)
  from answer_stream_more [OF p(1) this] i show ?case unfolding venue_inv_def
    by (intro conjI exI [of _ "seen @ chunk"] exI [of _ rs]) simp_all
next
  case (take_ack ps v a)
  then show ?case by (simp add: venue_inv_def)
next
  case (take_fill ps v f)
  then have inv: "venue_inv fd offset_ticks sz ps v" by blast
  from venue_fill_ignored [OF inv _ take_fill.hyps(3)] take_fill.hyps(2)
  have "quoter_on_fill (vn_quoter v) f = vn_quoter v" by simp
  with inv show ?case by (simp add: venue_inv_def)
qed

subsection \<open>When everything has arrived\<close>

lemma lone_run_last:
  "case lone_run off ps of (None, traded) \<Rightarrow> ps = [] \<and> traded = [] | (Some (p, bid, ask), traded) \<Rightarrow> ps \<noteq> [] \<and> p = last ps"
proof (induction ps rule: rev_induct)
  case (snoc p ps)
  show ?case
  proof (cases "fst (lone_run off ps)")
    case (Some x)
    with snoc show ?thesis by (cases x) (auto simp: lone_run_snoc Let_def split: prod.splits)
  qed (auto simp: lone_run_snoc split: prod.splits)
qed (simp add: lone_run_def)

lemma venue_settled:
  assumes "venue_run fd offset_ticks sz ps v" "0 < offset_ticks" "0 < sz" "vn_in_flight v = []"
    and "lone_run offset_ticks ps = (Some (p, bid, ask), traded)"
  obtains kb ka fs where "fq_resting_buy (vn_quoter v) = Some (kb, p - offset_ticks)"
    "fq_resting_sell (vn_quoter v) = Some (ka, p + offset_ticks)"
    "quotes BUY (sv_book (vn_server v)) = one_quote bid (word_of_int kb) (p - offset_ticks) (word_of_int sz)"
    "quotes SELL (sv_book (vn_server v)) = one_quote ask (word_of_int ka) (p + offset_ticks) (word_of_int sz)"
    "filter (Not \<circ> is_ack) (sv_sent (vn_server v)) = map (\<lambda>f. (fd, fill_msg f)) fs"
    "map trade_view fs = map (\<lambda>(sd, p). (sd, p, word_of_int sz)) traded" "book_inv (sv_book (vn_server v))"
proof -
  note inv = venue_run_inv [OF assms(1-3)]
  then obtain seen rs where i: "parse_requests seen = (rs, Some [])"
    "vn_server v = answer_stream fd (parse_requests seen) (lone_server fd)"
    "quoting fd (vn_quoter v) (fold (handle_request fd) rs (lone_server fd)) (Some (p, bid, ask)) traded"
    and q: "fq_offset (vn_quoter v) = offset_ticks" "fq_size (vn_quoter v) = sz"
    by (auto simp: venue_inv_def assms(4,5))
  have s: "sv_book (vn_server v) = sv_book (fold (handle_request fd) rs (lone_server fd))"
    "sv_sent (vn_server v) = sv_sent (fold (handle_request fd) rs (lone_server fd))"
    by (simp_all add: i(1,2) set_read_buf_def update_connection_def)
  from i(3) show ?thesis unfolding quoting_def tracked_def option.case prod.case q s [symmetric] lone_def
    using that by blast
qed

lemma venue_empty:
  assumes "venue_run fd offset_ticks sz [] v" "0 < offset_ticks" "0 < sz" "vn_in_flight v = []"
  shows "quotes BUY (sv_book (vn_server v)) = [] \<and> quotes SELL (sv_book (vn_server v)) = []"
proof -
  obtain seen rs where i: "parse_requests seen = (rs, Some [])"
    "vn_server v = answer_stream fd (parse_requests seen) (lone_server fd)"
    "quoting fd (vn_quoter v) (fold (handle_request fd) rs (lone_server fd)) None []"
    using venue_run_inv [OF assms(1-3)] by (auto simp: venue_inv_def assms(4) lone_run_def)
  then show ?thesis by (simp add: quoting_def tracked_def set_read_buf_def update_connection_def)
qed

text \<open>While no move reaches twice the offset both quotes rest and nothing trades.\<close>

lemma lone_run_quiet:
  "ps \<noteq> [] \<Longrightarrow> \<forall>i. Suc i < length ps \<longrightarrow> \<bar>ps ! Suc i - ps ! i\<bar> < 2 * off \<Longrightarrow>
   lone_run off ps = (Some (last ps, True, True), [])"
proof (induction ps rule: rev_induct)
  case (snoc p ps)
  show ?case
  proof (cases "ps = []")
    case True
    then show ?thesis by (simp add: lone_run_def)
  next
    case False
    have "\<bar>(ps @ [p]) ! Suc i - (ps @ [p]) ! i\<bar> < 2 * off" if "Suc i < length (ps @ [p])" for i
      using snoc.prems(2) that by blast
    then have "\<forall>i. Suc i < length ps \<longrightarrow> \<bar>ps ! Suc i - ps ! i\<bar> < 2 * off"
      by (metis Suc_lessD append_Nil2 length_append_singleton less_SucI nth_append)
    from snoc.IH [OF False this] have r: "lone_run off ps = (Some (last ps, True, True), [])" .
    have n: "Suc (length ps - 1) = length ps" using False by simp
    then have "Suc (length ps - 1) < length (ps @ [p])" by simp
    then have "\<bar>(ps @ [p]) ! Suc (length ps - 1) - (ps @ [p]) ! (length ps - 1)\<bar> < 2 * off"
      using snoc.prems(2) by blast
    then have "\<bar>p - ps ! (length ps - 1)\<bar> < 2 * off" unfolding n using False by (simp add: nth_append)
    then have "\<bar>p - last ps\<bar> < 2 * off" using False by (simp add: last_conv_nth)
    then show ?thesis by (auto simp: lone_run_snoc r Let_def)
  qed
qed simp

lemma quotes_best:
  assumes "book_inv b"
  shows "best_bid b = (case quotes BUY b of [] \<Rightarrow> None | q # _ \<Rightarrow> Some (fst (snd q)))"
    "best_ask b = (case quotes SELL b of [] \<Rightarrow> None | q # _ \<Rightarrow> Some (fst (snd q)))"
proof -
  note b = best_flat [OF assms]
  show "best_bid b = (case quotes BUY b of [] \<Rightarrow> None | q # _ \<Rightarrow> Some (fst (snd q)))"
    using b by (cases "flat (bk_bids b)") (simp_all add: quotes_def quote_key_def flat_book_def queue_best_def)
  show "best_ask b = (case quotes SELL b of [] \<Rightarrow> None | q # _ \<Rightarrow> Some (fst (snd q)))"
    using b by (cases "flat (bk_asks b)") (simp_all add: quotes_def quote_key_def flat_book_def queue_best_def)
qed

text \<open>The loop can run over any prices the wire can carry, with everything delivered.\<close>

lemma venue_run_exists:
  "\<forall>p\<in>set ps. quotable (quoter_init offset_ticks sz) p \<Longrightarrow> 2 * length ps < 2 ^ 64 \<Longrightarrow>
   \<exists>v. venue_run fd offset_ticks sz ps v \<and> vn_in_flight v = [] \<and> quoter_inv (vn_quoter v) \<and>
     fq_ids (vn_quoter v) \<le> 2 * int (length ps) + 1 \<and> fq_offset (vn_quoter v) = offset_ticks \<and> fq_size (vn_quoter v) = sz"
proof (induction ps rule: rev_induct)
  case Nil
  show ?case using venue_run.connected [of fd offset_ticks sz]
    by (intro exI conjI) (auto simp: quoter_init_def quoter_inv_def)
next
  case (snoc p ps)
  then obtain v where v: "venue_run fd offset_ticks sz ps v" "vn_in_flight v = []" "quoter_inv (vn_quoter v)"
    "fq_ids (vn_quoter v) \<le> 2 * int (length ps) + 1" "fq_offset (vn_quoter v) = offset_ticks" "fq_size (vn_quoter v) = sz"
    by auto
  obtain acts q where a: "quoter_on_price (vn_quoter v) p = (acts, q)" by (cases "quoter_on_price (vn_quoter v) p")
  have "int (2 * length (ps @ [p])) < int (2 ^ 64)" using snoc.prems(2) by (simp only: of_nat_less_iff)
  then have "2 * int (length ps) + 2 < 2 ^ 64" by simp
  then have "fq_ids (vn_quoter v) + 1 < 2 ^ 64" using v(4) by simp
  moreover have "quotable (vn_quoter v) p" using snoc.prems(1) v(5,6) by (simp add: quotable_def quoter_init_def)
  ultimately have "\<forall>a\<in>set acts. \<exists>bs. action_msg a = Inr bs" using quoter_actions_ok [OF v(3) _ _ a] by blast
  then obtain f where "\<forall>a\<in>set acts. action_msg a = Inr (f a)" by metis
  then have "map action_msg acts = map Inr (map f acts)" by simp
  note run = venue_run.price [OF v(1) a this]
  have "venue_run fd offset_ticks sz (ps @ [p]) (v\<lparr>vn_quoter := q, vn_in_flight := [],
      vn_server := service (fd, Recv_Bytes (concat (map f acts))) (vn_server v)\<rparr>)"
    using venue_run.arrive [OF run, of "concat (map f acts)" "[]"] v(2) by simp
  moreover have "quoter_inv q" using v(3) a by (rule quoter_inv_price)
  moreover have "fq_ids q \<le> fq_ids (vn_quoter v) + 2" using a unfolding quoter_on_price_eq Let_def by auto
  ultimately show ?case using v(4-6) quoter_on_price_params [OF a]
    by (intro exI [of _ "v\<lparr>vn_quoter := q, vn_in_flight := [],
      vn_server := service (fd, Recv_Bytes (concat (map f acts))) (vn_server v)\<rparr>"]) simp
qed

text \<open>A run with a move of twice the offset in it, for the closed instances below.\<close>

lemma jump_run:
  obtains v where "venue_run 4 5 10 [100, 110] v" "vn_in_flight v = []"
    "lone_run 5 [100, 110] = (Some (110, False, True), [(SELL, 105)])"
proof -
  have "\<forall>p\<in>set [100, 110 :: int]. quotable (quoter_init 5 10) p" by (simp add: quotable_def quoter_init_def)
  from venue_run_exists [OF this, of 4] obtain v where "venue_run 4 5 10 [100, 110] v" "vn_in_flight v = []" by auto
  then show ?thesis by (intro that [of v]) (simp_all add: lone_run_def)
qed

section \<open>Properties\<close>

text \<open>C4: The closed loop refines the two-quote automaton: whenever every byte the quoter sent has
  arrived, in whatever chunks and with its fills taken early, late or never, the engine's book
  holds exactly the quotes the automaton says are alive, under the ids the quoter tracks, at
  the last price minus and plus the offset, and the fills sent to the quoter are exactly the
  automaton's trades, at the old quotes' prices and for the whole size.
\<close>

theorem closed_loop_book:
  assumes "venue_run fd offset_ticks sz ps v" "0 < offset_ticks" "0 < sz" "vn_in_flight v = []"
  shows "case lone_run offset_ticks ps of
      (None, traded) \<Rightarrow> ps = [] \<and> quotes BUY (sv_book (vn_server v)) = [] \<and> quotes SELL (sv_book (vn_server v)) = []
    | (Some (p, bid, ask), traded) \<Rightarrow> p = last ps \<and> (\<exists>kb ka fs.
        fq_resting_buy (vn_quoter v) = Some (kb, p - offset_ticks) \<and> fq_resting_sell (vn_quoter v) = Some (ka, p + offset_ticks) \<and>
        quotes BUY (sv_book (vn_server v)) = (if bid then [(word_of_int kb, p - offset_ticks, word_of_int sz)] else []) \<and>
        quotes SELL (sv_book (vn_server v)) = (if ask then [(word_of_int ka, p + offset_ticks, word_of_int sz)] else []) \<and>
        filter (Not \<circ> is_ack) (sv_sent (vn_server v)) = map (\<lambda>f. (fd, fill_msg f)) fs \<and>
        map trade_view fs = map (\<lambda>(sd, price). (sd, price, word_of_int sz)) traded)"
proof (cases "lone_run offset_ticks ps")
  case (Pair st traded)
  show ?thesis
  proof (cases st)
    case None
    with lone_run_last [where off = offset_ticks and ps = ps] Pair have "ps = []" by simp
    with venue_empty [of fd offset_ticks sz v] assms Pair None show ?thesis by simp
  next
    case (Some x)
    obtain p bid ask where "x = (p, bid, ask)" by (cases x)
    with Pair Some have l: "lone_run offset_ticks ps = (Some (p, bid, ask), traded)" by simp
    with lone_run_last [where off = offset_ticks and ps = ps] have p: "p = last ps" by simp
    obtain kb ka fs where "fq_resting_buy (vn_quoter v) = Some (kb, p - offset_ticks)"
      "fq_resting_sell (vn_quoter v) = Some (ka, p + offset_ticks)"
      "quotes BUY (sv_book (vn_server v)) = one_quote bid (word_of_int kb) (p - offset_ticks) (word_of_int sz)"
      "quotes SELL (sv_book (vn_server v)) = one_quote ask (word_of_int ka) (p + offset_ticks) (word_of_int sz)"
      "filter (Not \<circ> is_ack) (sv_sent (vn_server v)) = map (\<lambda>f. (fd, fill_msg f)) fs"
      "map trade_view fs = map (\<lambda>(sd, p). (sd, p, word_of_int sz)) traded"
      by (rule venue_settled [OF assms l])
    with p show ?thesis unfolding l option.case prod.case one_quote_def by blast
  qed
qed

theorem closed_loop_book_witness:
  "\<exists>v kb. venue_run 4 5 10 [100, 110] v \<and> vn_in_flight v = [] \<and> fq_resting_buy (vn_quoter v) = Some (kb, 105) \<and>
     quotes BUY (sv_book (vn_server v)) = [] \<and> (\<exists>k. quotes SELL (sv_book (vn_server v)) = [(k, 115, 10)])"
proof -
  obtain v where v: "venue_run 4 5 10 [100, 110] v" "vn_in_flight v = []"
    "lone_run 5 [100, 110] = (Some (110, False, True), [(SELL, 105)])" by (rule jump_run)
  from closed_loop_book [OF v(1) _ _ v(2)] v show ?thesis by auto
qed

text \<open>A quoter that is alone only ever trades with itself, and its fills never change it: at any
  moment of any run, every fill the server has sent it names two of its own orders, and
  handing it to on_fill leaves the quoter as it was.
\<close>

lemma self_trades_ignored:
  assumes "venue_run fd offset_ticks sz ps v" "0 < offset_ticks" "0 < sz"
    and "msg \<in> set (sent_to fd (vn_server v))" "decode_msg msg = Inr (Fill_Event f)"
  shows "fe_resting_order_id f \<in> {1..<fq_ids (vn_quoter v)} \<and> fe_incoming_order_id f \<in> {1..<fq_ids (vn_quoter v)} \<and>
    quoter_on_fill (vn_quoter v) f = vn_quoter v"
  using venue_fill_ignored [OF venue_run_inv [OF assms(1-3)] assms(4,5)] by blast

lemma self_trades_ignored_witness:
  "\<exists>v msg f. venue_run 4 5 10 [100, 110] v \<and> msg \<in> set (sent_to 4 (vn_server v)) \<and>
     decode_msg msg = Inr (Fill_Event f) \<and> fe_price_ticks f = 105 \<and> quoter_on_fill (vn_quoter v) f = vn_quoter v"
proof -
  obtain v where v: "venue_run 4 5 10 [100, 110] v" "vn_in_flight v = []"
    "lone_run 5 [100, 110] = (Some (110, False, True), [(SELL, 105)])" by (rule jump_run)
  obtain fs where fs: "filter (Not \<circ> is_ack) (sv_sent (vn_server v)) = map (\<lambda>f. (4, fill_msg f)) fs"
    "map trade_view fs = map (\<lambda>(sd, p). (sd, p, word_of_int 10)) [(SELL, 105)]"
    by (rule venue_settled [OF v(1) _ _ v(2,3)]) simp_all
  then obtain g where g: "fs = [g]" "fl_price_ticks g = 105" by (auto simp: trade_view_def)
  have "(4, fill_msg g) \<in> set (filter (Not \<circ> is_ack) (sv_sent (vn_server v)))" by (simp add: fs(1) g(1))
  then have m: "fill_msg g \<in> set (sent_to 4 (vn_server v))" by (force simp: sent_to_def)
  have "to_int64 (to_uint64 105) = 105" by (simp add: to_int64_def to_uint64_def)
  with self_trades_ignored [OF v(1) _ _ m decode_fill_msg] v(1) m show ?thesis
    by (intro exI [of _ v] exI [of _ "fill_msg g"] exI conjI) (auto simp: g(2) decode_fill_msg)
qed

text \<open>C14: While no two consecutive prices are as far apart as twice the offset, the quoter makes a
  market and never trades: once its bytes have arrived the engine's best bid is the last
  price minus the offset, the best ask the last price plus the offset, and no fill was sent.
\<close>

theorem quoter_alone_quiet:
  assumes "venue_run fd offset_ticks sz ps v" "0 < offset_ticks" "0 < sz" "vn_in_flight v = []"
    and "ps \<noteq> []" "\<forall>i. Suc i < length ps \<longrightarrow> \<bar>ps ! Suc i - ps ! i\<bar> < 2 * offset_ticks"
  shows "best_bid (sv_book (vn_server v)) = Some (last ps - offset_ticks) \<and>
    best_ask (sv_book (vn_server v)) = Some (last ps + offset_ticks) \<and>
    (\<forall>m\<in>set (sv_sent (vn_server v)). is_ack m)"
proof -
  obtain kb ka fs where r: "quotes BUY (sv_book (vn_server v)) = one_quote True (word_of_int kb) (last ps - offset_ticks) (word_of_int sz)"
    "quotes SELL (sv_book (vn_server v)) = one_quote True (word_of_int ka) (last ps + offset_ticks) (word_of_int sz)"
    "filter (Not \<circ> is_ack) (sv_sent (vn_server v)) = map (\<lambda>f. (fd, fill_msg f)) fs"
    "map trade_view fs = map (\<lambda>(sd, p). (sd, p, word_of_int sz)) []" "book_inv (sv_book (vn_server v))"
    by (rule venue_settled [OF assms(1-4) lone_run_quiet [OF assms(5,6)]])
  have "\<forall>m\<in>set (sv_sent (vn_server v)). is_ack m" using r(3,4) by (simp add: filter_empty_conv)
  with quotes_best [OF r(5)] r(1,2) show ?thesis by (simp add: one_quote_def)
qed

theorem quoter_alone_quiet_witness:
  "\<exists>v. venue_run 4 5 10 [100, 103, 97] v \<and> best_bid (sv_book (vn_server v)) = Some 92 \<and> best_ask (sv_book (vn_server v)) = Some 102"
proof -
  have "\<forall>p\<in>set [100, 103, 97 :: int]. quotable (quoter_init 5 10) p" by (simp add: quotable_def quoter_init_def)
  from venue_run_exists [OF this, of 4] obtain v where v: "venue_run 4 5 10 [100, 103, 97] v" "vn_in_flight v = []" by auto
  have "\<forall>i. Suc i < length [100, 103, 97] \<longrightarrow> \<bar>[100, 103, 97] ! Suc i - [100, 103, 97] ! i\<bar> < 2 * (5 :: int)"
    by (auto simp: less_Suc_eq)
  with quoter_alone_quiet [OF v(1) _ _ v(2)] v(1) show ?thesis by auto
qed

text \<open>C13: After a move of twice the offset or more in one tick, when everything has arrived: the quote on the far
  side of the move took the quoter's own old quote if that one still rested, and then this side of the book is empty;
  if it had already been taken, the book is two-sided again.  \<open>lone_run\<close> says which of the two quotes rest before
  the tick.  Either way the quoter still tracks a quote on both sides, so a tick at the same price sends nothing
  to restore the missing one.\<close>

theorem jump_leaves_one_side_empty:
  assumes "venue_run fd offset_ticks sz (ps @ [p]) v" "0 < offset_ticks" "0 < sz" "vn_in_flight v = []"
    and "lone_run offset_ticks ps = (Some (p0, bid, ask), traded)" "2 * offset_ticks \<le> \<bar>p - p0\<bar>"
  shows "(if p0 < p
      then best_bid (sv_book (vn_server v)) = (if ask then None else Some (p - offset_ticks)) \<and>
        best_ask (sv_book (vn_server v)) = Some (p + offset_ticks)
      else best_ask (sv_book (vn_server v)) = (if bid then None else Some (p + offset_ticks)) \<and>
        best_bid (sv_book (vn_server v)) = Some (p - offset_ticks)) \<and>
    map_option snd (fq_resting_buy (vn_quoter v)) = Some (p - offset_ticks) \<and>
    map_option snd (fq_resting_sell (vn_quoter v)) = Some (p + offset_ticks) \<and>
    quoter_on_price (vn_quoter v) p = ([], vn_quoter v)"
proof -
  let ?bid = "\<not> (ask \<and> p0 < p)" and ?ask = "\<not> (bid \<and> p < p0)"
  obtain t where l: "lone_run offset_ticks (ps @ [p]) = (Some (p, ?bid, ?ask), t)"
    using assms(2,5,6) that by (cases "p0 < p") (auto simp: lone_run_snoc)
  obtain kb ka where r: "fq_resting_buy (vn_quoter v) = Some (kb, p - offset_ticks)"
    "fq_resting_sell (vn_quoter v) = Some (ka, p + offset_ticks)"
    "quotes BUY (sv_book (vn_server v)) = one_quote ?bid (word_of_int kb) (p - offset_ticks) (word_of_int sz)"
    "quotes SELL (sv_book (vn_server v)) = one_quote ?ask (word_of_int ka) (p + offset_ticks) (word_of_int sz)"
    "book_inv (sv_book (vn_server v))"
    by (rule venue_settled [OF assms(1-4) l])
  have q: "fq_offset (vn_quoter v) = offset_ticks" using venue_run_inv [OF assms(1-3)] by (simp add: venue_inv_def)
  have "(vn_quoter v)\<lparr>fq_resting_buy := Some (kb, p - offset_ticks), fq_resting_sell := Some (ka, p + offset_ticks)\<rparr> = vn_quoter v"
    using r(1,2) by (cases "vn_quoter v") simp
  then have n: "quoter_on_price (vn_quoter v) p = ([], vn_quoter v)" unfolding quoter_on_price_eq Let_def q r by simp
  have "p \<noteq> p0" using assms(2,6) by auto
  with quotes_best [OF r(5)] r(1-4) n show ?thesis by (auto simp: one_quote_def)
qed

text \<open>From 100 to 110 the new bid is used up on the old ask; back at 100 no bid is left for the new ask to
  take, and the book is two-sided again.\<close>

theorem jump_leaves_one_side_empty_witness:
  "(\<exists>v. venue_run 4 5 10 [100, 110] v \<and> best_bid (sv_book (vn_server v)) = None \<and> best_ask (sv_book (vn_server v)) = Some 115) \<and>
   (\<exists>v. venue_run 4 5 10 [100, 110, 100] v \<and> best_bid (sv_book (vn_server v)) = Some 95 \<and> best_ask (sv_book (vn_server v)) = Some 105)"
proof
  obtain v where v: "venue_run 4 5 10 [100, 110] v" "vn_in_flight v = []"
    "lone_run 5 [100, 110] = (Some (110, False, True), [(SELL, 105)])" by (rule jump_run)
  have "venue_run 4 5 10 ([100] @ [110]) v" using v(1) by simp
  from jump_leaves_one_side_empty [OF this _ _ v(2)] v(1)
  show "\<exists>v. venue_run 4 5 10 [100, 110] v \<and> best_bid (sv_book (vn_server v)) = None \<and> best_ask (sv_book (vn_server v)) = Some 115"
    by (auto simp: lone_run_def)
  have "\<forall>p\<in>set [100, 110, 100 :: int]. quotable (quoter_init 5 10) p" by (simp add: quotable_def quoter_init_def)
  from venue_run_exists [OF this, of 4] obtain w where w: "venue_run 4 5 10 [100, 110, 100] w" "vn_in_flight w = []" by auto
  have "venue_run 4 5 10 ([100, 110] @ [100]) w" using w(1) by simp
  from jump_leaves_one_side_empty [OF this _ _ w(2) v(3)] w(1)
  show "\<exists>v. venue_run 4 5 10 [100, 110, 100] v \<and> best_bid (sv_book (vn_server v)) = Some 95 \<and> best_ask (sv_book (vn_server v)) = Some 105"
    by auto
qed

end
