(* ===== verification/RustBase.thy ===== *)
theory RustBase
  imports Float64 EngineProtocol TradeLog
begin

text \<open>
  What the crate under \<^verbatim>\<open>risk/\<close> uses of Rust: panics as values, \<^verbatim>\<open>i64\<close> arithmetic in both build
  profiles (a debug build panics on overflow, a release build wraps), the casts between
  integers and \<^verbatim>\<open>f64\<close>, IEEE division, big-endian slices, and \<^verbatim>\<open>parse\<close> for the integer types.
\<close>

section \<open>Panics\<close>

datatype panic = Arithmetic_Overflow | Expect_Failed | Char_Boundary

type_synonym 'a rust = "panic + 'a"

text \<open>Sequencing, for computations that may end early with a value of any type.\<close>

definition sum_bind :: "'e + 'a \<Rightarrow> ('a \<Rightarrow> 'e + 'b) \<Rightarrow> 'e + 'b" where
  "sum_bind m f = (case m of Inl e \<Rightarrow> Inl e | Inr v \<Rightarrow> f v)"

lemma sum_bind_simps [simp]: "sum_bind (Inl e) f = Inl e" "sum_bind (Inr v) f = f v"
  by (simp_all add: sum_bind_def)

lemma sum_bind_eq_Inr: "sum_bind m f = Inr w \<longleftrightarrow> (\<exists>v. m = Inr v \<and> f v = Inr w)"
  by (cases m) auto

lemma sum_bind_eq_Inl: "sum_bind m f = Inl e \<longleftrightarrow> m = Inl e \<or> (\<exists>v. m = Inr v \<and> f v = Inl e)"
  by (cases m) auto

lemma sum_bind_cong [fundef_cong]:
  "m = m' \<Longrightarrow> (\<And>v. m' = Inr v \<Longrightarrow> f v = f' v) \<Longrightarrow> sum_bind m f = sum_bind m' f'"
  by (cases m') auto

section \<open>Integers\<close>

definition wrap64 :: "int \<Rightarrow> int" where
  "wrap64 n = to_int64 (to_uint64 n)"

text \<open>The result of an \<^verbatim>\<open>i64\<close> operation whose exact value is \<open>n\<close>.\<close>

definition i64_result :: "bool \<Rightarrow> int \<Rightarrow> int rust" where
  "i64_result checked n =
     (if int64_ok n then Inr n else if checked then Inl Arithmetic_Overflow else Inr (wrap64 n))"

lemma i64_result_ok [simp]: "int64_ok n \<Longrightarrow> i64_result checked n = Inr n"
  by (simp add: i64_result_def)

lemma i64_result_wraps [simp]: "i64_result False n = Inr (wrap64 n)"
  by (simp add: i64_result_def wrap64_def)

lemma wrap64_ok [simp]: "int64_ok (wrap64 n)" "int64_ok n \<Longrightarrow> wrap64 n = n"
  by (simp_all add: wrap64_def)

lemma i64_result_range: "i64_result checked n = Inr v \<Longrightarrow> int64_ok v \<and> v = wrap64 n \<and> (checked \<longrightarrow> v = n)"
  by (auto simp: i64_result_def split: if_splits)

lemma wrap64_cong: "wrap64 m = wrap64 n \<longleftrightarrow> m mod 2 ^ 64 = n mod 2 ^ 64"
proof -
  have "to_int64 v = to_int64 w \<longleftrightarrow> v = w" for v w using int64_round(2) by metis
  then show ?thesis by (simp add: wrap64_def to_uint64_def word_of_int_eq_iff take_bit_eq_mod)
qed

lemma wrap64_mod [simp]: "wrap64 n mod 2 ^ 64 = n mod 2 ^ 64"
proof -
  have "wrap64 (wrap64 n) = wrap64 n" by simp
  then show ?thesis by (simp only: wrap64_cong)
qed

lemma wrap64_add: "wrap64 (wrap64 m + n) = wrap64 (m + n)"
  unfolding wrap64_cong using mod_add_cong [OF wrap64_mod [of m] refl [of "n mod 2 ^ 64"]] by simp

text \<open>Two's complement \<^verbatim>\<open>u64\<close>, \<^verbatim>\<open>u32\<close> and \<^verbatim>\<open>i64\<close> from a slice, most significant byte first.\<close>

definition slice :: "nat \<Rightarrow> nat \<Rightarrow> bytes \<Rightarrow> bytes" where
  "slice a b xs = take (b - a) (drop a xs)"

definition u64_from_be :: "bytes \<Rightarrow> 64 word" where
  "u64_from_be bs = word_of_nat (be_value bs)"

definition u32_from_be :: "bytes \<Rightarrow> 32 word" where
  "u32_from_be bs = word_of_nat (be_value bs)"

definition i64_from_be :: "bytes \<Rightarrow> int" where
  "i64_from_be bs = to_int64 (u64_from_be bs)"

section \<open>Floats\<close>

definition i64_as_f64 :: "int \<Rightarrow> pyfloat" where
  "i64_as_f64 n = to_float False (of_int n)"

text \<open>A float to \<^verbatim>\<open>i64\<close>: towards zero, saturating, and 0 for a NaN.\<close>

fun f64_as_i64 :: "pyfloat \<Rightarrow> int" where
  "f64_as_i64 (Fin r) = max (- (2 ^ 63)) (min (2 ^ 63 - 1) (if r < 0 then - \<lfloor>- r\<rfloor> else \<lfloor>r\<rfloor>))"
| "f64_as_i64 NegZero = 0"
| "f64_as_i64 NaN = 0"
| "f64_as_i64 PosInf = 2 ^ 63 - 1"
| "f64_as_i64 NegInf = - (2 ^ 63)"

text \<open>IEEE division: dividing by zero gives an infinity or a NaN, never an error.\<close>

definition f64_div :: "pyfloat \<Rightarrow> pyfloat \<Rightarrow> pyfloat" where
  "f64_div x y = (case fdiv x y of Inr z \<Rightarrow> z
     | Inl _ \<Rightarrow> if x = NaN \<or> (is_finite x \<and> fval x = 0) then NaN else inf_of (fsign x \<noteq> fsign y))"

lemma f64_as_i64_ok [simp]: "int64_ok (f64_as_i64 x)"
  by (cases x) (auto simp: int64_ok_def)

lemma f64_as_i64_finite: "is_finite x \<Longrightarrow> fval x = of_int n \<Longrightarrow> int64_ok n \<Longrightarrow> f64_as_i64 x = n"
  by (cases x) (auto simp: int64_ok_def)

lemma f64_div_fdiv: "fdiv x y = Inr z \<Longrightarrow> f64_div x y = z"
  by (simp add: f64_div_def)

lemma i64_as_f64_exact: "\<bar>n\<bar> \<le> 2 ^ 53 \<Longrightarrow> is_finite (i64_as_f64 n) \<and> fval (i64_as_f64 n) = of_int n"
  using to_float_exact [of "of_int n" False] exact_of_int [of n] by (simp add: i64_as_f64_def zero_of_def)

lemma i64_as_f64_python: "\<bar>n\<bar> \<le> 2 ^ 53 \<Longrightarrow> int_to_float n = Inr (i64_as_f64 n)"
  using to_float_exact [of "of_int n" False] exact_of_int [of n] by (simp add: i64_as_f64_def zero_of_def)

end
