(* ===== verification/RiskEngine.thy ===== *)
theory RiskEngine
  imports RustBase Reports Server
begin

text \<open>
  The risk engine of \<^verbatim>\<open>risk/\<close>: its wire protocol (\<^verbatim>\<open>protocol.rs\<close>), the position tracker
  (\<^verbatim>\<open>position.rs\<close>), the limit (\<^verbatim>\<open>limits.rs\<close>), the log (\<^verbatim>\<open>risk_log.rs\<close>) and the loop of \<^verbatim>\<open>main.rs\<close>,
  which reads the engine's fills and sends a flattening order on a breach.
\<close>

section \<open>The wire protocol\<close>

definition rust_payload_size :: "byte \<Rightarrow> nat option" where
  "rust_payload_size tag =
     (if tag = 0x01 then Some (8 + 1 + 1 + 8 + 4)
      else if tag = 0x02 then Some 8
      else if tag = 0x03 then Some 0
      else if tag = 0x10 then Some (8 + 8 + 1 + 8 + 4 + 8)
      else if tag = 0x11 then Some (8 + 1 + 1)
      else None)"

definition side_from_u8 :: "byte \<Rightarrow> Side" where
  "side_from_u8 v = (if v = 0 then BUY else SELL)"

fun side_opposite :: "Side \<Rightarrow> Side" where
  "side_opposite BUY = SELL"
| "side_opposite SELL = BUY"

fun side_u8 :: "Side \<Rightarrow> byte" where
  "side_u8 BUY = 0"
| "side_u8 SELL = 1"

fun order_type_u8 :: "OrderType \<Rightarrow> byte" where
  "order_type_u8 LIMIT = 0"
| "order_type_u8 MARKET = 1"

record Risk_Order =
  ro_client_order_id :: "64 word"
  ro_side :: Side
  ro_order_type :: OrderType
  ro_price_ticks :: int
  ro_quantity :: "32 word"

record Risk_Fill =
  rf_resting_order_id :: "64 word"
  rf_incoming_order_id :: "64 word"
  rf_resting_side :: Side
  rf_price_ticks :: int
  rf_quantity :: "32 word"
  rf_timestamp :: "64 word"

record Risk_Ack =
  ra_client_order_id :: "64 word"
  ra_request_type :: byte
  ra_status :: byte

definition fill_incoming_side :: "Risk_Fill \<Rightarrow> Side" where
  "fill_incoming_side f = side_opposite (rf_resting_side f)"

definition rust_encode_new_order :: "Risk_Order \<Rightarrow> bytes" where
  "rust_encode_new_order m = 0x01 # be_bytes 8 (unat (ro_client_order_id m)) @ [side_u8 (ro_side m)] @
     [order_type_u8 (ro_order_type m)] @ be_bytes 8 (unat (to_uint64 (ro_price_ticks m))) @
     be_bytes 4 (unat (ro_quantity m))"

definition rust_decode_new_order :: "bytes \<Rightarrow> Risk_Order" where
  "rust_decode_new_order payload =
     \<lparr>ro_client_order_id = u64_from_be (slice 0 8 payload), ro_side = side_from_u8 (payload ! 8),
      ro_order_type = (if payload ! 9 = 0 then LIMIT else MARKET),
      ro_price_ticks = i64_from_be (slice 10 18 payload), ro_quantity = u32_from_be (slice 18 22 payload)\<rparr>"

definition rust_encode_cancel :: "64 word \<Rightarrow> bytes" where
  "rust_encode_cancel client_order_id = 0x02 # be_bytes 8 (unat client_order_id)"

definition rust_encode_subscribe_fills :: bytes where
  "rust_encode_subscribe_fills = [0x03]"

definition rust_decode_fill :: "bytes \<Rightarrow> Risk_Fill" where
  "rust_decode_fill payload =
     \<lparr>rf_resting_order_id = u64_from_be (slice 0 8 payload), rf_incoming_order_id = u64_from_be (slice 8 16 payload),
      rf_resting_side = side_from_u8 (payload ! 16), rf_price_ticks = i64_from_be (slice 17 25 payload),
      rf_quantity = u32_from_be (slice 25 29 payload), rf_timestamp = u64_from_be (slice 29 37 payload)\<rparr>"

definition rust_decode_ack :: "bytes \<Rightarrow> Risk_Ack" where
  "rust_decode_ack payload =
     \<lparr>ra_client_order_id = u64_from_be (slice 0 8 payload), ra_request_type = payload ! 8, ra_status = payload ! 9\<rparr>"

section \<open>The position tracker\<close>

record PositionTracker =
  pt_net_position :: int
  pt_realized_pnl_ticks :: int
  pt_last_trade_price_ticks :: int
  pt_avg_entry_price_ticks :: pyfloat

definition tracker_new :: PositionTracker where
  "tracker_new = \<lparr>pt_net_position = 0, pt_realized_pnl_ticks = 0, pt_last_trade_price_ticks = 0,
     pt_avg_entry_price_ticks = Fin 0\<rparr>"

text \<open>An \<^verbatim>\<open>i64\<close> operation is \<^term>\<open>i64_result\<close>; \<open>checked\<close> is the profile of the build.\<close>

definition tracker_on_fill :: "bool \<Rightarrow> Side \<Rightarrow> 32 word \<Rightarrow> int \<Rightarrow> PositionTracker \<Rightarrow> PositionTracker rust" where
  "tracker_on_fill checked incoming_sd quantity price_ticks t0 =
     (let signed_qty = (case incoming_sd of BUY \<Rightarrow> uint quantity | SELL \<Rightarrow> - uint quantity);
          t = t0\<lparr>pt_last_trade_price_ticks := price_ticks\<rparr>;
          net = pt_net_position t; avg = pt_avg_entry_price_ticks t
      in if net = 0 \<or> sign net = sign signed_qty then
        let old_abs = i64_as_f64 \<bar>net\<bar>;
            add_abs = i64_as_f64 \<bar>signed_qty\<bar>;
            avg' = f64_div (fadd (fmul avg old_abs) (fmul (i64_as_f64 price_ticks) add_abs)) (fadd old_abs add_abs)
        in sum_bind (i64_result checked (net + signed_qty)) (\<lambda>net'.
           Inr (t\<lparr>pt_avg_entry_price_ticks := avg', pt_net_position := net'\<rparr>))
      else
        let direction = sign net in
        sum_bind (i64_result checked \<bar>net\<bar>) (\<lambda>abs_net.
        let closing_qty = min \<bar>signed_qty\<bar> abs_net in
        sum_bind (i64_result checked (direction * closing_qty)) (\<lambda>closed.
        sum_bind (i64_result checked (price_ticks - f64_as_i64 avg)) (\<lambda>move.
        sum_bind (i64_result checked (closed * move)) (\<lambda>pnl.
        sum_bind (i64_result checked (pt_realized_pnl_ticks t + pnl)) (\<lambda>realized.
        sum_bind (i64_result checked (net + signed_qty)) (\<lambda>net'.
        let t' = t\<lparr>pt_realized_pnl_ticks := realized, pt_net_position := net'\<rparr> in
        Inr (if net' \<noteq> 0 \<and> sign net' \<noteq> direction
             then t'\<lparr>pt_avg_entry_price_ticks := i64_as_f64 price_ticks\<rparr> else t'))))))))"

definition tracker_unrealized :: "bool \<Rightarrow> PositionTracker \<Rightarrow> int rust" where
  "tracker_unrealized checked t =
     sum_bind (i64_result checked (pt_last_trade_price_ticks t - f64_as_i64 (pt_avg_entry_price_ticks t))) (\<lambda>move.
     i64_result checked (pt_net_position t * move))"

section \<open>The limit\<close>

record FlattenAction =
  fa_side :: Side
  fa_quantity :: "32 word"

text \<open>\<^verbatim>\<open>unsigned_abs() as u32\<close> keeps the low 32 bits.\<close>

definition check_breach :: "bool \<Rightarrow> int \<Rightarrow> int \<Rightarrow> FlattenAction option rust" where
  "check_breach checked max_abs_position net_position =
     sum_bind (i64_result checked \<bar>net_position\<bar>) (\<lambda>abs_net.
     if abs_net \<le> max_abs_position then Inr None
     else Inr (Some \<lparr>fa_side = (if 0 < net_position then SELL else BUY),
            fa_quantity = word_of_int \<bar>net_position\<bar>\<rparr>))"

section \<open>The log\<close>

datatype Risk_Line =
    Position_Update (ru_net_position: int) int int pyfloat
  | Halt int int "64 word" pyfloat

text \<open>The line each writes; \<open>show_f64\<close> is the standard library's \<^verbatim>\<open>Display\<close> of an \<^verbatim>\<open>f64\<close>.\<close>

fun risk_line_text :: "(pyfloat \<Rightarrow> string) \<Rightarrow> Risk_Line \<Rightarrow> string" where
  \<open>risk_line_text show_f64 (Position_Update net realized unrealized ts) =
     ''{"event": "position_update", "net_position": '' @ str_int net @
     '', "realized_pnl_ticks": '' @ str_int realized @ '', "unrealized_pnl_ticks": '' @ str_int unrealized @
     '', "ts": '' @ show_f64 ts @ ''}'' @ [CHR 0x0A]\<close>
| \<open>risk_line_text show_f64 (Halt net max_abs order_id ts) =
     ''{"event": "halt", "net_position": '' @ str_int net @ '', "max_abs_position": '' @ str_int max_abs @
     '', "action": "flatten_market_order", "order_id": '' @ str_int (uint order_id) @
     '', "ts": '' @ show_f64 ts @ ''}'' @ [CHR 0x0A]\<close>

section \<open>The loop\<close>

text \<open>
  What the process is given: the profile, the limit, the clock, and whether each write to the
  socket and to the log succeeds.  A failed write or an overflow is a panic, which ends the
  process with what was sent and logged before it: \<open>rs_sent\<close> and \<open>rs_log\<close> are the messages and
  lines whose write returned, and of the one that failed a part may have been written.
\<close>

record Risk_World =
  rw_checked :: bool
  rw_max_abs_position :: int
  rw_clock :: "nat \<Rightarrow> pyfloat"
  rw_send_ok :: "nat \<Rightarrow> bool"
  rw_log_ok :: "nat \<Rightarrow> bool"

record Risk_State =
  rs_position :: PositionTracker
  rs_next_flatten_id :: "64 word"
  rs_sent :: "bytes list"
  rs_log :: "Risk_Line list"

definition FLATTEN_ORDER_ID_BASE :: "64 word" where
  "FLATTEN_ORDER_ID_BASE = 1000000000"

definition risk_start :: Risk_State where
  "risk_start = \<lparr>rs_position = tracker_new, rs_next_flatten_id = FLATTEN_ORDER_ID_BASE, rs_sent = [], rs_log = []\<rparr>"

definition risk_write_all :: "Risk_World \<Rightarrow> bytes \<Rightarrow> Risk_State \<Rightarrow> (panic \<times> Risk_State) + Risk_State" where
  "risk_write_all w msg s =
     (if rw_send_ok w (length (rs_sent s)) then Inr (s\<lparr>rs_sent := rs_sent s @ [msg]\<rparr>) else Inl (Expect_Failed, s))"

definition risk_write_line :: "Risk_World \<Rightarrow> Risk_Line \<Rightarrow> Risk_State \<Rightarrow> (panic \<times> Risk_State) + Risk_State" where
  "risk_write_line w line s =
     (if rw_log_ok w (length (rs_log s)) then Inr (s\<lparr>rs_log := rs_log s @ [line]\<rparr>) else Inl (Expect_Failed, s))"

definition in_state :: "'s \<Rightarrow> 'a rust \<Rightarrow> (panic \<times> 's) + 'a" where
  "in_state s m = (case m of Inl e \<Rightarrow> Inl (e, s) | Inr v \<Rightarrow> Inr v)"

definition flatten_order :: "64 word \<Rightarrow> FlattenAction \<Rightarrow> Risk_Order" where
  "flatten_order order_id action =
     \<lparr>ro_client_order_id = order_id, ro_side = fa_side action, ro_order_type = MARKET, ro_price_ticks = 0,
      ro_quantity = fa_quantity action\<rparr>"

definition risk_flatten ::
  "Risk_World \<Rightarrow> pyfloat \<Rightarrow> FlattenAction \<Rightarrow> Risk_State \<Rightarrow> (panic \<times> Risk_State) + Risk_State" where
  "risk_flatten w ts action s =
     (let order_id = rs_next_flatten_id s in
      if rw_checked w \<and> order_id = - 1 then Inl (Arithmetic_Overflow, s)
      else
        sum_bind (risk_write_all w (rust_encode_new_order (flatten_order order_id action))
          (s\<lparr>rs_next_flatten_id := order_id + 1\<rparr>)) (\<lambda>s'.
        risk_write_line w (Halt (pt_net_position (rs_position s')) (rw_max_abs_position w) order_id ts) s'))"

definition risk_on_fill :: "Risk_World \<Rightarrow> Risk_Fill \<Rightarrow> Risk_State \<Rightarrow> (panic \<times> Risk_State) + Risk_State" where
  "risk_on_fill w fill s =
     sum_bind (in_state s (tracker_on_fill (rw_checked w) (fill_incoming_side fill) (rf_quantity fill)
       (rf_price_ticks fill) (rs_position s))) (\<lambda>position.
     let s1 = s\<lparr>rs_position := position\<rparr>; ts = rw_clock w (length (rs_log s1)) in
     sum_bind (in_state s1 (tracker_unrealized (rw_checked w) position)) (\<lambda>unrealized.
     sum_bind (risk_write_line w (Position_Update (pt_net_position position) (pt_realized_pnl_ticks position)
       unrealized ts) s1) (\<lambda>s2.
     sum_bind (in_state s2 (check_breach (rw_checked w) (rw_max_abs_position w) (pt_net_position position)))
       (\<lambda>breach. case breach of None \<Rightarrow> Inr s2 | Some action \<Rightarrow> risk_flatten w ts action s2))))"

datatype Risk_Exit = Server_Closed | Unknown_Tag | Closed_Mid_Message | Panicked panic

text \<open>\<open>inp\<close> is the rest of the stream, up to the close or the error that ends it.\<close>

function risk_loop :: "Risk_World \<Rightarrow> bytes \<Rightarrow> Risk_State \<Rightarrow> Risk_Exit \<times> Risk_State" where
  "risk_loop w [] s = (Server_Closed, s)"
| "risk_loop w (tag # inp) s =
     (case rust_payload_size tag of
        None \<Rightarrow> (Unknown_Tag, s)
      | Some sz \<Rightarrow>
          if length inp < sz then (Closed_Mid_Message, s)
          else if tag = 0x10 then
            (case risk_on_fill w (rust_decode_fill (take sz inp)) s of
               Inl (e, s') \<Rightarrow> (Panicked e, s')
             | Inr s' \<Rightarrow> risk_loop w (drop sz inp) s')
          else risk_loop w (drop sz inp) s)"
  by pat_completeness auto
termination by (relation "measure (\<lambda>(w, inp, s). length inp)") auto

definition risk_main :: "Risk_World \<Rightarrow> bytes \<Rightarrow> Risk_Exit \<times> Risk_State" where
  "risk_main w inp =
     (case risk_write_all w rust_encode_subscribe_fills risk_start of
        Inl (e, s) \<Rightarrow> (Panicked e, s)
      | Inr s \<Rightarrow> risk_loop w inp s)"

section \<open>Lemmas\<close>

subsection \<open>The three implementations of the protocol agree\<close>

lemma rust_payload_size_engine: "rust_payload_size tag = engine_payload_size tag"
  by (simp add: rust_payload_size_def engine_payload_size_def)

lemma u64_from_be_put [simp]: "u64_from_be (put_u64 v) = v" "u32_from_be (put_u32 w) = w"
  by (simp_all add: u64_from_be_def u32_from_be_def)

lemma rust_decode_fill_engine:
  "rust_decode_fill (engine_encode_fill m) =
     \<lparr>rf_resting_order_id = wf_resting_order_id m, rf_incoming_order_id = wf_incoming_order_id m,
      rf_resting_side = side_from_u8 (wf_resting_side m), rf_price_ticks = wrap64 (wf_price_ticks m),
      rf_quantity = wf_quantity m, rf_timestamp = wf_timestamp m\<rparr>"
  by (simp add: rust_decode_fill_def engine_encode_fill_def slice_def nth_append put_u8_def i64_from_be_def wrap64_def)

lemma rust_decode_ack_engine:
  "rust_decode_ack (engine_encode_ack m) =
     \<lparr>ra_client_order_id = wa_client_order_id m, ra_request_type = wa_request_type m, ra_status = wa_status m\<rparr>"
  by (simp add: rust_decode_ack_def engine_encode_ack_def slice_def nth_append put_u8_def)

definition wire_of_risk_order :: "Risk_Order \<Rightarrow> Wire_Order" where
  "wire_of_risk_order m =
     \<lparr>wo_client_order_id = ro_client_order_id m, wo_side = side_u8 (ro_side m), wo_order_type = order_type_u8 (ro_order_type m),
      wo_price_ticks = ro_price_ticks m, wo_quantity = ro_quantity m\<rparr>"

lemma rust_encode_new_order_engine:
  "rust_encode_new_order m = 1 # engine_encode_order (wire_of_risk_order m)"
  by (simp add: rust_encode_new_order_def engine_encode_order_def wire_of_risk_order_def put_u64_eq put_u32_eq put_u8_def)

lemma rust_encode_cancel_engine: "rust_encode_cancel k = 2 # engine_encode_cancel k"
  by (simp add: rust_encode_cancel_def engine_encode_cancel_def put_u64_eq)

lemma rust_decode_new_order_engine:
  "rust_decode_new_order (engine_encode_order m) =
     \<lparr>ro_client_order_id = wo_client_order_id m, ro_side = side_from_u8 (wo_side m),
      ro_order_type = (if wo_order_type m = 0 then LIMIT else MARKET), ro_price_ticks = wrap64 (wo_price_ticks m),
      ro_quantity = wo_quantity m\<rparr>"
  by (simp add: rust_decode_new_order_def engine_encode_order_def slice_def nth_append put_u8_def i64_from_be_def wrap64_def)

lemma rust_new_order_round:
  assumes "int64_ok (ro_price_ticks m)"
  shows "rust_decode_new_order (tl (rust_encode_new_order m)) = m"
proof -
  have "side_from_u8 (side_u8 sd) = sd" "(if order_type_u8 ty = 0 then LIMIT else MARKET) = ty" for sd ty
    by (cases sd; simp add: side_from_u8_def) (cases ty; simp)
  with assms show ?thesis
    by (simp only: rust_encode_new_order_engine list.sel rust_decode_new_order_engine wire_of_risk_order_def
        Wire_Order.simps wrap64_ok) simp
qed

subsection \<open>One fill\<close>

definition side_signed :: "Side \<Rightarrow> 32 word \<Rightarrow> int" where
  "side_signed sd q = (case sd of BUY \<Rightarrow> uint q | SELL \<Rightarrow> - uint q)"

definition fill_signed :: "Risk_Fill \<Rightarrow> int" where
  "fill_signed f = side_signed (fill_incoming_side f) (rf_quantity f)"

lemma tracker_on_fill_add:
  assumes "pt_net_position t = 0 \<or> sign (pt_net_position t) = sign (side_signed sd q)"
  shows "tracker_on_fill checked sd q p t =
    sum_bind (i64_result checked (pt_net_position t + side_signed sd q)) (\<lambda>net'.
      Inr (t\<lparr>pt_last_trade_price_ticks := p,
        pt_avg_entry_price_ticks := f64_div (fadd (fmul (pt_avg_entry_price_ticks t) (i64_as_f64 \<bar>pt_net_position t\<bar>))
            (fmul (i64_as_f64 p) (i64_as_f64 \<bar>side_signed sd q\<bar>)))
          (fadd (i64_as_f64 \<bar>pt_net_position t\<bar>) (i64_as_f64 \<bar>side_signed sd q\<bar>)),
        pt_net_position := net'\<rparr>))"
  using assms unfolding tracker_on_fill_def Let_def side_signed_def [symmetric] by simp

lemma tracker_on_fill_close:
  assumes "\<not> (pt_net_position t = 0 \<or> sign (pt_net_position t) = sign (side_signed sd q))"
  shows "tracker_on_fill checked sd q p t =
    sum_bind (i64_result checked \<bar>pt_net_position t\<bar>) (\<lambda>abs_net.
    sum_bind (i64_result checked (sign (pt_net_position t) * min \<bar>side_signed sd q\<bar> abs_net)) (\<lambda>closing.
    sum_bind (i64_result checked (p - f64_as_i64 (pt_avg_entry_price_ticks t))) (\<lambda>move.
    sum_bind (i64_result checked (closing * move)) (\<lambda>pnl.
    sum_bind (i64_result checked (pt_realized_pnl_ticks t + pnl)) (\<lambda>realized.
    sum_bind (i64_result checked (pt_net_position t + side_signed sd q)) (\<lambda>net'.
      Inr (if net' \<noteq> 0 \<and> sign net' \<noteq> sign (pt_net_position t)
        then t\<lparr>pt_last_trade_price_ticks := p, pt_realized_pnl_ticks := realized, pt_net_position := net',
               pt_avg_entry_price_ticks := i64_as_f64 p\<rparr>
        else t\<lparr>pt_last_trade_price_ticks := p, pt_realized_pnl_ticks := realized, pt_net_position := net'\<rparr>)))))))"
  using assms unfolding tracker_on_fill_def Let_def side_signed_def [symmetric] by simp

lemma tracker_on_fill_net:
  assumes t: "tracker_on_fill checked sd q p t = Inr t'"
  shows "pt_net_position t' = wrap64 (pt_net_position t + side_signed sd q)"
    "checked \<Longrightarrow> pt_net_position t' = pt_net_position t + side_signed sd q"
    "pt_last_trade_price_ticks t' = p"
proof -
  have "i64_result checked (pt_net_position t + side_signed sd q) = Inr (pt_net_position t') \<and> pt_last_trade_price_ticks t' = p"
  proof (cases "pt_net_position t = 0 \<or> sign (pt_net_position t) = sign (side_signed sd q)")
    case True
    from t show ?thesis unfolding tracker_on_fill_add [OF True] sum_bind_eq_Inr by auto
  next
    case False
    from t show ?thesis unfolding tracker_on_fill_close [OF False] sum_bind_eq_Inr by (auto split: if_splits)
  qed
  then show "pt_net_position t' = wrap64 (pt_net_position t + side_signed sd q)"
    "checked \<Longrightarrow> pt_net_position t' = pt_net_position t + side_signed sd q" "pt_last_trade_price_ticks t' = p"
    using i64_result_range by blast+
qed

lemma tracker_on_fill_release: "\<exists>t'. tracker_on_fill False sd q p t = Inr t'"
  by (simp add: tracker_on_fill_def Let_def)

definition breached :: "int \<Rightarrow> int \<Rightarrow> bool" where
  "breached max_abs_position net = (max_abs_position < wrap64 \<bar>net\<bar>)"

text \<open>
  The specification of the flattening order of a position, for the statements below; the code's
  is what \<^const>\<open>check_breach\<close> and \<^const>\<open>risk_flatten\<close> make (\<open>check_breach_flatten\<close>).
\<close>

definition flatten_msg :: "64 word \<Rightarrow> int \<Rightarrow> bytes" where
  "flatten_msg order_id net = rust_encode_new_order (flatten_order order_id
     \<lparr>fa_side = (if 0 < net then SELL else BUY), fa_quantity = word_of_int \<bar>net\<bar>\<rparr>)"

lemma check_breach_eq:
  "check_breach checked max_abs net =
     (if checked \<and> \<not> int64_ok \<bar>net\<bar> then Inl Arithmetic_Overflow
      else if breached max_abs net then Inr (Some \<lparr>fa_side = (if 0 < net then SELL else BUY), fa_quantity = word_of_int \<bar>net\<bar>\<rparr>)
      else Inr None)"
  by (auto simp: check_breach_def i64_result_def breached_def)

lemma check_breach_flatten:
  "check_breach checked max_abs net = Inr (Some action) \<Longrightarrow>
   flatten_msg order_id net = rust_encode_new_order (flatten_order order_id action) \<and> breached max_abs net"
  by (auto simp: check_breach_eq flatten_msg_def split: if_splits)

lemma in_state_simps [simp]: "in_state s (Inl e) = Inl (e, s)" "in_state s (Inr v) = Inr v"
  by (simp_all add: in_state_def)

lemma in_state_Inr: "in_state s m = Inr v \<longleftrightarrow> m = Inr v"
  by (cases m) simp_all

lemma in_state_Inl: "in_state s m = Inl x \<longleftrightarrow> (\<exists>e. m = Inl e \<and> x = (e, s))"
  by (cases m) auto

lemmas sum_bind_eqs = sum_bind_eq_Inr sum_bind_eq_Inl in_state_Inr in_state_Inl

lemma risk_write_line_eqs:
  "risk_write_line w line s = Inr s' \<longleftrightarrow> rw_log_ok w (length (rs_log s)) \<and> s' = s\<lparr>rs_log := rs_log s @ [line]\<rparr>"
  "risk_write_line w line s = Inl x \<longleftrightarrow> \<not> rw_log_ok w (length (rs_log s)) \<and> x = (Expect_Failed, s)"
  by (auto simp: risk_write_line_def)

lemma risk_write_all_eqs:
  "risk_write_all w msg s = Inr s' \<longleftrightarrow> rw_send_ok w (length (rs_sent s)) \<and> s' = s\<lparr>rs_sent := rs_sent s @ [msg]\<rparr>"
  "risk_write_all w msg s = Inl x \<longleftrightarrow> \<not> rw_send_ok w (length (rs_sent s)) \<and> x = (Expect_Failed, s)"
  by (auto simp: risk_write_all_def)

text \<open>The flattening order and its line.\<close>

lemma risk_flatten_Inr:
  assumes "risk_flatten w ts action s = Inr s'"
  shows "s' = s\<lparr>rs_next_flatten_id := rs_next_flatten_id s + 1,
    rs_sent := rs_sent s @ [rust_encode_new_order (flatten_order (rs_next_flatten_id s) action)],
    rs_log := rs_log s @ [Halt (pt_net_position (rs_position s)) (rw_max_abs_position w) (rs_next_flatten_id s) ts]\<rparr>"
  using assms by (auto simp: risk_flatten_def Let_def sum_bind_eqs risk_write_line_eqs risk_write_all_eqs split: if_splits)

lemma risk_flatten_Inl:
  assumes "risk_flatten w ts action s = Inl (e, s')"
  shows "rs_log s' = rs_log s \<and>
    (rs_sent s' = rs_sent s \<or> rs_sent s' = rs_sent s @ [rust_encode_new_order (flatten_order (rs_next_flatten_id s) action)])"
  using assms by (auto simp: risk_flatten_def Let_def sum_bind_eqs risk_write_line_eqs risk_write_all_eqs split: if_splits)

abbreviation net_after :: "Risk_Fill \<Rightarrow> Risk_State \<Rightarrow> int" where
  "net_after f s \<equiv> wrap64 (pt_net_position (rs_position s) + fill_signed f)"

lemma risk_on_fill_Inr:
  assumes r: "risk_on_fill w f s = Inr s'"
  shows "pt_net_position (rs_position s') = net_after f s \<and>
    rs_next_flatten_id s' = rs_next_flatten_id s + of_bool (breached (rw_max_abs_position w) (net_after f s)) \<and>
    rs_sent s' = rs_sent s @ (if breached (rw_max_abs_position w) (net_after f s)
      then [flatten_msg (rs_next_flatten_id s) (net_after f s)] else []) \<and>
    (\<exists>r u ts. rs_log s' = rs_log s @ Position_Update (net_after f s) r u ts # (if breached (rw_max_abs_position w) (net_after f s)
      then [Halt (net_after f s) (rw_max_abs_position w) (rs_next_flatten_id s) ts] else []))"
proof -
  let ?ts = "rw_clock w (length (rs_log s))"
  from r obtain t u b where t: "tracker_on_fill (rw_checked w) (fill_incoming_side f) (rf_quantity f) (rf_price_ticks f) (rs_position s) = Inr t"
    and b: "check_breach (rw_checked w) (rw_max_abs_position w) (pt_net_position t) = Inr b"
    and n: "(case b of None \<Rightarrow> Inr (s\<lparr>rs_position := t, rs_log := rs_log s @ [Position_Update (pt_net_position t) (pt_realized_pnl_ticks t) u ?ts]\<rparr>)
      | Some action \<Rightarrow> risk_flatten w ?ts action
          (s\<lparr>rs_position := t, rs_log := rs_log s @ [Position_Update (pt_net_position t) (pt_realized_pnl_ticks t) u ?ts]\<rparr>)) = Inr s'"
    by (auto simp: risk_on_fill_def Let_def sum_bind_eqs risk_write_line_eqs)
  have net: "pt_net_position t = net_after f s" using tracker_on_fill_net(1) [OF t] by (simp add: fill_signed_def)
  show ?thesis
  proof (cases b)
    case None
    with b have "\<not> breached (rw_max_abs_position w) (net_after f s)" by (simp add: check_breach_eq net split: if_splits)
    with None n net show ?thesis by auto
  next
    case (Some a)
    with b have br: "breached (rw_max_abs_position w) (net_after f s)"
      "a = \<lparr>fa_side = (if 0 < net_after f s then SELL else BUY), fa_quantity = word_of_int \<bar>net_after f s\<bar>\<rparr>"
      by (simp_all add: check_breach_eq net split: if_splits)
    from n Some have "risk_flatten w ?ts a
        (s\<lparr>rs_position := t, rs_log := rs_log s @ [Position_Update (pt_net_position t) (pt_realized_pnl_ticks t) u ?ts]\<rparr>) = Inr s'" by simp
    from risk_flatten_Inr [OF this] br net show ?thesis by (simp add: flatten_msg_def)
  qed
qed

lemma risk_on_fill_Inl:
  assumes r: "risk_on_fill w f s = Inl (e, s')"
  shows "rs_log s' = rs_log s \<and> rs_sent s' = rs_sent s \<or>
    (\<exists>r u ts. rs_log s' = rs_log s @ [Position_Update (net_after f s) r u ts] \<and>
      (rs_sent s' = rs_sent s \<or> breached (rw_max_abs_position w) (net_after f s) \<and>
         rs_sent s' = rs_sent s @ [flatten_msg (rs_next_flatten_id s) (net_after f s)]))"
proof (cases "tracker_on_fill (rw_checked w) (fill_incoming_side f) (rf_quantity f) (rf_price_ticks f) (rs_position s)")
  case (Inl x)
  with r show ?thesis by (simp add: risk_on_fill_def)
next
  case (Inr t)
  let ?ts = "rw_clock w (length (rs_log s))"
  have net: "pt_net_position t = net_after f s" using tracker_on_fill_net(1) [OF Inr] by (simp add: fill_signed_def)
  show ?thesis
  proof (cases "\<exists>u. tracker_unrealized (rw_checked w) t = Inr u \<and> rw_log_ok w (length (rs_log s))")
    case False
    with r Inr have "rs_log s' = rs_log s \<and> rs_sent s' = rs_sent s"
      by (auto simp: risk_on_fill_def Let_def sum_bind_eqs risk_write_line_eqs)
    then show ?thesis by blast
  next
    case True
    then obtain u where u: "tracker_unrealized (rw_checked w) t = Inr u" "rw_log_ok w (length (rs_log s))" by blast
    let ?s = "s\<lparr>rs_position := t, rs_log := rs_log s @ [Position_Update (pt_net_position t) (pt_realized_pnl_ticks t) u ?ts]\<rparr>"
    have e: "risk_on_fill w f s = sum_bind (in_state ?s (check_breach (rw_checked w) (rw_max_abs_position w) (pt_net_position t)))
       (\<lambda>breach. case breach of None \<Rightarrow> Inr ?s | Some action \<Rightarrow> risk_flatten w ?ts action ?s)"
      using Inr u by (simp add: risk_on_fill_def Let_def risk_write_line_def)
    show ?thesis
    proof (cases "check_breach (rw_checked w) (rw_max_abs_position w) (pt_net_position t)")
      case (Inl x)
      with e r net show ?thesis by simp
    next
      case b: (Inr b)
      with e r obtain a where a: "b = Some a" "risk_flatten w ?ts a ?s = Inl (e, s')" by (cases b) simp_all
      with b have br: "breached (rw_max_abs_position w) (net_after f s)"
        "a = \<lparr>fa_side = (if 0 < net_after f s then SELL else BUY), fa_quantity = word_of_int \<bar>net_after f s\<bar>\<rparr>"
        by (simp_all add: check_breach_eq net split: if_splits)
      from risk_flatten_Inl [OF a(2)] br net show ?thesis by (auto simp: flatten_msg_def)
    qed
  qed
qed

subsection \<open>Whole runs\<close>

text \<open>The fills in a stream, and the positions they lead to.\<close>

function stream_fills :: "bytes \<Rightarrow> Risk_Fill list" where
  "stream_fills [] = []"
| "stream_fills (tag # inp) =
     (case rust_payload_size tag of
        None \<Rightarrow> []
      | Some sz \<Rightarrow>
          if length inp < sz then []
          else if tag = 0x10 then rust_decode_fill (take sz inp) # stream_fills (drop sz inp)
          else stream_fills (drop sz inp))"
  by pat_completeness auto
termination by (relation "measure length") auto

fun positions :: "int \<Rightarrow> Risk_Fill list \<Rightarrow> int list" where
  "positions net [] = []"
| "positions net (f # fs) = wrap64 (net + fill_signed f) # positions (wrap64 (net + fill_signed f)) fs"

text \<open>The orders and the halt lines of a list of breaching positions.\<close>

fun flattens :: "64 word \<Rightarrow> int list \<Rightarrow> bytes list" where
  "flattens order_id [] = []"
| "flattens order_id (net # nets) = flatten_msg order_id net # flattens (order_id + 1) nets"

fun halts :: "int \<Rightarrow> 64 word \<Rightarrow> int list \<Rightarrow> (int \<times> int \<times> 64 word) list" where
  "halts max_abs order_id [] = []"
| "halts max_abs order_id (net # nets) = (net, max_abs, order_id) # halts max_abs (order_id + 1) nets"

fun logged_nets :: "Risk_Line list \<Rightarrow> int list" where
  "logged_nets [] = []"
| "logged_nets (Position_Update net r u ts # ls) = net # logged_nets ls"
| "logged_nets (Halt net m k ts # ls) = logged_nets ls"

fun logged_halts :: "Risk_Line list \<Rightarrow> (int \<times> int \<times> 64 word) list" where
  "logged_halts [] = []"
| "logged_halts (Position_Update net r u ts # ls) = logged_halts ls"
| "logged_halts (Halt net m k ts # ls) = (net, m, k) # logged_halts ls"

lemma logged_append [simp]:
  "logged_nets (xs @ ys) = logged_nets xs @ logged_nets ys"
  "logged_halts (xs @ ys) = logged_halts xs @ logged_halts ys"
  by (induction xs rule: logged_nets.induct; simp)+

lemma length_flattens [simp]: "length (flattens k ns) = length ns" "length (halts m k ns) = length ns"
  by (induction ns arbitrary: k) simp_all

lemma risk_loop_audit:
  assumes "risk_loop w inp s = (how, s')"
    and "ns = positions (pt_net_position (rs_position s)) (stream_fills inp)"
  shows "\<exists>k h j. let bs = filter (breached (rw_max_abs_position w)) (take k ns) in
    logged_nets (rs_log s') = logged_nets (rs_log s) @ take k ns \<and>
    logged_halts (rs_log s') = logged_halts (rs_log s) @ take h (halts (rw_max_abs_position w) (rs_next_flatten_id s) bs) \<and>
    rs_sent s' = rs_sent s @ take j (flattens (rs_next_flatten_id s) bs) \<and>
    h \<le> j \<and> j \<le> length bs \<and> length bs \<le> h + 1 \<and>
    ((\<forall>e. how \<noteq> Panicked e) \<longrightarrow> k = length ns \<and> h = length bs \<and>
       pt_net_position (rs_position s') = last (pt_net_position (rs_position s) # ns))"
  using assms
proof (induction w inp s arbitrary: ns rule: risk_loop.induct)
  case (1 w s)
  then show ?case by (intro exI [of _ 0]) simp
next
  case (2 w tag inp s)
  show ?case
  proof (cases "rust_payload_size tag")
    case None
    have "how = Unknown_Tag" "s' = s" using "2.prems"(1) None by simp_all
    moreover have "ns = []" using "2.prems"(2) None by simp
    ultimately show ?thesis by (intro exI [of _ 0]) simp
  next
    case (Some sz)
    show ?thesis
    proof (cases "length inp < sz")
      case True
      with Some "2.prems" show ?thesis by (intro exI [of _ 0]) simp
    next
      case enough: False
      show ?thesis
      proof (cases "tag = 0x10")
        case False
        from "2.IH"(2) [OF Some enough False, OF _ refl] "2.prems" Some enough False show ?thesis by simp
      next
        case True
        let ?f = "rust_decode_fill (take sz inp)" and ?br = "breached (rw_max_abs_position w)"
        have ns: "ns = net_after ?f s # positions (net_after ?f s) (stream_fills (drop sz inp))"
          using "2.prems"(2) Some enough True by simp
        show ?thesis
        proof (cases "risk_on_fill w ?f s")
          case (Inl x)
          obtain e s1 where x: "x = (e, s1)" by (cases x)
          with "2.prems"(1) Some enough True Inl have s1: "how = Panicked e" "s' = s1" by simp_all
          from risk_on_fill_Inl [OF Inl [unfolded x]] consider
            (early) "rs_log s' = rs_log s" "rs_sent s' = rs_sent s" |
            (send) r u ts where "rs_log s' = rs_log s @ [Position_Update (net_after ?f s) r u ts]" "rs_sent s' = rs_sent s" |
            (halt) r u ts where "rs_log s' = rs_log s @ [Position_Update (net_after ?f s) r u ts]" "?br (net_after ?f s)"
              "rs_sent s' = rs_sent s @ [flatten_msg (rs_next_flatten_id s) (net_after ?f s)]"
            using s1(2) by blast
          then show ?thesis
          proof cases
            case early
            with s1 show ?thesis by (intro exI [of _ 0]) simp
          next
            case send
            with s1 show ?thesis by (intro exI [of _ 1] exI [of _ 0]) (simp add: ns)
          next
            case halt
            with s1 show ?thesis by (intro exI [of _ 1] exI [of _ 0] exI [of _ 1]) (simp add: ns)
          qed
        next
          case (Inr s1)
          define n1 ns1 id1 where "n1 = net_after ?f s" and "ns1 = positions n1 (stream_fills (drop sz inp))"
            and "id1 = rs_next_flatten_id s"
          note f = risk_on_fill_Inr [OF Inr, folded n1_def id1_def]
          have ns1: "ns = n1 # ns1" by (simp add: ns ns1_def n1_def)
          have "risk_loop w (drop sz inp) s1 = (how, s')" using "2.prems"(1) Some enough True Inr by simp
          moreover have "ns1 = positions (pt_net_position (rs_position s1)) (stream_fills (drop sz inp))"
            using f by (simp add: ns1_def)
          ultimately obtain k h j where i: "let bs = filter ?br (take k ns1) in
            logged_nets (rs_log s') = logged_nets (rs_log s1) @ take k ns1 \<and>
            logged_halts (rs_log s') = logged_halts (rs_log s1) @ take h (halts (rw_max_abs_position w) (rs_next_flatten_id s1) bs) \<and>
            rs_sent s' = rs_sent s1 @ take j (flattens (rs_next_flatten_id s1) bs) \<and>
            h \<le> j \<and> j \<le> length bs \<and> length bs \<le> h + 1 \<and>
            ((\<forall>e. how \<noteq> Panicked e) \<longrightarrow> k = length ns1 \<and> h = length bs \<and>
               pt_net_position (rs_position s') = last (pt_net_position (rs_position s1) # ns1))"
            using "2.IH"(1) [OF Some enough True Inr] by blast
          have net: "pt_net_position (rs_position s1) = n1" using f by blast
          show ?thesis
          proof (cases "?br n1")
            case True
            with f have s1: "logged_nets (rs_log s1) = logged_nets (rs_log s) @ [n1]"
              "logged_halts (rs_log s1) = logged_halts (rs_log s) @ [(n1, rw_max_abs_position w, id1)]"
              "rs_sent s1 = rs_sent s @ [flatten_msg id1 n1]" "rs_next_flatten_id s1 = id1 + 1" by auto
            from i show ?thesis unfolding Let_def s1 net ns1
              by (intro exI [of _ "Suc k"] exI [of _ "Suc h"] exI [of _ "Suc j"]) (simp add: True id1_def)
          next
            case False
            with f have s1: "logged_nets (rs_log s1) = logged_nets (rs_log s) @ [n1]"
              "logged_halts (rs_log s1) = logged_halts (rs_log s)" "rs_sent s1 = rs_sent s" "rs_next_flatten_id s1 = id1" by auto
            from i show ?thesis unfolding Let_def s1 net ns1
              by (intro exI [of _ "Suc k"] exI [of _ h] exI [of _ j]) (simp add: False id1_def)
          qed
        qed
      qed
    qed
  qed
qed

subsection \<open>Average-cost accounting\<close>

text \<open>The tracker holds a state of the specification \<^term>\<open>cost_step\<close>, as the replay of the report does.\<close>

definition tracks :: "int \<times> int \<times> int \<Rightarrow> PositionTracker \<Rightarrow> bool" where
  "tracks st t \<longleftrightarrow> (case st of (net, realized, avg) \<Rightarrow>
     pt_net_position t = net \<and> pt_realized_pnl_ticks t = realized \<and>
     is_finite (pt_avg_entry_price_ticks t) \<and> fval (pt_avg_entry_price_ticks t) = of_int avg)"

lemma fmul_of_ints:
  assumes "is_finite x" "fval x = of_int a" "is_finite y" "fval y = of_int b" "\<bar>a * b\<bar> \<le> 2 ^ 53"
  shows "is_finite (fmul x y) \<and> fval (fmul x y) = of_int (a * b)"
proof -
  have "exact (of_int (a * b))" using assms(5) by (rule exact_of_int)
  then show ?thesis using fmul_exact [of x y] assms by simp
qed

lemma fadd_of_ints:
  assumes "is_finite x" "fval x = of_int a" "is_finite y" "fval y = of_int b" "\<bar>a + b\<bar> \<le> 2 ^ 53"
  shows "is_finite (fadd x y) \<and> fval (fadd x y) = of_int (a + b)"
proof -
  have "exact (of_int (a + b))" using assms(5) by (rule exact_of_int)
  then show ?thesis using fadd_finite [of x y] assms by (simp add: exact_def)
qed

lemma f64_div_of_ints:
  assumes "is_finite x" "fval x = of_int (k * n)" "is_finite y" "fval y = of_int n" "n \<noteq> 0" "\<bar>k\<bar> \<le> 2 ^ 53"
  shows "is_finite (f64_div x y) \<and> fval (f64_div x y) = of_int k"
proof -
  have e: "exact (of_int k)" using assms(6) by (rule exact_of_int)
  have "fval x / fval y = of_int k" using assms by simp
  with fdiv_finite [of x y] e assms obtain z where "fdiv x y = Inr z" "is_finite z" "fval z = of_int k"
    by (auto simp: exact_def)
  then show ?thesis by (simp add: f64_div_fdiv)
qed

lemma int64_small: "\<bar>n\<bar> \<le> 2 ^ 62 \<Longrightarrow> int64_ok n"
  by (auto simp: int64_ok_def)

lemma tracker_step_exact:
  assumes t: "tracks (net, realized, avg) t"
    and s: "cost_step (net, realized, avg) (side_signed sd q, price) = Some (net', realized', avg')"
    and b: "\<bar>avg\<bar> \<le> P" "\<bar>price\<bar> \<le> P" "\<bar>net\<bar> + \<bar>side_signed sd q\<bar> \<le> Q" "1 \<le> P" "1 \<le> Q" "P * Q \<le> 2 ^ 52"
    and r: "\<bar>realized\<bar> \<le> 2 ^ 62"
  shows "\<exists>t'. tracker_on_fill checked sd q price t = Inr t' \<and> tracks (net', realized', avg') t' \<and>
    \<bar>avg'\<bar> \<le> P \<and> \<bar>realized' - realized\<bar> \<le> 2 ^ 52"
proof -
  let ?sq = "side_signed sd q"
  have PQ: "P \<le> 2 ^ 52" "Q \<le> 2 ^ 52" using le_product [OF b(4,5)] b(6) by auto
  have n: "\<bar>net\<bar> \<le> Q" "\<bar>?sq\<bar> \<le> Q" using b(3) by auto
  have x: "is_finite (pt_avg_entry_price_ticks t)" "fval (pt_avg_entry_price_ticks t) = of_int avg"
    "pt_net_position t = net" "pt_realized_pnl_ticks t = realized"
    using t by (simp_all add: tracks_def)
  have in53: "\<bar>price\<bar> \<le> 2 ^ 53" "\<bar>\<bar>net\<bar>\<bar> \<le> 2 ^ 53" "\<bar>\<bar>?sq\<bar>\<bar> \<le> 2 ^ 53" "\<bar>\<bar>net\<bar> + \<bar>?sq\<bar>\<bar> \<le> 2 ^ 53"
    using b(2,3) n PQ by auto
  note fl = i64_as_f64_exact [OF in53(1)] i64_as_f64_exact [OF in53(2)] i64_as_f64_exact [OF in53(3)]
  have pow: "(2 :: int) ^ 52 + 2 ^ 52 + 2 ^ 52 \<le> 2 ^ 62" "(2 :: int) ^ 52 \<le> 2 ^ 53" by simp_all
  have sum_ok: "int64_ok (net + ?sq)" by (rule int64_small) (use b(3) PQ pow in linarith)
  show ?thesis
  proof (cases "net = 0 \<or> sign net = sign ?sq")
    case True
    let ?total = "\<bar>net\<bar> + \<bar>?sq\<bar>" and ?cost = "avg * \<bar>net\<bar> + price * \<bar>?sq\<bar>"
    have d: "?total \<noteq> 0" "?cost mod ?total = 0" "net' = net + ?sq" "realized' = realized" "avg' = ?cost div ?total"
      using s True by (auto simp: Let_def split: if_splits)
    have e: "?cost = avg' * ?total" using d(2,5) by (metis div_mult_mod_eq add.right_neutral)
    have c1: "\<bar>avg * \<bar>net\<bar>\<bar> \<le> P * \<bar>net\<bar>" "\<bar>price * \<bar>?sq\<bar>\<bar> \<le> P * \<bar>?sq\<bar>"
      using b by (auto intro: abs_mult_le)
    have c2: "\<bar>?cost\<bar> \<le> P * ?total"
      using c1 abs_triangle_ineq [of "avg * \<bar>net\<bar>" "price * \<bar>?sq\<bar>"] by (simp add: distrib_left)
    have "\<bar>avg'\<bar> * ?total = \<bar>?cost\<bar>" unfolding e by (simp add: abs_mult)
    then have "\<bar>avg'\<bar> * ?total \<le> P * ?total" using c2 by linarith
    then have a: "\<bar>avg'\<bar> \<le> P" using d(1) by (simp add: mult_le_cancel_right)
    have pq: "P * \<bar>net\<bar> \<le> P * Q" "P * \<bar>?sq\<bar> \<le> P * Q" "P * ?total \<le> P * Q" using b n by (auto intro: mult_left_mono)
    have pn: "\<bar>avg * \<bar>net\<bar>\<bar> \<le> 2 ^ 53" "\<bar>price * \<bar>?sq\<bar>\<bar> \<le> 2 ^ 53" "\<bar>?cost\<bar> \<le> 2 ^ 53"
      using c1 c2 pq b(6) pow by linarith+
    have a53: "\<bar>avg'\<bar> \<le> 2 ^ 53" using a PQ pow by linarith
    define held where "held = fmul (pt_avg_entry_price_ticks t) (i64_as_f64 \<bar>net\<bar>)"
    define added where "added = fmul (i64_as_f64 price) (i64_as_f64 \<bar>?sq\<bar>)"
    define total where "total = fadd (i64_as_f64 \<bar>net\<bar>) (i64_as_f64 \<bar>?sq\<bar>)"
    have held: "is_finite held \<and> fval held = of_int (avg * \<bar>net\<bar>)"
      unfolding held_def using x fl pn by (intro fmul_of_ints) auto
    have added: "is_finite added \<and> fval added = of_int (price * \<bar>?sq\<bar>)"
      unfolding added_def using x fl pn by (intro fmul_of_ints) auto
    have cost: "is_finite (fadd held added) \<and> fval (fadd held added) = of_int ?cost"
      using held added pn(3) by (intro fadd_of_ints) auto
    have total: "is_finite total \<and> fval total = of_int ?total"
      unfolding total_def using fl in53(4) by (intro fadd_of_ints) auto
    have "is_finite (f64_div (fadd held added) total) \<and> fval (f64_div (fadd held added) total) = of_int avg'"
      by (rule f64_div_of_ints [where n = ?total]) (use cost [unfolded e] total d(1) a53 in auto)
    moreover have "tracker_on_fill checked sd q price t = Inr (t\<lparr>pt_last_trade_price_ticks := price,
        pt_avg_entry_price_ticks := f64_div (fadd held added) total, pt_net_position := net + ?sq\<rparr>)"
      using tracker_on_fill_add [of t sd q] True sum_ok by (simp add: x held_def added_def total_def)
    ultimately show ?thesis using d(3,4) x a by (simp add: tracks_def)
  next
    case False
    define c where "c = sign net * min \<bar>?sq\<bar> \<bar>net\<bar>"
    have d: "net' = net + ?sq" "realized' = realized + c * (price - avg)"
      "avg' = (if net' \<noteq> 0 \<and> sign net' \<noteq> sign net then price else avg)"
      using s False by (auto simp: Let_def c_def)
    have c: "\<bar>c\<bar> \<le> \<bar>net\<bar>" "2 * \<bar>c\<bar> \<le> Q" using b(3) by (auto simp: c_def sign_cases)
    have "\<bar>price - avg\<bar> \<le> 2 * P" using b(1,2) by linarith
    then have "\<bar>(price - avg) * c\<bar> \<le> (2 * P) * \<bar>c\<bar>" by (intro abs_mult_le) auto
    also have "\<dots> = P * (2 * \<bar>c\<bar>)" by simp
    also have "\<dots> \<le> P * Q" using c(2) b(4) by (intro mult_left_mono) auto
    finally have pc: "\<bar>c * (price - avg)\<bar> \<le> 2 ^ 52" using b(6) by (simp add: mult.commute)
    have "int64_ok avg" by (rule int64_small) (use b(1) PQ pow in linarith)
    then have av: "f64_as_i64 (pt_avg_entry_price_ticks t) = avg" using f64_as_i64_finite [OF x(1,2)] by blast
    have ok: "int64_ok \<bar>net\<bar>" "int64_ok c" "int64_ok (price - avg)" "int64_ok (c * (price - avg))"
      by (rule int64_small; use n c b(1,2) PQ pc pow in linarith)+
    have ok2: "int64_ok (realized + c * (price - avg))" using r pc by (auto simp: int64_ok_def)
    have e: "tracker_on_fill checked sd q price t =
      Inr (if net + ?sq \<noteq> 0 \<and> sign (net + ?sq) \<noteq> sign net
        then t\<lparr>pt_last_trade_price_ticks := price, pt_realized_pnl_ticks := realized + c * (price - avg),
          pt_net_position := net + ?sq, pt_avg_entry_price_ticks := i64_as_f64 price\<rparr>
        else t\<lparr>pt_last_trade_price_ticks := price, pt_realized_pnl_ticks := realized + c * (price - avg),
          pt_net_position := net + ?sq\<rparr>)"
      using tracker_on_fill_close [of t sd q, unfolded x] False ok ok2 sum_ok
      by (simp add: av c_def [symmetric])
    show ?thesis
    proof (cases "net + ?sq \<noteq> 0 \<and> sign (net + ?sq) \<noteq> sign net")
      case True
      with e d b(2) fl(1) pc show ?thesis by (simp add: tracks_def)
    next
      case False
      with e d b(1) x pc show ?thesis by (simp add: tracks_def)
    qed
  qed
qed

fun tracker_run :: "bool \<Rightarrow> (Side \<times> 32 word \<times> int) list \<Rightarrow> PositionTracker \<Rightarrow> PositionTracker rust" where
  "tracker_run checked [] t = Inr t"
| "tracker_run checked ((sd, q, p) # fs) t = sum_bind (tracker_on_fill checked sd q p t) (tracker_run checked fs)"

definition cost_view :: "Side \<times> 32 word \<times> int \<Rightarrow> int \<times> int" where
  "cost_view f = (case f of (sd, q, p) \<Rightarrow> (side_signed sd q, p))"

lemma tracker_run_exact:
  assumes "cost_run (net, realized, avg) (map cost_view fs) = Some (net', realized', avg')"
    "tracks (net, realized, avg) t" "\<bar>avg\<bar> \<le> P" "\<forall>(sd, q, p)\<in>set fs. \<bar>p\<bar> \<le> P"
    "\<bar>net\<bar> + sum_list (map (\<lambda>(sd, q, p). uint q) fs) \<le> Q" "1 \<le> P" "1 \<le> Q" "P * Q \<le> 2 ^ 52"
    "\<bar>realized\<bar> + int (length fs) * 2 ^ 52 \<le> 2 ^ 62"
  shows "\<exists>t'. tracker_run checked fs t = Inr t' \<and> tracks (net', realized', avg') t'"
  using assms(1-5,9)
proof (induction fs arbitrary: net realized avg t)
  case (Cons f fs)
  obtain sd q p where f: "f = (sd, q, p)" by (cases f)
  from Cons.prems(1) obtain n1 r1 a1 where 1: "cost_step (net, realized, avg) (side_signed sd q, p) = Some (n1, r1, a1)"
    "cost_run (n1, r1, a1) (map cost_view fs) = Some (net', realized', avg')"
    unfolding f list.map cost_run.simps cost_view_def by (auto split: option.splits)
  have sq: "\<bar>side_signed sd q\<bar> = uint q" by (cases sd) (simp_all add: side_signed_def)
  have nn: "0 \<le> sum_list (map (\<lambda>(sd, q, p). uint q) fs)" by (intro sum_list_nonneg) auto
  have b: "\<bar>p\<bar> \<le> P" "\<bar>net\<bar> + \<bar>side_signed sd q\<bar> \<le> Q" using Cons.prems(4,5) f nn sq by auto
  have r: "\<bar>realized\<bar> \<le> 2 ^ 62" using Cons.prems(6) by auto
  from tracker_step_exact [OF Cons.prems(2) 1(1) Cons.prems(3) b assms(6-8) r] obtain t1 where
    t1: "tracker_on_fill checked sd q p t = Inr t1" "tracks (n1, r1, a1) t1" "\<bar>a1\<bar> \<le> P" "\<bar>r1 - realized\<bar> \<le> 2 ^ 52" by blast
  have "n1 = net + side_signed sd q" using cost_step_conserves [OF 1(1), of 0] by simp
  then have "\<bar>n1\<bar> + sum_list (map (\<lambda>(sd, q, p). uint q) fs) \<le> Q" using Cons.prems(5) f sq by auto
  moreover have "\<bar>r1\<bar> + int (length fs) * 2 ^ 52 \<le> 2 ^ 62" using Cons.prems(6) t1(4) by (simp add: algebra_simps)
  ultimately show ?case using Cons.IH [OF 1(2) t1(2,3)] Cons.prems(4) f t1(1) by simp
qed simp

text \<open>In a release build nothing overflows into a panic, and no write that succeeds does.\<close>

lemma risk_on_fill_release:
  assumes "\<not> rw_checked w" "\<And>k. rw_send_ok w k" "\<And>k. rw_log_ok w k"
  shows "\<exists>s'. risk_on_fill w f s = Inr s'"
proof -
  obtain t where t: "tracker_on_fill False (fill_incoming_side f) (rf_quantity f) (rf_price_ticks f) (rs_position s) = Inr t"
    using tracker_on_fill_release by blast
  obtain u where "tracker_unrealized False t = Inr u" by (simp add: tracker_unrealized_def)
  with t assms show ?thesis
    by (auto simp: risk_on_fill_def Let_def check_breach_eq risk_flatten_def risk_write_line_def risk_write_all_def)
qed

text \<open>The messages of the server, read by the risk engine.\<close>

definition risk_fill :: "Fill \<Rightarrow> Risk_Fill" where
  "risk_fill f = \<lparr>rf_resting_order_id = fl_resting_order_id f, rf_incoming_order_id = fl_incoming_order_id f,
     rf_resting_side = fl_resting_side f, rf_price_ticks = fl_price_ticks f, rf_quantity = fl_quantity f,
     rf_timestamp = fl_timestamp f\<rparr>"

lemma rust_decode_fill_msg: "int64_ok (fl_price_ticks f) \<Longrightarrow> rust_decode_fill (tl (fill_msg f)) = risk_fill f"
  by (cases "fl_resting_side f") (simp_all add: fill_msg_def rust_decode_fill_engine side_from_u8_def risk_fill_def)

lemma fill_msg_shape: "fill_msg f = 0x10 # tl (fill_msg f)" "length (fill_msg f) = 38" "hd (fill_msg f) = 0x10"
  by (simp_all add: fill_msg_def)

lemma ack_msg_shape: "ack_msg k ty st = 0x11 # tl (ack_msg k ty st)" "length (ack_msg k ty st) = 11" "hd (ack_msg k ty st) = 0x11"
  by (simp_all add: ack_msg_def)

text \<open>One message at the head of the stream.\<close>

lemma stream_fills_ack: "stream_fills (ack_msg k ty st @ rest) = stream_fills rest"
  by (subst ack_msg_shape(1)) (simp add: rust_payload_size_def ack_msg_shape(2))

lemma stream_fills_fill:
  "int64_ok (fl_price_ticks f) \<Longrightarrow> stream_fills (fill_msg f @ rest) = risk_fill f # stream_fills rest"
  by (subst fill_msg_shape(1)) (simp add: rust_payload_size_def fill_msg_shape(2) rust_decode_fill_msg)

lemma risk_loop_ack: "risk_loop w (ack_msg k ty st @ rest) s = risk_loop w rest s"
  by (subst ack_msg_shape(1)) (simp add: rust_payload_size_def ack_msg_shape(2))

lemma risk_loop_fill:
  "int64_ok (fl_price_ticks f) \<Longrightarrow> risk_loop w (fill_msg f @ rest) s =
     (case risk_on_fill w (risk_fill f) s of Inl (e, s') \<Rightarrow> (Panicked e, s') | Inr s' \<Rightarrow> risk_loop w rest s')"
  by (subst fill_msg_shape(1)) (simp add: rust_payload_size_def fill_msg_shape(2) rust_decode_fill_msg cong: sum.case_cong)

lemma stream_fills_msgs:
  "\<forall>m\<in>set msgs. server_msg m \<Longrightarrow>
   \<exists>fs. filter (\<lambda>m. hd m \<noteq> 0x11) msgs = map fill_msg fs \<and> stream_fills (concat msgs) = map risk_fill fs"
proof (induction msgs)
  case (Cons m msgs)
  then obtain fs where fs: "filter (\<lambda>m. hd m \<noteq> 0x11) msgs = map fill_msg fs" "stream_fills (concat msgs) = map risk_fill fs" by auto
  from Cons.prems consider k ty st where "m = ack_msg k ty st" | f where "m = fill_msg f" "int64_ok (fl_price_ticks f)"
    by (auto simp: server_msg_def)
  then show ?case
  proof cases
    case 1
    with fs show ?thesis by (auto simp: ack_msg_shape(3) stream_fills_ack)
  next
    case 2
    with fs show ?thesis by (intro exI [of _ "f # fs"]) (simp add: fill_msg_shape(3) stream_fills_fill)
  qed
qed simp

lemma risk_loop_msgs:
  assumes "\<not> rw_checked w" "\<And>k. rw_send_ok w k" "\<And>k. rw_log_ok w k"
  shows "\<forall>m\<in>set msgs. server_msg m \<Longrightarrow> \<exists>s'. risk_loop w (concat msgs) s = (Server_Closed, s')"
proof (induction msgs arbitrary: s)
  case (Cons m msgs)
  from Cons.prems consider k ty st where "m = ack_msg k ty st" | f where "m = fill_msg f" "int64_ok (fl_price_ticks f)"
    by (auto simp: server_msg_def)
  then show ?case
  proof cases
    case 1
    with Cons show ?thesis by (simp add: risk_loop_ack)
  next
    case 2
    obtain s1 where "risk_on_fill w (risk_fill f) s = Inr s1" using risk_on_fill_release [OF assms] by blast
    with 2 Cons show ?thesis by (simp add: risk_loop_fill)
  qed
qed simp

lemma positions_last:
  "int64_ok net \<Longrightarrow> last (net # positions net fs) = wrap64 (net + sum_list (map fill_signed fs))"
proof (induction fs arbitrary: net)
  case (Cons f fs)
  from Cons.IH [of "wrap64 (net + fill_signed f)"] show ?case by (simp add: wrap64_add add.assoc)
qed simp

lemma positions_exact:
  assumes "\<forall>k\<le>length fs. int64_ok (net + sum_list (map fill_signed (take k fs)))"
  shows "positions net fs = map (\<lambda>k. net + sum_list (map fill_signed (take (Suc k) fs))) [0..<length fs]"
  using assms
proof (induction fs arbitrary: net)
  case (Cons f fs)
  have 1: "int64_ok (net + fill_signed f)" using Cons.prems [rule_format, of 1] by simp
  have "int64_ok ((net + fill_signed f) + sum_list (map fill_signed (take k fs)))" if "k \<le> length fs" for k
    using Cons.prems [rule_format, of "Suc k"] that by (simp add: add.assoc)
  with Cons.IH [of "net + fill_signed f"] 1 show ?case
    by (simp add: add.assoc map_upt_Suc del: upt_Suc)
qed simp

text \<open>The messages to a descriptor after the first \<open>k\<close> messages of the server.\<close>

definition sent_since :: "nat \<Rightarrow> nat \<Rightarrow> Server \<Rightarrow> bytes list" where
  "sent_since k fd s = map snd (filter (\<lambda>m. fst m = fd) (drop k (sv_sent s)))"

lemma sent_since_0 [simp]: "sent_since 0 fd s = sent_to fd s"
  by (simp add: sent_since_def sent_to_def)

text \<open>Over the messages of the server, in a build and an environment that do not panic.\<close>

definition risk_world_ok :: "Risk_World \<Rightarrow> bool" where
  "risk_world_ok w \<longleftrightarrow> \<not> rw_checked w \<and> (\<forall>k. rw_send_ok w k) \<and> (\<forall>k. rw_log_ok w k)"

lemma risk_loop_server_msgs:
  assumes w: "risk_world_ok w" and msgs: "\<forall>m\<in>set msgs. server_msg m"
  obtains s' fs where "risk_loop w (concat msgs) s = (Server_Closed, s')"
    "filter (\<lambda>m. hd m \<noteq> 0x11) msgs = map fill_msg fs"
    "pt_net_position (rs_position s') = last (pt_net_position (rs_position s) # positions (pt_net_position (rs_position s)) (map risk_fill fs))"
    "rs_sent s' = rs_sent s @ flattens (rs_next_flatten_id s) (filter (breached (rw_max_abs_position w))
       (positions (pt_net_position (rs_position s)) (map risk_fill fs)))"
    "stream_fills (concat msgs) = map risk_fill fs"
proof -
  have w': "\<not> rw_checked w" "\<And>k. rw_send_ok w k" "\<And>k. rw_log_ok w k" using w by (simp_all add: risk_world_ok_def)
  obtain s' where r: "risk_loop w (concat msgs) s = (Server_Closed, s')"
    using risk_loop_msgs [OF w' msgs] by blast
  obtain fs where f: "filter (\<lambda>m. hd m \<noteq> 0x11) msgs = map fill_msg fs" "stream_fills (concat msgs) = map risk_fill fs"
    using stream_fills_msgs [OF msgs] by blast
  from risk_loop_audit [OF r refl] f(2) show ?thesis unfolding Let_def
    by (intro that [OF r f(1) _ _ f(2)]) auto
qed

lemma risk_loop_fills:
  assumes w: "risk_world_ok w" and ok: "\<forall>f\<in>set fills. int64_ok (fl_price_ticks f)"
  shows "\<exists>s'. risk_loop w (concat (map fill_msg fills)) s = (Server_Closed, s') \<and>
    pt_net_position (rs_position s') = last (pt_net_position (rs_position s) # positions (pt_net_position (rs_position s)) (map risk_fill fills)) \<and>
    rs_sent s' = rs_sent s @ flattens (rs_next_flatten_id s) (filter (breached (rw_max_abs_position w))
       (positions (pt_net_position (rs_position s)) (map risk_fill fills)))"
proof -
  have "stream_fills (concat (map fill_msg fills)) = map risk_fill fills"
    using ok by (induction fills) (simp_all add: stream_fills_fill)
  moreover have "\<forall>m\<in>set (map fill_msg fills). server_msg m" using ok by (auto simp: server_msg_def)
  ultimately show ?thesis by (metis risk_loop_server_msgs [OF w])
qed

lemma risk_main_eq:
  "risk_main w inp = (if rw_send_ok w 0 then risk_loop w inp (risk_start\<lparr>rs_sent := [rust_encode_subscribe_fills]\<rparr>)
     else (Panicked Expect_Failed, risk_start))"
  by (simp add: risk_main_def risk_write_all_def risk_start_def)

lemma risk_start_simps [simp]:
  "pt_net_position (rs_position risk_start) = 0" "rs_next_flatten_id risk_start = FLATTEN_ORDER_ID_BASE"
  "rs_sent risk_start = []" "rs_log risk_start = []"
  by (simp_all add: risk_start_def tracker_new_def)

text \<open>With an average of 100.5 the tracker, which truncates it, realizes 2 ticks and the replay 1.\<close>

lemma half_exact: "exact (201 / 2)" "exact (1 / 2)"
proof -
  have "rnd (of_int 201 * pow2 (-1)) = of_int 201 * pow2 (-1)" "rnd (of_int 1 * pow2 (-1)) = of_int 1 * pow2 (-1)"
    by (rule rnd_exact [OF refl]; simp)+
  then show "exact (201 / 2)" "exact (1 / 2)" by (simp_all add: exact_def pow2_def)
qed

lemma small_exact: "exact 0" "exact 1" "exact 2" "exact 100" "exact 101" "exact 201"
  using exact_of_int [of 0] exact_of_int [of 1] exact_of_int [of 2] exact_of_int [of 100] exact_of_int [of 101] exact_of_int [of 201] by simp_all

lemma average_truncated:
  "map_sum id pt_realized_pnl_ticks (tracker_run False [(BUY, 1, 100), (BUY, 1, 101), (SELL, 2, 101)] tracker_new) = Inr 2 \<and>
   map_sum id (pr_realized_pnl_ticks \<circ> fst) (replay_all [(0, 1, 100), (0, 1, 101), (1, 2, 101)] replay_init [] [0]) = Inr 1"
proof
  have "\<lfloor>201 / 2 :: rat\<rfloor> = 100" by (simp add: floor_eq_iff)
  then show "map_sum id pt_realized_pnl_ticks (tracker_run False [(BUY, 1, 100), (BUY, 1, 101), (SELL, 2, 101)] tracker_new) = Inr 2"
    by (simp add: tracker_on_fill_add tracker_on_fill_close tracker_new_def side_signed_def sign_cases i64_as_f64_def
        to_float_exact small_exact half_exact zero_of_def f64_div_def fdiv_def fadd_def fmul_def Let_def int64_ok_def)
  have "round_half_even 1 = 1" using round_half_even_of_int [of 1] by simp
  then show "map_sum id (pr_realized_pnl_ticks \<circ> fst) (replay_all [(0, 1, 100), (0, 1, 101), (1, 2, 101)] replay_init [] [0]) = Inr 1"
    by (simp add: replay_on_fill_def replay_init_def sign_cases Let_def fmul_int_def fadd_int_def fdiv_int_def int_fsub_def
        to_float_exact small_exact half_exact zero_of_def fdiv_def fadd_def fmul_def fsub_def)
qed

section \<open>Properties\<close>

text \<open>C7: on any stream and whatever writes fail, the log holds the position after each fill of a prefix
  of the stream; the orders sent are one market order for each breach among these, in
  order, with consecutive ids from 1000000000, and a halt line follows its order.  A run that
  does not panic has processed every fill; one that does may have sent the last order
  without its halt line, or not have sent it at all.\<close>

theorem risk_engine_audit:
  assumes "risk_main w inp = (how, s)"
  shows "\<exists>k h j. let nets = positions 0 (stream_fills inp);
      bs = filter (breached (rw_max_abs_position w)) (take k nets) in
    logged_nets (rs_log s) = take k nets \<and>
    logged_halts (rs_log s) = take h (halts (rw_max_abs_position w) FLATTEN_ORDER_ID_BASE bs) \<and>
    rs_sent s = (if rw_send_ok w 0 then [rust_encode_subscribe_fills] else []) @ take j (flattens FLATTEN_ORDER_ID_BASE bs) \<and>
    h \<le> j \<and> j \<le> length bs \<and> length bs \<le> h + 1 \<and>
    ((\<forall>e. how \<noteq> Panicked e) \<longrightarrow> k = length nets \<and> h = length bs)"
proof (cases "rw_send_ok w 0")
  case True
  with assms have "risk_loop w inp (risk_start\<lparr>rs_sent := [rust_encode_subscribe_fills]\<rparr>) = (how, s)"
    by (simp add: risk_main_eq)
  from risk_loop_audit [OF this refl] True show ?thesis unfolding Let_def by simp blast
next
  case False
  with assms show ?thesis by (intro exI [of _ 0]) (auto simp: risk_main_eq)
qed

text \<open>The example: a limit of 100, a fill of 150 bought, and writes that fail as given.\<close>

definition demo_fill :: "32 word \<Rightarrow> Fill" where
  "demo_fill q = \<lparr>fl_resting_order_id = 1, fl_incoming_order_id = 2, fl_resting_side = SELL, fl_price_ticks = 100,
     fl_quantity = q, fl_timestamp = 5\<rparr>"

definition demo_world :: "(nat \<Rightarrow> bool) \<Rightarrow> Risk_World" where
  "demo_world send_ok = \<lparr>rw_checked = False, rw_max_abs_position = 100, rw_clock = (\<lambda>_. Fin 0),
     rw_send_ok = send_ok, rw_log_ok = (\<lambda>_. True)\<rparr>"

lemma demo_fill_stream: "stream_fills (fill_msg (demo_fill 150)) = [risk_fill (demo_fill 150)]"
proof -
  have "int64_ok (fl_price_ticks (demo_fill 150))" by (simp add: demo_fill_def int64_ok_def)
  from stream_fills_fill [OF this, of "[]"] show ?thesis by simp
qed

lemma demo_fill_signed: "fill_signed (risk_fill (demo_fill 150)) = 150"
  by (simp add: fill_signed_def side_signed_def fill_incoming_side_def risk_fill_def demo_fill_def)

theorem risk_engine_audit_witness:
  "\<exists>s. risk_main (demo_world (\<lambda>_. True)) (fill_msg (demo_fill 150)) = (Server_Closed, s) \<and>
     logged_nets (rs_log s) = [150] \<and> logged_halts (rs_log s) = [(150, 100, FLATTEN_ORDER_ID_BASE)] \<and>
     rs_sent s = [rust_encode_subscribe_fills, flatten_msg FLATTEN_ORDER_ID_BASE 150]"
proof -
  let ?w = "demo_world (\<lambda>_. True)" and ?m = "fill_msg (demo_fill 150)"
  have w: "risk_world_ok ?w" by (simp add: risk_world_ok_def demo_world_def)
  have "int64_ok (fl_price_ticks (demo_fill 150))" by (simp add: demo_fill_def int64_ok_def)
  then have "\<forall>m\<in>set [?m]. server_msg m" by (auto simp: server_msg_def)
  then obtain s where "risk_loop ?w (concat [?m]) (risk_start\<lparr>rs_sent := [rust_encode_subscribe_fills]\<rparr>) = (Server_Closed, s)"
    by (rule risk_loop_server_msgs [OF w])
  then have r: "risk_main ?w ?m = (Server_Closed, s)" by (simp add: risk_main_eq demo_world_def)
  have n: "positions 0 (stream_fills ?m) = [150]" by (simp add: demo_fill_stream demo_fill_signed int64_ok_def)
  have "wrap64 150 = 150" by (simp add: wrap64_ok int64_ok_def)
  with risk_engine_audit [OF r] r show ?thesis unfolding n Let_def by (auto simp: demo_world_def breached_def)
qed

text \<open>C15: the risk engine tracks the matching engine: in a release build, on a connection and a log whose
  writes succeed, and fed everything the server has sent to its descriptor in a reachable
  state after the first \<open>k\<close> of its messages (with \<open>k\<close> those sent before the connection was
  accepted, everything the connection was sent), it processes every message; its position is
  the sum of the aggressors' signed quantities over the fills sent, exactly when that sum fits
  64 bits and wrapped to 64 bits when it does not; and what it sends is its subscription and
  one flattening order for each position above the limit.\<close>

theorem risk_engine_follows_server:
  assumes "serving s" "risk_world_ok w"
  shows "\<exists>st fs. risk_main w (concat (sent_since k fd s)) = (Server_Closed, st) \<and>
    filter (\<lambda>m. hd m \<noteq> 0x11) (sent_since k fd s) = map fill_msg fs \<and>
    (let total = sum_list (map (\<lambda>f. side_signed (opposite (fl_resting_side f)) (fl_quantity f)) fs) in
     pt_net_position (rs_position st) = wrap64 total \<and>
     (int64_ok total \<longrightarrow> pt_net_position (rs_position st) = total)) \<and>
    rs_sent st = rust_encode_subscribe_fills # flattens FLATTEN_ORDER_ID_BASE
      (filter (breached (rw_max_abs_position w)) (positions 0 (map risk_fill fs)))"
proof -
  have "desk_inv s" using serving_inv [OF assms(1)] by (simp add: server_inv_def)
  then have msgs: "\<forall>m\<in>set (sent_since k fd s). server_msg m"
    by (auto simp: desk_inv_def sent_since_def dest: in_set_dropD)
  let ?s0 = "risk_start\<lparr>rs_sent := [rust_encode_subscribe_fills]\<rparr>"
  obtain st fs where st: "risk_loop w (concat (sent_since k fd s)) ?s0 = (Server_Closed, st)"
    "filter (\<lambda>m. hd m \<noteq> 0x11) (sent_since k fd s) = map fill_msg fs"
    "pt_net_position (rs_position st) = last (pt_net_position (rs_position ?s0) # positions (pt_net_position (rs_position ?s0)) (map risk_fill fs))"
    "rs_sent st = rs_sent ?s0 @ flattens (rs_next_flatten_id ?s0) (filter (breached (rw_max_abs_position w))
      (positions (pt_net_position (rs_position ?s0)) (map risk_fill fs)))"
    by (rule risk_loop_server_msgs [OF assms(2) msgs, of ?s0])
  have "side_opposite sd = opposite sd" for sd by (cases sd) simp_all
  then have "map fill_signed (map risk_fill fs) = map (\<lambda>f. side_signed (opposite (fl_resting_side f)) (fl_quantity f)) fs"
    by (simp add: fill_signed_def fill_incoming_side_def risk_fill_def)
  moreover have "int64_ok 0" by (simp add: int64_ok_def)
  ultimately have "last (0 # positions 0 (map risk_fill fs)) =
      wrap64 (sum_list (map (\<lambda>f. side_signed (opposite (fl_resting_side f)) (fl_quantity f)) fs))"
    using positions_last [of 0 "map risk_fill fs"] by (simp only: add_0)
  with st assms(2) show ?thesis by (auto simp: risk_main_eq risk_world_ok_def Let_def)
qed

text \<open>The orders 7 and 8 trade; of what is then sent to the first connection, all but the first message.\<close>

definition demo_traded :: Server where
  "demo_traded = poll_pass [] [(5, Recv_Bytes (1 # engine_encode_order (demo_msg 8 0)))] demo_server"

lemma demo_traded_serving: "serving demo_traded"
  unfolding demo_traded_def by (rule serving.pass [OF demo_serving]) (simp_all add: Server.demo_server_eq open_fds_def)

lemma demo_traded_sent:
  "\<exists>f. sv_sent demo_traded = [(4, ack_msg 7 1 0), (5, ack_msg 8 1 0), (5, fill_msg f), (4, fill_msg f)] \<and>
     fl_resting_side f = SELL \<and> fl_quantity f = 5 \<and> fl_price_ticks f = 100"
proof -
  have dec: "engine_decode_order (engine_encode_order (demo_msg 8 0)) = demo_msg 8 0"
    by (rule engine_order_round) (simp add: demo_msg_def int64_ok_def)
  have new: "\<not> book_contains (sv_book Server.demo_server) (wo_client_order_id (demo_msg 8 0))"
    by (simp add: Server.demo_server_eq demo_msg_def book_contains_def book_submit_def book_init_def order_of_msg_def)
  obtain f b' where sub: "book_submit (sv_book Server.demo_server) (order_of_msg (demo_msg 8 0)) = ([f], b')"
    "fl_resting_order_id f = 7" "fl_resting_side f = SELL" "fl_quantity f = 5" "fl_price_ticks f = 100"
    by (simp add: Server.demo_server_eq demo_msg_def book_submit_def book_init_def order_of_msg_def crosses_def trade_def)
  have "book_inv (sv_book Server.demo_server)"
    using serving_inv [OF demo_serving] by (simp add: server_inv_def desk_inv_def)
  note d = dispatch_new_order_eq [OF this new sub(1), of 5]
  have "sv_sent demo_traded = sv_sent (dispatch_new_order 5 (demo_msg 8 0) Server.demo_server)"
  proof -
    have "accept_new_connections [] Server.demo_server = Server.demo_server"
      by (simp add: accept_new_connections_def)
    moreover have "find_connection 5 Server.demo_server =
        Some \<lparr>cn_fd = 5, cn_read_buf = [], cn_subscribed_to_fills = False\<rparr>"
      by (simp add: find_connection_def Server.demo_server_eq)
    ultimately show ?thesis
      by (simp add: demo_traded_def poll_pass_def service_def engine_payload_size_def dec engine_lengths
          set_read_buf_def update_connection_def)
  qed
  also have "\<dots> = [(4, ack_msg 7 1 0), (5, ack_msg 8 1 0), (5, fill_msg f), (4, fill_msg f)]"
    unfolding d using sub(2) by (simp add: Server.demo_server_eq deliveries_def recipients_def addressees_def demo_msg_def)
  finally show ?thesis using sub by blast
qed

theorem risk_engine_follows_server_witness:
  "\<exists>st. risk_main (demo_world (\<lambda>_. True)) (concat (sent_since 1 4 demo_traded)) = (Server_Closed, st) \<and>
     length (sent_since 1 4 demo_traded) = 1 \<and> pt_net_position (rs_position st) = 5"
proof -
  have w: "risk_world_ok (demo_world (\<lambda>_. True))" by (simp add: risk_world_ok_def demo_world_def)
  obtain f where f: "sv_sent demo_traded = [(4, ack_msg 7 1 0), (5, ack_msg 8 1 0), (5, fill_msg f), (4, fill_msg f)]"
    "fl_resting_side f = SELL" "fl_quantity f = 5" using demo_traded_sent by blast
  then have s: "sent_since 1 4 demo_traded = [fill_msg f]" by (simp add: sent_since_def)
  obtain st fs where st: "risk_main (demo_world (\<lambda>_. True)) (concat (sent_since 1 4 demo_traded)) = (Server_Closed, st)"
    "filter (\<lambda>m. hd m \<noteq> 0x11) (sent_since 1 4 demo_traded) = map fill_msg fs"
    "pt_net_position (rs_position st) = wrap64 (sum_list (map (\<lambda>f. side_signed (opposite (fl_resting_side f)) (fl_quantity f)) fs))"
    using risk_engine_follows_server [OF demo_traded_serving w, of 1 4] unfolding Let_def by blast
  have "map fill_msg fs = [fill_msg f]" using st(2) unfolding s by (simp add: fill_msg_shape(3))
  then obtain g where g: "fs = [g]" "fill_msg g = fill_msg f" by auto
  have "rust_decode_fill (tl (fill_msg g)) = rust_decode_fill (tl (fill_msg f))" unfolding g(2) ..
  then have "fl_resting_side g = SELL" "fl_quantity g = 5"
    using f(2,3) by (cases "fl_resting_side g"; simp add: fill_msg_def rust_decode_fill_engine side_from_u8_def)+
  with st g s show ?thesis by (intro exI [of _ st]) (simp add: side_signed_def int64_ok_def)
qed

text \<open>The flattening order goes out before the halt line, and a failed send ends the process: the
  breach it was for is then not in the log.\<close>

lemma failed_flatten_unlogged:
  assumes "\<not> rw_checked w" "\<forall>k. rw_log_ok w k" "\<not> rw_send_ok w (length (rs_sent s))"
    and "breached (rw_max_abs_position w) (wrap64 (pt_net_position (rs_position s) + fill_signed f))"
  shows "\<exists>s'. risk_on_fill w f s = Inl (Expect_Failed, s') \<and> rs_sent s' = rs_sent s \<and>
    logged_nets (rs_log s') = logged_nets (rs_log s) @ [wrap64 (pt_net_position (rs_position s) + fill_signed f)] \<and>
    logged_halts (rs_log s') = logged_halts (rs_log s)"
proof -
  obtain t where t: "tracker_on_fill False (fill_incoming_side f) (rf_quantity f) (rf_price_ticks f) (rs_position s) = Inr t"
    using tracker_on_fill_release by blast
  obtain u where "tracker_unrealized False t = Inr u" by (simp add: tracker_unrealized_def)
  moreover have "pt_net_position t = wrap64 (pt_net_position (rs_position s) + fill_signed f)"
    using tracker_on_fill_net(1) [OF t] by (simp add: fill_signed_def)
  ultimately show ?thesis using t assms
    by (simp add: risk_on_fill_def Let_def check_breach_eq risk_flatten_def risk_write_line_def risk_write_all_def)
qed

lemma failed_flatten_unlogged_witness:
  "\<exists>s. risk_main (demo_world (\<lambda>k. k < 1)) (fill_msg (demo_fill 150)) = (Panicked Expect_Failed, s) \<and>
     rs_sent s = [rust_encode_subscribe_fills] \<and> logged_nets (rs_log s) = [150] \<and> logged_halts (rs_log s) = []"
proof -
  let ?w = "demo_world (\<lambda>k. k < 1)" and ?s0 = "risk_start\<lparr>rs_sent := [rust_encode_subscribe_fills]\<rparr>"
  have n: "wrap64 (pt_net_position (rs_position ?s0) + fill_signed (risk_fill (demo_fill 150))) = 150"
    by (simp add: demo_fill_signed int64_ok_def)
  have "breached (rw_max_abs_position ?w) 150" by (simp add: breached_def demo_world_def int64_ok_def)
  then have br: "breached (rw_max_abs_position ?w)
      (wrap64 (pt_net_position (rs_position ?s0) + fill_signed (risk_fill (demo_fill 150))))" unfolding n .
  have w: "\<not> rw_checked ?w" "\<forall>k. rw_log_ok ?w k" "\<not> rw_send_ok ?w (length (rs_sent ?s0))"
    by (simp_all add: demo_world_def)
  have "int64_ok (fl_price_ticks (demo_fill 150))" by (simp add: demo_fill_def int64_ok_def)
  from risk_loop_fill [OF this, of ?w "[]"] failed_flatten_unlogged [OF w br] show ?thesis
    unfolding n by (auto simp: risk_main_eq demo_world_def)
qed

text \<open>C16: while average-cost accounting stays in integers, at most 1024 fills, and position times price
  within 2^52, the tracker and the report's replay in Python agree exactly, in both build
  profiles: the same position, the same realized profit and the same average price, those
  of the accounting.\<close>

theorem tracker_equals_replay:
  assumes "cost_run (0, 0, 0) (map cost_view fs) = Some (net, realized, avg)" "length fs \<le> 1024"
    and "\<forall>(sd, q, p)\<in>set fs. \<bar>p\<bar> \<le> P" "sum_list (map (\<lambda>(sd, q, p). uint q) fs) \<le> Q" "1 \<le> P" "1 \<le> Q" "P * Q \<le> 2 ^ 52"
  shows "\<exists>t r pnls curve. tracker_run checked fs tracker_new = Inr t \<and>
    replay_all (map (\<lambda>(sd, q, p). (Side_value sd, uint q, p)) fs) replay_init [] [0] = Inr (r, pnls, curve) \<and>
    pt_net_position t = net \<and> pr_net_position r = net \<and>
    pt_realized_pnl_ticks t = realized \<and> pr_realized_pnl_ticks r = realized \<and>
    fval (pt_avg_entry_price_ticks t) = of_int avg \<and> fval (pr_avg_entry_price_ticks r) = of_int avg"
proof -
  let ?gs = "map (\<lambda>(sd, q, p). (Side_value sd, uint q, p)) fs"
  have "int (length fs) \<le> 1024" using assms(2) by linarith
  then have len: "\<bar>0\<bar> + int (length fs) * 2 ^ 52 \<le> 2 ^ 62" by simp
  have "tracks (0, 0, 0) tracker_new" by (simp add: tracks_def tracker_new_def)
  then obtain t where t: "tracker_run checked fs tracker_new = Inr t" "tracks (net, realized, avg) t"
    using tracker_run_exact [OF assms(1) _ _ assms(3) _ assms(5-7) len] assms(4,5) by auto
  have "(Side_value sd = 0) = (sd = BUY)" for sd by (cases sd) simp_all
  then have "signed_fill (Side_value sd, uint q, p) = cost_view (sd, q, p)" for sd and q :: "32 word" and p
    by (cases sd) (simp_all add: signed_fill_def cost_view_def side_signed_def)
  then have g: "map signed_fill ?gs = map cost_view fs" by auto
  have i: "replays (0, 0, 0) replay_init" by (simp add: replays_def replay_init_def)
  have "\<forall>(sd, q, p)\<in>set ?gs. \<bar>p\<bar> \<le> P" using assms(3) by auto
  moreover have "map (\<lambda>(sd, q, p). \<bar>q\<bar>) ?gs = map (\<lambda>(sd, q, p). uint q) fs" by auto
  then have "\<bar>0\<bar> + sum_list (map (\<lambda>(sd, q, p). \<bar>q\<bar>) ?gs) \<le> Q" using assms(4) by (simp only: abs_zero add_0)
  ultimately obtain r pnls curve where "replay_all ?gs replay_init [] [0] = Inr (r, pnls, curve)" "replays (net, realized, avg) r"
    using replay_all_exact [OF assms(1) [folded g] i, of P Q "[]" "[0]"] assms(5-7) by auto
  with t show ?thesis by (auto simp: tracks_def replays_def)
qed

theorem tracker_equals_replay_witness:
  "\<exists>t r pnls curve. tracker_run True [(BUY, 10, 100), (SELL, 15, 110), (BUY, 5, 108)] tracker_new = Inr t \<and>
     replay_all [(0, 10, 100), (1, 15, 110), (0, 5, 108)] replay_init [] [0] = Inr (r, pnls, curve) \<and>
     pt_realized_pnl_ticks t = 110 \<and> pr_realized_pnl_ticks r = 110 \<and> pt_net_position t = 0"
proof -
  let ?fs = "[(BUY, 10, 100), (SELL, 15, 110), (BUY, 5, 108)] :: (Side \<times> 32 word \<times> int) list"
  have c: "cost_run (0, 0, 0) (map cost_view ?fs) = Some (0, 110, 110)"
    by (simp add: cost_view_def side_signed_def sign_cases Let_def)
  have p: "length ?fs \<le> 1024" "\<forall>(sd, q, p)\<in>set ?fs. \<bar>p\<bar> \<le> 110" "sum_list (map (\<lambda>(sd, q, p). uint q) ?fs) \<le> 30"
    "(1 :: int) \<le> 110" "(1 :: int) \<le> 30" "(110 :: int) * 30 \<le> 2 ^ 52" by simp_all
  have m: "map (\<lambda>(sd, q, p). (Side_value sd, uint q, p)) ?fs = [(0, 10, 100), (1, 15, 110), (0, 5, 108)]" by simp
  from tracker_equals_replay [OF c p, of True] show ?thesis unfolding m by blast
qed

end
