(* ===== verification/RiskVenue.thy ===== *)
theory RiskVenue
  imports RiskEngine
begin

text \<open>
  The risk engine against the matching engine: the server of \<^verbatim>\<open>server.cpp\<close> reads the flattening
  order as the market order that was meant, the book fills it in pieces, and the pieces come
  back as fills that move the tracked position.
\<close>

section \<open>The flattening order in the book\<close>

text \<open>The order the server makes of the bytes of a flattening order.\<close>

definition flatten_in_book :: "64 word \<Rightarrow> int \<Rightarrow> Order" where
  "flatten_in_book order_id net = order_of_msg (engine_decode_order (tl (flatten_msg order_id net)))"

definition flatten_side :: "int \<Rightarrow> Side" where
  "flatten_side net = (if 0 < net then SELL else BUY)"

lemma flatten_in_book_eq:
  "flatten_in_book order_id net =
     \<lparr>od_id = order_id, od_side = flatten_side net, od_type = MARKET, od_price_ticks = 0,
      od_quantity = word_of_int \<bar>net\<bar>, od_timestamp = 0\<rparr>"
proof -
  have "int64_ok 0" by (simp add: int64_ok_def)
  then show ?thesis
    by (simp add: flatten_in_book_def flatten_msg_def rust_encode_new_order_engine engine_order_round
        wire_of_risk_order_def flatten_order_def order_of_msg_def flatten_side_def)
qed


text \<open>A market order takes what there is, up to its quantity.\<close>

definition depth :: "Order list \<Rightarrow> nat" where
  "depth queue = sum_list (map (unat \<circ> od_quantity) queue)"

lemma flat_match_market:
  "flat_match sd inc queue ts = (fills, inc', queue', ts') \<Longrightarrow> od_type inc = MARKET \<Longrightarrow>
   volume fills = min (unat (od_quantity inc)) (depth queue) \<and> depth queue' = depth queue - volume fills \<and>
   (\<forall>f\<in>set fills. fl_resting_side f = sd)"
proof (induction queue arbitrary: inc ts fills)
  case (Cons r queue)
  from Cons.prems(1) show ?case
  proof (cases rule: flat_match_cases)
    case stop
    with Cons.prems(2) show ?thesis by (auto simp: crosses_def)
  next
    case partial
    then have "unat (od_quantity inc) < unat (od_quantity r)" by (simp add: word_less_nat_alt)
    moreover from this have "unat (od_quantity r - od_quantity inc) = unat (od_quantity r) - unat (od_quantity inc)"
      by (intro unat_sub) (simp add: word_le_nat_alt)
    ultimately show ?thesis using partial by (simp add: trade_def reduce_def depth_def min_def)
  next
    case (full fills2)
    then have le: "od_quantity r \<le> od_quantity inc" by simp
    then have q: "unat (od_quantity inc - od_quantity r) = unat (od_quantity inc) - unat (od_quantity r)"
      "unat (od_quantity r) \<le> unat (od_quantity inc)" "min (od_quantity inc) (od_quantity r) = od_quantity r"
      by (simp_all add: unat_sub word_le_nat_alt [symmetric] min_absorb2)
    from Cons.IH [OF full(4)] Cons.prems(2)
    have "volume fills2 = min (unat (od_quantity inc) - unat (od_quantity r)) (depth queue)"
      "depth queue' = depth queue - volume fills2" "\<forall>f\<in>set fills2. fl_resting_side f = sd"
      by (simp_all add: reduce_def q(1))
    with full(5) q show ?thesis by (auto simp: trade_def depth_def)
  qed
qed (simp add: depth_def)

lemma market_submit:
  assumes b: "book_inv b" "\<not> book_contains b (od_id o1)" "od_type o1 = MARKET" and s: "book_submit b o1 = (fills, b')"
  shows "volume fills = min (unat (od_quantity o1)) (depth (queue_of (opposite (od_side o1)) b))"
    "depth (queue_of (opposite (od_side o1)) b') = depth (queue_of (opposite (od_side o1)) b) - volume fills"
    "queue_of (od_side o1) b' = queue_of (od_side o1) b"
    "f \<in> set fills \<Longrightarrow> fl_resting_side f = opposite (od_side o1)" "book_inv b'"
proof -
  obtain left where m: "flat_match (opposite (od_side o1)) (stamped b o1) (queue_of (opposite (od_side o1)) b) (bk_next_timestamp b + 1)
       = (fills, left, queue_of (opposite (od_side o1)) b', bk_next_timestamp b')"
    "queue_of (od_side o1) b' = (if rests left then flat_rest (od_side o1) left (queue_of (od_side o1) b)
       else queue_of (od_side o1) b)"
    by (rule submit_queues [OF b(1,2) s])
  have k: "od_type (stamped b o1) = MARKET" "od_quantity (stamped b o1) = od_quantity o1" using b(3) by (simp_all add: stamped_def)
  note f = flat_match_market [OF m(1) k(1), unfolded k(2)]
  show "volume fills = min (unat (od_quantity o1)) (depth (queue_of (opposite (od_side o1)) b))"
    "depth (queue_of (opposite (od_side o1)) b') = depth (queue_of (opposite (od_side o1)) b) - volume fills"
    "f \<in> set fills \<Longrightarrow> fl_resting_side f = opposite (od_side o1)" using f by auto
  have "od_type left = MARKET" using flat_match_kept [OF m(1)] k(1) by simp
  with m(2) show "queue_of (od_side o1) b' = queue_of (od_side o1) b" by simp
  show "book_inv b'" using submit_refines [OF b(1) s] by blast
qed

section \<open>The position while the pieces come back\<close>

lemma fill_signed_flatten:
  "fl_resting_side f = opposite (flatten_side net) \<Longrightarrow> net \<noteq> 0 \<Longrightarrow> fill_signed (risk_fill f) = - sign net * int (unat (fl_quantity f))"
  by (auto simp: fill_signed_def side_signed_def fill_incoming_side_def risk_fill_def flatten_side_def sign_cases split: if_splits)

lemma sum_fill_signed:
  "\<forall>f\<in>set fills. fl_resting_side f = opposite (flatten_side net) \<Longrightarrow> net \<noteq> 0 \<Longrightarrow>
   sum_list (map fill_signed (map risk_fill fills)) = - sign net * int (volume fills)"
  by (induction fills) (simp_all add: fill_signed_flatten algebra_simps)

lemma positions_after_flatten:
  assumes "\<forall>f\<in>set fills. fl_resting_side f = opposite (flatten_side net)" "net \<noteq> 0" "\<bar>start\<bar> \<le> 2 ^ 60" "int (volume fills) \<le> 2 ^ 60"
  shows "positions start (map risk_fill fills) = map (\<lambda>k. start - sign net * int (volume (take (Suc k) fills))) [0..<length fills]"
proof -
  have s: "sum_list (map fill_signed (take k (map risk_fill fills))) = - sign net * int (volume (take k fills))" for k
  proof -
    have "\<forall>f\<in>set (take k fills). fl_resting_side f = opposite (flatten_side net)" using assms(1) by (meson in_set_takeD)
    from sum_fill_signed [OF this assms(2)] show ?thesis by (simp only: take_map)
  qed
  have v: "volume (take k fills) \<le> volume fills" for k
    by (metis append_take_drop_id le_add1 map_append sum_list.append volume_def)
  have "int64_ok (start + sum_list (map fill_signed (take k (map risk_fill fills))))" for k
  proof -
    have "int (volume (take k fills)) \<le> 2 ^ 60" using v [of k] assms(4) by linarith
    with assms(3) show ?thesis unfolding s by (auto simp: int64_ok_def sign_cases)
  qed
  with positions_exact [of "map risk_fill fills" start] s show ?thesis by simp
qed

lemma breached_small: "\<bar>n\<bar> \<le> 2 ^ 62 \<Longrightarrow> breached m n \<longleftrightarrow> m < \<bar>n\<bar>"
  using int64_small [of "\<bar>n\<bar>"] by (simp add: breached_def)

lemma uint_abs_word: "\<bar>net\<bar> < 2 ^ 32 \<Longrightarrow> unat (word_of_int \<bar>net\<bar> :: 32 word) = nat \<bar>net\<bar>"
  by (rule unat_word_of_int32) simp_all

text \<open>One flattening order with enough on the other side.\<close>

lemma flatten_fills:
  assumes b: "book_inv b" "\<not> book_contains b k" and net: "net \<noteq> 0" "\<bar>net\<bar> < 2 ^ 32"
    and s: "book_submit b (flatten_in_book k net) = (fills, b')"
    and d: "nat \<bar>net\<bar> \<le> depth (queue_of (opposite (flatten_side net)) b)"
  shows "int (volume fills) = \<bar>net\<bar>" "\<forall>f\<in>set fills. fl_resting_side f = opposite (flatten_side net)"
    "depth (queue_of (opposite (flatten_side net)) b') = depth (queue_of (opposite (flatten_side net)) b) - nat \<bar>net\<bar>"
    "book_inv b'"
proof -
  have o: "od_id (flatten_in_book k net) = k" "od_side (flatten_in_book k net) = flatten_side net"
    "od_type (flatten_in_book k net) = MARKET" "od_quantity (flatten_in_book k net) = word_of_int \<bar>net\<bar>"
    by (simp_all add: flatten_in_book_eq)
  note m = market_submit [OF b(1) _ o(3) s, unfolded o uint_abs_word [OF net(2)], OF b(2)]
  have v: "volume fills = nat \<bar>net\<bar>" using m(1) d by simp
  then show "int (volume fills) = \<bar>net\<bar>" by simp
  show "\<forall>f\<in>set fills. fl_resting_side f = opposite (flatten_side net)" "book_inv b'"
    "depth (queue_of (opposite (flatten_side net)) b') = depth (queue_of (opposite (flatten_side net)) b) - nat \<bar>net\<bar>"
    using m(2,4,5) v by auto
qed

lemma flatten_last:
  assumes "int (volume fills) = \<bar>net\<bar>" "\<forall>f\<in>set fills. fl_resting_side f = opposite (flatten_side net)"
    "net \<noteq> 0" "\<bar>net\<bar> < 2 ^ 32" "\<bar>start\<bar> < 2 ^ 32"
  shows "last (start # positions start (map risk_fill fills)) = start - net"
proof -
  have "int64_ok start" "int64_ok (start - net)" using assms(4,5) by (auto simp: int64_ok_def)
  moreover have "sign net * \<bar>net\<bar> = net" by (auto simp: sign_cases)
  ultimately show ?thesis using positions_last [of start "map risk_fill fills"] sum_fill_signed [OF assms(2,3)] assms(1) by simp
qed


lemma positions_append:
  "positions start (xs @ ys) = positions start xs @ positions (last (start # positions start xs)) ys"
  by (induction xs arbitrary: start) simp_all

lemma piece_left:
  assumes "x + y = \<bar>net\<bar>" "0 \<le> x" "0 \<le> y" "net \<noteq> 0" "\<bar>net\<bar> < 2 ^ 32" "m = net - sign net * x" "m \<noteq> 0"
  shows "\<bar>m\<bar> \<le> \<bar>net\<bar>" "sign m = sign net" "flatten_side m = flatten_side net" "\<bar>m\<bar> < 2 ^ 32"
  using assms by (auto simp: sign_cases flatten_side_def split: if_splits)

text \<open>A book with three bids, for the closed instances below.\<close>

definition demo_bid :: "64 word \<Rightarrow> int \<Rightarrow> 32 word \<Rightarrow> Book_Op" where
  "demo_bid k price qty = Submit_Op (demo_order k BUY price qty)"

definition demo_bids :: OrderBook where
  "demo_bids = snd (run_ops book_op [demo_bid 1 100 50, demo_bid 2 99 200, demo_bid 3 98 400] book_init)"

lemma demo_bids_run:
  "run_ops book_op [demo_bid 1 100 50, demo_bid 2 99 200, demo_bid 3 98 400] book_init =
    (fst (run_ops book_op [demo_bid 1 100 50, demo_bid 2 99 200, demo_bid 3 98 400] book_init), demo_bids)"
  by (simp add: demo_bids_def)

lemma demo_bids_facts:
  "queue_of BUY demo_bids = [demo_order 1 BUY 100 50, (demo_order 2 BUY 99 200)\<lparr>od_timestamp := 1\<rparr>,
    (demo_order 3 BUY 98 400)\<lparr>od_timestamp := 2\<rparr>]"
  "\<not> book_contains demo_bids 9" "\<not> book_contains demo_bids (9 + 1)"
  by (simp_all add: demo_bids_def demo_bid_def demo_order_def book_submit_def book_init_def book_contains_def)

lemma demo_depth: "depth (queue_of (opposite (flatten_side 250)) demo_bids) = 650"
  by (simp add: flatten_side_def demo_bids_facts(1) [unfolded queue_of_simps] depth_def demo_order_def)

lemma demo_bids_submit:
  obtains f g b1 where "book_submit demo_bids (flatten_in_book 9 250) = ([f, g], b1)" "fl_quantity f = 50"
    "fl_price_ticks f = 100" "fl_price_ticks g = 99" "\<forall>h\<in>set (fst (book_submit b1 (flatten_in_book 10 200))). fl_price_ticks h = 98"
  by (simp add: demo_bids_def demo_bid_def demo_order_def book_submit_def book_init_def flatten_in_book_eq flatten_side_def
      Let_def crosses_def trade_def)

definition long_250 :: Risk_State where
  "long_250 = risk_start\<lparr>rs_position := tracker_new\<lparr>pt_net_position := 250\<rparr>, rs_next_flatten_id := 10\<rparr>"

lemma long_250_net: "pt_net_position (rs_position long_250) = 250" "rs_next_flatten_id long_250 = 9 + 1"
  by (simp_all add: long_250_def)

lemma demo_world_ok: "risk_world_ok (demo_world (\<lambda>_. True))" "rw_max_abs_position (demo_world send_ok) = 100"
  by (simp_all add: risk_world_ok_def demo_world_def)

section \<open>Properties\<close>





text \<open>C10: a flattening order that fills in two pieces is sent twice when the first piece leaves the
  position above the limit: the engine flattens the remainder although it is already being
  filled, and when that second order trades too the position ends beyond the limit on the
  other side.\<close>

theorem split_flatten_overshoots:
  assumes "run_ops book_op ops book_init = (results, b)" "\<not> book_contains b k" "\<not> book_contains b (k + 1)"
    and "net \<noteq> 0" "\<bar>net\<bar> < 2 ^ 32" "book_submit b (flatten_in_book k net) = ([f, g], b1)"
    and "m = net - sign net * uint (fl_quantity f)" "0 \<le> max_abs" "max_abs < \<bar>m\<bar>"
    and "nat \<bar>net\<bar> + nat \<bar>m\<bar> \<le> depth (queue_of (opposite (flatten_side net)) b)"
    and "book_submit b1 (flatten_in_book (k + 1) m) = (fills2, b2)" "\<forall>f\<in>set ([f, g] @ fills2). int64_ok (fl_price_ticks f)"
    and "risk_world_ok w" "rw_max_abs_position w = max_abs" "pt_net_position (rs_position s) = net" "rs_next_flatten_id s = k + 1"
  shows "\<exists>s1 s2. risk_loop w (concat (map fill_msg [f, g])) s = (Server_Closed, s1) \<and>
    rs_sent s1 = rs_sent s @ [flatten_msg (k + 1) m] \<and> pt_net_position (rs_position s1) = 0 \<and>
    risk_loop w (concat (map fill_msg fills2)) s1 = (Server_Closed, s2) \<and>
    pt_net_position (rs_position s2) = - m \<and> max_abs < \<bar>- m\<bar>"
proof -
  have b: "book_inv b" using run_refines [OF book_inv_init assms(1)] by blast
  have d: "nat \<bar>net\<bar> \<le> depth (queue_of (opposite (flatten_side net)) b)" using assms(10) by simp
  note f = flatten_fills [OF b assms(2,4,5,6) d]
  have q: "uint (fl_quantity f) + uint (fl_quantity g) = \<bar>net\<bar>" "0 \<le> uint (fl_quantity f)" "0 \<le> uint (fl_quantity g)"
    using f(1) by simp_all
  have m0: "m \<noteq> 0" using assms(8,9) by auto
  note m = m0 piece_left [OF q assms(4,5,7) m0]
  have small: "\<bar>net\<bar> \<le> 2 ^ 60" "int (volume [f, g]) \<le> 2 ^ 60" using assms(5) f(1) by simp_all
  have p: "positions net (map risk_fill [f, g]) = [m, 0]"
    using positions_after_flatten [OF f(2) assms(4) small] q assms(7)
    by (auto simp: upt_conv_Cons sign_cases)
  have "\<bar>m\<bar> \<le> 2 ^ 62" "\<bar>0 :: int\<bar> \<le> 2 ^ 62" "\<bar>- m\<bar> \<le> 2 ^ 62" using m(5) by simp_all
  note br = this [THEN breached_small]
  have new: "\<not> book_contains b1 (k + 1)"
  proof
    assume "book_contains b1 (k + 1)"
    then have "k + 1 \<in> fst ` book_entries b1" by (simp add: book_entries_ids)
    moreover have "od_id (flatten_in_book k net) = k" by (simp add: flatten_in_book_eq)
    ultimately have "k + 1 \<in> insert k (fst ` book_entries b)"
      using book_submit_entries(1) [OF b _ assms(6)] assms(2) by (force simp: entry_def)
    with assms(3) show False by (auto simp: book_entries_ids)
  qed
  have "nat \<bar>m\<bar> \<le> depth (queue_of (opposite (flatten_side m)) b1)" unfolding m(4) f(3) using assms(10) d by linarith
  note f2 = flatten_fills [OF f(4) new m(1,5) assms(11) this]
  have fl: "filter (breached max_abs) [m, 0] = [m]" using br assms(8,9) by simp
  have ok: "\<forall>f\<in>set [f, g]. int64_ok (fl_price_ticks f)" "\<forall>f\<in>set fills2. int64_ok (fl_price_ticks f)" using assms(12) by simp_all
  obtain s1 where s1: "risk_loop w (concat (map fill_msg [f, g])) s = (Server_Closed, s1)"
    "pt_net_position (rs_position s1) = last (net # [m, 0])" "rs_sent s1 = rs_sent s @ flattens (k + 1) (filter (breached max_abs) [m, 0])"
    using risk_loop_fills [OF assms(13) ok(1), of s] unfolding assms(14,15,16) p by blast
  obtain s2 where s2: "risk_loop w (concat (map fill_msg fills2)) s1 = (Server_Closed, s2)"
    "pt_net_position (rs_position s2) = last (0 # positions 0 (map risk_fill fills2))"
    using risk_loop_fills [OF assms(13) ok(2), of s1] s1(2) by auto
  have "last (0 # positions 0 (map risk_fill fills2)) = - m"
    using flatten_last [OF f2(1,2) m(1,5), of 0] by simp
  with s1 s2 fl assms(9) show ?thesis by (intro exI [of _ s1] exI [of _ s2]) simp
qed

theorem split_flatten_overshoots_witness:
  "\<exists>f g b1 s1 s2 fills2. book_submit demo_bids (flatten_in_book 9 250) = ([f, g], b1) \<and>
     fst (book_submit b1 (flatten_in_book 10 200)) = fills2 \<and>
     risk_loop (demo_world (\<lambda>_. True)) (concat (map fill_msg [f, g])) long_250 = (Server_Closed, s1) \<and>
     risk_loop (demo_world (\<lambda>_. True)) (concat (map fill_msg fills2)) s1 = (Server_Closed, s2) \<and>
     pt_net_position (rs_position s2) = - 200"
proof -
  obtain f g b1 where s: "book_submit demo_bids (flatten_in_book 9 250) = ([f, g], b1)" "fl_quantity f = 50"
    "fl_price_ticks f = 100" "fl_price_ticks g = 99" "\<forall>h\<in>set (fst (book_submit b1 (flatten_in_book 10 200))). fl_price_ticks h = 98"
    by (rule demo_bids_submit)
  obtain fills2 b2 where s2: "book_submit b1 (flatten_in_book (9 + 1) 200) = (fills2, b2)"
    by (cases "book_submit b1 (flatten_in_book (9 + 1) 200)")
  with s(3-5) have px: "\<forall>f\<in>set ([f, g] @ fills2). int64_ok (fl_price_ticks f)" by (auto simp: int64_ok_def)
  have m: "200 = 250 - sign 250 * uint (fl_quantity f)" by (simp add: s(2) sign_cases)
  have d: "nat \<bar>250\<bar> + nat \<bar>200\<bar> \<le> depth (queue_of (opposite (flatten_side 250)) demo_bids)"
    unfolding demo_depth by simp
  from split_flatten_overshoots [OF demo_bids_run demo_bids_facts(2,3) _ _ s(1) m _ _ d s2 px demo_world_ok long_250_net]
  obtain s1 s2 where "risk_loop (demo_world (\<lambda>_. True)) (concat (map fill_msg [f, g])) long_250 = (Server_Closed, s1)"
    "risk_loop (demo_world (\<lambda>_. True)) (concat (map fill_msg fills2)) s1 = (Server_Closed, s2)"
    "pt_net_position (rs_position s2) = - 200" by auto
  moreover have "fst (book_submit b1 (flatten_in_book 10 200)) = fills2" using s2 by simp
  ultimately show ?thesis using s(1) by blast
qed

end
