(* ===== verification/FixParser.thy ===== *)
theory FixParser
  imports RustBase
begin

text \<open>
  The FIX message parser of \<^verbatim>\<open>fix.rs\<close>.  A \<^verbatim>\<open>&str\<close> is its UTF-8 bytes, as in Rust; the string
  operations the parser uses are defined on them.  Slicing a string inside a character is a
  panic, and so is an index that becomes negative in a debug build.
\<close>

section \<open>Strings as UTF-8 bytes\<close>

definition ascii :: "string \<Rightarrow> bytes" where
  "ascii s = map of_char s"

definition continuation :: "byte \<Rightarrow> bool" where
  "continuation b \<longleftrightarrow> 0x80 \<le> b \<and> b \<le> 0xBF"

text \<open>The second byte of a character of three or four, as \<^verbatim>\<open>std::str::from_utf8\<close> accepts it.\<close>

definition second_ok :: "byte \<Rightarrow> byte \<Rightarrow> bool" where
  "second_ok b b1 \<longleftrightarrow>
     (if b = 0xE0 then 0xA0 \<le> b1 \<and> b1 \<le> 0xBF
      else if b = 0xED then 0x80 \<le> b1 \<and> b1 \<le> 0x9F
      else if b = 0xF0 then 0x90 \<le> b1 \<and> b1 \<le> 0xBF
      else if b = 0xF4 then 0x80 \<le> b1 \<and> b1 \<le> 0x8F
      else continuation b1)"

fun utf8_valid :: "bytes \<Rightarrow> bool" where
  "utf8_valid [] = True"
| "utf8_valid (b # bs) =
     (if b < 0x80 then utf8_valid bs
      else if 0xC2 \<le> b \<and> b \<le> 0xDF then
        (case bs of b1 # r \<Rightarrow> continuation b1 \<and> utf8_valid r | _ \<Rightarrow> False)
      else if 0xE0 \<le> b \<and> b \<le> 0xEF then
        (case bs of b1 # b2 # r \<Rightarrow> second_ok b b1 \<and> continuation b2 \<and> utf8_valid r | _ \<Rightarrow> False)
      else if 0xF0 \<le> b \<and> b \<le> 0xF4 then
        (case bs of b1 # b2 # b3 # r \<Rightarrow> second_ok b b1 \<and> continuation b2 \<and> continuation b3 \<and> utf8_valid r | _ \<Rightarrow> False)
      else False)"

definition char_boundary :: "bytes \<Rightarrow> nat \<Rightarrow> bool" where
  "char_boundary text i \<longleftrightarrow> i = length text \<or> (i < length text \<and> \<not> continuation (text ! i))"

definition match_indices :: "byte \<Rightarrow> bytes \<Rightarrow> nat list" where
  "match_indices c text = filter (\<lambda>i. text ! i = c) [0..<length text]"

definition rfind :: "bytes \<Rightarrow> bytes \<Rightarrow> nat option" where
  "rfind pat text =
     (let found = filter (\<lambda>i. take (length pat) (drop i text) = pat) [0..<length text]
      in if found = [] then None else Some (last found))"

fun split_at_char :: "byte \<Rightarrow> bytes \<Rightarrow> bytes list" where
  "split_at_char c [] = [[]]"
| "split_at_char c (x # xs) =
     (if x = c then [] # split_at_char c xs
      else case split_at_char c xs of s # ss \<Rightarrow> (x # s) # ss | [] \<Rightarrow> [[x]])"

fun split_once :: "byte \<Rightarrow> bytes \<Rightarrow> (bytes \<times> bytes) option" where
  "split_once c [] = None"
| "split_once c (x # xs) =
     (if x = c then Some ([], xs) else map_option (\<lambda>(a, b). (x # a, b)) (split_once c xs))"

definition is_digit :: "byte \<Rightarrow> bool" where
  "is_digit b \<longleftrightarrow> 0x30 \<le> b \<and> b \<le> 0x39"

definition digits_nat :: "bytes \<Rightarrow> nat" where
  "digits_nat ds = foldl (\<lambda>n d. 10 * n + (unat d - 0x30)) 0 ds"

text \<open>\<^verbatim>\<open>parse\<close> for an unsigned type whose largest value is \<open>m\<close>: an optional plus sign, then digits.\<close>

definition parse_unsigned :: "nat \<Rightarrow> bytes \<Rightarrow> nat option" where
  "parse_unsigned m s =
     (let ds = (case s of b # r \<Rightarrow> if b = 0x2B then r else s | [] \<Rightarrow> [])
      in if ds \<noteq> [] \<and> list_all is_digit ds \<and> digits_nat ds \<le> m then Some (digits_nat ds) else None)"

section \<open>Errors\<close>

definition SOH :: byte where "SOH = 0x01"

definition TAG_BEGIN_STRING :: nat where "TAG_BEGIN_STRING = 8"
definition TAG_BODY_LENGTH :: nat where "TAG_BODY_LENGTH = 9"
definition TAG_MSG_TYPE :: nat where "TAG_MSG_TYPE = 35"
definition TAG_CL_ORD_ID :: nat where "TAG_CL_ORD_ID = 11"
definition TAG_SYMBOL :: nat where "TAG_SYMBOL = 55"
definition TAG_SIDE :: nat where "TAG_SIDE = 54"
definition TAG_ORDER_QTY :: nat where "TAG_ORDER_QTY = 38"
definition TAG_ORD_TYPE :: nat where "TAG_ORD_TYPE = 40"
definition TAG_PRICE :: nat where "TAG_PRICE = 44"
definition TAG_CHECKSUM :: nat where "TAG_CHECKSUM = 10"

datatype FixParseError =
    NotUtf8
  | EmptyMessage
  | MissingDelimiter
  | InvalidTag bytes
  | MissingRequiredTag nat
  | MalformedChecksumField
  | MalformedField nat
  | ChecksumMismatch byte byte
  | BodyLengthMismatch nat nat
  | UnexpectedMsgType bytes

text \<open>What ends the parser early: an error it returns, or a panic.\<close>

datatype fix_stop = Fix_Error FixParseError | Fix_Panic panic

type_synonym 'a fix_result = "fix_stop + 'a"

definition ok_or :: "'a option \<Rightarrow> FixParseError \<Rightarrow> 'a fix_result" where
  "ok_or x e = (case x of None \<Rightarrow> Inl (Fix_Error e) | Some v \<Rightarrow> Inr v)"

definition guard :: "bool \<Rightarrow> FixParseError \<Rightarrow> unit fix_result" where
  "guard c e = (if c then Inr () else Inl (Fix_Error e))"

section \<open>The parser\<close>

definition checksum_marker :: bytes where
  "checksum_marker = SOH # ascii ''10=''"

definition wrapping_sum :: "bytes \<Rightarrow> byte" where
  "wrapping_sum bs = foldl (+) 0 bs"

text \<open>The checksum part, which returns the position of the marker.\<close>

definition check_checksum :: "bytes \<Rightarrow> nat fix_result" where
  "check_checksum text =
     sum_bind (ok_or (rfind checksum_marker text) (MissingRequiredTag TAG_CHECKSUM)) (\<lambda>marker_pos.
     let computed = wrapping_sum (take (marker_pos + 1) text);
         value_start = marker_pos + length checksum_marker
     in sum_bind (guard (value_start + 3 \<le> length text) MalformedChecksumField) (\<lambda>_.
        if \<not> (char_boundary text value_start \<and> char_boundary text (value_start + 3)) then Inl (Fix_Panic Char_Boundary)
        else sum_bind (ok_or (parse_unsigned (2 ^ 32 - 1) (take 3 (drop value_start text))) MalformedChecksumField) (\<lambda>v.
          let declared = word_of_nat v
          in sum_bind (guard (declared = computed) (ChecksumMismatch declared computed)) (\<lambda>_. Inr marker_pos))))"

definition parse_field :: "bytes \<Rightarrow> (nat \<times> bytes) fix_result" where
  "parse_field field =
     sum_bind (ok_or (split_once 0x3D field) MissingDelimiter) (\<lambda>(tag_str, v).
     sum_bind (ok_or (parse_unsigned (2 ^ 32 - 1) tag_str) (InvalidTag tag_str)) (\<lambda>tag. Inr (tag, v)))"

fun parse_fields :: "bytes list \<Rightarrow> (nat \<times> bytes) list fix_result" where
  "parse_fields [] = Inr []"
| "parse_fields (field # rest) =
     (if field = [] then parse_fields rest
      else sum_bind (parse_field field) (\<lambda>x. sum_bind (parse_fields rest) (\<lambda>xs. Inr (x # xs))))"

text \<open>\<^verbatim>\<open>marker_pos - body_start + 1\<close> on a 64-bit \<^verbatim>\<open>usize\<close>.\<close>

definition body_length :: "bool \<Rightarrow> nat \<Rightarrow> nat \<Rightarrow> nat fix_result" where
  "body_length checked marker_pos body_start =
     (if body_start \<le> marker_pos then Inr (marker_pos - body_start + 1)
      else if checked then Inl (Fix_Panic Arithmetic_Overflow)
      else Inr (nat ((int marker_pos - int body_start + 1) mod 2 ^ 64)))"

fun required_tags :: "(nat \<times> bytes) list \<Rightarrow> nat list \<Rightarrow> unit fix_result" where
  "required_tags parsed [] = Inr ()"
| "required_tags parsed (tag # tags) =
     sum_bind (ok_or (map_of parsed tag) (MissingRequiredTag tag)) (\<lambda>_. required_tags parsed tags)"

definition check_new_order_tags :: "(nat \<times> bytes) list \<Rightarrow> unit fix_result" where
  "check_new_order_tags parsed =
     sum_bind (ok_or (map_of parsed TAG_MSG_TYPE) (MissingRequiredTag TAG_MSG_TYPE)) (\<lambda>msg_type.
     sum_bind (guard (msg_type = ascii ''D'') (UnexpectedMsgType msg_type)) (\<lambda>_.
     sum_bind (required_tags parsed [TAG_CL_ORD_ID, TAG_SYMBOL, TAG_SIDE, TAG_ORDER_QTY, TAG_ORD_TYPE]) (\<lambda>_.
     guard (\<not> (map_of parsed TAG_ORD_TYPE = Some (ascii ''2'') \<and> map_of parsed TAG_PRICE = None))
       (MissingRequiredTag TAG_PRICE))))"

definition validate_and_parse_fields :: "bool \<Rightarrow> bytes \<Rightarrow> (nat \<times> bytes) list fix_result" where
  "validate_and_parse_fields checked raw =
     sum_bind (guard (utf8_valid raw) NotUtf8) (\<lambda>_.
     sum_bind (guard (raw \<noteq> []) EmptyMessage) (\<lambda>_.
     let soh_positions = match_indices SOH raw in
     sum_bind (guard (3 \<le> length soh_positions) MissingDelimiter) (\<lambda>_.
     sum_bind (check_checksum raw) (\<lambda>marker_pos.
     sum_bind (parse_fields (split_at_char SOH raw)) (\<lambda>parsed.
     sum_bind (guard (2 \<le> length parsed \<and> fst (parsed ! 0) = TAG_BEGIN_STRING) (MissingRequiredTag TAG_BEGIN_STRING)) (\<lambda>_.
     sum_bind (guard (fst (parsed ! 1) = TAG_BODY_LENGTH) (MissingRequiredTag TAG_BODY_LENGTH)) (\<lambda>_.
     let body_start = soh_positions ! 1 + 1 in
     sum_bind (ok_or (parse_unsigned (2 ^ 64 - 1) (snd (parsed ! 1))) (MalformedField TAG_BODY_LENGTH)) (\<lambda>declared.
     sum_bind (body_length checked marker_pos body_start) (\<lambda>actual.
     sum_bind (guard (declared = actual) (BodyLengthMismatch declared actual)) (\<lambda>_.
     sum_bind (check_new_order_tags parsed) (\<lambda>_. Inr parsed)))))))))))"

text \<open>Collecting pairs into a \<^verbatim>\<open>HashMap\<close>: a later pair replaces an earlier one.\<close>

definition parse_naive :: "bool \<Rightarrow> bytes \<Rightarrow> (nat \<rightharpoonup> bytes) fix_result" where
  "parse_naive checked raw =
     sum_bind (validate_and_parse_fields checked raw) (\<lambda>parsed. Inr (map_of (rev parsed)))"

record FixField =
  ff_tag :: nat
  ff_value :: bytes

definition parse_zero_copy :: "bool \<Rightarrow> bytes \<Rightarrow> FixField list fix_result" where
  "parse_zero_copy checked raw =
     sum_bind (validate_and_parse_fields checked raw) (\<lambda>parsed.
     Inr (map (\<lambda>(tag, v). \<lparr>ff_tag = tag, ff_value = v\<rparr>) parsed))"

section \<open>The builder\<close>

text \<open>A \<^verbatim>\<open>char\<close> is its UTF-8 bytes; \<open>format_price\<close> is the standard library's \<^verbatim>\<open>{:.2}\<close> of an \<^verbatim>\<open>f64\<close>.\<close>

record NewOrderSingleFields =
  nf_seq_num :: "32 word"
  nf_cl_ord_id :: bytes
  nf_symbol :: bytes
  nf_side :: bytes
  nf_order_qty :: "32 word"
  nf_ord_type :: bytes
  nf_price :: "pyfloat option"

definition decimal :: "nat \<Rightarrow> bytes" where
  "decimal n = ascii (dec_digits n)"

definition decimal3 :: "nat \<Rightarrow> bytes" where
  "decimal3 n = replicate (3 - length (decimal n)) 0x30 @ decimal n"

definition build_body :: "(pyfloat \<Rightarrow> bytes) \<Rightarrow> NewOrderSingleFields \<Rightarrow> bytes" where
  "build_body format_price f =
     ascii ''35=D'' @ [SOH] @ ascii ''49=SENDER'' @ [SOH] @ ascii ''56=TARGET'' @ [SOH] @
     ascii ''34='' @ decimal (unat (nf_seq_num f)) @ [SOH] @ ascii ''52=20260101-00:00:00'' @ [SOH] @
     ascii ''11='' @ nf_cl_ord_id f @ [SOH] @ ascii ''55='' @ nf_symbol f @ [SOH] @
     ascii ''54='' @ nf_side f @ [SOH] @ ascii ''38='' @ decimal (unat (nf_order_qty f)) @ [SOH] @
     ascii ''40='' @ nf_ord_type f @ [SOH] @
     (case nf_price f of None \<Rightarrow> [] | Some price \<Rightarrow> ascii ''44='' @ format_price price @ [SOH]) @
     ascii ''59=0'' @ [SOH]"

definition build_new_order_single :: "(pyfloat \<Rightarrow> bytes) \<Rightarrow> NewOrderSingleFields \<Rightarrow> bytes" where
  "build_new_order_single format_price f =
     (let body = build_body format_price f;
          message = ascii ''8=FIX.4.2'' @ [SOH] @ ascii ''9='' @ decimal (length body) @ [SOH] @ body
      in message @ ascii ''10='' @ decimal3 (unat (wrapping_sum message)) @ [SOH])"

section \<open>Lemmas\<close>

subsection \<open>String operations\<close>

lemma ascii_simps [simp]:
  "ascii [] = []" "ascii (c # cs) = of_char c # ascii cs" "ascii (s @ t) = ascii s @ ascii t" "length (ascii s) = length s"
  by (simp_all add: ascii_def)

lemma ok_or_simps [simp]: "ok_or None e = Inl (Fix_Error e)" "ok_or (Some v) e = Inr v"
  by (simp_all add: ok_or_def)

lemma guard_simps [simp]: "guard True e = Inr ()" "guard False e = Inl (Fix_Error e)"
  by (simp_all add: guard_def)

lemma split_at_char_free: "c \<notin> set xs \<Longrightarrow> split_at_char c xs = [xs]"
  by (induction xs) auto

lemma split_at_char_append: "c \<notin> set xs \<Longrightarrow> split_at_char c (xs @ c # ys) = xs # split_at_char c ys"
  by (induction xs) auto

lemma split_once_append: "c \<notin> set xs \<Longrightarrow> split_once c (xs @ c # ys) = Some (xs, ys)"
  by (induction xs) auto

lemma match_indices_append:
  "match_indices c (xs @ ys) = match_indices c xs @ map (\<lambda>i. length xs + i) (match_indices c ys)"
proof -
  have "filter (\<lambda>i. (xs @ ys) ! i = c) [0..<length xs + length ys] =
      filter (\<lambda>i. (xs @ ys) ! i = c) [0..<length xs] @ filter (\<lambda>i. (xs @ ys) ! i = c) (map (\<lambda>i. length xs + i) [0..<length ys])"
    by (simp add: upt_add_eq_append [of 0 "length xs" "length ys"] map_add_upt add.commute)
  also have "filter (\<lambda>i. (xs @ ys) ! i = c) [0..<length xs] = filter (\<lambda>i. xs ! i = c) [0..<length xs]"
    by (rule filter_cong) (simp_all add: nth_append)
  finally show ?thesis by (simp add: match_indices_def filter_map comp_def)
qed

lemma match_indices_free: "c \<notin> set xs \<Longrightarrow> match_indices c xs = []"
  by (auto simp: match_indices_def filter_empty_conv)

lemma match_indices_one [simp]: "match_indices c [c] = [0]"
  by (simp add: match_indices_def)

lemma rfind_last:
  assumes "p < length text" "take (length pat) (drop p text) = pat"
    and "\<And>i. p < i \<Longrightarrow> i < length text \<Longrightarrow> take (length pat) (drop i text) \<noteq> pat"
  shows "rfind pat text = Some p"
proof -
  let ?P = "\<lambda>i. take (length pat) (drop i text) = pat"
  have "[0..<length text] = [0..<p] @ p # [Suc p..<length text]"
    using assms(1) by (metis upt_add_eq_append zero_le upt_conv_Cons le_add_diff_inverse less_imp_le)
  moreover have "filter ?P [Suc p..<length text] = []" using assms(3) by (auto simp: filter_empty_conv)
  ultimately have "filter ?P [0..<length text] = filter ?P [0..<p] @ [p]" using assms(2) by simp
  then show ?thesis by (simp add: rfind_def)
qed

lemma utf8_valid_append: "utf8_valid xs \<Longrightarrow> utf8_valid ys \<Longrightarrow> utf8_valid (xs @ ys)"
proof (induction xs rule: utf8_valid.induct)
  case (2 b bs)
  let ?two = "0xC2 \<le> b \<and> b \<le> 0xDF" and ?three = "0xE0 \<le> b \<and> b \<le> 0xEF" and ?four = "0xF0 \<le> b \<and> b \<le> 0xF4"
  show ?case
  proof (cases "b < 0x80")
    case True
    with 2 show ?thesis by simp
  next
    case one: False
    show ?thesis
    proof (cases ?two)
      case True
      with one "2.prems"(1) obtain b1 r where "bs = b1 # r" "continuation b1" "utf8_valid r" by (auto split: list.splits)
      with "2.IH"(2) [OF one True] "2.prems"(2) one True show ?thesis by simp
    next
      case two: False
      show ?thesis
      proof (cases ?three)
        case True
        with one two "2.prems"(1) obtain b1 b2 r where "bs = b1 # b2 # r" "second_ok b b1" "continuation b2" "utf8_valid r"
          by (auto split: list.splits)
        with "2.IH"(3) [OF one two True] "2.prems"(2) one two True show ?thesis by auto
      next
        case three: False
        show ?thesis
        proof (cases ?four)
          case True
          with one two three "2.prems"(1) obtain b1 b2 b3 r where
            "bs = b1 # b2 # b3 # r" "second_ok b b1" "continuation b2" "continuation b3" "utf8_valid r"
            by (auto split: list.splits)
          with "2.IH"(4) [OF one two three True] "2.prems"(2) one two three True show ?thesis by auto
        next
          case False
          with one two three "2.prems"(1) show ?thesis by auto
        qed
      qed
    qed
  qed
qed simp

lemma utf8_valid_ascii: "\<forall>b\<in>set xs. b < 0x80 \<Longrightarrow> utf8_valid xs"
  by (induction xs) auto

subsection \<open>Numbers\<close>

declare dec_digits.simps [simp del]

lemma dec_digits_chars: "c \<in> set (dec_digits n) \<Longrightarrow> \<exists>d<10::nat. c = char_of (48 + d)"
proof (induction n rule: dec_digits.induct)
  case (1 n)
  show ?case
  proof (cases "n < 10")
    case True
    with "1.prems" show ?thesis by (auto simp: dec_digits.simps [of n])
  next
    case False
    with "1.prems" have "c \<in> set (dec_digits (n div 10)) \<or> c = char_of (48 + n mod 10)"
      by (auto simp: dec_digits.simps [of n])
    with "1.IH" [OF False] show ?thesis by (metis mod_less_divisor zero_less_numeral)
  qed
qed

lemma of_char_digit: "d < 10 \<Longrightarrow> (of_char (char_of (48 + d :: nat) :: char) :: byte) = 48 + of_nat d"
proof -
  assume "d < 10"
  then have "d = 0 \<or> d = 1 \<or> d = 2 \<or> d = 3 \<or> d = 4 \<or> d = 5 \<or> d = 6 \<or> d = 7 \<or> d = 8 \<or> d = 9" by auto
  then show ?thesis by (elim disjE) (simp_all add: char_of_def of_char_def bit_0)
qed

lemma decimal_digits: "b \<in> set (decimal n) \<Longrightarrow> is_digit b"
proof -
  assume "b \<in> set (decimal n)"
  then obtain c where c: "c \<in> set (dec_digits n)" "b = of_char c" by (auto simp: decimal_def ascii_def)
  from dec_digits_chars [OF c(1)] obtain d :: nat where d: "d < 10" "b = 48 + of_nat d" using c(2) of_char_digit by blast
  then have "d = 0 \<or> d = 1 \<or> d = 2 \<or> d = 3 \<or> d = 4 \<or> d = 5 \<or> d = 6 \<or> d = 7 \<or> d = 8 \<or> d = 9" by auto
  with d(2) show ?thesis by (elim disjE) (simp_all add: is_digit_def)
qed

lemma decimal_ne [simp]: "decimal n \<noteq> []"
  using dec_digits_no_minus [of n] by (simp add: decimal_def ascii_def)

lemma digits_nat_snoc [simp]: "digits_nat (ds @ [d]) = 10 * digits_nat ds + (unat d - 48)"
  by (simp add: digits_nat_def)

lemma digits_nat_decimal [simp]: "digits_nat (decimal n) = n"
proof (induction n rule: dec_digits.induct)
  case (1 n)
  have u: "unat (48 + of_nat d :: byte) - 48 = d" if "d < 10" for d :: nat
  proof -
    from that have "d = 0 \<or> d = 1 \<or> d = 2 \<or> d = 3 \<or> d = 4 \<or> d = 5 \<or> d = 6 \<or> d = 7 \<or> d = 8 \<or> d = 9" by auto
    then show ?thesis by (elim disjE) simp_all
  qed
  show ?case
  proof (cases "n < 10")
    case True
    then have "decimal n = [] @ [48 + of_nat n]" by (simp add: decimal_def dec_digits.simps [of n] of_char_digit)
    then show ?thesis using u [OF True] by (simp only: digits_nat_snoc) (simp add: digits_nat_def)
  next
    case False
    then have "decimal n = decimal (n div 10) @ [48 + of_nat (n mod 10)]"
      by (simp add: decimal_def dec_digits.simps [of n] of_char_digit)
    with u [of "n mod 10"] 1 [OF False] show ?thesis by (simp only: digits_nat_snoc) simp
  qed
qed

lemma digits_nat_zeros: "digits_nat (replicate k 0x30 @ ds) = digits_nat ds"
proof -
  have "foldl (\<lambda>n d. 10 * n + (unat d - 0x30)) 0 (replicate k (0x30 :: byte)) = 0" by (induction k) simp_all
  then show ?thesis by (simp add: digits_nat_def)
qed

lemma parse_unsigned_digits:
  "ds \<noteq> [] \<Longrightarrow> \<forall>d\<in>set ds. is_digit d \<Longrightarrow> digits_nat ds \<le> m \<Longrightarrow> parse_unsigned m ds = Some (digits_nat ds)"
  by (cases ds) (auto simp: parse_unsigned_def list_all_iff is_digit_def)

lemma parse_unsigned_decimal [simp]: "n \<le> m \<Longrightarrow> parse_unsigned m (decimal n) = Some n"
  using parse_unsigned_digits [of "decimal n" m] decimal_digits by simp

lemma length_decimal: "n < 10 ^ k \<Longrightarrow> 0 < k \<Longrightarrow> length (decimal n) \<le> k"
proof (induction k arbitrary: n)
  case (Suc k)
  show ?case
  proof (cases "n < 10")
    case True
    then show ?thesis by (simp add: decimal_def dec_digits.simps [of n])
  next
    case False
    with Suc.prems have "n div 10 < 10 ^ k" "0 < k" by (auto simp: div_less_iff_less_mult intro: gr0I)
    with Suc.IH [of "n div 10"] False show ?thesis by (simp add: decimal_def dec_digits.simps [of n])
  qed
qed simp

lemma decimal3_facts:
  assumes "n < 256"
  shows "length (decimal3 n) = 3" "\<forall>b\<in>set (decimal3 n). is_digit b" "parse_unsigned (2 ^ 32 - 1) (decimal3 n) = Some n"
proof -
  have "length (decimal n) \<le> 3" using length_decimal [of n 3] assms by simp
  then show l: "length (decimal3 n) = 3" by (simp add: decimal3_def)
  show d: "\<forall>b\<in>set (decimal3 n). is_digit b" using decimal_digits by (auto simp: decimal3_def is_digit_def)
  have "digits_nat (decimal3 n) = n" by (simp add: decimal3_def digits_nat_zeros)
  with parse_unsigned_digits [OF _ d, of "2 ^ 32 - 1"] l assms
  show "parse_unsigned (2 ^ 32 - 1) (decimal3 n) = Some n" by (cases "decimal3 n") simp_all
qed

lemma continuation_SOH: "\<not> continuation SOH"
  by (simp add: continuation_def SOH_def word_le_nat_alt)

lemma digit_not: "is_digit b \<Longrightarrow> b \<noteq> SOH \<and> b \<noteq> 0x3D \<and> b < 0x80 \<and> \<not> continuation b"
  by (auto simp: is_digit_def SOH_def continuation_def word_le_nat_alt word_less_nat_alt)

subsection \<open>Messages as lists of fields\<close>

definition fix_field :: "nat \<times> bytes \<Rightarrow> bytes" where
  "fix_field f = decimal (fst f) @ 0x3D # snd f"

definition fix_text :: "(nat \<times> bytes) list \<Rightarrow> bytes" where
  "fix_text fs = concat (map (\<lambda>f. fix_field f @ [SOH]) fs)"

definition clean :: "(nat \<times> bytes) list \<Rightarrow> bool" where
  "clean fs \<longleftrightarrow> (\<forall>(t, v)\<in>set fs. t < 2 ^ 32 \<and> SOH \<notin> set v \<and> utf8_valid v)"

lemma fix_text_simps [simp]:
  "fix_text [] = []" "fix_text (f # fs) = fix_field f @ SOH # fix_text fs" "fix_text (fs @ gs) = fix_text fs @ fix_text gs"
  by (simp_all add: fix_text_def)

lemma clean_simps [simp]:
  "clean []" "clean (f # fs) \<longleftrightarrow> fst f < 2 ^ 32 \<and> SOH \<notin> set (snd f) \<and> utf8_valid (snd f) \<and> clean fs"
  "clean (fs @ gs) \<longleftrightarrow> clean fs \<and> clean gs"
  by (auto simp: clean_def split: prod.splits)

lemma fix_field_ne [simp]: "fix_field f \<noteq> []"
  by (simp add: fix_field_def)

lemma fix_field_free: "SOH \<notin> set (snd f) \<Longrightarrow> SOH \<notin> set (fix_field f)"
  using decimal_digits digit_not by (force simp: fix_field_def SOH_def)

lemma fix_field_utf8: "utf8_valid (snd f) \<Longrightarrow> utf8_valid (fix_field f)"
proof -
  assume v: "utf8_valid (snd f)"
  have "\<forall>b\<in>set (decimal (fst f)). b < 0x80" using decimal_digits digit_not by blast
  then have "utf8_valid (decimal (fst f))" by (rule utf8_valid_ascii)
  moreover have "utf8_valid (0x3D # snd f)" using v by simp
  ultimately show ?thesis unfolding fix_field_def by (rule utf8_valid_append)
qed

lemma fix_text_utf8: "clean fs \<Longrightarrow> utf8_valid (fix_text fs)"
proof (induction fs)
  case (Cons f fs)
  then have "utf8_valid (SOH # fix_text fs)" by (simp add: SOH_def)
  moreover have "utf8_valid (fix_field f)" using Cons.prems fix_field_utf8 by simp
  ultimately show ?case using utf8_valid_append by simp
qed simp

lemma split_text: "clean fs \<Longrightarrow> split_at_char SOH (fix_text fs) = map fix_field fs @ [[]]"
  by (induction fs) (simp_all add: split_at_char_append fix_field_free)

lemma parse_field_fix: "fst f < 2 ^ 32 \<Longrightarrow> parse_field (fix_field f) = Inr f"
proof -
  assume t: "fst f < 2 ^ 32"
  have "0x3D \<notin> set (decimal (fst f))" using decimal_digits digit_not by blast
  with t show ?thesis by (simp add: parse_field_def fix_field_def split_once_append)
qed

lemma parse_fields_text: "clean fs \<Longrightarrow> parse_fields (map fix_field fs @ [[]]) = Inr fs"
  by (induction fs) (simp_all add: parse_field_fix)

lemma length_match_indices_text: "clean fs \<Longrightarrow> length (match_indices SOH (fix_text fs)) = length fs"
proof (induction fs)
  case (Cons f fs)
  then show ?case
    using match_indices_append [of SOH "fix_field f" "[SOH] @ fix_text fs"] match_indices_append [of SOH "[SOH]" "fix_text fs"]
    by (simp add: match_indices_free fix_field_free)
qed (simp add: match_indices_def)

lemma match_indices_second: "clean (f # g # fs) \<Longrightarrow> match_indices SOH (fix_text (f # g # fs)) ! 1 + 1 = length (fix_text [f, g])"
proof -
  assume c: "clean (f # g # fs)"
  have a: "match_indices SOH (fix_field h @ [SOH] @ rest) =
      length (fix_field h) # map (\<lambda>i. length (fix_field h) + (1 + i)) (match_indices SOH rest)" if "SOH \<notin> set (snd h)" for h rest
    using that by (simp add: match_indices_append [of SOH "fix_field h" "[SOH] @ rest", simplified]
        match_indices_append [of SOH "[SOH]" rest, simplified] match_indices_free fix_field_free)
  show ?thesis using c a [of f "fix_text (g # fs)"] a [of g "fix_text fs"] by simp
qed

subsection \<open>The checksum\<close>

lemma starts_with_10:
  assumes "take 3 (decimal t @ 0x3D # rest) = [0x31, 0x30, 0x3D]"
  shows "t = 10"
proof -
  have no: "0x3D \<notin> set (decimal t)" using decimal_digits digit_not by blast
  consider "length (decimal t) = 1" | "length (decimal t) = 2" | "3 \<le> length (decimal t)" using decimal_ne [of t]
    by (cases "length (decimal t)") (auto, fastforce)
  then show ?thesis
  proof cases
    case 1
    then obtain a where "decimal t = [a]" by (metis length_0_conv length_Suc_conv One_nat_def)
    with assms no show ?thesis by (cases rest) auto
  next
    case 2
    then obtain a b where "decimal t = [a, b]" by (auto simp: numeral_2_eq_2 length_Suc_conv)
    with assms have "decimal t = [0x31, 0x30]" by simp
    then have "t = digits_nat [0x31, 0x30]" by (metis digits_nat_decimal)
    also have "\<dots> = 10" by (simp add: digits_nat_def)
    finally show ?thesis .
  next
    case 3
    then have "0x3D \<in> set (take 3 (decimal t))" using assms by simp
    with no show ?thesis by (auto dest: in_set_takeD)
  qed
qed

lemma checksum_marker_eq: "checksum_marker = [SOH, 0x31, 0x30, 0x3D]"
  by (simp add: checksum_marker_def)

lemma no_marker:
  assumes "clean fs" "10 \<notin> fst ` set fs" "i < length (SOH # fix_text fs)"
  shows "take 4 (drop i (SOH # fix_text fs)) \<noteq> checksum_marker"
  using assms
proof (induction fs arbitrary: i)
  case Nil
  then show ?case by (simp add: checksum_marker_eq)
next
  case (Cons f fs)
  have free: "SOH \<notin> set (fix_field f)" using Cons.prems(1) fix_field_free by simp
  show ?case
  proof (cases i)
    case 0
    show ?thesis
    proof
      assume "take 4 (drop i (SOH # fix_text (f # fs))) = checksum_marker"
      then have "take 3 (decimal (fst f) @ 0x3D # snd f @ SOH # fix_text fs) = [0x31, 0x30, 0x3D]"
        using 0 by (simp add: checksum_marker_eq fix_field_def take_Cons')
      then have "fst f = 10" by (rule starts_with_10)
      with Cons.prems(2) show False by simp
    qed
  next
    case (Suc j)
    show ?thesis
    proof (cases "j < length (fix_field f)")
      case True
      then have "hd (drop i (SOH # fix_text (f # fs))) = fix_field f ! j" "drop i (SOH # fix_text (f # fs)) \<noteq> []"
        using Suc by (simp_all add: hd_drop_conv_nth nth_append)
      moreover have "fix_field f ! j \<noteq> SOH" using True free by (metis nth_mem)
      ultimately show ?thesis by (cases "drop i (SOH # fix_text (f # fs))") (auto simp: checksum_marker_eq)
    next
      case False
      then have "drop i (SOH # fix_text (f # fs)) = drop (j - length (fix_field f)) (SOH # fix_text fs)" using Suc by simp
      moreover have "j - length (fix_field f) < length (SOH # fix_text fs)" using Cons.prems(3) Suc False by simp
      ultimately show ?thesis using Cons.IH Cons.prems(1,2) by simp
    qed
  qed
qed

lemma decimal_10: "decimal 10 = [0x31, 0x30]"
proof -
  have "dec_digits 10 = dec_digits 1 @ [char_of (48 + 0 :: nat)]" "dec_digits 1 = [char_of (48 + 1 :: nat)]"
    by (simp_all add: dec_digits.simps [of 10] dec_digits.simps [of 1] dec_digits.simps [of "Suc 0"])
  then show ?thesis using of_char_digit [of 0] of_char_digit [of 1] by (simp add: decimal_def)
qed

lemma rfind_text:
  assumes "clean ((10, c) # extra)" "10 \<notin> fst ` set extra"
  shows "rfind checksum_marker (pre @ [SOH] @ fix_text ((10, c) # extra)) = Some (length pre)"
proof (rule rfind_last)
  let ?tail = "fix_text ((10, c) # extra)"
  show "length pre < length (pre @ [SOH] @ ?tail)" by simp
  show "take (length checksum_marker) (drop (length pre) (pre @ [SOH] @ ?tail)) = checksum_marker"
    by (simp add: checksum_marker_eq fix_field_def decimal_10)
  fix i assume i: "length pre < i" "i < length (pre @ [SOH] @ ?tail)"
  show "take (length checksum_marker) (drop i (pre @ [SOH] @ ?tail)) \<noteq> checksum_marker"
  proof (cases "i - length pre - 1 < length (fix_field (10, c))")
    case True
    have d: "drop i (pre @ [SOH] @ ?tail) = drop (i - length pre - 1) ?tail" using i by (simp add: drop_Cons')
    have "hd (drop (i - length pre - 1) ?tail) = fix_field (10, c) ! (i - length pre - 1)" "drop (i - length pre - 1) ?tail \<noteq> []"
      using True by (simp_all add: hd_drop_conv_nth nth_append)
    moreover have "SOH \<notin> set (fix_field (10, c))" using assms(1) fix_field_free by simp
    then have "fix_field (10, c) ! (i - length pre - 1) \<noteq> SOH" using True by (metis nth_mem)
    ultimately show ?thesis unfolding d by (cases "drop (i - length pre - 1) ?tail") (auto simp: checksum_marker_eq)
  next
    case False
    let ?j = "i - length pre - 1 - length (fix_field (10, c))"
    have "drop i (pre @ [SOH] @ ?tail) = drop ?j (SOH # fix_text extra)" using i False by (simp add: drop_Cons')
    moreover have "?j < length (SOH # fix_text extra)" using i False by simp
    moreover have "length checksum_marker = 4" by (simp add: checksum_marker_eq)
    moreover have "clean extra" using assms(1) by simp
    ultimately show ?thesis using no_marker [OF _ assms(2), of ?j] by metis
  qed
qed

lemma fix_text_last: "fs \<noteq> [] \<Longrightarrow> \<exists>pre. fix_text fs = pre @ [SOH]"
  by (cases fs rule: rev_cases) auto

text \<open>The checksum part on a message whose tag 10 has three digits.\<close>

lemma check_checksum_text:
  assumes "clean ((10, c) # extra)" "10 \<notin> fst ` set extra" "length c = 3" "\<forall>d\<in>set c. is_digit d" "fs \<noteq> []"
  shows "check_checksum (fix_text (fs @ (10, c) # extra)) =
    sum_bind (guard (word_of_nat (digits_nat c) = wrapping_sum (fix_text fs))
      (ChecksumMismatch (word_of_nat (digits_nat c)) (wrapping_sum (fix_text fs)))) (\<lambda>_. Inr (length (fix_text fs) - 1))"
proof -
  obtain pre where pre: "fix_text fs = pre @ [SOH]" using fix_text_last [OF assms(5)] by blast
  let ?text = "fix_text (fs @ (10, c) # extra)"
  have tx: "?text = pre @ [SOH] @ fix_text ((10, c) # extra)" by (simp add: pre)
  have m: "rfind checksum_marker ?text = Some (length pre)" unfolding tx by (rule rfind_text [OF assms(1,2)])
  have shape: "?text = (pre @ [SOH, 0x31, 0x30, 0x3D]) @ c @ SOH # fix_text extra"
    by (simp add: pre fix_field_def decimal_10)
  have len: "length checksum_marker = 4" by (simp add: checksum_marker_eq)
  have t: "take (length pre + 1) ?text = fix_text fs" by (simp add: tx pre)
  have c: "take 3 (drop (length pre + 4) ?text) = c" unfolding shape using assms(3) by simp
  have l: "length pre + 4 + 3 \<le> length ?text" unfolding shape using assms(3) by simp
  have i4: "length (pre @ [SOH, 0x31, 0x30, 0x3D]) = length pre + 4" by simp
  have nth: "?text ! (length pre + 4 + k) = (c @ SOH # fix_text extra) ! k" for k
    unfolding shape i4 [symmetric] nth_append_length_plus by (rule refl)
  have "?text ! (length pre + 4) = c ! 0" using nth [of 0] assms(3) by (simp add: nth_append)
  moreover have "c ! 0 \<in> set c" using assms(3) by (intro nth_mem) simp
  ultimately have b1: "char_boundary ?text (length pre + 4)" using l assms(4) digit_not by (auto simp: char_boundary_def)
  have "?text ! (length pre + 4 + 3) = SOH" using nth [of 3] assms(3) by (simp add: nth_append)
  moreover have "length pre + 4 + 3 < length ?text" unfolding shape using assms(3) by simp
  ultimately have b2: "char_boundary ?text (length pre + 4 + 3)" by (simp add: char_boundary_def continuation_SOH)
  have "c \<noteq> []" using assms(3) by auto
  moreover have "digits_nat c \<le> 2 ^ 32 - 1"
  proof -
    obtain x y z where "c = [x, y, z]" using assms(3) by (auto simp: numeral_3_eq_3 length_Suc_conv)
    moreover have "unat d - 48 \<le> 255" for d :: byte
    proof -
      have "unat d < 2 ^ LENGTH(8)" by (rule unsigned_less)
      then show ?thesis by simp
    qed
    then have "unat x - 48 \<le> 255" "unat y - 48 \<le> 255" "unat z - 48 \<le> 255" by blast+
    ultimately show ?thesis by (simp add: digits_nat_def)
  qed
  ultimately have p: "parse_unsigned (2 ^ 32 - 1) c = Some (digits_nat c)" using assms(4) by (intro parse_unsigned_digits)
  show ?thesis unfolding check_checksum_def m ok_or_simps sum_bind_simps Let_def len t c p
    using l b1 b2 by (simp add: pre)
qed

subsection \<open>The parser on a message given by its fields\<close>

lemma validate_text:
  assumes "clean (f8 # f9 # body @ (10, c) # extra)" "fst f8 = 8" "fst f9 = 9"
    and "10 \<notin> fst ` set extra" "length c = 3" "\<forall>d\<in>set c. is_digit d"
  defines "fs \<equiv> f8 # f9 # body @ (10, c) # extra" and "summed \<equiv> fix_text (f8 # f9 # body)"
  shows "validate_and_parse_fields checked (fix_text fs) =
    sum_bind (guard (word_of_nat (digits_nat c) = wrapping_sum summed)
      (ChecksumMismatch (word_of_nat (digits_nat c)) (wrapping_sum summed))) (\<lambda>_.
    sum_bind (ok_or (parse_unsigned (2 ^ 64 - 1) (snd f9)) (MalformedField 9)) (\<lambda>declared.
    sum_bind (body_length checked (length summed - 1) (length (fix_text [f8, f9]))) (\<lambda>actual.
    sum_bind (guard (declared = actual) (BodyLengthMismatch declared actual)) (\<lambda>_.
    sum_bind (check_new_order_tags fs) (\<lambda>_. Inr fs)))))"
proof -
  have fs: "fs = (f8 # f9 # body) @ (10, c) # extra" by (simp add: fs_def)
  have cl: "clean fs" using assms(1) by (simp add: fs_def)
  have "utf8_valid (fix_text fs)" "fix_text fs \<noteq> []" using fix_text_utf8 [OF cl] by (simp_all add: fs_def)
  moreover have "3 \<le> length (match_indices SOH (fix_text fs))" unfolding length_match_indices_text [OF cl] by (simp add: fs_def)
  moreover have "match_indices SOH (fix_text fs) ! 1 + 1 = length (fix_text [f8, f9])"
    using match_indices_second [of f8 f9 "body @ (10, c) # extra"] assms(1) by (simp only: fs_def)
  moreover have "parse_fields (split_at_char SOH (fix_text fs)) = Inr fs"
    unfolding split_text [OF cl] by (rule parse_fields_text [OF cl])
  moreover have "check_checksum (fix_text fs) = sum_bind (guard (word_of_nat (digits_nat c) = wrapping_sum summed)
      (ChecksumMismatch (word_of_nat (digits_nat c)) (wrapping_sum summed))) (\<lambda>_. Inr (length summed - 1))"
    unfolding fs summed_def by (rule check_checksum_text) (use assms in simp_all)
  moreover have "2 \<le> length fs" "fst (fs ! 0) = TAG_BEGIN_STRING" "fst (fs ! 1) = TAG_BODY_LENGTH" "snd (fs ! 1) = snd f9"
    using assms(2,3) by (simp_all add: fs_def TAG_BEGIN_STRING_def TAG_BODY_LENGTH_def)
  ultimately show ?thesis
    by (cases "word_of_nat (digits_nat c) = wrapping_sum summed")
      (simp_all add: validate_and_parse_fields_def Let_def TAG_BODY_LENGTH_def)
qed

lemma body_length_text:
  "body \<noteq> [] \<Longrightarrow> body_length checked (length (fix_text (f8 # f9 # body)) - 1) (length (fix_text [f8, f9])) = Inr (length (fix_text body))"
  by (cases body) (simp_all add: body_length_def)

subsection \<open>The builder writes a list of fields\<close>

definition order_fields :: "(pyfloat \<Rightarrow> bytes) \<Rightarrow> NewOrderSingleFields \<Rightarrow> (nat \<times> bytes) list" where
  "order_fields format_price f =
     [(35, ascii ''D''), (49, ascii ''SENDER''), (56, ascii ''TARGET''), (34, decimal (unat (nf_seq_num f))),
      (52, ascii ''20260101-00:00:00''), (11, nf_cl_ord_id f), (55, nf_symbol f), (54, nf_side f),
      (38, decimal (unat (nf_order_qty f))), (40, nf_ord_type f)] @
     (case nf_price f of None \<Rightarrow> [] | Some price \<Rightarrow> [(44, format_price price)]) @ [(59, ascii ''0'')]"

lemma decimal_small:
  "n < 10 \<Longrightarrow> decimal n = [48 + of_nat n]"
  "10 \<le> n \<Longrightarrow> n < 100 \<Longrightarrow> decimal n = [48 + of_nat (n div 10), 48 + of_nat (n mod 10)]"
proof -
  show 1: "n < 10 \<Longrightarrow> decimal n = [48 + of_nat n]" for n
    by (simp add: decimal_def dec_digits.simps [of n] of_char_digit)
  assume n: "10 \<le> n" "n < 100"
  then have "n div 10 < 10" by (simp add: div_less_iff_less_mult)
  with n 1 [of "n div 10"] show "decimal n = [48 + of_nat (n div 10), 48 + of_nat (n mod 10)]"
    by (simp add: decimal_def dec_digits.simps [of n] of_char_digit)
qed

lemma build_body_fields: "build_body format_price f = fix_text (order_fields format_price f)"
  by (cases "nf_price f") (simp_all add: build_body_def order_fields_def fix_field_def decimal_small of_char_def)

definition message_fields :: "(pyfloat \<Rightarrow> bytes) \<Rightarrow> NewOrderSingleFields \<Rightarrow> (nat \<times> bytes) list" where
  "message_fields format_price f =
     (8, ascii ''FIX.4.2'') # (9, decimal (length (fix_text (order_fields format_price f)))) # order_fields format_price f"

lemma build_fields:
  "build_new_order_single format_price f = fix_text (message_fields format_price f @
     [(10, decimal3 (unat (wrapping_sum (fix_text (message_fields format_price f)))))])"
  by (simp add: build_new_order_single_def build_body_fields message_fields_def Let_def fix_field_def decimal_small of_char_def)

definition order_ok :: "(pyfloat \<Rightarrow> bytes) \<Rightarrow> NewOrderSingleFields \<Rightarrow> bool" where
  "order_ok format_price f \<longleftrightarrow>
     list_all (\<lambda>v. utf8_valid v \<and> SOH \<notin> set v)
       ([nf_cl_ord_id f, nf_symbol f, nf_side f, nf_ord_type f] @ map format_price (case nf_price f of None \<Rightarrow> [] | Some price \<Rightarrow> [price])) \<and>
     length (build_body format_price f) < 2 ^ 64"

lemma decimal_clean [simp]: "SOH \<notin> set (decimal n)" "utf8_valid (decimal n)"
  using decimal_digits digit_not by (blast, intro utf8_valid_ascii, blast)

lemmas decimal_no_SOH [simp] = decimal_clean(1) [unfolded SOH_def]

lemma clean_order_fields: "order_ok format_price f \<Longrightarrow> clean (order_fields format_price f)"
  by (cases "nf_price f") (simp_all add: order_ok_def order_fields_def SOH_def of_char_def)

text \<open>What the required-tag checks say of a built message, with any fields behind it.\<close>

lemma check_tags_message:
  "check_new_order_tags (message_fields format_price f @ extra) =
     (if nf_ord_type f = ascii ''2'' \<and> nf_price f = None \<and> map_of extra 44 = None
      then Inl (Fix_Error (MissingRequiredTag 44)) else Inr ())"
  by (cases "nf_price f")
    (simp_all add: check_new_order_tags_def message_fields_def order_fields_def TAG_MSG_TYPE_def TAG_CL_ORD_ID_def
      TAG_SYMBOL_def TAG_SIDE_def TAG_ORDER_QTY_def TAG_ORD_TYPE_def TAG_PRICE_def map_add_def)

lemma clean_message: "order_ok format_price f \<Longrightarrow> clean (message_fields format_price f)"
proof -
  assume ok: "order_ok format_price f"
  then show ?thesis by (simp add: message_fields_def clean_order_fields SOH_def of_char_def)
qed

lemma validate_message:
  assumes ok: "order_ok format_price f" and c: "length c = 3" "\<forall>d\<in>set c. is_digit d"
    and extra: "clean extra" "10 \<notin> fst ` set extra"
  defines "summed \<equiv> wrapping_sum (fix_text (message_fields format_price f))"
    and "fs \<equiv> message_fields format_price f @ (10, c) # extra"
  shows "validate_and_parse_fields checked (fix_text fs) =
    sum_bind (guard (word_of_nat (digits_nat c) = summed) (ChecksumMismatch (word_of_nat (digits_nat c)) summed)) (\<lambda>_.
    if nf_ord_type f = ascii ''2'' \<and> nf_price f = None \<and> map_of extra 44 = None
    then Inl (Fix_Error (MissingRequiredTag 44)) else Inr fs)"
proof -
  let ?body = "order_fields format_price f"
  have ne: "?body \<noteq> []" by (simp add: order_fields_def)
  have len: "length (fix_text ?body) \<le> 2 ^ 64 - 1" using ok by (simp add: order_ok_def build_body_fields)
  have "utf8_valid c" "SOH \<notin> set c" using c(2) digit_not by (auto intro!: utf8_valid_ascii)
  with clean_message [OF ok] extra have cl: "clean ((8, ascii ''FIX.4.2'') # (9, decimal (length (fix_text ?body))) # ?body @ (10, c) # extra)"
    by (simp add: message_fields_def)
  have t: "check_new_order_tags fs = (if nf_ord_type f = ascii ''2'' \<and> nf_price f = None \<and> map_of extra 44 = None
      then Inl (Fix_Error (MissingRequiredTag 44)) else Inr ())"
    unfolding fs_def check_tags_message by simp
  have fs: "fs = (8, ascii ''FIX.4.2'') # (9, decimal (length (fix_text ?body))) # ?body @ (10, c) # extra"
    by (simp add: fs_def message_fields_def)
  let ?L = "length (fix_text ?body)"
  have p: "parse_unsigned (2 ^ 64 - 1) (snd (9 :: nat, decimal ?L)) = Some ?L"
    using len by (simp only: snd_conv parse_unsigned_decimal)
  have "validate_and_parse_fields checked (fix_text fs) =
    sum_bind (guard (word_of_nat (digits_nat c) = summed) (ChecksumMismatch (word_of_nat (digits_nat c)) summed)) (\<lambda>_.
    sum_bind (ok_or (parse_unsigned (2 ^ 64 - 1) (snd (9 :: nat, decimal ?L))) (MalformedField 9)) (\<lambda>declared.
    sum_bind (body_length checked (length (fix_text (message_fields format_price f)) - 1)
      (length (fix_text [(8, ascii ''FIX.4.2''), (9, decimal ?L)]))) (\<lambda>actual.
    sum_bind (guard (declared = actual) (BodyLengthMismatch declared actual)) (\<lambda>_.
    sum_bind (check_new_order_tags fs) (\<lambda>_. Inr fs)))))"
    unfolding fs summed_def message_fields_def by (rule validate_text [OF cl _ _ extra(2) c]) simp_all
  also have "\<dots> = sum_bind (guard (word_of_nat (digits_nat c) = summed) (ChecksumMismatch (word_of_nat (digits_nat c)) summed)) (\<lambda>_.
    sum_bind (check_new_order_tags fs) (\<lambda>_. Inr fs))"
    unfolding p ok_or_simps sum_bind_simps message_fields_def body_length_text [OF ne] by simp
  also have "sum_bind (check_new_order_tags fs) (\<lambda>_. Inr fs) =
    (if nf_ord_type f = ascii ''2'' \<and> nf_price f = None \<and> map_of extra 44 = None
     then Inl (Fix_Error (MissingRequiredTag 44)) else Inr fs)" (is "_ = (if ?cond then _ else _)")
    by (simp only: t if_distrib [of "\<lambda>r. sum_bind r _"] sum_bind_simps)
  finally show ?thesis .
qed

lemma map_of_rev_distinct: "distinct (map fst xs) \<Longrightarrow> map_of (rev xs) = map_of xs"
proof -
  assume "distinct (map fst xs)"
  then have "map_of (rev xs) k = Some v \<longleftrightarrow> map_of xs k = Some v" for k v
    by (simp add: map_of_eq_Some_iff rev_map [symmetric])
  then show ?thesis by (intro ext) (metis not_Some_eq)
qed

lemma message_fields_distinct: "distinct (map fst (message_fields format_price f @ [(10, c)]))"
  by (cases "nf_price f") (simp_all add: message_fields_def order_fields_def)

lemma validate_built:
  assumes ok: "order_ok format_price f" and extra: "clean extra" "10 \<notin> fst ` set extra"
  defines "c \<equiv> decimal3 (unat (wrapping_sum (fix_text (message_fields format_price f))))"
  shows "validate_and_parse_fields checked (build_new_order_single format_price f @ fix_text extra) =
    (if nf_ord_type f = ascii ''2'' \<and> nf_price f = None \<and> map_of extra 44 = None
     then Inl (Fix_Error (MissingRequiredTag 44)) else Inr (message_fields format_price f @ (10, c) # extra))"
proof -
  let ?s = "wrapping_sum (fix_text (message_fields format_price f))"
  have "unat ?s < 2 ^ LENGTH(8)" by (rule unsigned_less)
  then have s: "unat ?s < 256" by simp
  note d = decimal3_facts [OF s, folded c_def]
  have "digits_nat c = unat ?s" by (simp add: c_def decimal3_def digits_nat_zeros)
  then have "word_of_nat (digits_nat c) = ?s" by simp
  moreover have "build_new_order_single format_price f @ fix_text extra = fix_text (message_fields format_price f @ (10, c) # extra)"
    by (simp add: build_fields c_def)
  ultimately show ?thesis using validate_message [OF ok d(1,2) extra, of checked] by simp
qed

subsection \<open>Corruption\<close>

lemma sorted_le_last: "sorted xs \<Longrightarrow> x \<in> set xs \<Longrightarrow> x \<le> last (xs :: nat list)"
  by (induction xs) auto

lemma rfind_Some:
  assumes "rfind pat text = Some p"
  shows "p < length text" "take (length pat) (drop p text) = pat"
    "\<And>i. p < i \<Longrightarrow> i < length text \<Longrightarrow> take (length pat) (drop i text) \<noteq> pat"
proof -
  let ?P = "\<lambda>i. take (length pat) (drop i text) = pat"
  let ?fs = "filter ?P [0..<length text]"
  have ne: "?fs \<noteq> []" and p: "p = last ?fs" using assms by (auto simp: rfind_def Let_def split: if_splits)
  have "last ?fs \<in> set ?fs" using ne by (rule last_in_set)
  then show "p < length text" "?P p" unfolding p by (simp_all only: set_filter mem_Collect_eq set_upt atLeastLessThan_iff)
  fix i assume i: "p < i" "i < length text"
  show "\<not> ?P i"
  proof
    assume "?P i"
    with i have "i \<in> set ?fs" by simp
    moreover have "sorted ?fs" by (simp add: sorted_wrt_filter)
    ultimately have "i \<le> last ?fs" by (rule sorted_le_last [rotated])
    with p i show False by simp
  qed
qed

lemma wrapping_sum_eq: "wrapping_sum bs = sum_list bs"
proof -
  have "foldl (+) a bs = a + sum_list bs" for a :: byte
    by (induction bs arbitrary: a) (simp_all add: add.assoc)
  then show ?thesis by (simp add: wrapping_sum_def)
qed

lemma wrapping_sum_update: "i < length bs \<Longrightarrow> wrapping_sum (bs[i := b]) = wrapping_sum bs + (b - bs ! i)"
  unfolding wrapping_sum_eq
  by (induction bs arbitrary: i) (auto simp: less_Suc_eq_0_disj algebra_simps)

lemma corrupted_text:
  assumes v: "validate_and_parse_fields checked raw = Inr fs" and p: "rfind checksum_marker raw = Some p"
    and i: "i < p" and b: "b \<noteq> raw ! i"
  defines "s \<equiv> wrapping_sum (take (p + 1) raw)"
  shows "validate_and_parse_fields checked (raw[i := b]) = Inl (Fix_Error
    (if \<not> utf8_valid (raw[i := b]) then NotUtf8
     else if length (match_indices SOH (raw[i := b])) < 3 then MissingDelimiter
     else ChecksumMismatch s (s + (b - raw ! i))))"
proof -
  let ?raw = "raw[i := b]"
  note r = rfind_Some [OF p]
  have dr: "drop j ?raw = drop j raw" if "i < j" for j using that by simp
  have p': "rfind checksum_marker ?raw = Some p"
    by (rule rfind_last) (use r i dr in \<open>auto simp: dr\<close>)
  have cb: "char_boundary ?raw j \<longleftrightarrow> char_boundary raw j" if "i < j" for j
    using that by (simp add: char_boundary_def)
  have s': "wrapping_sum (take (p + 1) ?raw) = s + (b - raw ! i)"
    unfolding take_update_swap s_def using r(1) i by (subst wrapping_sum_update) simp_all
  have ne: "s \<noteq> s + (b - raw ! i)" using b by simp
  from v obtain m where m: "check_checksum raw = Inr m"
    unfolding validate_and_parse_fields_def Let_def by (auto simp: sum_bind_eq_Inr)
  let ?st = "p + length checksum_marker"
  from m obtain v where ok: "?st + 3 \<le> length raw" "char_boundary raw ?st" "char_boundary raw (?st + 3)"
    "parse_unsigned (2 ^ 32 - 1) (take 3 (drop ?st raw)) = Some v" and vs: "word_of_nat v = s"
    unfolding check_checksum_def p Let_def s_def
    by (auto simp: sum_bind_eq_Inr ok_or_def guard_def simp del: One_nat_def split: if_splits option.splits)
  have "i < ?st" "i < ?st + 3" using i by simp_all
  then have "check_checksum ?raw = Inl (Fix_Error (ChecksumMismatch s (s + (b - raw ! i))))"
    unfolding check_checksum_def p' Let_def ok_or_simps sum_bind_simps s'
    using ok ne by (simp add: cb vs)
  moreover have "?raw \<noteq> []" using r(1) by auto
  ultimately show ?thesis by (simp add: validate_and_parse_fields_def Let_def guard_def not_le)
qed

subsection \<open>Panics\<close>

lemma guard_eq: "guard c e = Inr u \<longleftrightarrow> c" "guard c e = Inl x \<longleftrightarrow> \<not> c \<and> x = Fix_Error e"
  by (auto simp: guard_def)

lemma ok_or_eq: "ok_or x e = Inr v \<longleftrightarrow> x = Some v" "ok_or x e = Inl y \<longleftrightarrow> x = None \<and> y = Fix_Error e"
  by (auto simp: ok_or_def split: option.splits)

lemmas fix_eqs = guard_eq ok_or_eq sum_bind_eq_Inl sum_bind_eq_Inr

lemma parse_fields_no_panic: "parse_fields fs \<noteq> Inl (Fix_Panic p)"
  by (induction fs) (auto simp: fix_eqs parse_field_def split: prod.splits)

lemma required_tags_no_panic: "required_tags parsed tags \<noteq> Inl (Fix_Panic p)"
  by (induction tags) (auto simp: fix_eqs)

lemma check_tags_no_panic: "check_new_order_tags parsed \<noteq> Inl (Fix_Panic p)"
  unfolding check_new_order_tags_def fix_eqs by (simp only: required_tags_no_panic) simp

lemma check_checksum_panic:
  "check_checksum text = Inl (Fix_Panic p) \<longleftrightarrow> p = Char_Boundary \<and>
     (\<exists>m. rfind checksum_marker text = Some m \<and> m + length checksum_marker + 3 \<le> length text \<and>
       \<not> (char_boundary text (m + length checksum_marker) \<and> char_boundary text (m + length checksum_marker + 3)))"
  by (cases "rfind checksum_marker text") (auto simp: check_checksum_def Let_def fix_eqs)

lemma body_length_panic: "body_length checked m s = Inl e \<longleftrightarrow> m < s \<and> checked \<and> e = Fix_Panic Arithmetic_Overflow"
  by (auto simp: body_length_def)

lemma validate_panic:
  "validate_and_parse_fields checked raw = Inl (Fix_Panic Char_Boundary) \<longleftrightarrow>
     utf8_valid raw \<and> 3 \<le> length (match_indices SOH raw) \<and> check_checksum raw = Inl (Fix_Panic Char_Boundary)"
proof -
  have "raw \<noteq> []" if "3 \<le> length (match_indices SOH raw)" using that by (auto simp: match_indices_def)
  then show ?thesis
    by (auto simp: validate_and_parse_fields_def Let_def fix_eqs parse_fields_no_panic check_tags_no_panic body_length_panic)
qed

text \<open>The body length is subtracted once the checksum is right, every field is read and the first two
  are the begin string and a body length that is a number.\<close>

lemma validate_overflow:
  "validate_and_parse_fields checked raw = Inl (Fix_Panic Arithmetic_Overflow) \<longleftrightarrow>
     checked \<and> utf8_valid raw \<and> 3 \<le> length (match_indices SOH raw) \<and>
     (\<exists>m parsed declared. check_checksum raw = Inr m \<and> parse_fields (split_at_char SOH raw) = Inr parsed \<and>
       2 \<le> length parsed \<and> fst (parsed ! 0) = TAG_BEGIN_STRING \<and> fst (parsed ! 1) = TAG_BODY_LENGTH \<and>
       parse_unsigned (2 ^ 64 - 1) (snd (parsed ! 1)) = Some declared \<and> m \<le> match_indices SOH raw ! 1)"
proof -
  have "raw \<noteq> []" if "3 \<le> length (match_indices SOH raw)" using that by (auto simp: match_indices_def)
  then show ?thesis
    by (auto simp: validate_and_parse_fields_def Let_def fix_eqs parse_fields_no_panic check_tags_no_panic body_length_panic
      check_checksum_panic less_Suc_eq_le)
qed

lemma validate_panics_only:
  "validate_and_parse_fields checked raw = Inl (Fix_Panic p) \<Longrightarrow> p = Char_Boundary \<or> p = Arithmetic_Overflow"
  by (auto simp: validate_and_parse_fields_def Let_def fix_eqs parse_fields_no_panic check_tags_no_panic body_length_panic
    check_checksum_panic)

text \<open>The declared checksum is cut to a byte.\<close>

lemma checksum_300_is_44:
  "parse_unsigned (2 ^ 32 - 1) (ascii ''300'') = Some 300" "(word_of_nat 300 :: byte) = 44"
  by (simp_all add: parse_unsigned_def is_digit_def digits_nat_def of_char_def)

subsection \<open>Messages without a body\<close>

definition bodiless :: "bytes \<Rightarrow> bytes" where
  "bodiless v =
     (let message = ascii ''8='' @ v @ [SOH] @ ascii ''9=0'' @ [SOH]
      in message @ ascii ''10='' @ decimal3 (unat (wrapping_sum message)) @ [SOH])"

lemma bodiless_fields:
  "bodiless v = fix_text ((8, v) # (9, decimal 0) # [] @ (10, decimal3 (unat (wrapping_sum (fix_text [(8, v), (9, decimal 0)])))) # [])"
  by (simp add: bodiless_def Let_def fix_field_def decimal_small of_char_def)

lemma checksum_value:
  fixes s :: byte
  shows "length (decimal3 (unat s)) = 3" "\<forall>d\<in>set (decimal3 (unat s)). is_digit d"
    "word_of_nat (digits_nat (decimal3 (unat s))) = s"
proof -
  have "unat s < 2 ^ LENGTH(8)" by (rule unsigned_less)
  then have s: "unat s < 256" by simp
  show "length (decimal3 (unat s)) = 3" "\<forall>d\<in>set (decimal3 (unat s)). is_digit d" using decimal3_facts [OF s] by blast+
  show "word_of_nat (digits_nat (decimal3 (unat s))) = s" by (simp add: decimal3_def digits_nat_zeros)
qed

lemma validate_bodiless:
  assumes "utf8_valid v" "SOH \<notin> set v"
  shows "validate_and_parse_fields checked (bodiless v) =
    Inl (if checked then Fix_Panic Arithmetic_Overflow else Fix_Error (MissingRequiredTag 35))"
proof -
  let ?c = "decimal3 (unat (wrapping_sum (fix_text [(8, v), (9, decimal 0)])))"
  have c: "utf8_valid ?c" "SOH \<notin> set ?c" using checksum_value(2) digit_not by (auto intro!: utf8_valid_ascii)
  have L: "0 < length (fix_text [(8 :: nat, v), (9, decimal 0)])" by simp
  have b: "body_length checked (L - 1) L = (if checked then Inl (Fix_Panic Arithmetic_Overflow) else Inr 0)" if "0 < L" for L
    using that by (simp add: body_length_def of_nat_diff)
  have t: "check_new_order_tags ((8, v) # (9, decimal 0) # [] @ (10, ?c) # []) = Inl (Fix_Error (MissingRequiredTag 35))"
    by (simp add: check_new_order_tags_def TAG_MSG_TYPE_def)
  have p: "parse_unsigned (2 ^ 64 - 1) (snd (9 :: nat, decimal 0)) = Some 0" by simp
  have "validate_and_parse_fields checked (bodiless v) =
    sum_bind (guard (word_of_nat (digits_nat ?c) = wrapping_sum (fix_text [(8, v), (9, decimal 0)])) 
      (ChecksumMismatch (word_of_nat (digits_nat ?c)) (wrapping_sum (fix_text [(8, v), (9, decimal 0)])))) (\<lambda>_.
    sum_bind (ok_or (parse_unsigned (2 ^ 64 - 1) (snd (9 :: nat, decimal 0))) (MalformedField 9)) (\<lambda>declared.
    sum_bind (body_length checked (length (fix_text [(8, v), (9, decimal 0)]) - 1) (length (fix_text [(8, v), (9, decimal 0)]))) (\<lambda>actual.
    sum_bind (guard (declared = actual) (BodyLengthMismatch declared actual)) (\<lambda>_.
    sum_bind (check_new_order_tags ((8, v) # (9, decimal 0) # [] @ (10, ?c) # []))
      (\<lambda>_. Inr ((8, v) # (9, decimal 0) # [] @ (10, ?c) # []))))))"
    unfolding bodiless_fields by (rule validate_text) (use assms c checksum_value in simp_all)
  also have "\<dots> = Inl (if checked then Fix_Panic Arithmetic_Overflow else Fix_Error (MissingRequiredTag 35))"
    unfolding checksum_value(3) guard_simps sum_bind_simps p ok_or_simps b [OF L] t by simp
  finally show ?thesis .
qed

section \<open>Properties\<close>

lemma built_split:
  "build_new_order_single format_price f = fix_text (message_fields format_price f) @
     ascii ''10='' @ decimal3 (unat (wrapping_sum (fix_text (message_fields format_price f)))) @ [SOH]"
  unfolding build_fields by (simp add: fix_field_def decimal_10 of_char_def)

lemma built_before_checksum:
  "take (length (build_new_order_single format_price f) - 7) (build_new_order_single format_price f) =
     fix_text (message_fields format_price f)"
  unfolding built_split by (simp add: checksum_value(1))

text \<open>C18: A NewOrderSingle whose texts and formatted price are UTF-8 without the delimiter, with a body shorter
  than 2^64 bytes (\<open>order_ok\<close>) and a price if its type is limit, is built into a message both parsers accept,
  in both build profiles: the map has exactly the fields of the list, whose tags are distinct; its tags are the
  fourteen the builder writes and 44 when there is a price, each with the value it was built from, the sequence
  number in tag 34, the length of the body in tag 9 and, in tag 10, the sum of the bytes before the checksum
  field, which is the last seven bytes.  A limit order without a price is refused for its missing tag 44.\<close>

theorem fix_roundtrip:
  assumes "order_ok format_price f"
  shows "if nf_ord_type f = ascii ''2'' \<and> nf_price f = None
    then parse_naive checked (build_new_order_single format_price f) = Inl (Fix_Error (MissingRequiredTag TAG_PRICE)) \<and>
      parse_zero_copy checked (build_new_order_single format_price f) = Inl (Fix_Error (MissingRequiredTag TAG_PRICE))
    else \<exists>m zs. parse_naive checked (build_new_order_single format_price f) = Inr m \<and>
      parse_zero_copy checked (build_new_order_single format_price f) = Inr zs \<and>
      distinct (map ff_tag zs) \<and> (\<forall>tag v. m tag = Some v \<longleftrightarrow> \<lparr>ff_tag = tag, ff_value = v\<rparr> \<in> set zs) \<and>
      m TAG_CL_ORD_ID = Some (nf_cl_ord_id f) \<and> m TAG_SYMBOL = Some (nf_symbol f) \<and> m TAG_SIDE = Some (nf_side f) \<and>
      m TAG_ORDER_QTY = Some (decimal (unat (nf_order_qty f))) \<and> m TAG_ORD_TYPE = Some (nf_ord_type f) \<and>
      m TAG_PRICE = map_option format_price (nf_price f) \<and> m TAG_MSG_TYPE = Some (ascii ''D'') \<and>
      m TAG_BODY_LENGTH = Some (decimal (length (build_body format_price f))) \<and>
      m TAG_BEGIN_STRING = Some (ascii ''FIX.4.2'') \<and> m 49 = Some (ascii ''SENDER'') \<and> m 56 = Some (ascii ''TARGET'') \<and>
      m 34 = Some (decimal (unat (nf_seq_num f))) \<and> m 52 = Some (ascii ''20260101-00:00:00'') \<and> m 59 = Some (ascii ''0'') \<and>
      m TAG_CHECKSUM = Some (decimal3 (unat (wrapping_sum
        (take (length (build_new_order_single format_price f) - 7) (build_new_order_single format_price f))))) \<and>
      dom m = {8, 9, 35, 49, 56, 34, 52, 11, 55, 54, 38, 40, 59, 10} \<union> (if nf_price f = None then {} else {44})"
proof -
  let ?c = "decimal3 (unat (wrapping_sum (fix_text (message_fields format_price f))))"
  let ?fs = "message_fields format_price f @ [(10, ?c)]"
  note v = validate_built [OF assms, of "[]" checked, simplified]
  show ?thesis
  proof (cases "nf_ord_type f = ascii ''2'' \<and> nf_price f = None")
    case True
    then show ?thesis by (simp add: parse_naive_def parse_zero_copy_def v TAG_PRICE_def)
  next
    case False
    then have v: "validate_and_parse_fields checked (build_new_order_single format_price f) = Inr ?fs" using v by auto
    note d = message_fields_distinct [of format_price f ?c]
    have "map_of (rev ?fs) = map_of ?fs" by (rule map_of_rev_distinct [OF d])
    then have n: "parse_naive checked (build_new_order_single format_price f) = Inr (map_of ?fs)"
      by (simp only: parse_naive_def v sum_bind_simps)
    let ?zs = "map (\<lambda>(tag, v). \<lparr>ff_tag = tag, ff_value = v\<rparr>) ?fs"
    have z: "parse_zero_copy checked (build_new_order_single format_price f) = Inr ?zs"
      by (simp only: parse_zero_copy_def v sum_bind_simps)
    have dz: "distinct (map ff_tag ?zs)" using d by (simp only: map_map comp_def case_prod_beta FixField.select_convs)
    have mz: "map_of ?fs tag = Some v \<longleftrightarrow> \<lparr>ff_tag = tag, ff_value = v\<rparr> \<in> set ?zs" for tag v
      using map_of_eq_Some_iff [OF d, of tag v] by (auto simp del: map_append)
    have l: "map_of ?fs TAG_CL_ORD_ID = Some (nf_cl_ord_id f)" "map_of ?fs TAG_SYMBOL = Some (nf_symbol f)"
      "map_of ?fs TAG_SIDE = Some (nf_side f)" "map_of ?fs TAG_ORDER_QTY = Some (decimal (unat (nf_order_qty f)))"
      "map_of ?fs TAG_ORD_TYPE = Some (nf_ord_type f)" "map_of ?fs TAG_PRICE = map_option format_price (nf_price f)"
      "map_of ?fs TAG_MSG_TYPE = Some (ascii ''D'')" "map_of ?fs TAG_BODY_LENGTH = Some (decimal (length (build_body format_price f)))"
      by (cases "nf_price f"; simp add: message_fields_def order_fields_def build_body_fields TAG_CL_ORD_ID_def TAG_SYMBOL_def
        TAG_SIDE_def TAG_ORDER_QTY_def TAG_ORD_TYPE_def TAG_PRICE_def TAG_MSG_TYPE_def TAG_BODY_LENGTH_def)+
    have h: "map_of ?fs TAG_BEGIN_STRING = Some (ascii ''FIX.4.2'')" "map_of ?fs 49 = Some (ascii ''SENDER'')"
      "map_of ?fs 56 = Some (ascii ''TARGET'')" "map_of ?fs 34 = Some (decimal (unat (nf_seq_num f)))"
      "map_of ?fs 52 = Some (ascii ''20260101-00:00:00'')" "map_of ?fs 59 = Some (ascii ''0'')" "map_of ?fs TAG_CHECKSUM = Some ?c"
      by (cases "nf_price f"; simp add: message_fields_def order_fields_def TAG_BEGIN_STRING_def TAG_CHECKSUM_def)+
    have "fst ` set ?fs = {8, 9, 35, 49, 56, 34, 52, 11, 55, 54, 38, 40, 59, 10} \<union> (if nf_price f = None then {} else {44})"
      by (cases "nf_price f") (simp_all add: message_fields_def order_fields_def, blast+)
    then have dm: "dom (map_of ?fs) = {8, 9, 35, 49, 56, 34, 52, 11, 55, 54, 38, 40, 59, 10} \<union> (if nf_price f = None then {} else {44})"
      unfolding dom_map_of_conv_image_fst .
    show ?thesis unfolding if_not_P [OF False] built_before_checksum
      by (rule exI [of _ "map_of ?fs"], rule exI [of _ ?zs]) (intro conjI allI n z dz mz l h dm)
  qed
qed

definition sample_order :: NewOrderSingleFields where
  "sample_order = \<lparr>nf_seq_num = 1, nf_cl_ord_id = ascii ''ORDER1'', nf_symbol = ascii ''ESZ5'', nf_side = ascii ''1'',
     nf_order_qty = 10, nf_ord_type = ascii ''2'', nf_price = Some (Fin 4800)\<rparr>"

lemma sample_order_ok: "order_ok (\<lambda>_. ascii ''4800.00'') sample_order"
  by (simp add: order_ok_def sample_order_def build_body_def decimal_small SOH_def of_char_def)

theorem fix_roundtrip_witness:
  "\<exists>m. parse_naive True (build_new_order_single (\<lambda>_. ascii ''4800.00'') sample_order) = Inr m \<and>
     m TAG_CL_ORD_ID = Some (ascii ''ORDER1'') \<and> m TAG_PRICE = Some (ascii ''4800.00'') \<and>
     m 34 = Some (ascii ''1'') \<and> m 49 = Some (ascii ''SENDER'') \<and> m TAG_BEGIN_STRING = Some (ascii ''FIX.4.2'')"
proof -
  have "decimal (unat (1 :: 32 word)) = ascii ''1''" by (simp add: decimal_small of_char_def)
  then show ?thesis using fix_roundtrip [OF sample_order_ok, of True] by (auto simp: sample_order_def)
qed

text \<open>C19: Changing one byte of an accepted message before its checksum field is always refused,
  whatever the byte and whichever field it is in: as no UTF-8, as a message without its
  delimiters, or by the checksum, which is computed before any field is looked at.  Neither
  parser panics on it.\<close>

theorem corrupted_byte_rejected:
  assumes "parse_naive checked raw = Inr m" "rfind checksum_marker raw = Some p" "i < p" "b \<noteq> raw ! i"
  shows "let s = wrapping_sum (take (p + 1) raw);
      e = (if \<not> utf8_valid (raw[i := b]) then NotUtf8
           else if length (match_indices SOH (raw[i := b])) < 3 then MissingDelimiter
           else ChecksumMismatch s (s + (b - raw ! i)))
    in parse_naive checked (raw[i := b]) = Inl (Fix_Error e) \<and> parse_zero_copy checked (raw[i := b]) = Inl (Fix_Error e)"
proof -
  from assms(1) obtain fs where "validate_and_parse_fields checked raw = Inr fs" by (auto simp: parse_naive_def sum_bind_eq_Inr)
  from corrupted_text [OF this assms(2-4)] show ?thesis
    by (simp only: parse_naive_def parse_zero_copy_def sum_bind_simps Let_def simp_thms)
qed

theorem corrupted_byte_rejected_witness:
  "\<exists>e. parse_naive True ((build_new_order_single (\<lambda>_. ascii ''4800.00'') sample_order)[0 := 0x39]) = Inl (Fix_Error e)"
proof -
  let ?raw = "build_new_order_single (\<lambda>_. ascii ''4800.00'') sample_order"
  have "nf_price sample_order \<noteq> None" by (simp add: sample_order_def)
  then obtain fs where v: "validate_and_parse_fields True ?raw = Inr fs"
    using validate_built [OF sample_order_ok, of "[]" True] by simp
  then have "parse_naive True ?raw = Inr (map_of (rev fs))" by (simp add: parse_naive_def)
  moreover obtain p where p: "rfind checksum_marker ?raw = Some p"
    using v by (cases "rfind checksum_marker ?raw")
      (auto simp: validate_and_parse_fields_def check_checksum_def Let_def fix_eqs)
  moreover have r0: "?raw ! 0 = 0x38" by (simp add: build_new_order_single_def Let_def of_char_def)
  moreover have "0 < p"
  proof (rule ccontr)
    assume "\<not> 0 < p"
    then have "p = 0" by simp
    with rfind_Some(2) [OF p] have "take (length checksum_marker) ?raw = checksum_marker" by (simp only: drop_0)
    moreover have "0 < length checksum_marker" by (simp add: checksum_marker_eq)
    ultimately have "?raw ! 0 = checksum_marker ! 0" by (metis nth_take)
    then show False using r0 by (simp add: checksum_marker_eq SOH_def)
  qed
  ultimately show ?thesis using corrupted_byte_rejected [of True ?raw _ p 0 "0x39"] by (simp only: Let_def) auto
qed

text \<open>C39: The checksum and the body length cover a message only up to its checksum field: any
  further fields sent behind a built message are accepted, in both build profiles.  In the map
  they replace the order's own values, while a search of the list still finds the original ones.\<close>

theorem trailing_fields_unprotected:
  assumes "order_ok format_price f" "nf_ord_type f = ascii ''2'' \<longrightarrow> nf_price f \<noteq> None"
    and "clean extra" "TAG_CHECKSUM \<notin> fst ` set extra"
  shows "\<exists>m zs. parse_naive checked (build_new_order_single format_price f) = Inr m \<and>
    parse_naive checked (build_new_order_single format_price f @ fix_text extra) = Inr (m ++ map_of (rev extra)) \<and>
    parse_zero_copy checked (build_new_order_single format_price f) = Inr zs \<and>
    parse_zero_copy checked (build_new_order_single format_price f @ fix_text extra) =
      Inr (zs @ map (\<lambda>(tag, v). \<lparr>ff_tag = tag, ff_value = v\<rparr>) extra)"
proof -
  let ?c = "decimal3 (unat (wrapping_sum (fix_text (message_fields format_price f))))"
  let ?fs = "message_fields format_price f @ [(10, ?c)]"
  have e: "10 \<notin> fst ` set extra" using assms(4) by (simp add: TAG_CHECKSUM_def)
  have n: "(if nf_ord_type f = ascii ''2'' \<and> nf_price f = None \<and> P then x else y) = y" for P and x y :: "(nat \<times> bytes) list fix_result"
    using assms(2) by auto
  have v: "validate_and_parse_fields checked (build_new_order_single format_price f) = Inr ?fs"
    using validate_built [OF assms(1), of "[]" checked] unfolding n by simp
  moreover have "validate_and_parse_fields checked (build_new_order_single format_price f @ fix_text extra) = Inr (?fs @ extra)"
    using validate_built [OF assms(1,3) e, of checked] unfolding n by simp
  ultimately show ?thesis
    by (simp only: parse_naive_def parse_zero_copy_def sum_bind_simps rev_append map_of_append map_append sum.inject) blast
qed

theorem trailing_fields_unprotected_witness:
  "\<exists>m. parse_naive False (build_new_order_single (\<lambda>_. ascii ''4800.00'') sample_order @ ascii ''38=999'' @ [SOH]) = Inr m \<and>
     m TAG_ORDER_QTY = Some (ascii ''999'')"
proof -
  have "\<exists>m zs. parse_naive False (build_new_order_single (\<lambda>_. ascii ''4800.00'') sample_order) = Inr m \<and>
    parse_naive False (build_new_order_single (\<lambda>_. ascii ''4800.00'') sample_order @ fix_text [(38, ascii ''999'')]) =
      Inr (m ++ map_of (rev [(38, ascii ''999'')])) \<and>
    parse_zero_copy False (build_new_order_single (\<lambda>_. ascii ''4800.00'') sample_order) = Inr zs \<and>
    parse_zero_copy False (build_new_order_single (\<lambda>_. ascii ''4800.00'') sample_order @ fix_text [(38, ascii ''999'')]) =
      Inr (zs @ map (\<lambda>(tag, v). \<lparr>ff_tag = tag, ff_value = v\<rparr>) [(38, ascii ''999'')])"
    by (rule trailing_fields_unprotected [OF sample_order_ok])
      (simp_all add: sample_order_def SOH_def of_char_def TAG_CHECKSUM_def)
  moreover have "fix_text [(38, ascii ''999'')] = ascii ''38=999'' @ [SOH]"
    by (simp add: fix_field_def decimal_small of_char_def)
  ultimately show ?thesis by (auto simp: TAG_ORDER_QTY_def)
qed

text \<open>C40: Both parsers panic on the same messages, and in exactly two ways.  In both build profiles, on text of
  three delimiters at least, when three bytes follow the last checksum tag but do not begin and end at a character;
  in a debug build only, when the checksum is right, every field is read, the first two are tags 8 and 9, the
  declared length is a number, and the last checksum tag comes no later than the end of the second field, so that
  the body has a negative length.  A message of the fields 8, \<open>9=0\<close> and a right checksum alone is such a one; a
  release build refuses it for its missing type.\<close>

theorem parser_panics:
  "(parse_naive checked raw = Inl (Fix_Panic Char_Boundary) \<longleftrightarrow>
      utf8_valid raw \<and> 3 \<le> length (match_indices SOH raw) \<and>
      (\<exists>m. rfind checksum_marker raw = Some m \<and> m + 4 + 3 \<le> length raw \<and>
        \<not> (char_boundary raw (m + 4) \<and> char_boundary raw (m + 4 + 3)))) \<and>
   (parse_naive checked raw = Inl (Fix_Panic Arithmetic_Overflow) \<longleftrightarrow>
      checked \<and> utf8_valid raw \<and> 3 \<le> length (match_indices SOH raw) \<and>
      (\<exists>m parsed declared. check_checksum raw = Inr m \<and> parse_fields (split_at_char SOH raw) = Inr parsed \<and>
        2 \<le> length parsed \<and> fst (parsed ! 0) = TAG_BEGIN_STRING \<and> fst (parsed ! 1) = TAG_BODY_LENGTH \<and>
        parse_unsigned (2 ^ 64 - 1) (snd (parsed ! 1)) = Some declared \<and> m \<le> match_indices SOH raw ! 1)) \<and>
   (parse_naive checked raw = Inl (Fix_Panic p) \<longrightarrow> p = Char_Boundary \<or> p = Arithmetic_Overflow) \<and>
   (parse_zero_copy checked raw = Inl (Fix_Panic p) \<longleftrightarrow> parse_naive checked raw = Inl (Fix_Panic p)) \<and>
   (utf8_valid v \<and> SOH \<notin> set v \<longrightarrow> parse_naive checked (bodiless v) =
      Inl (if checked then Fix_Panic Arithmetic_Overflow else Fix_Error (MissingRequiredTag TAG_MSG_TYPE)))"
proof (intro conjI impI)
  have n: "parse_naive checked raw = Inl (Fix_Panic p) \<longleftrightarrow> validate_and_parse_fields checked raw = Inl (Fix_Panic p)" for p
    by (auto simp: parse_naive_def sum_bind_eq_Inl)
  have l: "length checksum_marker = 4" by (simp add: checksum_marker_eq)
  show "parse_naive checked raw = Inl (Fix_Panic Char_Boundary) \<longleftrightarrow>
     utf8_valid raw \<and> 3 \<le> length (match_indices SOH raw) \<and>
     (\<exists>m. rfind checksum_marker raw = Some m \<and> m + 4 + 3 \<le> length raw \<and>
       \<not> (char_boundary raw (m + 4) \<and> char_boundary raw (m + 4 + 3)))"
    unfolding n validate_panic check_checksum_panic l by (simp only: simp_thms)
  show "parse_naive checked raw = Inl (Fix_Panic Arithmetic_Overflow) \<longleftrightarrow>
      checked \<and> utf8_valid raw \<and> 3 \<le> length (match_indices SOH raw) \<and>
      (\<exists>m parsed declared. check_checksum raw = Inr m \<and> parse_fields (split_at_char SOH raw) = Inr parsed \<and>
        2 \<le> length parsed \<and> fst (parsed ! 0) = TAG_BEGIN_STRING \<and> fst (parsed ! 1) = TAG_BODY_LENGTH \<and>
        parse_unsigned (2 ^ 64 - 1) (snd (parsed ! 1)) = Some declared \<and> m \<le> match_indices SOH raw ! 1)"
    unfolding n by (rule validate_overflow)
  show "parse_naive checked raw = Inl (Fix_Panic p) \<Longrightarrow> p = Char_Boundary \<or> p = Arithmetic_Overflow"
    unfolding n by (rule validate_panics_only)
  show "parse_zero_copy checked raw = Inl (Fix_Panic p) \<longleftrightarrow> parse_naive checked raw = Inl (Fix_Panic p)"
    unfolding n by (auto simp: parse_zero_copy_def sum_bind_eq_Inl)
next
  assume "utf8_valid v \<and> SOH \<notin> set v"
  then show "parse_naive checked (bodiless v) =
     Inl (if checked then Fix_Panic Arithmetic_Overflow else Fix_Error (MissingRequiredTag TAG_MSG_TYPE))"
    by (simp add: parse_naive_def validate_bodiless TAG_MSG_TYPE_def)
qed

text \<open>A pound sign as the last character of the checksum.\<close>

theorem parser_panics_witness:
  "parse_naive False (ascii ''8=A'' @ [SOH] @ ascii ''9=1'' @ [SOH] @ ascii ''10=12'' @ [0xC2, 0xA3, SOH]) = Inl (Fix_Panic Char_Boundary) \<and>
   parse_naive True (bodiless (ascii ''FIX.4.2'')) = Inl (Fix_Panic Arithmetic_Overflow)"
proof -
  let ?raw = "ascii ''8=A'' @ [SOH] @ ascii ''9=1'' @ [SOH] @ ascii ''10=12'' @ [0xC2, 0xA3, SOH]"
  have e: "?raw = [0x38, 0x3D, 0x41, 1, 0x39, 0x3D, 0x31, 1, 0x31, 0x30, 0x3D, 0x31, 0x32, 0xC2, 0xA3, 1]"
    by (simp add: SOH_def of_char_def)
  have u: "utf8_valid ?raw" unfolding e by (simp add: continuation_def)
  have m: "3 \<le> length (match_indices SOH ?raw)" unfolding e by (simp add: match_indices_def SOH_def upt_rec)
  have r: "rfind checksum_marker ?raw = Some 7" unfolding e by (simp add: rfind_def checksum_marker_eq SOH_def upt_rec)
  have b: "7 + 4 + 3 \<le> length ?raw" "\<not> char_boundary ?raw (7 + 4 + 3)"
    unfolding e by (simp_all add: char_boundary_def continuation_def)
  have "utf8_valid (ascii ''FIX.4.2'')" "SOH \<notin> set (ascii ''FIX.4.2'')" by (simp_all add: SOH_def of_char_def)
  then show ?thesis
    using parser_panics [of False ?raw Char_Boundary "[]"] parser_panics [of True "[]" Char_Boundary "ascii ''FIX.4.2''"] u m r b
    by (metis (no_types, lifting))
qed

end
