(* ===== verification/RustPricing.thy ===== *)
theory RustPricing
  imports RustBase Hedging BlackScholes
begin

text \<open>
  The Rust option pricer \<^verbatim>\<open>risk/src/pricing.rs\<close> and the server \<^verbatim>\<open>risk/src/bin/pricing_server.rs\<close>
  that answers the Python pricing client with it.  Every operation is in binary64.  \<^verbatim>\<open>exp\<close> and
  \<^verbatim>\<open>ln\<close> are the platform's and are parameters; the vector operations of the \<^verbatim>\<open>wide\<close> crate are
  parameters too, of which \<open>wide_ok\<close> states that they work lane by lane.
\<close>

section \<open>The scalar pricer\<close>

record rust_math =
  rm_exp :: "pyfloat \<Rightarrow> pyfloat"
  rm_ln :: "pyfloat \<Rightarrow> pyfloat"

text \<open>The IEEE square root: NaN where Python's raises.\<close>

definition f64_sqrt :: "pyfloat \<Rightarrow> pyfloat" where
  "f64_sqrt x = (case math_sqrt x of Inr z \<Rightarrow> z | Inl _ \<Rightarrow> NaN)"

abbreviation lit :: "rat \<Rightarrow> pyfloat" where
  "lit r \<equiv> to_float (r < 0) r"

definition SQRT_2PI :: pyfloat where
  "SQRT_2PI = lit (25066282746310002 / 10 ^ 16)"

record OptionParams =
  op_spot :: pyfloat
  op_strike :: pyfloat
  op_rate :: pyfloat
  op_vol :: pyfloat
  op_time_to_expiry :: pyfloat
  op_is_call :: bool

definition rust_norm_pdf :: "rust_math \<Rightarrow> pyfloat \<Rightarrow> pyfloat" where
  "rust_norm_pdf M x = f64_div (rm_exp M (fmul (fmul (Fin (- 1 / 2)) x) x)) SQRT_2PI"

definition CDF_P :: pyfloat where "CDF_P = lit (2316419 / 10 ^ 7)"
definition CDF_B1 :: pyfloat where "CDF_B1 = lit (319381530 / 10 ^ 9)"
definition CDF_B2 :: pyfloat where "CDF_B2 = lit (- 356563782 / 10 ^ 9)"
definition CDF_B3 :: pyfloat where "CDF_B3 = lit (1781477937 / 10 ^ 9)"
definition CDF_B4 :: pyfloat where "CDF_B4 = lit (- 1821255978 / 10 ^ 9)"
definition CDF_B5 :: pyfloat where "CDF_B5 = lit (1330274429 / 10 ^ 9)"

definition cdf_poly :: "pyfloat \<Rightarrow> pyfloat" where
  "cdf_poly t = fmul t (fadd CDF_B1 (fmul t (fadd CDF_B2 (fmul t (fadd CDF_B3 (fmul t
     (fadd CDF_B4 (fmul t CDF_B5))))))))"

definition rust_norm_cdf :: "rust_math \<Rightarrow> pyfloat \<Rightarrow> pyfloat" where
  "rust_norm_cdf M x =
     (let sign = (if fless x (Fin 0) then Fin (- 1) else Fin 1);
          x_abs = fabs x;
          t = f64_div (Fin 1) (fadd (Fin 1) (fmul CDF_P x_abs));
          cdf_abs = fsub (Fin 1) (fmul (rust_norm_pdf M x_abs) (cdf_poly t))
      in fadd (Fin (1 / 2)) (fmul sign (fsub cdf_abs (Fin (1 / 2)))))"

definition price_scalar :: "rust_math \<Rightarrow> OptionParams \<Rightarrow> Greeks" where
  "price_scalar M p =
     (let phi = (if op_is_call p then Fin 1 else Fin (- 1));
          sqrt_t = f64_sqrt (op_time_to_expiry p);
          vol_sqrt_t = fmul (op_vol p) sqrt_t;
          d1 = f64_div (fadd (rm_ln M (f64_div (op_spot p) (op_strike p)))
                 (fmul (fadd (op_rate p) (fmul (fmul (Fin (1 / 2)) (op_vol p)) (op_vol p))) (op_time_to_expiry p)))
                 vol_sqrt_t;
          d2 = fsub d1 vol_sqrt_t;
          discount = rm_exp M (fmul (fneg (op_rate p)) (op_time_to_expiry p));
          n_phi_d1 = rust_norm_cdf M (fmul phi d1);
          n_phi_d2 = rust_norm_cdf M (fmul phi d2);
          pdf_d1 = rust_norm_pdf M d1
      in \<lparr>gr_price = fmul phi (fsub (fmul (op_spot p) n_phi_d1) (fmul (fmul (op_strike p) discount) n_phi_d2)),
          gr_delta = fmul phi n_phi_d1,
          gr_gamma = f64_div pdf_d1 (fmul (op_spot p) vol_sqrt_t),
          gr_vega = fmul (fmul (op_spot p) pdf_d1) sqrt_t,
          gr_theta = fsub (f64_div (fneg (fmul (fmul (op_spot p) pdf_d1) (op_vol p))) (fmul (Fin 2) sqrt_t))
                       (fmul (fmul (fmul (fmul phi (op_rate p)) (op_strike p)) discount) n_phi_d2),
          gr_rho = fmul (fmul (fmul (fmul phi (op_strike p)) (op_time_to_expiry p)) discount) n_phi_d2\<rparr>)"

section \<open>The batch pricer\<close>

text \<open>A vector is its four lanes; the operations of the crate are arguments.\<close>

datatype 'a x4 = X4 'a 'a 'a 'a

type_synonym f64x4 = "pyfloat x4"

definition splat :: "'a \<Rightarrow> 'a x4" where
  "splat x = X4 x x x x"

record wide =
  wd_add :: "f64x4 \<Rightarrow> f64x4 \<Rightarrow> f64x4"
  wd_sub :: "f64x4 \<Rightarrow> f64x4 \<Rightarrow> f64x4"
  wd_mul :: "f64x4 \<Rightarrow> f64x4 \<Rightarrow> f64x4"
  wd_div :: "f64x4 \<Rightarrow> f64x4 \<Rightarrow> f64x4"
  wd_sqrt :: "f64x4 \<Rightarrow> f64x4"
  wd_abs :: "f64x4 \<Rightarrow> f64x4"
  wd_exp :: "f64x4 \<Rightarrow> f64x4"
  wd_ln :: "f64x4 \<Rightarrow> f64x4"
  wd_simd_lt :: "f64x4 \<Rightarrow> f64x4 \<Rightarrow> f64x4"
  wd_blend :: "f64x4 \<Rightarrow> f64x4 \<Rightarrow> f64x4 \<Rightarrow> f64x4"

definition norm_pdf_simd :: "wide \<Rightarrow> f64x4 \<Rightarrow> f64x4" where
  "norm_pdf_simd W x =
     wd_mul W (wd_exp W (wd_mul W (wd_mul W x x) (splat (Fin (- 1 / 2))))) (splat (f64_div (Fin 1) SQRT_2PI))"

definition norm_cdf_simd :: "wide \<Rightarrow> f64x4 \<Rightarrow> f64x4" where
  "norm_cdf_simd W x =
     (let neg_mask = wd_simd_lt W x (splat (Fin 0));
          sign = wd_blend W neg_mask (splat (Fin (- 1))) (splat (Fin 1));
          x_abs = wd_abs W x;
          p = splat CDF_P; b1 = splat CDF_B1; b2 = splat CDF_B2; b3 = splat CDF_B3; b4 = splat CDF_B4; b5 = splat CDF_B5;
          t = wd_div W (splat (Fin 1)) (wd_add W (splat (Fin 1)) (wd_mul W p x_abs));
          poly = wd_mul W t (wd_add W b1 (wd_mul W t (wd_add W b2 (wd_mul W t (wd_add W b3 (wd_mul W t
            (wd_add W b4 (wd_mul W t b5))))))));
          cdf_abs = wd_sub W (splat (Fin 1)) (wd_mul W (norm_pdf_simd W x_abs) poly)
      in wd_add W (splat (Fin (1 / 2))) (wd_mul W sign (wd_sub W cdf_abs (splat (Fin (1 / 2))))))"

text \<open>The six results in the order price, delta, gamma, vega, theta, rho.\<close>

type_synonym 'a six = "'a \<times> 'a \<times> 'a \<times> 'a \<times> 'a \<times> 'a"

definition price_lane_simd :: "wide \<Rightarrow> f64x4 \<Rightarrow> f64x4 \<Rightarrow> f64x4 \<Rightarrow> f64x4 \<Rightarrow> f64x4 \<Rightarrow> f64x4 \<Rightarrow> f64x4 six" where
  "price_lane_simd W spot strike rate vol t phi =
     (let sqrt_t = wd_sqrt W t;
          vol_sqrt_t = wd_mul W vol sqrt_t;
          d1 = wd_div W (wd_add W (wd_ln W (wd_div W spot strike))
                 (wd_mul W (wd_add W rate (wd_mul W (wd_mul W (splat (Fin (1 / 2))) vol) vol)) t)) vol_sqrt_t;
          d2 = wd_sub W d1 vol_sqrt_t;
          discount = wd_exp W (wd_mul W (wd_mul W rate t) (splat (Fin (- 1))));
          n_phi_d1 = norm_cdf_simd W (wd_mul W phi d1);
          n_phi_d2 = norm_cdf_simd W (wd_mul W phi d2);
          pdf_d1 = norm_pdf_simd W d1;
          price = wd_mul W phi (wd_sub W (wd_mul W spot n_phi_d1) (wd_mul W (wd_mul W strike discount) n_phi_d2));
          delta = wd_mul W phi n_phi_d1;
          gamma = wd_div W pdf_d1 (wd_mul W spot vol_sqrt_t);
          vega = wd_mul W (wd_mul W spot pdf_d1) sqrt_t;
          theta = wd_sub W (wd_mul W (wd_div W (wd_mul W (wd_mul W spot pdf_d1) vol)
                      (wd_mul W (splat (Fin 2)) sqrt_t)) (splat (Fin (- 1))))
                    (wd_mul W (wd_mul W (wd_mul W (wd_mul W phi rate) strike) discount) n_phi_d2);
          rho = wd_mul W (wd_mul W (wd_mul W (wd_mul W phi strike) t) discount) n_phi_d2
      in (price, delta, gamma, vega, theta, rho))"

text \<open>One column of the transposed batch: the loop over the options, then the padding.\<close>

definition fill_column :: "(OptionParams \<Rightarrow> pyfloat) \<Rightarrow> OptionParams list \<Rightarrow> nat \<Rightarrow> pyfloat list" where
  "fill_column get params padded_len =
     (let n = length params;
          xs = foldl (\<lambda>xs (i, p). xs[i := get p]) (replicate padded_len (Fin 0)) (enumerate 0 params)
      in foldl (\<lambda>xs i. xs[i := xs ! (n - 1)]) xs [n..<padded_len])"

definition load4 :: "pyfloat list \<Rightarrow> nat \<Rightarrow> f64x4" where
  "load4 xs i = X4 (xs ! i) (xs ! (i + 1)) (xs ! (i + 2)) (xs ! (i + 3))"

fun store4 :: "pyfloat list \<Rightarrow> nat \<Rightarrow> f64x4 \<Rightarrow> pyfloat list" where
  "store4 xs i (X4 a b c d) = xs[i := a, i + 1 := b, i + 2 := c, i + 3 := d]"

fun store_results :: "pyfloat list six \<Rightarrow> nat \<Rightarrow> f64x4 six \<Rightarrow> pyfloat list six" where
  "store_results (o1, o2, o3, o4, o5, o6) i (r1, r2, r3, r4, r5, r6) =
     (store4 o1 i r1, store4 o2 i r2, store4 o3 i r3, store4 o4 i r4, store4 o5 i r5, store4 o6 i r6)"

definition phi_of :: "OptionParams \<Rightarrow> pyfloat" where
  "phi_of p = (if op_is_call p then Fin 1 else Fin (- 1))"

definition price_batch_simd :: "wide \<Rightarrow> OptionParams list \<Rightarrow> Greeks list" where
  "price_batch_simd W params =
     (let n = length params in
      if n = 0 then []
      else
        let padded_len = (n + 3) div 4 * 4;
            spot = fill_column op_spot params padded_len;
            strike = fill_column op_strike params padded_len;
            rate = fill_column op_rate params padded_len;
            vol = fill_column op_vol params padded_len;
            t = fill_column op_time_to_expiry params padded_len;
            phi = fill_column phi_of params padded_len;
            out = replicate padded_len (Fin 0);
            (out_price, out_delta, out_gamma, out_vega, out_theta, out_rho) =
              foldl (\<lambda>outs i. store_results outs i
                  (price_lane_simd W (load4 spot i) (load4 strike i) (load4 rate i) (load4 vol i) (load4 t i) (load4 phi i)))
                (out, out, out, out, out, out) (map (\<lambda>k. 4 * k) [0..<padded_len div 4])
        in map (\<lambda>i. \<lparr>gr_price = out_price ! i, gr_delta = out_delta ! i, gr_gamma = out_gamma ! i,
                      gr_vega = out_vega ! i, gr_theta = out_theta ! i, gr_rho = out_rho ! i\<rparr>) [0..<n])"

section \<open>The server\<close>

definition SERVER_TICK_SIZE :: pyfloat where
  "SERVER_TICK_SIZE = Fin (1 / 4)"

definition params_of_request :: "PriceRequest \<Rightarrow> OptionParams" where
  "params_of_request req =
     \<lparr>op_spot = fmul (i64_as_f64 (sint (pq_spot_ticks req))) SERVER_TICK_SIZE,
      op_strike = fmul (i64_as_f64 (sint (pq_strike_ticks req))) SERVER_TICK_SIZE,
      op_rate = pq_rate req, op_vol = pq_vol req, op_time_to_expiry = pq_time_to_expiry req,
      op_is_call = pq_is_call req\<rparr>"

datatype Pricing_End = Client_Disconnected | Unknown_Request_Tag byte | Response_Failed

text \<open>
  One connection: \<open>inp\<close> are the bytes that arrive until the stream ends or fails, \<open>writes\<close> says
  of each \<^verbatim>\<open>write_all\<close> whether it succeeds (all do once the list is empty).  The result is the
  bytes of the completed responses and how the handler ended.
\<close>

function handle_connection :: "rust_math \<Rightarrow> bool list \<Rightarrow> bytes \<Rightarrow> bytes \<times> Pricing_End" where
  "handle_connection M writes [] = ([], Client_Disconnected)"
| "handle_connection M writes (tag # rest) =
     (if tag \<noteq> PRICE_REQUEST_TAG then ([], Unknown_Request_Tag tag)
      else if length rest < REQUEST_SIZE then ([], Client_Disconnected)
      else
        let req = rust_decode_request (take REQUEST_SIZE rest);
            response = rust_encode_response (price_scalar M (params_of_request req))
        in case writes of
             False # _ \<Rightarrow> ([], Response_Failed)
           | _ \<Rightarrow> (case handle_connection M (tl writes) (drop REQUEST_SIZE rest) of
               (sent, e) \<Rightarrow> (response @ sent, e)))"
  by pat_completeness auto
termination
  by (relation "measure (\<lambda>(M, writes, inp). length inp)") auto

text \<open>The client's end of the request codec and of the response codec in Rust.\<close>

definition rust_encode_request :: "PriceRequest \<Rightarrow> bytes" where
  "rust_encode_request m = PRICE_REQUEST_TAG #
     i64_to_be_bytes (pq_spot_ticks m) @ i64_to_be_bytes (pq_strike_ticks m) @
     f64_to_be_bytes (pq_rate m) @ f64_to_be_bytes (pq_vol m) @ f64_to_be_bytes (pq_time_to_expiry m) @
     [if pq_is_call m then 1 else 0]"

definition rust_decode_response :: "bytes \<Rightarrow> Greeks" where
  "rust_decode_response payload =
     (let get = (\<lambda>i. f64_from_be_bytes (take 8 (drop (i * 8) payload))) in
      \<lparr>gr_price = get 0, gr_delta = get 1, gr_gamma = get 2, gr_vega = get 3, gr_theta = get 4, gr_rho = get 5\<rparr>)"

section \<open>Lemmas\<close>

subsection \<open>Operations\<close>

lemma wf_f64_div [simp]: "wf_float (f64_div x y)"
  by (cases "fdiv x y") (auto simp: f64_div_def wf_fdiv)

lemma wf_fmul' [simp]: "wf_float (fmul x y)"
  by (rule wf_fmul)

lemma wf_price_scalar: "wf_greeks (price_scalar M p)"
  by (simp add: wf_greeks_def price_scalar_def Let_def wf_fsub)

subsection \<open>The server answers every complete request\<close>

definition request_bytes :: "int \<Rightarrow> int \<Rightarrow> pyfloat \<Rightarrow> pyfloat \<Rightarrow> pyfloat \<Rightarrow> bool \<Rightarrow> bytes" where
  "request_bytes spot strike rate vol tte is_call =
     (case price_request_body spot strike rate vol tte is_call of Inr body \<Rightarrow> PRICE_REQUEST_TAG # body | Inl _ \<Rightarrow> [])"

definition tick_params :: "int \<Rightarrow> int \<Rightarrow> pyfloat \<Rightarrow> pyfloat \<Rightarrow> pyfloat \<Rightarrow> bool \<Rightarrow> OptionParams" where
  "tick_params spot strike rate vol tte is_call =
     \<lparr>op_spot = fmul (i64_as_f64 spot) SERVER_TICK_SIZE, op_strike = fmul (i64_as_f64 strike) SERVER_TICK_SIZE,
      op_rate = rate, op_vol = vol, op_time_to_expiry = tte, op_is_call = is_call\<rparr>"

lemma handle_request:
  assumes "request_in_range spot strike rate vol tte"
  shows "handle_connection M [] (request_bytes spot strike rate vol tte is_call @ rest) =
    (case handle_connection M [] rest of (sent, e) \<Rightarrow>
       (rust_encode_response (price_scalar M (tick_params spot strike rate vol tte is_call)) @ sent, e))"
proof -
  from price_request_cross_language assms obtain body where
    b: "price_request_body spot strike rate vol tte is_call = Inr body" "length body = 41" and
    "sint (pq_spot_ticks (rust_decode_request body)) = spot" "sint (pq_strike_ticks (rust_decode_request body)) = strike"
    "pq_rate (rust_decode_request body) = rate" "pq_vol (rust_decode_request body) = vol"
    "pq_time_to_expiry (rust_decode_request body) = tte" "pq_is_call (rust_decode_request body) = is_call"
    unfolding sizes by blast
  then have "params_of_request (rust_decode_request body) = tick_params spot strike rate vol tte is_call"
    by (simp add: params_of_request_def tick_params_def)
  with b show ?thesis by (simp add: request_bytes_def Let_def)
qed

lemma price_sends:
  assumes "pricing_ready c" "request_in_range spot strike rate vol tte" "price spot strike rate vol tte is_call c = (r, c')"
  shows "pc_sent c' = pc_sent c @ request_bytes spot strike rate vol tte is_call \<and> pricing_ready c'"
proof -
  from price_request_packs [OF assms(2)] obtain body where
    b: "price_request_body spot strike rate vol tte is_call = Inr body" by blast
  have "pricing_send (PRICE_REQUEST_TAG # body) c = (Inr (), c\<lparr>pc_sent := pc_sent c @ PRICE_REQUEST_TAG # body\<rparr>)"
    using assms(1) by (simp add: pricing_send_def pricing_ready_def)
  with assms b show ?thesis
    by (auto simp: price_eq request_bytes_def pricing_ready_def split: prod.splits sum.splits if_splits)
qed

definition rust_quote :: "rust_math \<Rightarrow> int \<Rightarrow> pyfloat \<Rightarrow> OptionLeg \<Rightarrow> Greeks" where
  "rust_quote M spot rate leg =
     price_scalar M (tick_params spot (ol_strike_ticks leg) rate (ol_vol leg) (ol_time_to_expiry_years leg) (ol_is_call leg))"

lemma leg_request_in_range:
  "- (2 ^ 63) \<le> spot \<Longrightarrow> spot < 2 ^ 63 \<Longrightarrow> wf_float rate \<Longrightarrow> leg_in_range leg \<Longrightarrow>
   request_in_range spot (ol_strike_ticks leg) rate (ol_vol leg) (ol_time_to_expiry_years leg)"
  by (simp add: request_in_range_def leg_in_range_def)

lemma leg_terms_step:
  assumes "price spot (ol_strike_ticks leg) rate (ol_vol leg) (ol_time_to_expiry_years leg) (ol_is_call leg) pc = (g, pc1)"
    "leg_terms (\<lambda>leg. leg_greek field leg spot rate) legs pc1 = (r2, pc2)"
    "leg_terms (\<lambda>leg. leg_greek field leg spot rate) (leg # legs) pc = (r, pc')"
  shows "pc' = pc1 \<or> pc' = pc2"
proof -
  have "leg_greek field leg spot rate pc = (case g of Inl e \<Rightarrow> (Inl e, pc1) | Inr v \<Rightarrow> (Inr (field v), pc1))"
    using assms(1) by (simp add: leg_greek_def split: sum.splits)
  with assms(2,3) show ?thesis by (auto split: sum.splits)
qed

lemma leg_terms_sends:
  assumes "pricing_ready pc" "- (2 ^ 63) \<le> spot" "spot < 2 ^ 63" "wf_float rate" "list_all leg_in_range legs"
    "leg_terms (\<lambda>leg. leg_greek field leg spot rate) legs pc = (r, pc')"
  shows "\<exists>sent. pc_sent pc' = pc_sent pc @ sent"
  using assms
proof (induction legs arbitrary: pc pc' r)
  case (Cons leg legs)
  have rng: "request_in_range spot (ol_strike_ticks leg) rate (ol_vol leg) (ol_time_to_expiry_years leg)"
    using Cons.prems by (intro leg_request_in_range) simp_all
  obtain g pc1 where 1: "price spot (ol_strike_ticks leg) rate (ol_vol leg) (ol_time_to_expiry_years leg)
      (ol_is_call leg) pc = (g, pc1)" by force
  note s = price_sends [OF Cons.prems(1) rng 1]
  obtain r2 pc2 where 2: "leg_terms (\<lambda>leg. leg_greek field leg spot rate) legs pc1 = (r2, pc2)" by force
  have "\<exists>sent. pc_sent pc2 = pc_sent pc1 @ sent"
    using Cons.IH [OF _ _ _ _ _ 2] s Cons.prems by auto
  with leg_terms_step [OF 1 2 Cons.prems(6)] s show ?case by auto
qed simp

text \<open>The connection between the client and the handler: what the client reads is what the handler
  writes in answer to what the client sends.\<close>

lemma rust_terms:
  assumes "pricing_ready pc" "- (2 ^ 63) \<le> spot" "spot < 2 ^ 63" "wf_float rate" "list_all leg_in_range legs"
    "leg_terms (\<lambda>leg. leg_greek field leg spot rate) legs pc = (r, pc')"
    "pc_sent pc' = pc_sent pc @ sent" "pricing_stream pc = fst (handle_connection M [] sent)"
  shows "r = Inr (map (\<lambda>leg. leg_product field leg (rust_quote M spot rate leg)) legs) \<and> pricing_stream pc' = [] \<and>
    sent = concat (map (\<lambda>leg. request_bytes spot (ol_strike_ticks leg) rate (ol_vol leg)
      (ol_time_to_expiry_years leg) (ol_is_call leg)) legs)"
  using assms
proof (induction legs arbitrary: pc pc' r sent)
  case (Cons leg legs)
  let ?req = "request_bytes spot (ol_strike_ticks leg) rate (ol_vol leg) (ol_time_to_expiry_years leg) (ol_is_call leg)"
  let ?g = "rust_quote M spot rate leg"
  have rng: "request_in_range spot (ol_strike_ticks leg) rate (ol_vol leg) (ol_time_to_expiry_years leg)"
    using Cons.prems by (intro leg_request_in_range) simp_all
  have q: "\<bar>ol_quantity leg\<bar> \<le> 2 ^ 53" using Cons.prems(5) by (simp add: leg_in_range_def)
  obtain g pc1 where 1: "price spot (ol_strike_ticks leg) rate (ol_vol leg) (ol_time_to_expiry_years leg)
      (ol_is_call leg) pc = (g, pc1)" by force
  note s1 = price_sends [OF Cons.prems(1) rng 1]
  obtain r2 pc2 where 2: "leg_terms (\<lambda>leg. leg_greek field leg spot rate) legs pc1 = (r2, pc2)" by force
  obtain more where more: "pc_sent pc2 = pc_sent pc1 @ more"
    using leg_terms_sends [OF _ _ _ _ _ 2] s1 Cons.prems(2-5) by auto
  from leg_terms_step [OF 1 2 Cons.prems(6)] s1 more Cons.prems(7) obtain sent' where sent: "sent = ?req @ sent'" "pc_sent pc' = pc_sent pc1 @ sent'" by auto
  have "pricing_stream pc = rust_encode_response ?g @ fst (handle_connection M [] sent')"
    using Cons.prems(8) handle_request [OF rng, of M "ol_is_call leg" sent'] sent(1)
    by (simp add: rust_quote_def split: prod.splits)
  moreover have "wf_greeks ?g" by (simp add: rust_quote_def wf_price_scalar)
  ultimately obtain p: "price spot (ol_strike_ticks leg) rate (ol_vol leg) (ol_time_to_expiry_years leg)
      (ol_is_call leg) pc = (Inr ?g, pc1)" and st: "pricing_stream pc1 = fst (handle_connection M [] sent')"
    using price_reply [OF Cons.prems(1) rng] 1 by (metis prod.inject)
  have "leg_greek field leg spot rate pc = (Inr (field ?g), pc1)" using p by (simp add: leg_greek_def)
  moreover have "fmul_int (field ?g) (ol_quantity leg) = Inr (leg_product field leg ?g)"
    using int_to_float_exact [OF q] by (simp add: fmul_int_def leg_product_def)
  ultimately have t: "leg_terms (\<lambda>leg. leg_greek field leg spot rate) (leg # legs) pc =
      (case leg_terms (\<lambda>leg. leg_greek field leg spot rate) legs pc1 of
         (Inl e, pc2) \<Rightarrow> (Inl e, pc2)
       | (Inr terms, pc2) \<Rightarrow> (Inr (leg_product field leg ?g # terms), pc2))" by simp
  then have "pc2 = pc'" using Cons.prems(6) 2 by (auto split: sum.splits)
  then have "r2 = Inr (map (\<lambda>leg. leg_product field leg (rust_quote M spot rate leg)) legs) \<and> pricing_stream pc' = [] \<and>
    sent' = concat (map (\<lambda>leg. request_bytes spot (ol_strike_ticks leg) rate (ol_vol leg)
      (ol_time_to_expiry_years leg) (ol_is_call leg)) legs)"
    using s1 2 sent(2) st Cons.prems by (intro Cons.IH) auto
  with t 2 Cons.prems(6) sent(1) show ?case by auto
qed simp

abbreviation leg_requests :: "int \<Rightarrow> pyfloat \<Rightarrow> OptionLeg list \<Rightarrow> bytes" where
  "leg_requests spot rate legs \<equiv> concat (map (\<lambda>leg. request_bytes spot (ol_strike_ticks leg) rate (ol_vol leg)
     (ol_time_to_expiry_years leg) (ol_is_call leg)) legs)"

text \<open>Such a run exists: the handler's answer to the requests of all legs.\<close>

lemma rust_terms_run:
  assumes "pricing_ready pc" "- (2 ^ 63) \<le> spot" "spot < 2 ^ 63" "wf_float rate" "list_all leg_in_range legs"
    "pricing_stream pc = fst (handle_connection M [] (leg_requests spot rate legs))"
  shows "\<exists>r pc'. leg_terms (\<lambda>leg. leg_greek field leg spot rate) legs pc = (r, pc') \<and>
    pc_sent pc' = pc_sent pc @ leg_requests spot rate legs"
  using assms
proof (induction legs arbitrary: pc)
  case (Cons leg legs)
  let ?g = "rust_quote M spot rate leg"
  have rng: "request_in_range spot (ol_strike_ticks leg) rate (ol_vol leg) (ol_time_to_expiry_years leg)"
    using Cons.prems by (intro leg_request_in_range) simp_all
  have q: "\<bar>ol_quantity leg\<bar> \<le> 2 ^ 53" using Cons.prems(5) by (simp add: leg_in_range_def)
  have "pricing_stream pc = rust_encode_response ?g @ fst (handle_connection M [] (leg_requests spot rate legs))"
    using Cons.prems(6) handle_request [OF rng, of M "ol_is_call leg"] by (simp add: rust_quote_def split: prod.splits)
  from price_reply [OF Cons.prems(1) rng wf_price_scalar this [unfolded rust_quote_def], of "ol_is_call leg"] obtain pc1 where
    p: "price spot (ol_strike_ticks leg) rate (ol_vol leg) (ol_time_to_expiry_years leg) (ol_is_call leg) pc = (Inr ?g, pc1)"
    "pricing_stream pc1 = fst (handle_connection M [] (leg_requests spot rate legs))" unfolding rust_quote_def by blast
  note s = price_sends [OF Cons.prems(1) rng p(1)]
  obtain r2 pc2 where 2: "leg_terms (\<lambda>leg. leg_greek field leg spot rate) legs pc1 = (r2, pc2)"
    "pc_sent pc2 = pc_sent pc1 @ leg_requests spot rate legs" using Cons.IH [of pc1] s p(2) Cons.prems by auto
  have "leg_greek field leg spot rate pc = (Inr (field ?g), pc1)" using p(1) by (simp add: leg_greek_def)
  moreover have "fmul_int (field ?g) (ol_quantity leg) = Inr (leg_product field leg ?g)"
    using int_to_float_exact [OF q] by (simp add: fmul_int_def leg_product_def)
  ultimately show ?case using 2 s by (cases r2) simp_all
qed simp

subsection \<open>The Rust side of the client's codec\<close>

lemma rust_request_round:
  assumes "wf_float (pq_rate m)" "wf_float (pq_vol m)" "wf_float (pq_time_to_expiry m)"
  shows "\<exists>body. rust_encode_request m = PRICE_REQUEST_TAG # body \<and> length body = REQUEST_SIZE \<and> rust_decode_request body = m"
proof -
  have "be_value (be_bytes 8 (unat w)) = unat w" for w :: "64 word"
  proof (rule be_value_be_bytes_small)
    have "unat w < 2 ^ LENGTH(64)" by (rule unsigned_less)
    then show "unat w < 256 ^ 8" by simp
  qed
  with assms show ?thesis
    by (cases m) (simp add: rust_encode_request_def rust_decode_request_def i64_to_be_bytes_def i64_from_be_bytes_def
      f64_round nth_append)
qed

lemma rust_response_round: "wf_greeks g \<Longrightarrow> \<exists>body. rust_encode_response g = PRICE_RESPONSE_TAG # body \<and>
    length body = RESPONSE_SIZE \<and> rust_decode_response body = g"
  by (cases g) (simp add: rust_encode_response_def rust_decode_response_def Let_def wf_greeks_def f64_round)

subsection \<open>Signs\<close>

lemma fneg_to_float: "fneg (to_float b q) = to_float (\<not> b) (- q)"
  by (auto simp: to_float_def Let_def zero_of_def inf_of_def)

lemma fneg_inf_of: "fneg (inf_of b) = inf_of (\<not> b)"
  by (simp add: inf_of_def)

lemma fneg_zero_of: "fneg (zero_of b) = zero_of (\<not> b)"
  by (simp add: zero_of_def)

lemma fsign_fneg: "x \<noteq> NaN \<Longrightarrow> fsign (fneg x) \<longleftrightarrow> \<not> fsign x"
  by (cases x) auto

lemma fneg_eq_NaN [simp]: "fneg x = NaN \<longleftrightarrow> x = NaN"
  by (cases x) auto

lemma fmul_fneg: "fmul (fneg x) y = fneg (fmul x y)"
  by (auto simp: fmul_def Let_def fneg_to_float fneg_inf_of fsign_fneg)

lemma f64_div_fneg: "f64_div (fneg x) y = fneg (f64_div x y)"
  by (auto simp: f64_div_def fdiv_def Let_def fneg_to_float fneg_inf_of fneg_zero_of fsign_fneg)

lemma fmul_minus_one: "wf_float x \<Longrightarrow> fmul x (Fin (- 1)) = fneg x"
  by (cases x) (auto simp: fmul_def to_float_def Let_def zero_of_def inf_of_def)

subsection \<open>The batch, lane by lane\<close>

fun lane :: "nat \<Rightarrow> 'a x4 \<Rightarrow> 'a" where
  "lane k (X4 a b c d) = (if k = 0 then a else if k = 1 then b else if k = 2 then c else d)"

text \<open>What the crate documents: every operation works on the lanes one by one, as in IEEE 754;
  its \<^verbatim>\<open>exp\<close> and \<^verbatim>\<open>ln\<close> are its own.\<close>

definition wide_ok :: "wide \<Rightarrow> rust_math \<Rightarrow> bool" where
  "wide_ok W V \<longleftrightarrow> (\<forall>k x y a b.
     lane k (wd_add W x y) = fadd (lane k x) (lane k y) \<and> lane k (wd_sub W x y) = fsub (lane k x) (lane k y) \<and>
     lane k (wd_mul W x y) = fmul (lane k x) (lane k y) \<and> lane k (wd_div W x y) = f64_div (lane k x) (lane k y) \<and>
     lane k (wd_sqrt W x) = f64_sqrt (lane k x) \<and> lane k (wd_abs W x) = fabs (lane k x) \<and>
     lane k (wd_exp W x) = rm_exp V (lane k x) \<and> lane k (wd_ln W x) = rm_ln V (lane k x) \<and>
     lane k (wd_blend W (wd_simd_lt W x y) a b) = (if fless (lane k x) (lane k y) then lane k a else lane k b))"

lemma wide_lanes:
  assumes "wide_ok W V"
  shows "lane k (wd_add W x y) = fadd (lane k x) (lane k y)" "lane k (wd_sub W x y) = fsub (lane k x) (lane k y)"
    "lane k (wd_mul W x y) = fmul (lane k x) (lane k y)" "lane k (wd_div W x y) = f64_div (lane k x) (lane k y)"
    "lane k (wd_sqrt W x) = f64_sqrt (lane k x)" "lane k (wd_abs W x) = fabs (lane k x)"
    "lane k (wd_exp W x) = rm_exp V (lane k x)" "lane k (wd_ln W x) = rm_ln V (lane k x)"
    "lane k (wd_blend W (wd_simd_lt W x y) a b) = (if fless (lane k x) (lane k y) then lane k a else lane k b)"
  using assms by (simp_all add: wide_ok_def)

lemma lane_splat [simp]: "lane k (splat x) = x"
  by (simp add: splat_def)

lemma lane_load4: "k < 4 \<Longrightarrow> lane k (load4 xs i) = xs ! (i + k)"
  by (auto simp: load4_def less_Suc_eq numeral_eq_Suc)

text \<open>The scalar pricer's formulas with any density.\<close>

definition cdf_with :: "(pyfloat \<Rightarrow> pyfloat) \<Rightarrow> pyfloat \<Rightarrow> pyfloat" where
  "cdf_with pdf x =
     (let sign = (if fless x (Fin 0) then Fin (- 1) else Fin 1);
          t = f64_div (Fin 1) (fadd (Fin 1) (fmul CDF_P (fabs x)));
          cdf_abs = fsub (Fin 1) (fmul (pdf (fabs x)) (cdf_poly t))
      in fadd (Fin (1 / 2)) (fmul sign (fsub cdf_abs (Fin (1 / 2)))))"

definition price_with :: "rust_math \<Rightarrow> (pyfloat \<Rightarrow> pyfloat) \<Rightarrow> OptionParams \<Rightarrow> Greeks" where
  "price_with V pdf p =
     (let phi = phi_of p;
          sqrt_t = f64_sqrt (op_time_to_expiry p);
          vol_sqrt_t = fmul (op_vol p) sqrt_t;
          d1 = f64_div (fadd (rm_ln V (f64_div (op_spot p) (op_strike p)))
                 (fmul (fadd (op_rate p) (fmul (fmul (Fin (1 / 2)) (op_vol p)) (op_vol p))) (op_time_to_expiry p)))
                 vol_sqrt_t;
          d2 = fsub d1 vol_sqrt_t;
          discount = rm_exp V (fmul (fneg (op_rate p)) (op_time_to_expiry p));
          n_phi_d1 = cdf_with pdf (fmul phi d1);
          n_phi_d2 = cdf_with pdf (fmul phi d2);
          pdf_d1 = pdf d1
      in \<lparr>gr_price = fmul phi (fsub (fmul (op_spot p) n_phi_d1) (fmul (fmul (op_strike p) discount) n_phi_d2)),
          gr_delta = fmul phi n_phi_d1,
          gr_gamma = f64_div pdf_d1 (fmul (op_spot p) vol_sqrt_t),
          gr_vega = fmul (fmul (op_spot p) pdf_d1) sqrt_t,
          gr_theta = fsub (f64_div (fneg (fmul (fmul (op_spot p) pdf_d1) (op_vol p))) (fmul (Fin 2) sqrt_t))
                       (fmul (fmul (fmul (fmul phi (op_rate p)) (op_strike p)) discount) n_phi_d2),
          gr_rho = fmul (fmul (fmul (fmul phi (op_strike p)) (op_time_to_expiry p)) discount) n_phi_d2\<rparr>)"

lemma price_scalar_with: "price_scalar M = price_with M (rust_norm_pdf M)"
  by (simp add: fun_eq_iff price_scalar_def price_with_def rust_norm_cdf_def cdf_with_def phi_of_def Let_def)

text \<open>The density of the batch pricer in one lane.\<close>

definition lane_pdf :: "rust_math \<Rightarrow> pyfloat \<Rightarrow> pyfloat" where
  "lane_pdf V x = fmul (rm_exp V (fmul (fmul x x) (Fin (- 1 / 2)))) (f64_div (Fin 1) SQRT_2PI)"

lemma lane_norm_pdf: "wide_ok W V \<Longrightarrow> lane k (norm_pdf_simd W x) = lane_pdf V (lane k x)"
  by (simp add: norm_pdf_simd_def lane_pdf_def wide_lanes)

lemma lane_norm_cdf: "wide_ok W V \<Longrightarrow> lane k (norm_cdf_simd W x) = cdf_with (lane_pdf V) (lane k x)"
  by (simp add: norm_cdf_simd_def cdf_with_def cdf_poly_def lane_norm_pdf wide_lanes Let_def)

fun six_map :: "('a \<Rightarrow> 'b) \<Rightarrow> 'a six \<Rightarrow> 'b six" where
  "six_map f (a, b, c, d, e, g) = (f a, f b, f c, f d, f e, f g)"

definition six_of :: "Greeks \<Rightarrow> pyfloat six" where
  "six_of g = (gr_price g, gr_delta g, gr_gamma g, gr_vega g, gr_theta g, gr_rho g)"

lemma lane_price:
  assumes "wide_ok W V" "lane k spot = op_spot p" "lane k strike = op_strike p" "lane k rate = op_rate p"
    "lane k vol = op_vol p" "lane k t = op_time_to_expiry p" "lane k phi = phi_of p"
  shows "six_map (lane k) (price_lane_simd W spot strike rate vol t phi) = six_of (price_with V (lane_pdf V) p)"
  by (simp add: price_lane_simd_def price_with_def six_of_def Let_def wide_lanes [OF assms(1)] assms(2-7)
    lane_norm_cdf [OF assms(1)] lane_norm_pdf [OF assms(1)] fmul_minus_one fmul_fneg f64_div_fneg)

subsection \<open>Columns\<close>

lemma foldl_fill:
  "length xs = k + length ps + m \<Longrightarrow>
   foldl (\<lambda>xs (i, p). xs[i := get p]) xs (enumerate k ps) = take k xs @ map get ps @ drop (k + length ps) xs"
proof (induction ps arbitrary: k xs)
  case (Cons p ps)
  then have k: "k < length xs" by simp
  have "foldl (\<lambda>xs (i, p). xs[i := get p]) (xs[k := get p]) (enumerate (Suc k) ps) =
      take (Suc k) (xs[k := get p]) @ map get ps @ drop (Suc k + length ps) (xs[k := get p])"
    using Cons.prems by (intro Cons.IH) simp
  also have "take (Suc k) (xs[k := get p]) = take k xs @ [get p]" using k by (simp add: take_Suc_conv_app_nth)
  finally show ?case by simp
qed simp

lemma foldl_pad:
  "n \<le> m \<Longrightarrow> m \<le> length xs \<Longrightarrow> 0 < n \<Longrightarrow>
   foldl (\<lambda>xs i. xs[i := xs ! (n - 1)]) xs [n..<m] = take n xs @ replicate (m - n) (xs ! (n - 1)) @ drop m xs"
proof (induction m)
  case (Suc m)
  show ?case
  proof (cases "n = Suc m")
    case False
    with Suc.prems have n: "n \<le> m" "m < length xs" by simp_all
    let ?ys = "take n xs @ replicate (m - n) (xs ! (n - 1)) @ drop m xs"
    have l: "length ?ys = length xs" "?ys ! (n - 1) = xs ! (n - 1)" using n Suc.prems by (simp_all add: nth_append)
    have "drop m xs = xs ! m # drop (Suc m) xs" using n(2) by (rule Cons_nth_drop_Suc [symmetric])
    then have "?ys[m := xs ! (n - 1)] = take n xs @ replicate (m - n) (xs ! (n - 1)) @ xs ! (n - 1) # drop (Suc m) xs"
      using n by (simp add: list_update_append)
    also have "\<dots> = take n xs @ replicate (Suc m - n) (xs ! (n - 1)) @ drop (Suc m) xs"
      using n by (simp add: Suc_diff_le replicate_append_same [symmetric])
    finally show ?thesis using Suc n l by simp
  qed simp
qed simp

lemma fill_column_nth:
  assumes "ps \<noteq> []" "length ps \<le> m" "j < m"
  shows "fill_column get ps m ! j = get (ps ! min j (length ps - 1))" "length (fill_column get ps m) = m"
proof -
  have "foldl (\<lambda>xs (i, p). xs[i := get p]) (replicate m (Fin 0)) (enumerate 0 ps) = map get ps @ replicate (m - length ps) (Fin 0)"
    using foldl_fill [of "replicate m (Fin 0)" 0 ps "m - length ps" get] assms(2) by simp
  moreover have "0 < length ps" using assms(1) by simp
  ultimately have "fill_column get ps m = map get ps @ replicate (m - length ps) (get (last ps))"
    unfolding fill_column_def Let_def using assms(1,2)
    by (subst foldl_pad) (simp_all add: nth_append last_conv_nth)
  moreover have "min j (length ps - 1) = (if j < length ps then j else length ps - 1)"
    using \<open>0 < length ps\<close> unfolding min_def by (simp only: split: if_split) linarith
  ultimately show "fill_column get ps m ! j = get (ps ! min j (length ps - 1))" "length (fill_column get ps m) = m"
    using assms by (simp_all add: nth_append last_conv_nth)
qed

lemma store4_nth:
  "i + 4 \<le> length xs \<Longrightarrow> length (store4 xs i v) = length xs \<and>
   store4 xs i v ! j = (if i \<le> j \<and> j < i + 4 then lane (j - i) v else xs ! j)"
  by (cases v) (auto simp: nth_list_update less_Suc_eq numeral_eq_Suc)

lemma foldl_store:
  "4 * m \<le> length o0 \<Longrightarrow> length (foldl (\<lambda>out i. store4 out i (r i)) o0 (map (\<lambda>k. 4 * k) [0..<m])) = length o0 \<and>
   (\<forall>j<4 * m. foldl (\<lambda>out i. store4 out i (r i)) o0 (map (\<lambda>k. 4 * k) [0..<m]) ! j = lane (j mod 4) (r (4 * (j div 4))))"
proof (induction m)
  case (Suc m)
  let ?o = "foldl (\<lambda>out i. store4 out i (r i)) o0 (map (\<lambda>k. 4 * k) [0..<m])"
  have IH: "length ?o = length o0" "\<And>j. j < 4 * m \<Longrightarrow> ?o ! j = lane (j mod 4) (r (4 * (j div 4)))"
    using Suc by auto
  have step: "foldl (\<lambda>out i. store4 out i (r i)) o0 (map (\<lambda>k. 4 * k) [0..<Suc m]) = store4 ?o (4 * m) (r (4 * m))" by simp
  have st: "length (store4 ?o (4 * m) (r (4 * m))) = length ?o"
    "store4 ?o (4 * m) (r (4 * m)) ! j = (if 4 * m \<le> j \<and> j < 4 * m + 4 then lane (j - 4 * m) (r (4 * m)) else ?o ! j)" for j
    using store4_nth [of "4 * m" ?o "r (4 * m)"] IH(1) Suc.prems by auto
  have "store4 ?o (4 * m) (r (4 * m)) ! j = lane (j mod 4) (r (4 * (j div 4)))" if j: "j < 4 * Suc m" for j
  proof (cases "j < 4 * m")
    case True
    then show ?thesis using st(2) [of j] IH(2) by simp
  next
    case False
    with j have "4 * m \<le> j" "j < 4 * m + 4" by simp_all
    then have "j div 4 = m" "j mod 4 = j - 4 * m" by presburger+
    with False j st(2) [of j] show ?thesis by simp
  qed
  with step st(1) IH(1) show ?case by (simp only:) blast
qed simp

lemma foldl_store_results:
  "foldl (\<lambda>outs i. store_results outs i (r i)) (o1, o2, o3, o4, o5, o6) is =
   (foldl (\<lambda>out i. store4 out i (fst (r i))) o1 is, foldl (\<lambda>out i. store4 out i (fst (snd (r i)))) o2 is,
    foldl (\<lambda>out i. store4 out i (fst (snd (snd (r i))))) o3 is, foldl (\<lambda>out i. store4 out i (fst (snd (snd (snd (r i)))))) o4 is,
    foldl (\<lambda>out i. store4 out i (fst (snd (snd (snd (snd (r i))))))) o5 is,
    foldl (\<lambda>out i. store4 out i (snd (snd (snd (snd (snd (r i))))))) o6 is)"
proof (induction "is" arbitrary: o1 o2 o3 o4 o5 o6)
  case (Cons i js)
  obtain a b c d e f where "r i = (a, b, c, d, e, f)" by (cases "r i")
  then show ?case using Cons by simp
qed simp

lemma price_batch_lanes:
  assumes "wide_ok W V"
  shows "price_batch_simd W ps = map (price_with V (lane_pdf V)) ps"
proof (cases "ps = []")
  case False
  define m where "m = (length ps + 3) div 4"
  let ?n = "length ps"
  let ?col = "\<lambda>get. fill_column get ps (m * 4)"
  let ?r = "\<lambda>i. price_lane_simd W (load4 (?col op_spot) i) (load4 (?col op_strike) i) (load4 (?col op_rate) i)
    (load4 (?col op_vol) i) (load4 (?col op_time_to_expiry) i) (load4 (?col phi_of) i)"
  let ?is = "map (\<lambda>k. 4 * k) [0..<m]" and ?z = "replicate (m * 4) (Fin 0)"
  let ?out = "\<lambda>pick. foldl (\<lambda>out i. store4 out i (pick (?r i))) ?z ?is"
  have n: "?n \<le> m * 4" "0 < ?n" using False by (simp_all add: m_def)
  have lanes: "six_map (lane (j mod 4)) (?r (4 * (j div 4))) = six_of (price_with V (lane_pdf V) (ps ! j))" if j: "j < ?n" for j
  proof -
    have "lane (j mod 4) (load4 (?col get) (4 * (j div 4))) = get (ps ! j)" for get
    proof -
      have "j mod 4 < 4" "4 * (j div 4) + j mod 4 = j" by simp_all
      then show ?thesis using fill_column_nth(1) [OF False n(1), of j get] j n by (simp add: lane_load4)
    qed
    then show ?thesis by (intro lane_price [OF assms]) blast+
  qed
  have out: "?out pick ! j = lane (j mod 4) (pick (?r (4 * (j div 4))))" if "j < ?n" for pick j
    using foldl_store [of m ?z "\<lambda>i. pick (?r i)"] that n by (simp add: mult.commute)
  have "\<lparr>gr_price = ?out fst ! j, gr_delta = ?out (\<lambda>r. fst (snd r)) ! j, gr_gamma = ?out (\<lambda>r. fst (snd (snd r))) ! j,
      gr_vega = ?out (\<lambda>r. fst (snd (snd (snd r)))) ! j, gr_theta = ?out (\<lambda>r. fst (snd (snd (snd (snd r))))) ! j,
      gr_rho = ?out (\<lambda>r. snd (snd (snd (snd (snd r))))) ! j\<rparr> = price_with V (lane_pdf V) (ps ! j)" if "j < ?n" for j
  proof -
    obtain a b c d e f where r: "?r (4 * (j div 4)) = (a, b, c, d, e, f)" by (cases "?r (4 * (j div 4))")
    note o = out [OF that, where pick = fst] out [OF that, where pick = "\<lambda>r. fst (snd r)"]
      out [OF that, where pick = "\<lambda>r. fst (snd (snd r))"] out [OF that, where pick = "\<lambda>r. fst (snd (snd (snd r)))"]
      out [OF that, where pick = "\<lambda>r. fst (snd (snd (snd (snd r))))"] out [OF that, where pick = "\<lambda>r. snd (snd (snd (snd (snd r))))"]
    show ?thesis unfolding o using lanes [OF that] unfolding r by (simp add: six_of_def)
  qed
  then have "map (\<lambda>j. \<lparr>gr_price = ?out fst ! j, gr_delta = ?out (\<lambda>r. fst (snd r)) ! j, gr_gamma = ?out (\<lambda>r. fst (snd (snd r))) ! j,
      gr_vega = ?out (\<lambda>r. fst (snd (snd (snd r)))) ! j, gr_theta = ?out (\<lambda>r. fst (snd (snd (snd (snd r))))) ! j,
      gr_rho = ?out (\<lambda>r. snd (snd (snd (snd (snd r))))) ! j\<rparr>) [0..<?n] = map (price_with V (lane_pdf V)) ps"
    by (intro nth_equalityI) simp_all
  moreover have "price_batch_simd W ps = map (\<lambda>j. \<lparr>gr_price = ?out fst ! j, gr_delta = ?out (\<lambda>r. fst (snd r)) ! j,
      gr_gamma = ?out (\<lambda>r. fst (snd (snd r))) ! j, gr_vega = ?out (\<lambda>r. fst (snd (snd (snd r)))) ! j,
      gr_theta = ?out (\<lambda>r. fst (snd (snd (snd (snd r))))) ! j, gr_rho = ?out (\<lambda>r. snd (snd (snd (snd (snd r))))) ! j\<rparr>) [0..<?n]"
    using False unfolding price_batch_simd_def Let_def m_def [symmetric] foldl_store_results by simp
  ultimately show ?thesis by (rule trans [rotated])
qed (simp add: price_batch_simd_def)

definition demo_math :: rust_math where
  "demo_math = \<lparr>rm_exp = (\<lambda>_. Fin 1), rm_ln = (\<lambda>_. Fin 0)\<rparr>"

section \<open>Properties\<close>

text \<open>C22: The batch pricer gives every option, in order and whatever the length of the batch, exactly
  what the scalar formulas give it alone: neither its lane, nor its neighbours, nor the padding
  of the last group matter.  The two pricers evaluate the same expression; they differ only in
  their \<^verbatim>\<open>exp\<close> and \<^verbatim>\<open>ln\<close> and in the density, which the batch multiplies by a reciprocal.\<close>

theorem simd_batch_prices_each:
  assumes "wide_ok W V"
  shows "price_batch_simd W ps = map (price_with V (lane_pdf V)) ps \<and> price_scalar M = price_with M (rust_norm_pdf M)"
  using price_batch_lanes [OF assms] price_scalar_with by blast

definition lanes2 :: "('a \<Rightarrow> 'b \<Rightarrow> 'c) \<Rightarrow> 'a x4 \<Rightarrow> 'b x4 \<Rightarrow> 'c x4" where
  "lanes2 f x y = X4 (f (lane 0 x) (lane 0 y)) (f (lane 1 x) (lane 1 y)) (f (lane 2 x) (lane 2 y)) (f (lane 3 x) (lane 3 y))"

text \<open>A vector unit that does this; its mask has a NaN in the lanes where the comparison holds.\<close>

definition demo_wide :: wide where
  "demo_wide = \<lparr>wd_add = lanes2 fadd, wd_sub = lanes2 fsub, wd_mul = lanes2 fmul, wd_div = lanes2 f64_div,
     wd_sqrt = map_x4 f64_sqrt, wd_abs = map_x4 fabs, wd_exp = map_x4 (rm_exp demo_math), wd_ln = map_x4 (rm_ln demo_math),
     wd_simd_lt = lanes2 (\<lambda>x y. if fless x y then NaN else Fin 0),
     wd_blend = (\<lambda>m a b. lanes2 (\<lambda>(x, y) z. if x = NaN then y else z) (lanes2 Pair m a) b)\<rparr>"

lemma lane_lanes2: "lane k (lanes2 f x y) = f (lane k x) (lane k y)"
  by (cases x; cases y) (simp add: lanes2_def)

lemma lane_map_x4: "lane k (map_x4 f x) = f (lane k x)"
  by (cases x) simp

lemma demo_wide_ok: "wide_ok demo_wide demo_math"
  by (simp add: wide_ok_def demo_wide_def lane_lanes2 lane_map_x4)

theorem simd_batch_prices_each_witness:
  "price_batch_simd demo_wide (replicate 5 (tick_params 30000 30000 (Fin 0) (Fin 1) (Fin 1) False)) =
     replicate 5 (price_with demo_math (lane_pdf demo_math) (tick_params 30000 30000 (Fin 0) (Fin 1) (Fin 1) False))"
  using simd_batch_prices_each [OF demo_wide_ok, of "replicate 5 (tick_params 30000 30000 (Fin 0) (Fin 1) (Fin 1) False)"]
  by (simp add: map_replicate)

text \<open>C20: The hedger, the option book, the Python pricing client and the Rust server composed:
  when what the client reads is what the server's handler writes in answer to what the client
  sent, the hedge target is minus the sum of the scalar pricer's deltas times the quantities,
  one request was sent for each leg, all of them answered, and nothing is left to read.\<close>

theorem hedge_target_from_rust_prices:
  assumes "pc_open (dh_pricing_client h)" "pc_send_results (dh_pricing_client h) = []"
    "- (2 ^ 63) \<le> spot" "spot < 2 ^ 63" "wf_float (ob_rate (dh_options_book h))"
    "list_all leg_in_range (ob_legs (dh_options_book h))" "hedge_target h spot = (r, pc)"
    "pc_sent pc = pc_sent (dh_pricing_client h) @ sent"
    "pricing_stream (dh_pricing_client h) = fst (handle_connection M [] sent)"
  shows "r = pynum_round (pynum_neg (py_sum (map (\<lambda>leg. fmul (gr_delta (rust_quote M spot (ob_rate (dh_options_book h)) leg))
      (Fin (of_int (ol_quantity leg)))) (ob_legs (dh_options_book h))))) \<and>
    sent = leg_requests spot (ob_rate (dh_options_book h)) (ob_legs (dh_options_book h)) \<and> pricing_stream pc = []"
proof -
  let ?b = "dh_options_book h"
  obtain t pc' where t: "leg_terms (\<lambda>leg. leg_greek gr_delta leg spot (ob_rate ?b)) (ob_legs ?b) (dh_pricing_client h) = (t, pc')"
    by force
  then have pc: "pc = pc'" "r = (case t of Inl e \<Rightarrow> Inl e | Inr ts \<Rightarrow> pynum_round (pynum_neg (py_sum ts)))"
    using assms(7) by (auto simp: hedge_target_def aggregate_delta_def leg_delta_def split: sum.splits)
  have "pricing_ready (dh_pricing_client h)" using assms(1,2) by (simp add: pricing_ready_def)
  from rust_terms [OF this assms(3-6) t assms(8) [unfolded pc(1)] assms(9)] pc show ?thesis by (simp add: leg_product_def)
qed

theorem hedge_target_from_rust_prices_witness:
  "\<exists>r pc. hedge_target (demo_hedger\<lparr>dh_pricing_client := pricing_init []
       [Data (fst (handle_connection demo_math [] (leg_requests 30000 (Fin 0) [demo_leg])))]\<rparr>) 30000 = (r, pc) \<and>
     r = pynum_round (pynum_neg (py_sum [fmul (gr_delta (rust_quote demo_math 30000 (Fin 0) demo_leg)) (Fin 100)])) \<and>
     pricing_stream pc = []"
proof -
  let ?pc = "pricing_init [] [Data (fst (handle_connection demo_math [] (leg_requests 30000 (Fin 0) [demo_leg])))]"
  let ?h = "demo_hedger\<lparr>dh_pricing_client := ?pc\<rparr>"
  have h: "dh_pricing_client ?h = ?pc" "ob_legs (dh_options_book ?h) = [demo_leg]" "ob_rate (dh_options_book ?h) = Fin 0"
    by (simp_all add: demo_hedger_def hedger_init_def)
  have ready: "pricing_ready ?pc" "pricing_stream ?pc = fst (handle_connection demo_math [] (leg_requests 30000 (Fin 0) [demo_leg]))"
    by (simp_all add: pricing_init_def pricing_ready_def)
  obtain t pc where t: "leg_terms (\<lambda>leg. leg_greek gr_delta leg 30000 (Fin 0)) [demo_leg] ?pc = (t, pc)"
    "pc_sent pc = pc_sent ?pc @ leg_requests 30000 (Fin 0) [demo_leg]"
    using rust_terms_run [OF ready(1) _ _ _ _ ready(2), of gr_delta] demo_leg_ok by auto
  obtain r where r: "hedge_target ?h 30000 = (r, pc)"
    unfolding hedge_target_def aggregate_delta_def leg_delta_def h t(1) by (cases t) auto
  have "ol_quantity demo_leg = 100" by (simp add: demo_leg_def)
  with hedge_target_from_rust_prices [of ?h 30000 r pc "leg_requests 30000 (Fin 0) [demo_leg]" demo_math]
    h t(2) r ready demo_leg_ok show ?thesis by (auto simp: pricing_ready_def)
qed

end
