(* ===== verification/PricerParity.thy ===== *)
theory PricerParity
  imports RustPricing
begin

text \<open>
  Rounding errors of the Rust pricer \<^verbatim>\<open>risk/src/pricing.rs\<close>: interval bounds through the
  polynomial of its normal CDF, and put-call parity of the prices it computes.
\<close>

subsection \<open>Rounding errors\<close>

definition unit_roundoff :: rat where "unit_roundoff = pow2 (- 53)"
definition half_tiny :: rat where "half_tiny = pow2 (- 1075)"

lemma rnd_rel_error: "\<bar>rnd x - x\<bar> \<le> unit_roundoff * \<bar>x\<bar> + half_tiny"
proof (cases "x = 0")
  case False
  have "pow2 (ulp_exp x) / 2 \<le> unit_roundoff * \<bar>x\<bar> + half_tiny"
  proof (cases "ilog2 \<bar>x\<bar> - 52 \<le> - 1074")
    case True
    then have "pow2 (ulp_exp x) / 2 = half_tiny" using pow2_add [of "- 1075" 1] by (simp add: ulp_exp_def half_tiny_def pow2_eval(2))
    then show ?thesis by (simp add: unit_roundoff_def)
  next
    case f: False
    then have "pow2 (ulp_exp x) / 2 = unit_roundoff * pow2 (ilog2 \<bar>x\<bar>)"
      using pow2_add [of "ilog2 \<bar>x\<bar> - 53" 1] pow2_add [of "- 53" "ilog2 \<bar>x\<bar>"]
      by (simp add: ulp_exp_def unit_roundoff_def pow2_eval(2) add.commute)
    also have "\<dots> \<le> unit_roundoff * \<bar>x\<bar>"
      using ilog2_spec [of "\<bar>x\<bar>"] False by (intro mult_left_mono) (simp_all add: unit_roundoff_def)
    finally show ?thesis by (simp add: half_tiny_def add_increasing2)
  qed
  with rnd_error [OF False] show ?thesis by linarith
qed (simp add: half_tiny_def)

lemma small_finite: "\<bar>x\<bar> \<le> 2 ^ 1010 \<Longrightarrow> \<bar>rnd x\<bar> < 2 ^ 1024"
  by (rule rnd_bound_lt_max [of _ 1010]) simp_all

lemma fmul_error:
  assumes "is_finite x" "is_finite y" "\<bar>fval x * fval y\<bar> \<le> 2 ^ 1010"
  shows "is_finite (fmul x y)" "\<bar>fval (fmul x y) - fval x * fval y\<bar> \<le> unit_roundoff * \<bar>fval x * fval y\<bar> + half_tiny"
  using fmul_finite [OF assms(1,2) small_finite [OF assms(3)]] rnd_rel_error [of "fval x * fval y"] by simp_all

lemma fsub_error:
  assumes "is_finite x" "is_finite y" "\<bar>fval x - fval y\<bar> \<le> 2 ^ 1010"
  shows "is_finite (fsub x y)" "\<bar>fval (fsub x y) - (fval x - fval y)\<bar> \<le> unit_roundoff * \<bar>fval x - fval y\<bar> + half_tiny"
  using fsub_finite [OF assms(1,2) small_finite [OF assms(3)]] rnd_rel_error [of "fval x - fval y"] by simp_all

subsection \<open>Bounds in 64ths\<close>

definition within64 :: "int \<Rightarrow> int \<Rightarrow> pyfloat \<Rightarrow> bool" where
  "within64 m n x \<longleftrightarrow> is_finite x \<and> of_int m / 64 \<le> fval x \<and> fval x \<le> of_int n / 64"

lemma rnd_64th: "\<bar>n\<bar> \<le> 2 ^ 50 \<Longrightarrow> rnd (of_int n / 64) = of_int n / 64"
  by (rule rnd_exact [of _ n "- 6"]) (simp_all add: pow2_eval)

lemma rnd_within64:
  assumes "of_int m / 64 \<le> r" "r \<le> of_int n / 64" "\<bar>m\<bar> \<le> 2 ^ 50" "\<bar>n\<bar> \<le> 2 ^ 50"
  shows "of_int m / 64 \<le> rnd r" "rnd r \<le> of_int n / 64" "\<bar>rnd r\<bar> < 2 ^ 1024"
proof -
  show b: "of_int m / 64 \<le> rnd r" "rnd r \<le> of_int n / 64"
    using rnd_mono [OF assms(1)] rnd_mono [OF assms(2)] unfolding rnd_64th [OF assms(3)] rnd_64th [OF assms(4)] by blast+
  have "\<bar>of_int m :: rat\<bar> \<le> of_int (2 ^ 50)" "\<bar>of_int n :: rat\<bar> \<le> of_int (2 ^ 50)"
    using assms(3,4) by (simp_all only: of_int_abs [symmetric] of_int_le_iff)
  then have "\<bar>r\<bar> \<le> 2 ^ 50" using assms(1,2) by simp
  then show "\<bar>rnd r\<bar> < 2 ^ 1024" by (intro rnd_bound_lt_max [of _ 50]) simp_all
qed

lemma within64_fadd:
  assumes "within64 m n x" "within64 p q y" "\<bar>m + p\<bar> \<le> 2 ^ 50" "\<bar>n + q\<bar> \<le> 2 ^ 50"
  shows "within64 (m + p) (n + q) (fadd x y)"
proof -
  have "of_int (m + p) / 64 \<le> fval x + fval y" "fval x + fval y \<le> of_int (n + q) / 64"
    using assms(1,2) by (simp_all add: within64_def)
  note r = rnd_within64 [OF this assms(3,4)]
  show ?thesis using fadd_finite [OF _ _ r(3)] r(1,2) assms(1,2) by (simp add: within64_def)
qed

lemma within64_fsub:
  assumes "within64 m n x" "within64 p q y" "\<bar>m - q\<bar> \<le> 2 ^ 50" "\<bar>n - p\<bar> \<le> 2 ^ 50"
  shows "within64 (m - q) (n - p) (fsub x y)"
proof -
  have "within64 (- q) (- p) (fneg y)" using assms(2) by (simp add: within64_def)
  from within64_fadd [OF assms(1) this] assms(3,4) show ?thesis by (simp add: fsub_def)
qed

lemma within64_mul:
  assumes "within64 0 u t" "within64 m n y" "m \<le> 0" "0 \<le> n" "u * m \<ge> 64 * p" "u * n \<le> 64 * q" "\<bar>p\<bar> \<le> 2 ^ 50" "\<bar>q\<bar> \<le> 2 ^ 50"
  shows "within64 p q (fmul t y)"
proof -
  have t: "0 \<le> fval t" "fval t \<le> of_int u / 64" and y: "of_int m / 64 \<le> fval y" "fval y \<le> of_int n / 64"
    using assms(1,2) by (simp_all add: within64_def)
  have q: "(of_int (u * n) :: rat) \<le> of_int (64 * q)" and q': "(of_int (64 * p) :: rat) \<le> of_int (u * m)"
    using assms(5,6) by (simp_all only: of_int_le_iff)
  have "fval t * fval y \<le> fval t * (of_int n / 64)" by (rule mult_left_mono [OF y(2) t(1)])
  also have "\<dots> \<le> of_int u / 64 * (of_int n / 64)" using t(2) assms(4) by (intro mult_right_mono) simp_all
  also have "\<dots> = of_int (u * n) / 64 / 64" by simp
  also have "\<dots> \<le> of_int (64 * q) / 64 / 64" using q by (intro divide_right_mono) simp_all
  finally have hi: "fval t * fval y \<le> of_int q / 64" by simp
  have "of_int (64 * p) / 64 / 64 \<le> (of_int (u * m) / 64 / 64 :: rat)"
    using q' by (intro divide_right_mono) simp_all
  also have "\<dots> = of_int u / 64 * (of_int m / 64)" by simp
  also have "\<dots> \<le> fval t * (of_int m / 64)" using t(2) assms(3) by (intro mult_right_mono_neg) simp_all
  also have "\<dots> \<le> fval t * fval y" by (rule mult_left_mono [OF y(1) t(1)])
  finally have lo: "of_int p / 64 \<le> fval t * fval y" by simp
  note r = rnd_within64 [OF lo hi assms(7,8)]
  show ?thesis using fmul_finite [OF _ _ r(3)] r(1,2) assms(1,2) by (simp add: within64_def)
qed

lemma within64_lit:
  assumes "of_int m / 64 \<le> r" "r \<le> of_int n / 64" "\<bar>m\<bar> \<le> 2 ^ 50" "\<bar>n\<bar> \<le> 2 ^ 50"
  shows "within64 m n (to_float b r)"
  using to_float_of_finite [OF rnd_within64(3) [OF assms], of b] rnd_within64(1,2) [OF assms] by (simp add: within64_def)

lemma cdf_constants:
  "within64 14 15 CDF_P" "within64 20 21 CDF_B1" "within64 (- 23) (- 22) CDF_B2" "within64 114 115 CDF_B3"
  "within64 (- 117) (- 116) CDF_B4" "within64 85 86 CDF_B5" "within64 160 161 SQRT_2PI"
  unfolding CDF_P_def CDF_B1_def CDF_B2_def CDF_B3_def CDF_B4_def CDF_B5_def SQRT_2PI_def
  by (rule within64_lit; simp)+

lemma cdf_poly_bounds:
  assumes "within64 0 64 t"
  shows "within64 (- 6) 114 (cdf_poly t)"
proof -
  note mul = within64_mul [OF assms]
  have "within64 0 86 (fmul t CDF_B5)" using cdf_constants(6) by (intro mul [of 0 86]) (simp_all add: within64_def)
  then have "within64 (- 117) (- 30) (fadd CDF_B4 (fmul t CDF_B5))" using within64_fadd [OF cdf_constants(5)] by fastforce
  then have "within64 (- 117) 0 (fmul t (fadd CDF_B4 (fmul t CDF_B5)))" by (intro mul [of "- 117" 0]) (simp_all add: within64_def)
  then have "within64 (- 3) 115 (fadd CDF_B3 (fmul t (fadd CDF_B4 (fmul t CDF_B5))))" using within64_fadd [OF cdf_constants(4)] by fastforce
  then have "within64 (- 3) 115 (fmul t (fadd CDF_B3 (fmul t (fadd CDF_B4 (fmul t CDF_B5)))))" by (rule mul) simp_all
  then have "within64 (- 26) 93 (fadd CDF_B2 (fmul t (fadd CDF_B3 (fmul t (fadd CDF_B4 (fmul t CDF_B5))))))"
    using within64_fadd [OF cdf_constants(3)] by fastforce
  then have "within64 (- 26) 93 (fmul t (fadd CDF_B2 (fmul t (fadd CDF_B3 (fmul t (fadd CDF_B4 (fmul t CDF_B5)))))))"
    by (rule mul) simp_all
  then have "within64 (- 6) 114 (fadd CDF_B1 (fmul t (fadd CDF_B2 (fmul t (fadd CDF_B3 (fmul t (fadd CDF_B4 (fmul t CDF_B5))))))))"
    using within64_fadd [OF cdf_constants(2)] by fastforce
  then show ?thesis unfolding cdf_poly_def by (rule mul) simp_all
qed

subsection \<open>The normal CDF\<close>

text \<open>What is assumed of \<^verbatim>\<open>exp\<close>: of a number that is not positive it is in [0, 1].\<close>

definition rust_math_ok :: "rust_math \<Rightarrow> bool" where
  "rust_math_ok M \<longleftrightarrow> (\<forall>x. x \<noteq> NaN \<longrightarrow> \<not> fless (Fin 0) x \<longrightarrow> within64 0 64 (rm_exp M x))"

lemma f64_div_finite:
  "is_finite x \<Longrightarrow> is_finite y \<Longrightarrow> fval y \<noteq> 0 \<Longrightarrow> \<bar>rnd (fval x / fval y)\<bar> < 2 ^ 1024 \<Longrightarrow>
   is_finite (f64_div x y) \<and> fval (f64_div x y) = rnd (fval x / fval y)"
  by (auto simp: f64_div_def fdiv_def Let_def to_float_of_finite)

lemma to_float_le_0: "q \<le> 0 \<Longrightarrow> to_float b q \<noteq> NaN \<and> \<not> fless (Fin 0) (to_float b q)"
proof -
  assume "q \<le> 0"
  then have "rnd q \<le> 0" using rnd_nonneg [of "- q"] by simp
  then show ?thesis by (simp add: to_float_def Let_def zero_of_def inf_of_def fless_def)
qed

lemma square_nonpos:
  assumes "x \<noteq> NaN"
  shows "fmul (fmul (Fin (- 1 / 2)) (fabs x)) (fabs x) \<noteq> NaN \<and> \<not> fless (Fin 0) (fmul (fmul (Fin (- 1 / 2)) (fabs x)) (fabs x))"
proof -
  have finite: "fmul (fmul (Fin (- 1 / 2)) (Fin r)) (Fin r) \<noteq> NaN \<and> \<not> fless (Fin 0) (fmul (fmul (Fin (- 1 / 2)) (Fin r)) (Fin r))"
    if r: "0 \<le> r" for r
  proof -
    have q: "rnd (- r / 2) \<le> 0" using rnd_nonneg [of "r / 2"] r by simp
    have a: "fmul (Fin (- 1 / 2)) (Fin r) = to_float (\<not> r < 0) (- r / 2)" by (simp add: fmul_def)
    show ?thesis
    proof (cases "2 ^ 1024 \<le> \<bar>rnd (- r / 2)\<bar>")
      case True
      with q have "fmul (Fin (- 1 / 2)) (Fin r) = NegInf" "r \<noteq> 0" unfolding a to_float_def by (auto simp: Let_def inf_of_def)
      with r show ?thesis by (simp add: fmul_def inf_of_def fless_def)
    next
      case False
      let ?a = "fmul (Fin (- 1 / 2)) (Fin r)"
      from False have f: "is_finite ?a" "fval ?a = rnd (- r / 2)"
        unfolding a using to_float_of_finite [of "- r / 2" "\<not> r < 0"] by (simp_all only: not_le)
      then have "fmul ?a (Fin r) = to_float (fsign ?a \<noteq> (r < 0)) (rnd (- r / 2) * r)"
        unfolding fmul_def [of ?a] by (simp add: Let_def is_finite_not_NaN)
      moreover have "rnd (- r / 2) * r \<le> 0" using q r by (rule mult_nonpos_nonneg)
      ultimately show ?thesis using to_float_le_0 by simp
    qed
  qed
  have inf: "fmul (fmul (Fin (- 1 / 2)) PosInf) PosInf = NegInf" "\<not> fless (Fin 0) NegInf"
    by (simp_all add: fmul_def inf_of_def fless_def)
  show ?thesis
  proof (cases x)
    case (Fin r)
    show ?thesis unfolding Fin fabs.simps by (rule finite [OF abs_ge_zero])
  next
    case NegZero
    show ?thesis unfolding NegZero fabs.simps by (rule finite [OF order_refl])
  qed (use assms inf in \<open>simp_all only: fabs.simps, simp_all\<close>)
qed

lemma rust_norm_pdf_bounds:
  assumes "rust_math_ok M" "x \<noteq> NaN"
  shows "within64 0 26 (rust_norm_pdf M (fabs x))"
proof -
  let ?e = "rm_exp M (fmul (fmul (Fin (- 1 / 2)) (fabs x)) (fabs x))"
  have e: "within64 0 64 ?e" using assms square_nonpos [OF assms(2)] by (auto simp: rust_math_ok_def)
  have s: "5 / 2 \<le> fval SQRT_2PI" "is_finite SQRT_2PI" using cdf_constants(7) by (simp_all add: within64_def)
  have "fval ?e / fval SQRT_2PI \<le> 1 / (5 / 2)" using e s by (intro frac_le) (simp_all add: within64_def)
  moreover have "0 \<le> fval ?e / fval SQRT_2PI" using e s by (intro divide_nonneg_nonneg) (simp_all add: within64_def)
  ultimately have "of_int 0 / 64 \<le> fval ?e / fval SQRT_2PI" "fval ?e / fval SQRT_2PI \<le> of_int 26 / 64" by simp_all
  note r = rnd_within64 [OF this]
  have "is_finite (f64_div ?e SQRT_2PI) \<and> fval (f64_div ?e SQRT_2PI) = rnd (fval ?e / fval SQRT_2PI)"
    using e s r by (intro f64_div_finite) (auto simp: within64_def)
  with r show ?thesis by (simp add: rust_norm_pdf_def within64_def)
qed

lemma fsign_pos: "is_finite x \<Longrightarrow> 0 < fval x \<Longrightarrow> \<not> fsign x"
  by (cases x) auto

lemma cdf_t_bounds:
  assumes "x \<noteq> NaN" "wf_float x"
  shows "within64 0 64 (f64_div (Fin 1) (fadd (Fin 1) (fmul CDF_P (fabs x))))"
proof -
  have P: "is_finite CDF_P" "0 < fval CDF_P" "fval CDF_P \<le> 1 / 4" using cdf_constants(1) by (simp_all add: within64_def)
  show ?thesis
  proof (cases "is_finite x")
    case False
    with assms have "fabs x = PosInf" by (cases x) auto
    moreover have "\<not> fsign CDF_P" by (rule fsign_pos [OF P(1,2)])
    then have "fmul CDF_P PosInf = PosInf" using P by (auto simp: fmul_def inf_of_def)
    ultimately show ?thesis by (simp add: fadd_def f64_div_def fdiv_def zero_of_def within64_def)
  next
    case True
    let ?y = "fabs x"
    have y: "is_finite ?y" "0 \<le> fval ?y" "fval ?y < 2 ^ 1024"
      using True assms(2) by (cases x; simp)+
    have "0 \<le> fval CDF_P * fval ?y" using P y by (intro mult_nonneg_nonneg) simp_all
    moreover have "fval CDF_P * fval ?y \<le> 1 / 4 * 2 ^ 1024" using P y by (intro mult_mono) simp_all
    moreover have "1 / 4 * 2 ^ 1024 = pow2 1022" "pow2 1022 < 2 ^ 1024" by (simp_all add: pow2_eval)
    ultimately have b: "\<bar>fval CDF_P * fval ?y\<bar> \<le> pow2 1022" "0 \<le> fval CDF_P * fval ?y" by linarith+
    from rnd_bound [OF b(1)] have z: "\<bar>rnd (fval CDF_P * fval ?y)\<bar> \<le> pow2 1022" by (simp add: rnd_pow2)
    let ?z = "fmul CDF_P ?y"
    have f: "is_finite ?z \<and> fval ?z = rnd (fval CDF_P * fval ?y)"
      using z \<open>pow2 1022 < 2 ^ 1024\<close> by (intro fmul_finite P(1) y(1)) linarith
    with rnd_nonneg [OF b(2)] z have w: "1 \<le> 1 + fval ?z" "\<bar>1 + fval ?z\<bar> \<le> 2 ^ 1023" by (simp_all add: pow2_eval)
    have "rnd 1 = 1" using rnd_of_int [of 1] by simp
    with rnd_mono [OF w(1)] have g: "1 \<le> rnd (1 + fval ?z)" by simp
    have s: "is_finite (fadd (Fin 1) ?z) \<and> fval (fadd (Fin 1) ?z) = rnd (1 + fval ?z)"
      using fadd_finite [of "Fin 1" ?z] f rnd_bound_lt_max [OF w(2)] by simp
    then have "of_int 0 / 64 \<le> 1 / fval (fadd (Fin 1) ?z)" "1 / fval (fadd (Fin 1) ?z) \<le> of_int 64 / 64"
      using g by (simp_all add: divide_le_eq)
    note r = rnd_within64 [OF this]
    show ?thesis using f64_div_finite [of "Fin 1" "fadd (Fin 1) ?z"] s g r by (simp add: within64_def)
  qed
qed

definition cdf_abs :: "rust_math \<Rightarrow> pyfloat \<Rightarrow> pyfloat" where
  "cdf_abs M x = fsub (Fin 1) (fmul (rust_norm_pdf M (fabs x)) (cdf_poly (f64_div (Fin 1) (fadd (Fin 1) (fmul CDF_P (fabs x))))))"

lemma rust_norm_cdf_abs:
  "rust_norm_cdf M x = fadd (Fin (1 / 2)) (fmul (if fless x (Fin 0) then Fin (- 1) else Fin 1) (fsub (cdf_abs M x) (Fin (1 / 2))))"
  by (simp add: rust_norm_cdf_def cdf_abs_def Let_def)

lemma cdf_abs_bounds:
  assumes "rust_math_ok M" "x \<noteq> NaN" "wf_float x"
  shows "within64 17 67 (cdf_abs M x)" "rnd (fval (cdf_abs M x)) = fval (cdf_abs M x)"
proof -
  let ?t = "f64_div (Fin 1) (fadd (Fin 1) (fmul CDF_P (fabs x)))"
  have "within64 (- 3) 47 (fmul (rust_norm_pdf M (fabs x)) (cdf_poly ?t))"
    by (rule within64_mul [OF rust_norm_pdf_bounds [OF assms(1,2)] cdf_poly_bounds [OF cdf_t_bounds [OF assms(2,3)]]]) simp_all
  moreover have "within64 64 64 (Fin 1)" by (simp add: within64_def)
  ultimately show b: "within64 17 67 (cdf_abs M x)" unfolding cdf_abs_def using within64_fsub by fastforce
  have "wf_float (Fin 1)" using exact_of_int [of 1] by (simp add: exact_def)
  then have "wf_float (cdf_abs M x)" unfolding cdf_abs_def by (intro wf_fsub wf_fmul) simp_all
  with b show "rnd (fval (cdf_abs M x)) = fval (cdf_abs M x)" by (cases "cdf_abs M x") (simp_all add: within64_def)
qed

lemma pow2_half: "pow2 (- 1) = 1 / 2"
  using pow2_eval(4) [of num.One] by simp

text \<open>A number from 1/4 on is a multiple of 2 to the minus 54, from 1/2 on of 2 to the minus 53.\<close>

lemma rnd_grid:
  assumes "rnd c = c" "pow2 k \<le> c" "- 1022 \<le> k"
  shows "\<exists>n. c = of_int n * pow2 (k - 52)"
proof -
  obtain m where m: "rnd c = of_int m * pow2 (ulp_exp c)" by (rule rnd_form)
  have "0 < c" using assms(2) pow2_pos [of k] by linarith
  then have "k \<le> ilog2 c" using assms(2) ilog2_spec(2) [of c] pow2_less_iff [of k "ilog2 c + 1"] by linarith
  then have "k - 52 \<le> ulp_exp c" using \<open>0 < c\<close> by (simp add: ulp_exp_def)
  then have "pow2 (ulp_exp c) = of_int (2 ^ nat (ulp_exp c - (k - 52))) * pow2 (k - 52)"
    using pow2_nat [of "ulp_exp c - (k - 52)"] pow2_add [of "ulp_exp c - (k - 52)" "k - 52"] by simp
  with m assms(1) have "c = of_int (m * 2 ^ nat (ulp_exp c - (k - 52))) * pow2 (k - 52)" by simp
  then show ?thesis by blast
qed

lemma cdf_halves:
  assumes c: "rnd c = c" "17 / 64 \<le> c" "c \<le> 67 / 64"
  shows "rnd (c - 1 / 2) = c - 1 / 2" "\<bar>rnd (1 - c) - (1 - c)\<bar> \<le> pow2 (- 54)" "\<bar>rnd (1 - c)\<bar> \<le> 3 / 4"
proof -
  have grid: "rnd x = x" if "x = of_int n * pow2 e" "\<bar>x\<bar> \<le> pow2 (e + 53)" "- 1074 \<le> e" for x n e
  proof (rule rnd_exact [OF that(1) _ that(3)])
    from that(1,2) have "\<bar>of_int n\<bar> * pow2 e \<le> pow2 53 * pow2 e" by (simp add: abs_mult pow2_add mult.commute)
    then have "\<bar>of_int n :: rat\<bar> \<le> of_int (2 ^ 53)" by (simp add: pow2_eval)
    then show "\<bar>n\<bar> \<le> 2 ^ 53" by (simp only: of_int_abs [symmetric] of_int_le_iff)
  qed
  have half: "1 / 2 = of_int (2 ^ 53) * pow2 (- 54)" "1 / 2 = of_int (2 ^ 52) * pow2 (- 53)" "1 = of_int (2 ^ 53) * pow2 (- 53)"
    by (simp_all add: pow2_eval)
  show "rnd (c - 1 / 2) = c - 1 / 2"
  proof (cases "1 / 2 \<le> c")
    case True
    then obtain n where n: "c = of_int n * pow2 (- 53)" using rnd_grid [OF c(1), of "- 1"] by (auto simp: pow2_eval pow2_half)
    have "c - 1 / 2 = of_int (n - 2 ^ 52) * pow2 (- 53)" unfolding half(2) n by (simp add: left_diff_distrib)
    then show ?thesis by (rule grid) (use True c in \<open>simp_all add: pow2_eval\<close>)
  next
    case False
    obtain n where n: "c = of_int n * pow2 (- 54)" using rnd_grid [OF c(1), of "- 2"] c(2) by (auto simp: pow2_eval)
    have "c - 1 / 2 = of_int (n - 2 ^ 53) * pow2 (- 54)" unfolding half(1) n by (simp add: left_diff_distrib)
    then show ?thesis by (rule grid) (use False c in \<open>simp_all add: pow2_eval pow2_half abs_if\<close>)
  qed
  show "\<bar>rnd (1 - c) - (1 - c)\<bar> \<le> pow2 (- 54)"
  proof (cases "1 / 2 \<le> c")
    case True
    then obtain n where n: "c = of_int n * pow2 (- 53)" using rnd_grid [OF c(1), of "- 1"] by (auto simp: pow2_eval pow2_half)
    have "1 - c = of_int (2 ^ 53 - n) * pow2 (- 53)" unfolding half(3) n by (simp add: left_diff_distrib)
    then have "rnd (1 - c) = 1 - c" by (rule grid) (use True c in \<open>simp_all add: pow2_eval abs_if\<close>)
    then show ?thesis by simp
  next
    case False
    have "ulp_exp (1 - c) \<le> - 53" by (rule ulp_exp_le) (use False c in \<open>simp_all add: pow2_eval\<close>)
    then have "pow2 (ulp_exp (1 - c)) / 2 \<le> pow2 (- 53) / 2" by simp
    moreover have "pow2 (- 53) / 2 = pow2 (- 54)" by (simp add: pow2_eval)
    moreover have "1 - c \<noteq> 0" using False c by simp
    ultimately show ?thesis using rnd_error [of "1 - c"] by linarith
  qed
  have "\<bar>1 - c\<bar> \<le> 3 / 4" using c by (simp add: abs_if)
  moreover have "rnd (3 / 4) = 3 / 4" using rnd_64th [of 48] by simp
  ultimately show "\<bar>rnd (1 - c)\<bar> \<le> 3 / 4" by (rule rnd_bound)
qed

text \<open>The two values of the CDF add up to one but for one rounding.\<close>

lemma sign_mult: "is_finite y \<Longrightarrow> rnd (fval y) = fval y \<Longrightarrow> \<bar>fval y\<bar> \<le> 1 \<Longrightarrow> s = 1 \<or> s = - 1 \<Longrightarrow>
   is_finite (fmul (Fin s) y) \<and> fval (fmul (Fin s) y) = s * fval y"
  using fmul_finite [of "Fin s" y] by auto

lemma rust_norm_cdf_value:
  assumes "rust_math_ok M" "x \<noteq> NaN" "wf_float x"
  shows "is_finite (rust_norm_cdf M x)"
    "fval (rust_norm_cdf M x) = (if fless x (Fin 0) then rnd (1 - fval (cdf_abs M x)) else fval (cdf_abs M x))"
proof -
  let ?c = "fval (cdf_abs M x)" and ?s = "if fless x (Fin 0) then - 1 else 1 :: rat"
  note b = cdf_abs_bounds [OF assms]
  then have c: "is_finite (cdf_abs M x)" "rnd ?c = ?c" "17 / 64 \<le> ?c" "?c \<le> 67 / 64" by (simp_all add: within64_def)
  note h = cdf_halves [OF c(2-4)]
  have d: "\<bar>?c - 1 / 2\<bar> \<le> 1" using c(3,4) by (simp add: abs_if)
  have "is_finite (fsub (cdf_abs M x) (Fin (1 / 2))) \<and> fval (fsub (cdf_abs M x) (Fin (1 / 2))) = ?c - 1 / 2"
    using fsub_finite [OF c(1), of "Fin (1 / 2)"] h(1) d by simp
  with h(1) d have m: "is_finite (fmul (Fin ?s) (fsub (cdf_abs M x) (Fin (1 / 2))))"
    "fval (fmul (Fin ?s) (fsub (cdf_abs M x) (Fin (1 / 2)))) = ?s * (?c - 1 / 2)"
    using sign_mult [of "fsub (cdf_abs M x) (Fin (1 / 2))" ?s] by auto
  have "(if fless x (Fin 0) then Fin (- 1) else Fin 1) = Fin ?s" by simp
  then have r: "rust_norm_cdf M x = fadd (Fin (1 / 2)) (fmul (Fin ?s) (fsub (cdf_abs M x) (Fin (1 / 2))))"
    unfolding rust_norm_cdf_abs by (simp only:)
  have v: "1 / 2 + ?s * (?c - 1 / 2) = (if fless x (Fin 0) then 1 - ?c else ?c)" by simp
  have "\<bar>rnd (if fless x (Fin 0) then 1 - ?c else ?c)\<bar> \<le> 2" using h(3) c(2-4) by auto
  then have "\<bar>rnd (1 / 2 + ?s * (?c - 1 / 2))\<bar> < 2 ^ 1024" unfolding v by (rule le_less_trans) simp
  from fadd_finite [of "Fin (1 / 2)", OF _ m(1)] this
  have "is_finite (rust_norm_cdf M x) \<and> fval (rust_norm_cdf M x) = rnd (1 / 2 + ?s * (?c - 1 / 2))"
    unfolding r using m(2) by simp
  then show "is_finite (rust_norm_cdf M x)"
    "fval (rust_norm_cdf M x) = (if fless x (Fin 0) then rnd (1 - fval (cdf_abs M x)) else fval (cdf_abs M x))"
    unfolding v using c(2) by simp_all
qed

lemma rust_norm_cdf_reflect:
  assumes "rust_math_ok M" "x \<noteq> NaN" "wf_float x"
  shows "is_finite (rust_norm_cdf M x)" "\<bar>fval (rust_norm_cdf M x)\<bar> \<le> 5 / 4"
    "\<not> feq x (Fin 0) \<Longrightarrow> \<bar>fval (rust_norm_cdf M x) + fval (rust_norm_cdf M (fneg x)) - 1\<bar> \<le> pow2 (- 54)"
proof -
  have "within64 17 67 (cdf_abs M x)" "rnd (fval (cdf_abs M x)) = fval (cdf_abs M x)" using cdf_abs_bounds [OF assms] by blast+
  then have c: "rnd (fval (cdf_abs M x)) = fval (cdf_abs M x)" "17 / 64 \<le> fval (cdf_abs M x)" "fval (cdf_abs M x) \<le> 67 / 64"
    by (simp_all add: within64_def)
  note h = cdf_halves [OF c]
  note v = rust_norm_cdf_value [OF assms]
  show "is_finite (rust_norm_cdf M x)" by (rule v(1))
  show "\<bar>fval (rust_norm_cdf M x)\<bar> \<le> 5 / 4" unfolding v(2) using h(3) c by auto
  assume "\<not> feq x (Fin 0)"
  then have s: "fless (fneg x) (Fin 0) \<longleftrightarrow> \<not> fless x (Fin 0)" using assms(2) by (cases x) (auto simp: fless_def feq_def)
  have "fabs (fneg x) = fabs x" by (cases x) auto
  then have a: "cdf_abs M (fneg x) = cdf_abs M x" by (simp add: cdf_abs_def)
  have "fneg x \<noteq> NaN" "wf_float (fneg x)" using assms wf_fneg by auto
  from rust_norm_cdf_value(2) [OF assms(1) this] s
  have "fval (rust_norm_cdf M x) + fval (rust_norm_cdf M (fneg x)) = fval (cdf_abs M x) + rnd (1 - fval (cdf_abs M x))"
    unfolding v(2) a by auto
  then show "\<bar>fval (rust_norm_cdf M x) + fval (rust_norm_cdf M (fneg x)) - 1\<bar> \<le> pow2 (- 54)" using h(2) by simp
qed

subsection \<open>Calls and puts\<close>

definition option_d1 :: "rust_math \<Rightarrow> OptionParams \<Rightarrow> pyfloat" where
  "option_d1 M p =
     f64_div (fadd (rm_ln M (f64_div (op_spot p) (op_strike p)))
       (fmul (fadd (op_rate p) (fmul (fmul (Fin (1 / 2)) (op_vol p)) (op_vol p))) (op_time_to_expiry p)))
       (fmul (op_vol p) (f64_sqrt (op_time_to_expiry p)))"

definition option_d2 :: "rust_math \<Rightarrow> OptionParams \<Rightarrow> pyfloat" where
  "option_d2 M p = fsub (option_d1 M p) (fmul (op_vol p) (f64_sqrt (op_time_to_expiry p)))"

definition discounted_strike :: "rust_math \<Rightarrow> OptionParams \<Rightarrow> pyfloat" where
  "discounted_strike M p = fmul (op_strike p) (rm_exp M (fmul (fneg (op_rate p)) (op_time_to_expiry p)))"

lemma wf_d1_d2: "wf_float (option_d1 M p)" "wf_float (option_d2 M p)"
  by (simp_all add: option_d1_def option_d2_def wf_fsub)

lemma fmul_unit_left: "wf_float x \<Longrightarrow> fmul (Fin 1) x = x" "wf_float x \<Longrightarrow> fmul (Fin (- 1)) x = fneg x"
  by (cases x; auto simp: fmul_def to_float_def Let_def zero_of_def inf_of_def)+

lemma wf_rust_norm_cdf: "wf_float (rust_norm_cdf M x)"
proof -
  have "wf_float (Fin (1 / 2))" using rnd_64th [of 32] by simp
  then show ?thesis unfolding rust_norm_cdf_def Let_def by (rule wf_fadd) simp
qed

lemma price_scalar_call:
  "op_is_call p \<Longrightarrow> gr_price (price_scalar M p) =
     fsub (fmul (op_spot p) (rust_norm_cdf M (option_d1 M p))) (fmul (discounted_strike M p) (rust_norm_cdf M (option_d2 M p)))"
  "op_is_call p \<Longrightarrow> gr_delta (price_scalar M p) = rust_norm_cdf M (option_d1 M p)"
  by (simp_all add: price_scalar_def Let_def fmul_unit_left wf_fsub wf_fadd wf_fmul option_d1_def [symmetric]
    option_d2_def [symmetric] discounted_strike_def wf_d1_d2 wf_rust_norm_cdf)

lemma price_scalar_put:
  "\<not> op_is_call p \<Longrightarrow> gr_price (price_scalar M p) =
     fneg (fsub (fmul (op_spot p) (rust_norm_cdf M (fneg (option_d1 M p))))
       (fmul (discounted_strike M p) (rust_norm_cdf M (fneg (option_d2 M p)))))"
  "\<not> op_is_call p \<Longrightarrow> gr_delta (price_scalar M p) = fneg (rust_norm_cdf M (fneg (option_d1 M p)))"
  by (simp_all add: price_scalar_def Let_def fmul_unit_left wf_fsub wf_fadd wf_fmul option_d1_def [symmetric]
    option_d2_def [symmetric] discounted_strike_def wf_d1_d2 wf_rust_norm_cdf)

text \<open>The spread of one side: two products and their difference, five roundings.\<close>

lemma spread_error:
  assumes S: "is_finite S" "0 \<le> fval S" "fval S \<le> 2 ^ 1001" and K: "is_finite K" "0 \<le> fval K" "fval K \<le> 2 ^ 1001"
    and n: "is_finite n1" "\<bar>fval n1\<bar> \<le> 5 / 4" "is_finite n2" "\<bar>fval n2\<bar> \<le> 5 / 4"
  shows "is_finite (fsub (fmul S n1) (fmul K n2)) \<and>
    \<bar>fval (fsub (fmul S n1) (fmul K n2)) - (fval S * fval n1 - fval K * fval n2)\<bar> \<le>
      3 * unit_roundoff * (fval S + fval K) + 4 * half_tiny"
proof -
  let ?a = "fval S * fval n1" and ?b = "fval K * fval n2" and ?u = unit_roundoff
  have u: "0 \<le> ?u" "?u \<le> 1 / 1000" "0 \<le> half_tiny" "half_tiny \<le> 1"
    by (simp_all add: unit_roundoff_def half_tiny_def pow2_eval)
  have big: "5 / 4 * 2 ^ 1001 \<le> (2 ^ 1002 :: rat)" "3 * 2 ^ 1002 + 3 \<le> (2 ^ 1010 :: rat)" "2 ^ 1002 \<le> (2 ^ 1010 :: rat)" by simp_all
  have ab: "\<bar>?a\<bar> \<le> 5 / 4 * fval S" "\<bar>?b\<bar> \<le> 5 / 4 * fval K"
    using mult_left_mono [OF n(2) S(2)] mult_left_mono [OF n(4) K(2)] S(2) K(2) by (simp_all add: abs_mult mult.commute)
  have l: "\<bar>?a\<bar> \<le> 2 ^ 1002" "\<bar>?b\<bar> \<le> 2 ^ 1002" using ab S(3) K(3) big(1) by linarith+
  then have l': "\<bar>?a\<bar> \<le> 2 ^ 1010" "\<bar>?b\<bar> \<le> 2 ^ 1010" using big(3) by linarith+
  note A = fmul_error [OF S(1) n(1) l'(1)] and B = fmul_error [OF K(1) n(3) l'(2)]
  let ?A = "fval (fmul S n1)" and ?B = "fval (fmul K n2)"
  have ua: "?u * \<bar>?a\<bar> \<le> 5 / 4 * (?u * fval S)" "?u * \<bar>?b\<bar> \<le> 5 / 4 * (?u * fval K)"
    using mult_left_mono [OF ab(1) u(1)] mult_left_mono [OF ab(2) u(1)] by simp_all
  have us: "?u * fval S \<le> fval S / 1000" "?u * fval K \<le> fval K / 1000" "0 \<le> ?u * fval S" "0 \<le> ?u * fval K"
    using mult_right_mono [OF u(2) S(2)] mult_right_mono [OF u(2) K(2)] u(1) S(2) K(2) by simp_all
  have A4: "\<bar>?A - ?a\<bar> \<le> 5 / 4 * (?u * fval S) + half_tiny" and B4: "\<bar>?B - ?b\<bar> \<le> 5 / 4 * (?u * fval K) + half_tiny"
    by (rule order_trans [OF A(2)], use ua(1) in simp) (rule order_trans [OF B(2)], use ua(2) in simp)
  have "\<bar>?A\<bar> \<le> 13 / 10 * fval S + half_tiny" using A4 ab(1) us(1) S(2) by linarith
  moreover have "\<bar>?B\<bar> \<le> 13 / 10 * fval K + half_tiny" using B4 ab(2) us(2) K(2) by linarith
  ultimately have d: "\<bar>?A - ?B\<bar> \<le> 13 / 10 * fval S + 13 / 10 * fval K + 2 * half_tiny" by linarith
  then have "\<bar>?A - ?B\<bar> \<le> 2 ^ 1010"
  proof -
    have "13 / 10 * fval S + 13 / 10 * fval K + 2 * half_tiny \<le> 3 * 2 ^ 1001 + 2"
      using S(3) K(3) u(4) zero_le_power [of "2 :: rat" 1001] by linarith
    also have "\<dots> \<le> (2 ^ 1010 :: rat)" by simp
    finally show ?thesis using d by linarith
  qed
  note D = fsub_error [OF A(1) B(1) this]
  have "?u * \<bar>?A - ?B\<bar> \<le> ?u * (13 / 10 * fval S + 13 / 10 * fval K + 2 * half_tiny)" by (rule mult_left_mono [OF d u(1)])
  also have "\<dots> = 13 / 10 * (?u * fval S) + 13 / 10 * (?u * fval K) + 2 * (?u * half_tiny)" by (simp add: algebra_simps)
  also have "?u * half_tiny \<le> half_tiny / 1000" using mult_right_mono [OF u(2,3)] by simp
  finally have "?u * \<bar>?A - ?B\<bar> \<le> 13 / 10 * (?u * fval S) + 13 / 10 * (?u * fval K) + half_tiny / 500" by simp
  with D(2) have "\<bar>fval (fsub (fmul S n1) (fmul K n2)) - (?A - ?B)\<bar> \<le>
      13 / 10 * (?u * fval S) + 13 / 10 * (?u * fval K) + half_tiny / 500 + half_tiny" by (meson add_right_mono order_trans)
  then have "\<bar>fval (fsub (fmul S n1) (fmul K n2)) - (?a - ?b)\<bar> \<le> 3 * (?u * fval S) + 3 * (?u * fval K) + 4 * half_tiny"
    using A4 B4 us(3,4) u(3) by linarith
  then show ?thesis using D(1) by (simp add: algebra_simps)
qed

lemma discounted_strike_bounds:
  assumes "rust_math_ok M" "pos_float (op_strike p)" "is_finite (op_rate p)" "0 \<le> fval (op_rate p)"
    "is_finite (op_time_to_expiry p)" "0 \<le> fval (op_time_to_expiry p)"
  shows "is_finite (discounted_strike M p)" "0 \<le> fval (discounted_strike M p)"
    "fval (discounted_strike M p) \<le> fval (op_strike p)"
proof -
  have "fmul (fneg (op_rate p)) (op_time_to_expiry p) \<noteq> NaN \<and> \<not> fless (Fin 0) (fmul (fneg (op_rate p)) (op_time_to_expiry p))"
    by (rule fmul_nonpos [OF assms(3-6)])
  then have "unit_range (rm_exp M (fmul (fneg (op_rate p)) (op_time_to_expiry p)))"
    using assms(1) by (simp add: rust_math_ok_def within64_def unit_range_def)
  then show "is_finite (discounted_strike M p)" "0 \<le> fval (discounted_strike M p)"
    "fval (discounted_strike M p) \<le> fval (op_strike p)"
    using fmul_unit_range [of "op_strike p"] assms(2) by (simp_all add: discounted_strike_def pos_float_def)
qed

text \<open>Both spreads together: what the two distributions lack to one is multiplied by the spot and the
  strike.\<close>

lemma spreads_parity:
  assumes S: "is_finite S" "1 / 4 \<le> fval S" "fval S \<le> 2 ^ 1001" and K: "is_finite K" "0 \<le> fval K" "fval K \<le> 2 ^ 1001"
    and n: "is_finite n1" "\<bar>fval n1\<bar> \<le> 5 / 4" "is_finite n2" "\<bar>fval n2\<bar> \<le> 5 / 4"
    and m: "is_finite m1" "\<bar>fval m1\<bar> \<le> 5 / 4" "is_finite m2" "\<bar>fval m2\<bar> \<le> 5 / 4"
    and s: "\<bar>fval n1 + fval m1 - 1\<bar> \<le> unit_roundoff / 2" "\<bar>fval n2 + fval m2 - 1\<bar> \<le> unit_roundoff / 2"
  shows "is_finite (fsub (fmul S n1) (fmul K n2))" "is_finite (fsub (fmul S m1) (fmul K m2))"
    "\<bar>fval (fsub (fmul S n1) (fmul K n2)) + fval (fsub (fmul S m1) (fmul K m2)) - (fval S - fval K)\<bar> \<le>
      (fval S + fval K) / 2 ^ 50"
proof -
  have S0: "0 \<le> fval S" using S(2) by linarith
  note c = spread_error [OF S(1) S0 S(3) K n] and q = spread_error [OF S(1) S0 S(3) K m]
  show "is_finite (fsub (fmul S n1) (fmul K n2))" "is_finite (fsub (fmul S m1) (fmul K m2))" using c q by simp_all
  have e: "\<bar>fval S * (fval n1 + fval m1 - 1)\<bar> \<le> unit_roundoff * fval S / 2"
    "\<bar>fval K * (fval n2 + fval m2 - 1)\<bar> \<le> unit_roundoff * fval K / 2"
    using mult_left_mono [OF s(1) S0] mult_left_mono [OF s(2) K(2)] S0 K(2) by (simp_all add: abs_mult mult.commute)
  have "0 \<le> unit_roundoff * fval K" "unit_roundoff / 4 \<le> unit_roundoff * fval S" "8 * half_tiny \<le> unit_roundoff / 4"
    using K(2) mult_left_mono [OF S(2), of unit_roundoff] by (simp_all add: unit_roundoff_def half_tiny_def pow2_eval)
  moreover have "fval S * (fval n1 + fval m1 - 1) - fval K * (fval n2 + fval m2 - 1) =
      (fval S * fval n1 - fval K * fval n2) + (fval S * fval m1 - fval K * fval m2) - (fval S - fval K)"
    by (simp add: algebra_simps)
  ultimately have "\<bar>fval (fsub (fmul S n1) (fmul K n2)) + fval (fsub (fmul S m1) (fmul K m2)) - (fval S - fval K)\<bar> \<le>
      8 * (unit_roundoff * fval S + unit_roundoff * fval K)"
    using c q e unfolding distrib_left by linarith
  also have "\<dots> = (fval S + fval K) / 2 ^ 50" by (simp add: unit_roundoff_def pow2_eval field_simps)
  finally show "\<bar>fval (fsub (fmul S n1) (fmul K n2)) + fval (fsub (fmul S m1) (fmul K m2)) - (fval S - fval K)\<bar> \<le>
      (fval S + fval K) / 2 ^ 50" .
qed

section \<open>Properties\<close>

text \<open>C21: Put-call parity of the prices the Rust pricer computes, every rounding included: for a
  positive spot and strike, a rate and an expiry that are not negative, and any volatility for
  which d1 and d2 are neither NaN nor zero, call minus put is the spot minus the discounted strike
  but for 2 to the minus 50 of their sum; the deltas differ by one but for 2 to the minus 54; gamma
  and vega are the same.\<close>

theorem put_call_parity:
  assumes "rust_math_ok M" "pos_float (op_spot p)" "pos_float (op_strike p)"
    "1 / 4 \<le> fval (op_spot p)" "fval (op_spot p) \<le> 2 ^ 1000" "fval (op_strike p) \<le> 2 ^ 1000"
    "is_finite (op_rate p)" "0 \<le> fval (op_rate p)" "is_finite (op_time_to_expiry p)" "0 \<le> fval (op_time_to_expiry p)"
    "option_d1 M p \<noteq> NaN" "\<not> feq (option_d1 M p) (Fin 0)" "option_d2 M p \<noteq> NaN" "\<not> feq (option_d2 M p) (Fin 0)"
  shows "let call = price_scalar M (p\<lparr>op_is_call := True\<rparr>); put = price_scalar M (p\<lparr>op_is_call := False\<rparr>);
      S = fval (op_spot p); K = fval (discounted_strike M p)
    in is_finite (gr_price call) \<and> is_finite (gr_price put) \<and> 0 \<le> K \<and> K \<le> fval (op_strike p) \<and>
      \<bar>fval (gr_price call) - fval (gr_price put) - (S - K)\<bar> \<le> (S + K) / 2 ^ 50 \<and>
      \<bar>fval (gr_delta call) - fval (gr_delta put) - 1\<bar> \<le> 1 / 2 ^ 54 \<and>
      gr_gamma call = gr_gamma put \<and> gr_vega call = gr_vega put"
proof -
  let ?call = "price_scalar M (p\<lparr>op_is_call := True\<rparr>)" and ?put = "price_scalar M (p\<lparr>op_is_call := False\<rparr>)"
  let ?S = "op_spot p" and ?K = "discounted_strike M p" and ?d1 = "option_d1 M p" and ?d2 = "option_d2 M p"
  have same: "option_d1 M (p\<lparr>op_is_call := b\<rparr>) = ?d1" "option_d2 M (p\<lparr>op_is_call := b\<rparr>) = ?d2"
    "discounted_strike M (p\<lparr>op_is_call := b\<rparr>) = ?K" for b
    by (simp_all add: option_d1_def option_d2_def discounted_strike_def)
  note K = discounted_strike_bounds [OF assms(1,3,7-10)]
  have S: "is_finite ?S" "fval ?S \<le> 2 ^ 1001" and K3: "fval ?K \<le> 2 ^ 1001"
    using assms(2,5,6) K(3) by (simp_all add: pos_float_def)
  note n1 = rust_norm_cdf_reflect [OF assms(1,11) wf_d1_d2(1)] and n2 = rust_norm_cdf_reflect [OF assms(1,13) wf_d1_d2(2)]
  have "fneg ?d1 \<noteq> NaN" "fneg ?d2 \<noteq> NaN" "wf_float (fneg ?d1)" "wf_float (fneg ?d2)"
    using assms(11,13) wf_d1_d2 wf_fneg by auto
  note m1 = rust_norm_cdf_reflect(1,2) [OF assms(1) this(1,3)] and m2 = rust_norm_cdf_reflect(1,2) [OF assms(1) this(2,4)]
  have s: "\<bar>fval (rust_norm_cdf M ?d1) + fval (rust_norm_cdf M (fneg ?d1)) - 1\<bar> \<le> unit_roundoff / 2"
    "\<bar>fval (rust_norm_cdf M ?d2) + fval (rust_norm_cdf M (fneg ?d2)) - 1\<bar> \<le> unit_roundoff / 2"
    using n1(3) [OF assms(12)] n2(3) [OF assms(14)] by (simp_all add: unit_roundoff_def pow2_eval)
  note both = spreads_parity [OF S(1) assms(4) S(2) K(1,2) K3 n1(1,2) n2(1,2) m1 m2 s]
  have price: "gr_price ?call = fsub (fmul ?S (rust_norm_cdf M ?d1)) (fmul ?K (rust_norm_cdf M ?d2))"
    "gr_price ?put = fneg (fsub (fmul ?S (rust_norm_cdf M (fneg ?d1))) (fmul ?K (rust_norm_cdf M (fneg ?d2))))"
    "gr_delta ?call = rust_norm_cdf M ?d1" "gr_delta ?put = fneg (rust_norm_cdf M (fneg ?d1))"
    by (simp_all add: price_scalar_call price_scalar_put same)
  have "\<bar>fval (gr_price ?call) - fval (gr_price ?put) - (fval ?S - fval ?K)\<bar> \<le> (fval ?S + fval ?K) / 2 ^ 50"
    using both(3) unfolding price fval_fneg by simp
  moreover have "\<bar>fval (gr_delta ?call) - fval (gr_delta ?put) - 1\<bar> \<le> 1 / 2 ^ 54"
    using s(1) unfolding price fval_fneg by (simp add: unit_roundoff_def pow2_eval)
  moreover have "gr_gamma ?call = gr_gamma ?put" "gr_vega ?call = gr_vega ?put" by (simp_all add: price_scalar_def Let_def)
  moreover have "is_finite (gr_price ?call)" "is_finite (gr_price ?put)" unfolding price using both(1,2) by simp_all
  ultimately show ?thesis using K(2,3) by (simp add: Let_def)
qed

text \<open>At the money with a volatility and a time of one and no rate: \<open>d1 = 1/2\<close>, \<open>d2 = - 1/2\<close>.  The
  functions are right at the points the prices ask of \<^verbatim>\<open>ln\<close> and of the discount.\<close>

definition unit_math :: rust_math where
  "unit_math = \<lparr>rm_exp = (\<lambda>_. Fin 1), rm_ln = (\<lambda>_. Fin 0)\<rparr>"

lemma f64_sqrt_1: "f64_sqrt (Fin 1) = Fin 1"
proof -
  have "integer_sqrt_of_frac_rto (1 * 2 ^ nat (- 2 * (- 55))) 1 = 2 ^ 55" by code_simp
  then have "float_sqrt_of_frac 1 1 = Inr (Fin 1)"
    using rnd_of_int [of 1] by (simp add: float_sqrt_of_frac_def int_truediv_def Let_def)
  then show ?thesis by (simp add: f64_sqrt_def)
qed

lemma to_float_unit: "to_float b 0 = zero_of b" "to_float b 1 = Fin 1" "to_float b (1 / 2) = Fin (1 / 2)"
    "to_float b (- (1 / 2)) = Fin (- (1 / 2))" "to_float b 100 = Fin 100"
  using exact_of_int [of 1] exact_of_int [of 100] exact_eighth [of 4] exact_eighth [of "- 4"]
  by (simp_all add: to_float_exact to_float_def [of b 0])

theorem put_call_parity_witness:
  "let p = \<lparr>op_spot = Fin 100, op_strike = Fin 100, op_rate = Fin 0, op_vol = Fin 1, op_time_to_expiry = Fin 1, op_is_call = True\<rparr>;
       call = price_scalar unit_math p; put = price_scalar unit_math (p\<lparr>op_is_call := False\<rparr>)
   in \<bar>fval (gr_price call) - fval (gr_price put)\<bar> \<le> 200 / 2 ^ 50 \<and> \<bar>fval (gr_delta call) - fval (gr_delta put) - 1\<bar> \<le> 1 / 2 ^ 54"
proof -
  let ?p = "\<lparr>op_spot = Fin 100, op_strike = Fin 100, op_rate = Fin 0, op_vol = Fin 1, op_time_to_expiry = Fin 1, op_is_call = True\<rparr>"
  have d: "option_d1 unit_math ?p = Fin (1 / 2)"
    by (simp add: option_d1_def unit_math_def f64_sqrt_1 fmul_def fadd_def f64_div_def fdiv_def to_float_unit Let_def)
  then have d2: "option_d2 unit_math ?p = Fin (- (1 / 2))"
    by (simp add: option_d2_def f64_sqrt_1 fmul_def fadd_def fsub_def to_float_unit)
  have "rust_math_ok unit_math" by (simp add: rust_math_ok_def unit_math_def within64_def)
  moreover have "pos_float (Fin 100)" using rnd_of_int [of 100] by (simp add: pos_float_def)
  moreover have "\<not> feq (Fin (1 / 2)) (Fin 0)" "\<not> feq (Fin (- (1 / 2))) (Fin 0)" by (simp_all add: feq_def)
  moreover have "discounted_strike unit_math ?p = Fin 100"
    by (simp add: discounted_strike_def unit_math_def fmul_def to_float_unit)
  ultimately show ?thesis using put_call_parity [of unit_math ?p] d d2 by (simp add: Let_def)
qed

end
