(* ===== verification/ServerProcess.thy ===== *)
theory ServerProcess
  imports Server CommandLine
begin

text \<open>
  The process around the server of \<open>Server\<close>: the rest of \<^verbatim>\<open>engine/src/server.cpp\<close> (its
  \<^verbatim>\<open>send_all\<close> calls and how they end, \<^verbatim>\<open>start_listening\<close>, \<^verbatim>\<open>run\<close> with \<^verbatim>\<open>stop\<close> called from another
  thread, the destructor) and \<^verbatim>\<open>engine/src/server_main.cpp\<close>.  The results of the system calls
  are arguments; \<open>outcomes k\<close> are those of the k-th call of \<^verbatim>\<open>send_all\<close>.
\<close>

section \<open>The messages of a pass\<close>

text \<open>
  The calls of \<^verbatim>\<open>send_all\<close> in their order: what the kernel took of each message, and how the
  last one ended when the process got no further, killed by \<^verbatim>\<open>SIGPIPE\<close> or still trying to send.
\<close>

fun send_messages ::
  "(nat \<Rightarrow> Send_Result list) \<Rightarrow> nat \<Rightarrow> (nat \<times> bytes) list \<Rightarrow> (nat \<times> bytes) list \<times> Send_End option" where
  "send_messages outcomes k [] = ([], None)"
| "send_messages outcomes k ((fd, msg) # msgs) =
     (case send_all msg (outcomes k) of
        (w, e) \<Rightarrow>
          if e = Send_Killed \<or> e = Send_Running then ([(fd, w)], Some e)
          else (case send_messages outcomes (k + 1) msgs of (ws, stuck) \<Rightarrow> ((fd, w) # ws, stuck)))"

section \<open>Starting, running, stopping\<close>

text \<open>\<open>pr_wire\<close> is what the kernel took of each message so far, with the descriptor.\<close>

record Process =
  pr_port :: "16 word"
  pr_listen_fd :: "nat option"
  pr_stopped :: bool
  pr_server :: Server
  pr_wire :: "(nat \<times> bytes) list"

definition process_init :: "16 word \<Rightarrow> Process" where
  "process_init port = \<lparr>pr_port = port, pr_listen_fd = None, pr_stopped = False, pr_server = server_init,
     pr_wire = []\<rparr>"

text \<open>The descriptor of \<^verbatim>\<open>socket\<close> and whether \<^verbatim>\<open>bind\<close> and \<^verbatim>\<open>listen\<close> succeed.\<close>

record Listen_Calls =
  lc_socket :: "nat option"
  lc_bind :: bool
  lc_listen :: bool

datatype Start_Error = Socket_Failed | Bind_Failed | Listen_Failed

definition start_listening :: "Listen_Calls \<Rightarrow> Process \<Rightarrow> Start_Error option \<times> Process" where
  "start_listening calls p =
     (case lc_socket calls of
        None \<Rightarrow> (Some Socket_Failed, p)
      | Some fd \<Rightarrow>
          (let p' = p\<lparr>pr_listen_fd := Some fd\<rparr> in
           if \<not> lc_bind calls then (Some Bind_Failed, p')
           else if \<not> lc_listen calls then (Some Listen_Failed, p')
           else (None, p')))"

definition stop :: "Process \<Rightarrow> Process" where
  "stop p = p\<lparr>pr_stopped := True\<rparr>"

text \<open>
  What one \<^verbatim>\<open>poll\<close> gave: nothing (or an error), or events: what \<^verbatim>\<open>accept\<close> then gives, when the
  listening socket is readable, and the ready connections.
\<close>

datatype Poll_Result = Poll_Nothing | Poll_Events "nat list option" "(nat \<times> Recv_Result) list"

fun run_pass :: "Poll_Result \<Rightarrow> Server \<Rightarrow> Server" where
  "run_pass Poll_Nothing s = s"
| "run_pass (Poll_Events accepted ready) s =
     poll_pass (case accepted of None \<Rightarrow> [] | Some fds \<Rightarrow> fds) ready s"

text \<open>
  \<^verbatim>\<open>run\<close>, one element of the script an iteration: whether another thread called \<^verbatim>\<open>stop\<close> before
  the test, and what \<^verbatim>\<open>poll\<close> then gives.  A pass that a \<^verbatim>\<open>send_all\<close> does not let finish ends the
  run: then \<open>pr_server\<close> is the state at the start of that pass and \<open>pr_wire\<close> what was sent.
\<close>

datatype Run_End = Run_Returned | Run_Going | Run_Killed | Run_Blocked

fun run_loop :: "(nat \<Rightarrow> Send_Result list) \<Rightarrow> (bool \<times> Poll_Result) list \<Rightarrow> Process \<Rightarrow> Run_End \<times> Process" where
  "run_loop outcomes [] p = (Run_Going, p)"
| "run_loop outcomes ((stopping, polled) # rest) p =
     (let p1 = (if stopping then stop p else p) in
      if pr_stopped p1 then (Run_Returned, p1)
      else
        (let s = run_pass polled (pr_server p1);
             new = drop (length (sv_sent (pr_server p1))) (sv_sent s) in
         case send_messages outcomes (length (pr_wire p1)) new of
           (ws, None) \<Rightarrow> run_loop outcomes rest (p1\<lparr>pr_server := s, pr_wire := pr_wire p1 @ ws\<rparr>)
         | (ws, Some e) \<Rightarrow>
             (if e = Send_Killed then Run_Killed else Run_Blocked, p1\<lparr>pr_wire := pr_wire p1 @ ws\<rparr>)))"

definition run ::
  "Listen_Calls \<Rightarrow> (nat \<Rightarrow> Send_Result list) \<Rightarrow> (bool \<times> Poll_Result) list \<Rightarrow> Process \<Rightarrow>
   (Start_Error + Run_End) \<times> Process" where
  "run calls outcomes script p =
     (case start_listening calls p of
        (Some e, p') \<Rightarrow> (Inl e, p')
      | (None, p') \<Rightarrow> (case run_loop outcomes script p' of (r, p'') \<Rightarrow> (Inr r, p'')))"

text \<open>The descriptors the destructor closes.\<close>

definition destroy :: "Process \<Rightarrow> nat list" where
  "destroy p = (case pr_listen_fd p of None \<Rightarrow> [] | Some fd \<Rightarrow> [fd]) @ map cn_fd (sv_connections (pr_server p))"

section \<open>\<^verbatim>\<open>main\<close>\<close>

text \<open>\<^verbatim>\<open>atoi\<close>: whitespace, a sign, digits; undefined beyond \<^verbatim>\<open>int\<close>.\<close>

definition atoi :: "string \<Rightarrow> int option" where
  "atoi s =
     (let t = dropWhile (\<lambda>c. (of_char c :: nat) \<in> {9, 10, 11, 12, 13, 32}) s;
          body = (if t \<noteq> [] \<and> hd t \<in> {CHR ''+'', CHR ''-''} then tl t else t);
          m = int (digits_value (takeWhile is_digit body));
          n = (if t \<noteq> [] \<and> hd t = CHR ''-'' then - m else m)
      in if - (2 ^ 31) \<le> n \<and> n < 2 ^ 31 then Some n else None)"

definition server_port :: "string list \<Rightarrow> 16 word option" where
  "server_port args = (case args of [] \<Rightarrow> Some 9999 | a # _ \<Rightarrow> map_option word_of_int (atoi a))"

text \<open>\<^verbatim>\<open>None\<close> is the undefined port, \<^verbatim>\<open>Inl\<close> the exception that nothing catches; when \<^verbatim>\<open>run\<close>
  returns the server is destroyed.\<close>

definition server_main :: "string list \<Rightarrow> Listen_Calls \<Rightarrow> (nat \<Rightarrow> Send_Result list) \<Rightarrow>
    (bool \<times> Poll_Result) list \<Rightarrow> ((Start_Error + Run_End) \<times> Process \<times> nat list) option" where
  "server_main args calls outcomes script =
     map_option (\<lambda>port.
       case run calls outcomes script (process_init port) of
         (Inr Run_Returned, p) \<Rightarrow> (Inr Run_Returned, p, destroy p)
       | (r, p) \<Rightarrow> (r, p, [])) (server_port args)"

section \<open>Lemmas\<close>

text \<open>
  What the kernel promises of a pass: it accepts connections on descriptors that are not in use,
  and reports descriptors it was asked for, in their order.
\<close>

fun poll_ok :: "Process \<Rightarrow> Poll_Result \<Rightarrow> bool" where
  "poll_ok p Poll_Nothing = True"
| "poll_ok p (Poll_Events accepted ready) =
     (let fds = (case accepted of None \<Rightarrow> [] | Some fds \<Rightarrow> fds) in
      distinct fds \<and> set fds \<inter> set (destroy p) = {} \<and>
      subseq (map fst ready) (open_fds (pr_server p)) \<and> list_all (recv_ok \<circ> snd) ready)"

fun script_ok :: "(bool \<times> Poll_Result) list \<Rightarrow> Process \<Rightarrow> bool" where
  "script_ok [] p = True"
| "script_ok ((stopping, polled) # rest) p =
     (let p1 = (if stopping then stop p else p) in
      pr_stopped p1 \<or> (poll_ok p1 polled \<and> script_ok rest (p1\<lparr>pr_server := run_pass polled (pr_server p1)\<rparr>)))"

definition process_inv :: "Process \<Rightarrow> bool" where
  "process_inv p \<longleftrightarrow> serving (pr_server p) \<and> distinct (destroy p)"

lemma service_open: "set (open_fds (service r s)) \<subseteq> set (open_fds s)"
proof (cases "find_connection (fst r) s")
  case (Some c)
  from handle_readable_cases [OF conjunct1 [OF find_connection_Some [OF Some]], of "snd r" s] show ?thesis
    by (auto simp: service_def Some open_fds_def waiting_def) (metis image_eqI)
qed (simp add: service_def)

lemma poll_pass_open: "set (open_fds (poll_pass accepted ready s)) \<subseteq> set (open_fds s) \<union> set accepted"
proof -
  have "set (open_fds (fold service rs t)) \<subseteq> set (open_fds t)" for rs t
    by (induction rs arbitrary: t) (use service_open in \<open>fastforce+\<close>)
  from this [of ready "accept_new_connections accepted s"] show ?thesis
    by (auto simp: poll_pass_def accept_new_connections_def open_fds_def)
qed

lemma destroy_eq: "destroy p = (case pr_listen_fd p of None \<Rightarrow> [] | Some fd \<Rightarrow> [fd]) @ open_fds (pr_server p)"
  by (simp add: destroy_def open_fds_def)

lemma run_pass_inv:
  assumes "process_inv p" "poll_ok p polled"
  shows "process_inv (p\<lparr>pr_server := run_pass polled (pr_server p)\<rparr>)"
proof (cases polled)
  case (Poll_Events accepted ready)
  define fds where "fds = (case accepted of None \<Rightarrow> [] | Some fds \<Rightarrow> fds)"
  have ok: "distinct fds" "set fds \<inter> set (destroy p) = {}" "subseq (map fst ready) (open_fds (pr_server p))"
    "\<forall>r\<in>set ready. recv_ok (snd r)"
    using assms(2) by (simp_all add: Poll_Events fds_def list_all_iff)
  have s: "serving (poll_pass fds ready (pr_server p))"
    using assms(1) ok by (intro serving.pass) (auto simp: process_inv_def destroy_eq)
  then have "distinct (open_fds (poll_pass fds ready (pr_server p)))" using serving_inv by (auto simp: server_inv_def)
  moreover have "set (open_fds (poll_pass fds ready (pr_server p))) \<subseteq> set (open_fds (pr_server p)) \<union> set fds"
    by (rule poll_pass_open)
  ultimately have "distinct (destroy (p\<lparr>pr_server := poll_pass fds ready (pr_server p)\<rparr>))"
    using assms(1) ok(2) by (auto simp: process_inv_def destroy_eq split: option.splits)
  with s show ?thesis by (simp add: Poll_Events process_inv_def fds_def)
qed (use assms(1) in simp)

lemma stop_simps [simp]:
  "pr_server (stop p) = pr_server p" "pr_stopped (stop p)" "pr_listen_fd (stop p) = pr_listen_fd p"
  "process_inv (stop p) = process_inv p" "destroy (stop p) = destroy p"
  by (simp_all add: stop_def process_inv_def destroy_def)

subsection \<open>Messages in order\<close>

lemma send_messages_append:
  "send_messages outcomes k (xs @ ys) =
     (case send_messages outcomes k xs of
        (ws, Some e) \<Rightarrow> (ws, Some e)
      | (ws, None) \<Rightarrow> (case send_messages outcomes (k + length xs) ys of (vs, stuck) \<Rightarrow> (ws @ vs, stuck)))"
  by (induction outcomes k xs rule: send_messages.induct) (auto split: prod.splits option.splits)

lemma send_messages_length: "send_messages outcomes k xs = (ws, None) \<Longrightarrow> length ws = length xs"
  by (induction outcomes k xs arbitrary: ws rule: send_messages.induct) (auto split: prod.splits if_splits)

lemma send_messages_None:
  "snd (send_messages outcomes k xs) = None \<longleftrightarrow>
   (\<forall>i<length xs. snd (send_all (snd (xs ! i)) (outcomes (k + i))) \<in> {Send_Complete, Send_Dropped})"
proof (induction outcomes k xs rule: send_messages.induct)
  case (2 outcomes k fd msg msgs)
  obtain w e where w: "send_all msg (outcomes k) = (w, e)" by (cases "send_all msg (outcomes k)")
  have "(\<forall>i<Suc n. P i) \<longleftrightarrow> P 0 \<and> (\<forall>i<n. P (Suc i))" for n and P :: "nat \<Rightarrow> bool"
    by (auto simp: less_Suc_eq_0_disj)
  moreover obtain ws stuck where "send_messages outcomes (k + 1) msgs = (ws, stuck)"
    by (cases "send_messages outcomes (k + 1) msgs")
  ultimately show ?case using 2 [OF w [symmetric]] w by (cases e) simp_all
qed simp

text \<open>The requests only add messages.\<close>

lemma service_sent:
  assumes "desk_inv s"
  shows "prefix (sv_sent s) (sv_sent (service r s))"
proof (cases "find_connection (fst r) s")
  case (Some c)
  have "prefix (sv_sent s) (sv_sent (process_buffer fd buf s))" for fd buf
  proof -
    obtain rs rest where p: "parse_requests buf = (rs, rest)" by (cases "parse_requests buf")
    have "\<forall>r\<in>set rs. request_ok r" using parse_requests_ok [of _ buf] by (simp add: p)
    then obtain new where "sv_sent (fold (handle_request fd) rs s) = sv_sent s @ new"
      using requests_answers [OF assms] by blast
    then show ?thesis unfolding process_buffer_parse p
      by (cases rest) (simp_all add: set_read_buf_def update_connection_def remove_connection_def)
  qed
  then show ?thesis using Some by (cases "snd r") (simp_all add: service_def remove_connection_def)
qed (simp add: service_def)

lemma fold_service_sent: "server_inv s \<Longrightarrow> prefix (sv_sent s) (sv_sent (fold service rs s))"
proof (induction rs arbitrary: s)
  case (Cons r rs)
  from Cons.prems have "prefix (sv_sent s) (sv_sent (service r s))" by (simp add: service_sent server_inv_def)
  also from Cons service_inv have "prefix \<dots> (sv_sent (fold service rs (service r s)))" by blast
  finally show ?case by simp
qed simp

lemma run_pass_sent:
  assumes "process_inv p" "poll_ok p polled"
  shows "prefix (sv_sent (pr_server p)) (sv_sent (run_pass polled (pr_server p)))"
proof (cases polled)
  case (Poll_Events accepted ready)
  define fds where "fds = (case accepted of None \<Rightarrow> [] | Some fds \<Rightarrow> fds)"
  have ok: "distinct fds" "set fds \<inter> set (open_fds (pr_server p)) = {}"
    using assms(2) by (auto simp: Poll_Events fds_def destroy_eq)
  have "serving (poll_pass fds [] (pr_server p))"
    by (rule serving.pass) (use assms(1) ok in \<open>simp_all add: process_inv_def\<close>)
  then have "server_inv (accept_new_connections fds (pr_server p))"
    using serving_inv by (simp add: poll_pass_def)
  from fold_service_sent [OF this, of ready] show ?thesis
    by (simp add: Poll_Events poll_pass_def fds_def accept_new_connections_def)
qed simp

subsection \<open>The loop\<close>

lemma process_wire [simp]:
  "process_inv (p\<lparr>pr_wire := ws\<rparr>) = process_inv p" "poll_ok (p\<lparr>pr_wire := ws\<rparr>) polled = poll_ok p polled"
  by (simp_all add: process_inv_def destroy_def) (cases polled; simp add: destroy_def Let_def)

lemma script_wire [simp]: "script_ok script (p\<lparr>pr_wire := ws\<rparr>) = script_ok script p"
proof (induction script arbitrary: p)
  case (Cons x script)
  obtain stopping polled where x: "x = (stopping, polled)" by (cases x)
  have st: "stop (q\<lparr>pr_wire := ws\<rparr>) = (stop q)\<lparr>pr_wire := ws\<rparr>" for q by (simp add: stop_def)
  have "script_ok script (q\<lparr>pr_wire := ws, pr_server := t\<rparr>) = script_ok script (q\<lparr>pr_server := t\<rparr>)" for q t
  proof -
    have "q\<lparr>pr_wire := ws, pr_server := t\<rparr> = q\<lparr>pr_server := t, pr_wire := ws\<rparr>" by simp
    then show ?thesis using Cons [of "q\<lparr>pr_server := t\<rparr>"] by argo
  qed
  then show ?case by (simp add: x st Let_def)
qed simp

abbreviation passes_of :: "(bool \<times> Poll_Result) list \<Rightarrow> Poll_Result list" where
  "passes_of script \<equiv> map snd (takeWhile (\<lambda>x. \<not> fst x) script)"

lemma passes_sent:
  "process_inv p \<Longrightarrow> script_ok script p \<Longrightarrow> \<not> pr_stopped p \<Longrightarrow>
   prefix (sv_sent (pr_server p)) (sv_sent (fold run_pass (passes_of script) (pr_server p)))"
proof (induction script arbitrary: p)
  case (Cons x script)
  obtain stopping polled where x: "x = (stopping, polled)" by (cases x)
  show ?case
  proof (cases stopping)
    case False
    let ?p1 = "p\<lparr>pr_server := run_pass polled (pr_server p)\<rparr>"
    have ok: "poll_ok p polled" "script_ok script ?p1" using Cons.prems x False by simp_all
    have "prefix (sv_sent (pr_server p)) (sv_sent (pr_server ?p1))"
      using run_pass_sent [OF Cons.prems(1) ok(1)] by simp
    also have "prefix \<dots> (sv_sent (fold run_pass (passes_of script) (pr_server ?p1)))"
      by (rule Cons.IH) (use Cons.prems ok run_pass_inv in auto)
    finally show ?thesis by (simp add: x False)
  qed (simp add: x)
qed simp

text \<open>
  What the loop does with the passes before the first test that sees a stop: the messages of
  all of them are sent in order, and the first call that does not end stops the process.
\<close>

definition run_end :: "bool \<Rightarrow> Send_End option \<Rightarrow> Run_End" where
  "run_end stopped stuck =
     (case stuck of
        None \<Rightarrow> if stopped then Run_Returned else Run_Going
      | Some e \<Rightarrow> if e = Send_Killed then Run_Killed else Run_Blocked)"

lemma run_loop_step:
  "\<not> pr_stopped p \<Longrightarrow> run_loop outcomes ((False, polled) # rest) p =
     (let s = run_pass polled (pr_server p) in
      case send_messages outcomes (length (pr_wire p)) (drop (length (sv_sent (pr_server p))) (sv_sent s)) of
        (ws, None) \<Rightarrow> run_loop outcomes rest (p\<lparr>pr_server := s, pr_wire := pr_wire p @ ws\<rparr>)
      | (ws, Some e) \<Rightarrow> (if e = Send_Killed then Run_Killed else Run_Blocked, p\<lparr>pr_wire := pr_wire p @ ws\<rparr>))"
  by (simp add: Let_def)

lemma run_loop_spec:
  assumes "process_inv p" "script_ok script p" "\<not> pr_stopped p" "run_loop outcomes script p = (r, p')"
    and "length (pr_wire p) = length (sv_sent (pr_server p))"
    and "s = fold run_pass (passes_of script) (pr_server p)"
    and "send_messages outcomes (length (pr_wire p)) (drop (length (sv_sent (pr_server p))) (sv_sent s)) = (ws, stuck)"
  shows "r = run_end (list_ex fst script) stuck \<and> pr_wire p' = pr_wire p @ ws \<and> process_inv p' \<and>
    pr_port p' = pr_port p \<and> pr_listen_fd p' = pr_listen_fd p \<and>
    (stuck = None \<longrightarrow> pr_server p' = s \<and> pr_stopped p' = list_ex fst script)"
  using assms
proof (induction script arbitrary: p ws)
  case Nil
  then show ?case by (simp add: run_end_def)
next
  case (Cons x script)
  obtain stopping polled where x: "x = (stopping, polled)" by (cases x)
  show ?case
  proof (cases stopping)
    case True
    with Cons.prems x show ?thesis by (auto simp: run_end_def stop_def process_inv_def destroy_def)
  next
    case False
    define s1 where "s1 = run_pass polled (pr_server p)"
    define new where "new = drop (length (sv_sent (pr_server p))) (sv_sent s1)"
    have ok: "poll_ok p polled" "script_ok script (p\<lparr>pr_server := s1\<rparr>)"
      using Cons.prems(2,3) x False by (simp_all add: s1_def)
    have inv1: "process_inv (p\<lparr>pr_server := s1\<rparr>)" unfolding s1_def by (rule run_pass_inv [OF Cons.prems(1) ok(1)])
    have s: "s = fold run_pass (passes_of script) s1" using Cons.prems(6) x False by (simp add: s1_def)
    have sent1: "sv_sent s1 = sv_sent (pr_server p) @ new"
      using run_pass_sent [OF Cons.prems(1) ok(1)] by (auto simp: s1_def new_def prefix_def)
    obtain later where later: "sv_sent s = sv_sent s1 @ later"
      using passes_sent [OF inv1 ok(2)] Cons.prems(3) s by (auto simp: prefix_def)
    obtain vs stuck1 where v: "send_messages outcomes (length (pr_wire p)) new = (vs, stuck1)"
      by (cases "send_messages outcomes (length (pr_wire p)) new")
    have all: "send_messages outcomes (length (pr_wire p)) (new @ later) = (ws, stuck)"
      using Cons.prems(7) later sent1 by simp
    have run: "(r, p') = (case (vs, stuck1) of
        (ws, None) \<Rightarrow> run_loop outcomes script (p\<lparr>pr_server := s1, pr_wire := pr_wire p @ ws\<rparr>)
      | (ws, Some e) \<Rightarrow> (if e = Send_Killed then Run_Killed else Run_Blocked, p\<lparr>pr_wire := pr_wire p @ ws\<rparr>))"
      using Cons.prems(4) run_loop_step [OF Cons.prems(3)] x False v by (simp add: s1_def new_def Let_def)
    show ?thesis
    proof (cases stuck1)
      case (Some e)
      with all v run Cons.prems(1) show ?thesis by (auto simp: send_messages_append run_end_def)
    next
      case None
      define p1 where "p1 = p\<lparr>pr_server := s1, pr_wire := pr_wire p @ vs\<rparr>"
      have len: "length (pr_wire p1) = length (pr_wire p) + length new"
        using send_messages_length [OF v [unfolded None]] by (simp add: p1_def)
      obtain us where us: "send_messages outcomes (length (pr_wire p1)) later = (us, stuck)" "ws = vs @ us"
        using all v None len by (auto simp: send_messages_append split: prod.splits)
      have "r = run_end (list_ex fst script) stuck \<and> pr_wire p' = pr_wire p1 @ us \<and> process_inv p' \<and>
          pr_port p' = pr_port p1 \<and> pr_listen_fd p' = pr_listen_fd p1 \<and>
          (stuck = None \<longrightarrow> pr_server p' = s \<and> pr_stopped p' = list_ex fst script)"
      proof (rule Cons.IH)
        show "process_inv p1" using inv1 process_wire(1) [where p = "p\<lparr>pr_server := s1\<rparr>"] by (simp add: p1_def)
        show "script_ok script p1" using ok(2) script_wire [where p = "p\<lparr>pr_server := s1\<rparr>" and script = script] by (simp add: p1_def)
        show "run_loop outcomes script p1 = (r, p')" using run None by (simp add: p1_def)
        show "length (pr_wire p1) = length (sv_sent (pr_server p1))"
          using len Cons.prems(5) sent1 by (simp add: p1_def)
        show "send_messages outcomes (length (pr_wire p1)) (drop (length (sv_sent (pr_server p1))) (sv_sent s)) = (us, stuck)"
          using us(1) later by (simp add: p1_def)
      qed (use Cons.prems(3) s in \<open>simp_all add: p1_def\<close>)
      then show ?thesis using us(2) x False by (simp add: p1_def)
    qed
  qed
qed

section \<open>Properties\<close>

text \<open>C11: The process, from its arguments to its end, whatever the system calls give.  A failed
  \<^verbatim>\<open>socket\<close>, \<^verbatim>\<open>bind\<close> or \<^verbatim>\<open>listen\<close> ends it with the exception of that call.  Otherwise it serves: it
  sends the messages of its passes in order; it returns exactly when another thread has called
  stop and every \<^verbatim>\<open>send_all\<close> before the next test has ended (the message sent whole or given
  up), with nothing done after that test and the listening socket and every connection closed
  once; a \<^verbatim>\<open>send_all\<close> that a \<^verbatim>\<open>SIGPIPE\<close> kills, or that the kernel never takes bytes from, is the
  last thing it does.  In every state it reaches the book satisfies its invariant, the owner
  map has exactly the resting orders, no read buffer holds a whole message or starts with a tag
  the protocol does not have, and the sockets have different descriptors.\<close>

theorem server_process_runs:
  assumes "server_port args = Some port"
    "case lc_socket calls of None \<Rightarrow> True
     | Some fd \<Rightarrow> script_ok script ((process_init port)\<lparr>pr_listen_fd := Some fd\<rparr>)"
  shows "\<exists>r p closed. server_main args calls outcomes script = Some (r, p, closed) \<and> pr_port p = port \<and>
    (case lc_socket calls of
       None \<Rightarrow> r = Inl Socket_Failed \<and> closed = []
     | Some fd \<Rightarrow>
         if \<not> lc_bind calls then r = Inl Bind_Failed \<and> closed = []
         else if \<not> lc_listen calls then r = Inl Listen_Failed \<and> closed = []
         else
           (let s = fold run_pass (passes_of script) server_init;
                (ws, stuck) = send_messages outcomes 0 (sv_sent s);
                t = pr_server p in
            r = Inr (run_end (list_ex fst script) stuck) \<and> pr_wire p = ws \<and>
            (stuck = None \<longleftrightarrow> (\<forall>k<length (sv_sent s).
               snd (send_all (snd (sv_sent s ! k)) (outcomes k)) \<in> {Send_Complete, Send_Dropped})) \<and>
            (stuck = None \<longrightarrow> t = s \<and> pr_stopped p = list_ex fst script) \<and>
            book_inv (sv_book t) \<and> dom (sv_order_owner_fd t) = {k. book_contains (sv_book t) k} \<and>
            list_all (starved \<circ> cn_read_buf) (sv_connections t) \<and> distinct (fd # open_fds t) \<and>
            closed = (if r = Inr Run_Returned then fd # open_fds t else [])))"
proof (cases "\<exists>fd. calls = \<lparr>lc_socket = Some fd, lc_bind = True, lc_listen = True\<rparr>")
  case False
  with assms(1) show ?thesis
    by (cases calls) (auto simp: server_main_def run_def start_listening_def process_init_def Let_def split: option.splits)
next
  case True
  then obtain fd where calls: "calls = \<lparr>lc_socket = Some fd, lc_bind = True, lc_listen = True\<rparr>" by blast
  let ?p = "(process_init port)\<lparr>pr_listen_fd := Some fd\<rparr>"
  define s where "s = fold run_pass (passes_of script) server_init"
  obtain ws stuck where send: "send_messages outcomes 0 (sv_sent s) = (ws, stuck)"
    by (cases "send_messages outcomes 0 (sv_sent s)")
  obtain r p where l: "run_loop outcomes script ?p = (r, p)" by (cases "run_loop outcomes script ?p")
  have init: "pr_server ?p = server_init" "pr_wire ?p = []" "\<not> pr_stopped ?p" "sv_sent server_init = []"
    by (simp_all add: process_init_def server_init_def)
  have i0: "process_inv ?p"
    by (simp add: process_inv_def process_init_def destroy_def serving.listening) (simp add: server_init_def)
  have spec: "r = run_end (list_ex fst script) stuck \<and> pr_wire p = pr_wire ?p @ ws \<and> process_inv p \<and>
      pr_port p = pr_port ?p \<and> pr_listen_fd p = pr_listen_fd ?p \<and>
      (stuck = None \<longrightarrow> pr_server p = s \<and> pr_stopped p = list_ex fst script)"
    by (rule run_loop_spec [OF i0 _ _ l]) (use assms(2) calls init send s_def in simp_all)
  then have inv: "process_inv p" and fd: "pr_listen_fd p = Some fd" by simp_all
  note server = serving_inv [OF conjunct1 [OF inv [unfolded process_inv_def]]]
  have bad: "stuck = None \<longleftrightarrow> (\<forall>k<length (sv_sent s).
      snd (send_all (snd (sv_sent s ! k)) (outcomes k)) \<in> {Send_Complete, Send_Dropped})"
    using send_messages_None [of outcomes 0 "sv_sent s"] send by simp
  have main: "server_main args calls outcomes script = Some (Inr r, p, if r = Run_Returned then destroy p else [])"
    using assms(1) calls l by (cases r) (simp_all add: server_main_def run_def start_listening_def)
  have port: "pr_port p = port" using spec by (simp add: process_init_def)
  have st: "book_inv (sv_book (pr_server p)) \<and> dom (sv_order_owner_fd (pr_server p)) = {k. book_contains (sv_book (pr_server p)) k} \<and>
      list_all (starved \<circ> cn_read_buf) (sv_connections (pr_server p)) \<and> distinct (fd # open_fds (pr_server p))"
    using inv server fd by (simp add: process_inv_def destroy_eq server_inv_def desk_inv_def list_all_iff)
  show ?thesis
    using main port st bad spec fd init(2) send
    by (intro exI [of _ "Inr r"] exI [of _ p] exI conjI) (simp_all add: calls s_def [symmetric] destroy_eq)
qed

text \<open>Two connections, an order of the first, a pass with nothing, and a stop; the port is the
  argument's.  With sends that succeed the process returns; when the acknowledgement meets a
  connection that has gone, \<^verbatim>\<open>SIGPIPE\<close> kills it.\<close>

theorem server_process_runs_witness:
  "\<exists>p p'. server_main [''9000''] \<lparr>lc_socket = Some 3, lc_bind = True, lc_listen = True\<rparr> (\<lambda>_. [Send_Count 11])
      [(False, Poll_Events (Some [4, 5]) []), (False, Poll_Events None [(4, Recv_Bytes (1 # engine_encode_order (demo_msg 7 1)))]),
       (False, Poll_Nothing), (True, Poll_Nothing)] = Some (Inr Run_Returned, p, [3, 4, 5]) \<and>
    pr_port p = 9000 \<and> pr_server p = Server.demo_server \<and> pr_wire p = [(4, ack_msg 7 1 0)] \<and>
    server_main [''9000''] \<lparr>lc_socket = Some 3, lc_bind = True, lc_listen = True\<rparr> (\<lambda>_. [Send_Count 4, Send_Pipe])
      [(False, Poll_Events (Some [4, 5]) []), (False, Poll_Events None [(4, Recv_Bytes (1 # engine_encode_order (demo_msg 7 1)))]),
       (False, Poll_Nothing), (True, Poll_Nothing)] = Some (Inr Run_Killed, p', []) \<and>
    pr_wire p' = [(4, take 4 (ack_msg 7 1 0))]"
proof -
  let ?script = "[(False, Poll_Events (Some [4, 5]) []),
    (False, Poll_Events None [(4, Recv_Bytes (1 # engine_encode_order (demo_msg 7 1)))]), (False, Poll_Nothing), (True, Poll_Nothing)]"
  let ?calls = "\<lparr>lc_socket = Some 3, lc_bind = True, lc_listen = True\<rparr>"
  have d: "digits_value ''9000'' = 9000" by code_simp
  have port: "server_port [''9000''] = Some 9000"
    by (simp add: server_port_def atoi_def Let_def is_digit_def d del: digits_value.simps)
  have "engine_payload_size 1 = Some 22" "length (engine_encode_order (demo_msg 7 1)) = 22"
    by (simp_all add: engine_payload_size_def engine_lengths)
  then have ok: "script_ok ?script ((process_init 9000)\<lparr>pr_listen_fd := Some 3\<rparr>)"
    by (simp add: Let_def process_init_def destroy_def open_fds_def server_init_def poll_pass_def accept_new_connections_def)
  have passes: "fold run_pass (passes_of ?script) server_init = Server.demo_server"
    by (simp add: Server.demo_server_def)
  have sent: "sv_sent Server.demo_server = [(4, ack_msg 7 1 0)]" "open_fds Server.demo_server = [4, 5]"
    by (simp_all add: Server.demo_server_eq open_fds_def)
  have len: "length (ack_msg 7 1 0) = 11" by (simp add: ack_msg_def engine_lengths)
  have w: "send_messages (\<lambda>_. [Send_Count 11]) 0 [(4, ack_msg 7 1 0)] = ([(4, ack_msg 7 1 0)], None)"
    "send_messages (\<lambda>_. [Send_Count 4, Send_Pipe]) 0 [(4, ack_msg 7 1 0)] = ([(4, take 4 (ack_msg 7 1 0))], Some Send_Killed)"
    by (simp_all add: send_all_def send_loop.simps len)
  have "case lc_socket ?calls of None \<Rightarrow> True | Some fd \<Rightarrow> script_ok ?script ((process_init 9000)\<lparr>pr_listen_fd := Some fd\<rparr>)"
    using ok by (simp only: option.case Listen_Calls.simps)
  note run = server_process_runs [OF port this, unfolded passes]
  have "list_ex fst ?script" by simp
  with run [where outcomes = "\<lambda>_. [Send_Count 11]"] run [where outcomes = "\<lambda>_. [Send_Count 4, Send_Pipe]"] w sent
  show ?thesis by (auto simp: Let_def run_end_def)
qed

end
