(* ===== verification/Spec2Isabelle.thy ===== *)
theory Spec2Isabelle
  imports CommandLine BlackScholes Venue RiskVenue FixParser PricerParity ServerProcess
begin

text \<open>
  A verification library for \<^verbatim>\<open>velo\<close>, a small trading system: a C++ matching engine, a
  Rust risk engine and option pricer, and the Python strategies, sessions and reports.

  \<^bold>\<open>The program and the theories.\<close>  All paths are under \<^verbatim>\<open>src/strategy/orderbook_client/\<close>
  unless they start with another directory of \<^verbatim>\<open>src/\<close>.

  \<^item> \<open>Prelude\<close>: exceptions as values (\<open>Inl e\<close>), sequencing, comprehensions that may raise.
  \<^item> \<open>Float64\<close>: Python floats, exact binary64 with every special value; \<open>rnd\<close> rounds a
    rational to nearest even.  \<open>Statistics\<close>: the exact-fraction \<^verbatim>\<open>statistics\<close> module.
  \<^item> \<open>Struct\<close>: the \<^verbatim>\<open>struct\<close> module on network-order fields, and the locale
    \<open>tagged_codec\<close> of a codec with a message tag; \<open>Protocol\<close> (\<^verbatim>\<open>protocol.py\<close>) interprets it.
  \<^item> \<open>Client\<close> (\<^verbatim>\<open>client.py\<close>): the socket's read side is a list of arrivals (the pieces TCP
    delivers, or an error), its write side a list of outcomes (a failed \<^verbatim>\<open>sendall\<close> leaves the
    bytes it had sent on the wire); the reader thread is a function
    of the arrivals, the queue a FIFO list, and \<open>poll_step\<close> the interleaving of
    \<^verbatim>\<open>poll_events\<close> with the reader's puts.
  \<^item> \<open>Strategy\<close> (\<^verbatim>\<open>strategy.py\<close>): the actions and \<open>FixedOffsetQuoter\<close>; the locale
    \<open>order_source\<close> is the contract between a strategy and a session.
  \<^item> \<open>Ticks\<close>, \<open>Feeds\<close> (\<^verbatim>\<open>ticks.py\<close>, \<^verbatim>\<open>feed.py\<close>, \<^verbatim>\<open>historical_feed.py\<close>, \<^verbatim>\<open>live_feed.py\<close>):
    prices to ticks and the three feeds; the locale \<open>finite_feed\<close> is a feed that ends.
  \<^item> \<open>LiveClient\<close> (\<^verbatim>\<open>live_ib_client.py\<close>): the two threads of the market-data client as a step
    relation.
  \<^item> \<open>TradeLog\<close> (\<^verbatim>\<open>trade_log.py\<close>): rows as association lists, the CSV with its quoting.
  \<^item> \<open>SessionRunner\<close> (\<^verbatim>\<open>session_runner.py\<close>): the loop that joins a feed, a strategy, a client
    and a log, with the exceptions of each, the final drain and the \<^verbatim>\<open>finally\<close>.
  \<^item> \<open>Pricing\<close> (\<^verbatim>\<open>pricing_client.py\<close> and the server's codec, \<^verbatim>\<open>risk/src/pricing_protocol.rs\<close>),
    \<open>Hedging\<close> (\<^verbatim>\<open>options.py\<close>, \<^verbatim>\<open>delta_hedger.py\<close>): the hedger is the second interpretation of
    \<open>order_source\<close>.
  \<^item> \<open>Reports\<close> (\<^verbatim>\<open>backtest_report.py\<close>, \<^verbatim>\<open>hedge_report.py\<close>).
  \<^item> \<open>Drivers\<close> and \<open>HedgeBacktest\<close> (\<^verbatim>\<open>strategy/run_*.py\<close>): the entry points that compose
    the components; \<open>CommandLine\<close>: their option tables, and \<^verbatim>\<open>argparse\<close> as they use it.
  \<^item> \<open>BlackScholes\<close> (\<^verbatim>\<open>risk/bench/naive_black_scholes.py\<close>): the Python pricing baseline.
  \<^item> \<open>OrderBook\<close> (\<^verbatim>\<open>engine/src/order_book.cpp\<close>): the C++ matching engine, its levels and
    index a refinement of one price-time queue a side.  \<open>EngineProtocol\<close>
    (\<^verbatim>\<open>engine/src/protocol.cpp\<close>): the engine's side of the wire.  \<open>Server\<close>
    (\<^verbatim>\<open>engine/src/server.cpp\<close>): connections and their buffers, dispatch, acknowledgements,
    fills to owner, sender and subscribers, and the passes of the poll loop.  \<open>ServerProcess\<close>: the
    process around them, from its arguments to its destructor, with \<^verbatim>\<open>stop\<close> from another thread
    and every \<^verbatim>\<open>send_all\<close> as it ends: complete, given up, killing the process or never getting through.
  \<^item> \<open>Venue\<close>: the quoter of \<open>Strategy\<close> and the server of \<open>Server\<close> in a closed loop over their
    bytes, refining an automaton of two quotes.
  \<^item> \<open>RustBase\<close>: panics as values, \<^verbatim>\<open>i64\<close> arithmetic in both build profiles, casts to and from
    \<^verbatim>\<open>f64\<close>.  \<open>RiskEngine\<close> (\<^verbatim>\<open>risk/src/\<close>: \<^verbatim>\<open>protocol.rs\<close>, \<^verbatim>\<open>position.rs\<close>, \<^verbatim>\<open>limits.rs\<close>,
    \<^verbatim>\<open>risk_log.rs\<close>, \<^verbatim>\<open>main.rs\<close>): the position tracker, the limit and the loop that flattens a
    breach; \<open>RiskVenue\<close>: its flattening order in the C++ book.
  \<^item> \<open>RustPricing\<close> (\<^verbatim>\<open>risk/src/pricing.rs\<close>, \<^verbatim>\<open>risk/src/bin/pricing_server.rs\<close>, the client's half of
    \<^verbatim>\<open>pricing_protocol.rs\<close>): the scalar and the four-lane batch pricer and the connection handler,
    composed over its bytes with the Python pricing client of \<open>Pricing\<close> and the hedger of
    \<open>Hedging\<close>.  \<open>PricerParity\<close>: rounding errors, and put-call parity of the computed prices.
  \<^item> \<open>FixParser\<close> (\<^verbatim>\<open>risk/src/fix.rs\<close>): both FIX parsers and the message builder, over the UTF-8
    bytes of a string.

  \<^bold>\<open>What the lemmas show.\<close>  The codecs round-trip exactly on the values the wire can carry
  and raise otherwise.  The reader's events depend on the bytes of the stream and not on how
  they were cut.  \<open>audit\<close> relates two states of a session: what was sent, what the log says
  was sent, what was received and what was logged agree; every step of the loop keeps it,
  exceptions included, so it holds of every session, backtest and live run, and the reports
  are proved over logs that satisfy it.  On top of that are the refinement of the loop by
  its strategy, the accounting of ids and orders by each strategy, the average-cost
  accounting of the report, and the profit attribution of the hedge backtest.  The book
  refines one queue a side; the server's answers do not depend on how its input was cut; the
  quoter alone in the market is followed through Python, the wire and C++; the risk engine's
  log, orders and position agree with the fills, and its order closes the position in the book;
  the hedge target that Python computes is that of the Rust pricer's deltas, and the batch
  pricer computes each option as the scalar formulas do.  Each driver accepts exactly the
  settings of its option table; the server process keeps its invariant until it is stopped.

  \<^bold>\<open>Parameters.\<close>  Code that is not in the repository is an argument of the definitions that
  use it: the random generator (the index of its k-th draw), the clock, the download of
  historical closes, the text of a float and its parse, \<^verbatim>\<open>n ** 0.5\<close>, \<^verbatim>\<open>erf\<close>, \<^verbatim>\<open>log\<close> and
  \<^verbatim>\<open>exp\<close> of the C library, \<^verbatim>\<open>exp\<close> and \<^verbatim>\<open>ln\<close> of Rust, and the vector operations of the \<^verbatim>\<open>wide\<close>
  crate (\<open>wide_ok\<close>: each works lane by lane), what \<^verbatim>\<open>qualifyContracts\<close> of \<^verbatim>\<open>ib_async\<close> may
  return for a contract, and the results of the C++ server's system calls.  The live feed's clock and ticks
  are a function of the number of the call, so only the feed's own deadline ends it.  What is on
  the far end of a socket reaches the model through the script of arrivals and of send outcomes;
  theorems quantify over every script unless they assume a connection that stays up or writes that
  succeed.

  \<^bold>\<open>What is sent.\<close>  \<open>cl_wire\<close> and \<open>pc_sent\<close> hold the bytes on the wire of the Python clients, those of
  failed sends included.  The server's \<open>sv_sent\<close> is the log of the \<^verbatim>\<open>send_all\<close> calls its requests issue, in
  order: nothing in the server's state depends on how such a call ends, unless the process does not survive
  it.  \<open>ServerProcess\<close> runs \<open>send_all\<close> on each issued call and keeps in \<open>pr_wire\<close> what the kernel took.  The
  theorems that join the server to a client (\<open>Venue\<close>, \<open>RiskVenue\<close>, the reader of \<open>Client\<close>) take
  issued messages as bytes of a stream, so they are about calls that complete.

  \<^bold>\<open>Fuel.\<close>  The session's \<^verbatim>\<open>while\<close> loop has fuel: one unit per price and one more is enough,
  which \<open>session_terminates\<close> proves for the historical feed, for the live feed by the first call at or after
  its deadline, and for every tick limit.  All
  other loops are structurally recursive or recursive over their arrivals.  \<^verbatim>\<open>sum\<close> of floats
  is the compensated sum of Python 3.12.

  \<^bold>\<open>Not modelled.\<close>  The text layout of what the \<^verbatim>\<open>main\<close>s print (their figures are
  modelled); the third-party packages \<^verbatim>\<open>yfinance\<close> and \<^verbatim>\<open>ib_async\<close>; of the Rust risk engine
  the opening of its log and connection and its console output; of the pricing server its
  listening socket and its threads; tests and benchmarks.
\<close>

end
